(* ===== verification/Firmware_Prelude.thy ===== *)
theory Firmware_Prelude
  imports Main "HOL-Library.Word"
begin

text \<open>
  Shared vocabulary of the development: the C integer types as words, bytes and little-endian
  32-bit words, bit lists in the order a least-significant-bit-first stream delivers them, and
  updates of a byte memory at an address.  The collection \<open>c_simps\<close> gathers the rewrite
  rules the component proofs share.
\<close>

unbundle bit_operations_syntax

named_theorems c_simps \<open>rewrite rules shared by the component proofs\<close>

type_synonym u8 = "8 word"
type_synonym u16 = "16 word"
type_synonym u32 = "32 word"

section \<open>Little-endian words\<close>

definition le32_bytes :: "u32 \<Rightarrow> u8 list" where
  "le32_bytes w = [ucast w, ucast (drop_bit 8 w), ucast (drop_bit 16 w), ucast (drop_bit 24 w)]"

definition le32 :: "u8 \<Rightarrow> u8 \<Rightarrow> u8 \<Rightarrow> u8 \<Rightarrow> u32" where
  "le32 a b c d = ucast a OR push_bit 8 (ucast b) OR push_bit 16 (ucast c) OR push_bit 24 (ucast d)"

lemma length_le32_bytes [simp, c_simps]: "length (le32_bytes w) = 4"
  by (simp add: le32_bytes_def)

lemma bit_le32:
  "bit (le32 a b c d) n \<longleftrightarrow>
     n < 32 \<and> (if n < 8 then bit a n else if n < 16 then bit b (n - 8)
                else if n < 24 then bit c (n - 16) else bit d (n - 24))"
  by (auto simp: le32_def bit_simps dest: bit_imp_le_length)

lemma le32_bytes_le32 [c_simps]: "le32_bytes (le32 a b c d) = [a, b, c, d]"
  by (auto simp: le32_bytes_def intro!: bit_word_eqI)
     (auto simp: bit_simps bit_le32)

lemma le32_le32_bytes [c_simps]:
  "le32 (ucast w) (ucast (drop_bit 8 w)) (ucast (drop_bit 16 w)) (ucast (drop_bit 24 w)) = w"
proof (rule bit_word_eqI)
  fix n :: nat
  assume n: "n < LENGTH(32)"
  consider "n < 8" | "8 \<le> n" "n < 16" | "16 \<le> n" "n < 24" | "24 \<le> n" by linarith
  then show "bit (le32 (ucast w) (ucast (drop_bit 8 w)) (ucast (drop_bit 16 w))
      (ucast (drop_bit 24 w))) n = bit w n"
    using n by cases (auto simp: bit_le32 bit_ucast_iff bit_drop_bit_eq)
qed

definition le32_of :: "u8 list \<Rightarrow> u32" where
  "le32_of bs = le32 (bs ! 0) (bs ! 1) (bs ! 2) (bs ! 3)"

lemma le32_of_bytes [simp, c_simps]: "le32_of (le32_bytes w) = w"
  by (simp add: le32_of_def le32_bytes_def le32_le32_bytes)

lemma le32_bytes_inject [simp]: "le32_bytes v = le32_bytes w \<longleftrightarrow> v = w"
  by (metis le32_of_bytes)

section \<open>Bits of a byte, least significant first\<close>

definition lsb_bits :: "nat \<Rightarrow> 'a::len word \<Rightarrow> bool list" where
  "lsb_bits n w = map (bit w) [0..<n]"

lemma length_lsb_bits [simp]: "length (lsb_bits n w) = n"
  by (simp add: lsb_bits_def)

lemma nth_lsb_bits [simp]: "i < n \<Longrightarrow> lsb_bits n w ! i = bit w i"
  by (simp add: lsb_bits_def)

lemma lsb_bits_0 [simp]: "lsb_bits 0 w = []"
  by (simp add: lsb_bits_def)

lemma lsb_bits_Suc: "lsb_bits (Suc n) w = bit w 0 # lsb_bits n (drop_bit 1 w)"
  by (rule nth_equalityI) (auto simp: nth_Cons bit_simps split: nat.splits)

section \<open>A byte memory at an address\<close>

definition mem_read :: "u8 list \<Rightarrow> nat \<Rightarrow> nat \<Rightarrow> u8 list" where
  "mem_read m a n = take n (drop a m)"

definition mem_write :: "u8 list \<Rightarrow> nat \<Rightarrow> u8 list \<Rightarrow> u8 list" where
  "mem_write m a bs = take a m @ bs @ drop (a + length bs) m"

lemma length_mem_read [simp]: "a + n \<le> length m \<Longrightarrow> length (mem_read m a n) = n"
  by (simp add: mem_read_def)

lemma length_mem_write [simp]: "a + length bs \<le> length m \<Longrightarrow> length (mem_write m a bs) = length m"
  by (simp add: mem_write_def)

lemma mem_read_write_same [simp]:
  "a \<le> length m \<Longrightarrow> mem_read (mem_write m a bs) a (length bs) = bs"
  by (simp add: mem_read_def mem_write_def)

lemma nth_mem_write:
  assumes "a + length bs \<le> length m"
  shows "mem_write m a bs ! i = (if a \<le> i \<and> i < a + length bs then bs ! (i - a) else m ! i)"
  using assms by (auto simp: mem_write_def nth_append)

lemma nth_mem_read: "i < n \<Longrightarrow> a + n \<le> length m \<Longrightarrow> mem_read m a n ! i = m ! (a + i)"
  by (simp add: mem_read_def)

lemma mem_read_write_disjoint:
  assumes "a + length bs \<le> length m" and "b + n \<le> length m"
    and "b + n \<le> a \<or> a + length bs \<le> b"
  shows "mem_read (mem_write m a bs) b n = mem_read m b n"
  using assms by (intro nth_equalityI) (auto simp: nth_mem_read nth_mem_write)

lemma mem_write_read_id: "a + n \<le> length m \<Longrightarrow> mem_write m a (mem_read m a n) = m"
  by (simp add: mem_read_def mem_write_def) (metis append_take_drop_id drop_drop add.commute)

lemma mem_write_Nil: "a \<le> length m \<Longrightarrow> mem_write m a [] = m"
  by (simp add: mem_write_def)

lemma mem_read_all [simp]: "mem_read m 0 (length m) = m"
  by (simp add: mem_read_def)

text \<open>\<open>mem_holds m a bs\<close>: the bytes \<open>bs\<close> stand at address \<open>a\<close>.\<close>

definition mem_holds :: "u8 list \<Rightarrow> nat \<Rightarrow> u8 list \<Rightarrow> bool" where
  "mem_holds m a bs \<longleftrightarrow> a + length bs \<le> length m \<and> mem_read m a (length bs) = bs"

lemma mem_holds_append:
  "mem_holds m a (xs @ ys) \<longleftrightarrow> mem_holds m a xs \<and> mem_holds m (a + length xs) ys"
proof -
  have "take (length xs + length ys) (drop a m) = xs @ ys \<longleftrightarrow>
      take (length xs) (drop a m) = xs \<and> take (length ys) (drop (a + length xs) m) = ys"
    if "a + length xs + length ys \<le> length m"
    using that by (simp add: take_add append_eq_append_conv add.commute)
  then show ?thesis by (auto simp: mem_holds_def mem_read_def add.assoc)
qed

lemma mem_holds_read: "mem_holds m a bs \<Longrightarrow> n = length bs \<Longrightarrow> mem_read m a n = bs"
  by (simp add: mem_holds_def)

lemma mem_holds_bound: "mem_holds m a bs \<Longrightarrow> a + length bs \<le> length m"
  by (simp add: mem_holds_def)

lemma mem_holds_self: "a + n \<le> length m \<Longrightarrow> mem_holds m a (mem_read m a n)"
  by (simp add: mem_holds_def)

lemma mem_holds_write: "a + length bs \<le> length m \<Longrightarrow> mem_holds (mem_write m a bs) a bs"
  by (simp add: mem_holds_def)

lemma mem_holds_write_other:
  assumes "a + length bs \<le> length m" "b + length cs \<le> a \<or> a + length bs \<le> b" "mem_holds m b cs"
  shows "mem_holds (mem_write m a bs) b cs"
  using assms by (simp add: mem_holds_def mem_read_write_disjoint)

section \<open>XOR facts on words\<close>

lemma xor_cancel_right [simp]: "(a XOR c = b XOR c) = (a = b)" for a b c :: "'a::len word"
  by (metis bit.xor_self xor.assoc xor.right_neutral)

lemma xor_cancel_left [simp]: "(c XOR a = c XOR b) = (a = b)" for a b c :: "'a::len word"
  by (simp add: xor.commute [of c])

section \<open>Bounds of bytes\<close>

lemma unat_u8_less [simp]: "unat (x :: u8) < 256"
  using unsigned_less [of x] by simp

lemma unat_u8_le [simp]: "unat (x :: u8) \<le> 255"
  using unat_u8_less [of x] by linarith

lemma unat_u32_less [simp]: "unat (x :: u32) < 4294967296"
  using unsigned_less [of x] by simp

lemma unat_ucast_u8_u32 [simp]: "unat (ucast (x :: u8) :: u32) = unat x"
  by (simp add: unsigned_ucast_eq take_bit_nat_eq_self_iff order_less_le_trans [OF unat_u8_less])

lemma unat_add_u32: "unat x + unat y < 4294967296 \<Longrightarrow> unat (x + y) = unat x + unat y" for x y :: u32
  by (simp add: unat_word_ariths)

lemma sint_small:
  fixes w :: u32
  assumes "unat w < 2147483648"
  shows "sint w = int (unat w)"
proof -
  have "int (unat w) < int 2147483648" using assms by (simp only: of_nat_less_iff)
  then have "uint w < 2 ^ 31" by simp
  moreover have "- (2 ^ 31) \<le> uint w" by (rule order_trans [of _ 0]) simp_all
  ultimately show ?thesis by (simp add: sint_uint signed_take_bit_int_eq_self)
qed

end
