(* ===== verification/Spi_Flash.thy ===== *)
theory Spi_Flash
  imports Firmware_Prelude
begin

text \<open>
  The SPI flash: the ROM functions the boot loader calls are a record of functions on an abstract
  flash state, and the locale \<open>nor_flash\<close> states what the chip's documentation promises of them.
  \<open>list_spi\<close> is a NOR flash held in a list, on which the laws are discharged.  The section
  \<open>SPIEraseAreaEx\<close> models \<open>flash.c\<close> of eboot.
\<close>

section \<open>The ROM functions\<close>

record 'f spi =
  SPIRead :: "u32 \<Rightarrow> u32 \<Rightarrow> 'f \<Rightarrow> int \<times> u8 list \<times> 'f"
  SPIEraseSector :: "u32 \<Rightarrow> 'f \<Rightarrow> int \<times> 'f"
  SPIEraseBlock :: "u32 \<Rightarrow> 'f \<Rightarrow> int \<times> 'f"
  SPIWrite :: "u32 \<Rightarrow> u8 list \<Rightarrow> 'f \<Rightarrow> int \<times> 'f"

definition FLASH_SECTOR_SIZE :: u32 where "FLASH_SECTOR_SIZE = 0x1000"
definition FLASH_BLOCK_SIZE :: u32 where "FLASH_BLOCK_SIZE = 0x10000"
definition APP_START_OFFSET :: u32 where "APP_START_OFFSET = 0x1000"

lemmas flash_geometry = FLASH_SECTOR_SIZE_def FLASH_BLOCK_SIZE_def APP_START_OFFSET_def

text \<open>
  Word-aligned reads return the contents, erasing a sector or a block sets it to ones, and
  programming can only clear bits; each of them leaves the rest of the flash alone.
\<close>

definition erased :: "u8 list \<Rightarrow> nat \<Rightarrow> nat \<Rightarrow> u8 list" where
  "erased img s n = mem_write img (s * 4096) (replicate (n * 4096) 0xff)"

locale nor_flash =
  fixes spi :: "'f spi" and contents :: "'f \<Rightarrow> u8 list"
  assumes spi_read: "4 dvd unat a \<Longrightarrow> 4 dvd unat n \<Longrightarrow> unat a + unat n \<le> length (contents f) \<Longrightarrow>
      \<exists>f'. SPIRead spi a n f = (0, mem_read (contents f) (unat a) (unat n), f') \<and> contents f' = contents f"
    and spi_erase_sector: "(unat s + 1) * 4096 \<le> length (contents f) \<Longrightarrow>
      \<exists>f'. SPIEraseSector spi s f = (0, f') \<and> contents f' = erased (contents f) (unat s) 1"
    and spi_erase_block: "(unat b + 1) * 65536 \<le> length (contents f) \<Longrightarrow>
      \<exists>f'. SPIEraseBlock spi b f = (0, f') \<and> contents f' = erased (contents f) (16 * unat b) 16"
    and spi_write: "4 dvd unat a \<Longrightarrow> 4 dvd length bs \<Longrightarrow> unat a + length bs \<le> length (contents f) \<Longrightarrow>
      \<exists>f'. SPIWrite spi a bs f = (0, f') \<and>
        contents f' = mem_write (contents f) (unat a) (map2 (AND) (mem_read (contents f) (unat a) (length bs)) bs)"
begin

text \<open>Programming an erased area stores the data.\<close>

lemma write_erased:
  assumes "4 dvd unat a" "4 dvd length bs" "unat a + length bs \<le> length (contents f)"
    and "mem_read (contents f) (unat a) (length bs) = replicate (length bs) 0xff"
  obtains f' where "SPIWrite spi a bs f = (0, f')" "contents f' = mem_write (contents f) (unat a) bs"
proof -
  have "map2 (AND) (replicate (length bs) (0xff :: u8)) bs = bs"
  proof (rule nth_equalityI)
    have ones: "(0xff :: u8) = - 1" by simp
    fix i assume "i < length (map2 (AND) (replicate (length bs) (0xff :: u8)) bs)"
    then show "map2 (AND) (replicate (length bs) (0xff :: u8)) bs ! i = bs ! i"
      unfolding ones by simp
  qed simp
  with spi_write [OF assms(1-3)] assms(4) that show thesis by auto
qed

end

section \<open>A flash in a list\<close>

definition list_spi :: "u8 list spi" where
  "list_spi = \<lparr>
     SPIRead = (\<lambda>a n f. if unat a + unat n \<le> length f then (0, mem_read f (unat a) (unat n), f) else (1, [], f)),
     SPIEraseSector = (\<lambda>s f. if (unat s + 1) * 4096 \<le> length f then (0, erased f (unat s) 1) else (1, f)),
     SPIEraseBlock = (\<lambda>b f. if (unat b + 1) * 65536 \<le> length f then (0, erased f (16 * unat b) 16) else (1, f)),
     SPIWrite = (\<lambda>a bs f. if unat a + length bs \<le> length f
        then (0, mem_write f (unat a) (map2 (AND) (mem_read f (unat a) (length bs)) bs)) else (1, f))\<rparr>"

interpretation list_flash: nor_flash list_spi "\<lambda>f. f"
  by unfold_locales (simp_all add: list_spi_def)

section \<open>Erasing an area\<close>

lemma length_erased [simp]: "(s + n) * 4096 \<le> length img \<Longrightarrow> length (erased img s n) = length img"
  by (simp add: erased_def algebra_simps)

lemma erased_0 [simp]: "s * 4096 \<le> length img \<Longrightarrow> erased img s 0 = img"
  by (simp add: erased_def mem_write_def)

lemma mem_write_append:
  "a + length xs + length ys \<le> length m \<Longrightarrow>
   mem_write (mem_write m a xs) (a + length xs) ys = mem_write m a (xs @ ys)"
  by (rule nth_equalityI) (auto simp: nth_mem_write nth_append)

lemma erased_add:
  assumes "(s + m + n) * 4096 \<le> length img"
  shows "erased (erased img s m) (s + m) n = erased img s (m + n)"
proof -
  have "s * 4096 + length (replicate (m * 4096) (0xff::u8)) + length (replicate (n * 4096) (0xff::u8)) \<le> length img"
    using assms by (simp add: algebra_simps)
  from mem_write_append [OF this] show ?thesis
    by (simp add: erased_def replicate_add [symmetric] algebra_simps)
qed

text \<open>
  The three loops of \<open>SPIEraseAreaEx\<close>; sector numbers stay below \<open>2 ^ 21\<close>, so they are natural
  numbers.  The first component is the error code of an early return; the counter \<open>sector_count\<close>,
  which the code decrements and never reads again, is left out.
\<close>

abbreviation sectors_per_block :: nat where
  "sectors_per_block \<equiv> unat FLASH_BLOCK_SIZE div unat FLASH_SECTOR_SIZE"

function erase_head :: "'f spi \<Rightarrow> nat \<Rightarrow> nat \<Rightarrow> 'f \<Rightarrow> int option \<times> nat \<times> 'f" where
  "erase_head spi current_sector end_sector f =
     (if current_sector < end_sector \<and> current_sector AND (sectors_per_block - 1) \<noteq> 0 then
        let (r, f) = SPIEraseSector spi (word_of_nat current_sector) f
        in if r \<noteq> 0 then (Some 2, current_sector, f)
           else erase_head spi (current_sector + 1) end_sector f
      else (None, current_sector, f))"
  by pat_completeness auto
termination by (relation "measure (\<lambda>(spi, c, e, f). e - c)") auto

function erase_blocks :: "'f spi \<Rightarrow> nat \<Rightarrow> nat \<Rightarrow> 'f \<Rightarrow> int option \<times> nat \<times> 'f" where
  "erase_blocks spi current_sector end_sector f =
     (if current_sector + sectors_per_block \<le> end_sector then
        let (r, f) = SPIEraseBlock spi (word_of_nat (current_sector div sectors_per_block)) f
        in if r \<noteq> 0 then (Some 3, current_sector, f)
           else erase_blocks spi (current_sector + sectors_per_block) end_sector f
      else (None, current_sector, f))"
  by pat_completeness auto
termination by (relation "measure (\<lambda>(spi, c, e, f). e - c)") (auto simp: flash_geometry)

function erase_tail :: "'f spi \<Rightarrow> nat \<Rightarrow> nat \<Rightarrow> 'f \<Rightarrow> int option \<times> nat \<times> 'f" where
  "erase_tail spi current_sector end_sector f =
     (if current_sector < end_sector then
        let (r, f) = SPIEraseSector spi (word_of_nat current_sector) f
        in if r \<noteq> 0 then (Some 4, current_sector, f)
           else erase_tail spi (current_sector + 1) end_sector f
      else (None, current_sector, f))"
  by pat_completeness auto
termination by (relation "measure (\<lambda>(spi, c, e, f). e - c)") auto

declare erase_head.simps [simp del] erase_blocks.simps [simp del] erase_tail.simps [simp del]

text \<open>In \<open>start & (FLASH_SECTOR_SIZE - 1) != 0\<close> the comparison binds tighter than \<open>&\<close>.\<close>

definition SPIEraseAreaEx :: "'f spi \<Rightarrow> u32 \<Rightarrow> u32 \<Rightarrow> 'f \<Rightarrow> int \<times> 'f" where
  "SPIEraseAreaEx spi start sz f =
     (if start AND of_bool (FLASH_SECTOR_SIZE - 1 \<noteq> 0) \<noteq> 0 then (1, f)
      else
        let current_sector = unat (start div FLASH_SECTOR_SIZE);
            sector_count = unat ((sz + FLASH_SECTOR_SIZE - 1) div FLASH_SECTOR_SIZE);
            end_sector = current_sector + sector_count
        in case erase_head spi current_sector end_sector f of
             (Some e, current_sector, f) \<Rightarrow> (e, f)
           | (None, current_sector, f) \<Rightarrow>
               (case erase_blocks spi current_sector end_sector f of
                  (Some e, current_sector, f) \<Rightarrow> (e, f)
                | (None, current_sector, f) \<Rightarrow>
                    (case erase_tail spi current_sector end_sector f of
                       (Some e, current_sector, f) \<Rightarrow> (e, f)
                     | (None, current_sector, f) \<Rightarrow> (0, f))))"

lemma spb [simp]: "sectors_per_block = 16"
  by (simp add: flash_geometry)

lemma and_15: "n AND 15 = n mod 16" for n :: nat
  using take_bit_eq_mask [of 4 n] by (simp add: take_bit_eq_mod mask_eq_exp_minus_1)

text \<open>\<open>erases r f c e\<close>: the loop moved from sector \<open>c\<close> to \<open>c'\<close> and erased exactly what it passed.\<close>

context nor_flash
begin

definition erases :: "int option \<times> nat \<times> 'f \<Rightarrow> 'f \<Rightarrow> nat \<Rightarrow> nat \<Rightarrow> bool" where
  "erases r f c c' \<longleftrightarrow> (\<exists>f'. r = (None, c', f') \<and> contents f' = erased (contents f) c (c' - c))"

lemma erases_step:
  assumes "contents g = erased (contents f) c n" "erases r g (c + n) c'" "c + n \<le> c'" "c' * 4096 \<le> length (contents f)"
  shows "erases r f c c'"
proof -
  from assms(2) obtain f' where f': "r = (None, c', f')" "contents f' = erased (contents g) (c + n) (c' - (c + n))"
    by (auto simp: erases_def)
  have "contents f' = erased (contents f) c (n + (c' - (c + n)))"
    unfolding f'(2) assms(1) using assms(3,4) by (intro erased_add) (simp add: algebra_simps)
  with f'(1) assms(3) show ?thesis by (auto simp: erases_def)
qed

lemma erases_refl: "c * 4096 \<le> length (contents f) \<Longrightarrow> erases (None, c, f) f c c"
  by (simp add: erases_def)

lemma sector_word: "c * 4096 \<le> n \<Longrightarrow> n \<le> 2 ^ 32 \<Longrightarrow> unat (word_of_nat c :: u32) = c" for n :: nat
  by (simp add: unat_of_nat)

lemma one_sector:
  assumes "(c + 1) * 4096 \<le> length (contents f)" "length (contents f) \<le> 2 ^ 32"
  obtains g where "SPIEraseSector spi (word_of_nat c) f = (0, g)" "contents g = erased (contents f) c 1"
proof -
  have "unat (word_of_nat c :: u32) = c" using assms by (intro sector_word) auto
  with spi_erase_sector [of "word_of_nat c" f] assms(1) that show thesis by auto
qed

lemma erase_head_erases:
  "c \<le> e \<Longrightarrow> e * 4096 \<le> length (contents f) \<Longrightarrow> length (contents f) \<le> 2 ^ 32 \<Longrightarrow>
   \<exists>c'. erases (erase_head spi c e f) f c c' \<and> c \<le> c' \<and> c' \<le> e \<and> (c' = e \<or> c' mod 16 = 0)"
proof (induction "e - c" arbitrary: c f)
  case 0
  then show ?case by (subst erase_head.simps) (auto intro: erases_refl)
next
  case (Suc n)
  show ?case
  proof (cases "c mod 16 = 0")
    case True
    have "c * 4096 \<le> length (contents f)" using Suc.prems(1,2) by (meson le_trans mult_le_mono1)
    with True Suc.prems show ?thesis
      by (subst erase_head.simps) (auto simp: and_15 intro!: exI [of _ c] erases_refl)
  next
    case False
    have c: "(c + 1) * 4096 \<le> length (contents f)" using Suc by (simp add: algebra_simps)
    have "c < e" using Suc.hyps(2) by simp
    from c Suc.prems(3) obtain g where g: "SPIEraseSector spi (word_of_nat c) f = (0, g)"
      "contents g = erased (contents f) c 1" by (rule one_sector)
    have l: "length (contents g) = length (contents f)" using g(2) c by simp
    have "\<exists>c'. erases (erase_head spi (c + 1) e g) g (c + 1) c' \<and> c + 1 \<le> c' \<and> c' \<le> e \<and> (c' = e \<or> c' mod 16 = 0)"
      by (rule Suc.hyps(1)) (use Suc.hyps(2) Suc.prems l in simp_all)
    then obtain c' where c': "erases (erase_head spi (c + 1) e g) g (c + 1) c'" "c + 1 \<le> c'" "c' \<le> e"
      "c' = e \<or> c' mod 16 = 0" by (elim exE conjE)
    have "c' * 4096 \<le> length (contents f)" using c'(3) Suc.prems(2) by (meson le_trans mult_le_mono1)
    from erases_step [OF g(2) c'(1,2) this] have "erases (erase_head spi (c + 1) e g) f c c'" .
    moreover have "erase_head spi c e f = erase_head spi (c + 1) e g"
      using False g(1) \<open>c < e\<close> by (subst erase_head.simps) (simp add: and_15)
    moreover have "c \<le> c'" using c'(2) by simp
    ultimately show ?thesis using c'(3,4) by auto
  qed
qed

lemma erase_blocks_erases:
  "c \<le> e \<Longrightarrow> e * 4096 \<le> length (contents f) \<Longrightarrow> length (contents f) \<le> 2 ^ 32 \<Longrightarrow> c = e \<or> c mod 16 = 0 \<Longrightarrow>
   \<exists>c'. erases (erase_blocks spi c e f) f c c' \<and> c \<le> c' \<and> c' \<le> e"
proof (induction "e - c" arbitrary: c f rule: less_induct)
  case less
  show ?case
  proof (cases "c + 16 \<le> e")
    case False
    with less.prems have "erase_blocks spi c e f = (None, c, f)" by (subst erase_blocks.simps) simp
    moreover have "c * 4096 \<le> length (contents f)" using less.prems(1,2) by (meson le_trans mult_le_mono1)
    ultimately show ?thesis using less.prems(1) by (auto intro: erases_refl)
  next
    case True
    with less.prems have m: "c mod 16 = 0" by auto
    then have c: "16 * (c div 16) = c" by auto
    have le: "(c + 16) * 4096 \<le> length (contents f)" using True less.prems(2) by (meson le_trans mult_le_mono1)
    have u: "unat (word_of_nat (c div 16) :: u32) = c div 16"
      using le less.prems(3) c by (intro sector_word [where n = "length (contents f)"]) auto
    have "(c div 16 + 1) * 65536 \<le> length (contents f)" using le c by simp
    with spi_erase_block [of "word_of_nat (c div 16)" f] u c obtain g where
      g: "SPIEraseBlock spi (word_of_nat (c div 16)) f = (0, g)" "contents g = erased (contents f) c 16" by auto
    have l: "length (contents g) = length (contents f)" using g(2) le by simp
    have "\<exists>c'. erases (erase_blocks spi (c + 16) e g) g (c + 16) c' \<and> c + 16 \<le> c' \<and> c' \<le> e"
      using True less.prems l m by (intro less.hyps) auto
    then obtain c' where c': "erases (erase_blocks spi (c + 16) e g) g (c + 16) c'" "c + 16 \<le> c'" "c' \<le> e" by blast
    have "c' * 4096 \<le> length (contents f)" using c'(3) less.prems(2) by (meson le_trans mult_le_mono1)
    from erases_step [OF g(2) c'(1,2) this] c' True g(1) show ?thesis
      by (subst erase_blocks.simps) auto
  qed
qed

lemma erase_tail_erases:
  "c \<le> e \<Longrightarrow> e * 4096 \<le> length (contents f) \<Longrightarrow> length (contents f) \<le> 2 ^ 32 \<Longrightarrow>
   erases (erase_tail spi c e f) f c e"
proof (induction "e - c" arbitrary: c f)
  case 0
  then show ?case by (subst erase_tail.simps) (auto intro: erases_refl)
next
  case (Suc n)
  have c: "(c + 1) * 4096 \<le> length (contents f)" using Suc by (simp add: algebra_simps)
  from c Suc.prems(3) obtain g where g: "SPIEraseSector spi (word_of_nat c) f = (0, g)"
    "contents g = erased (contents f) c 1" by (rule one_sector)
  have l: "length (contents g) = length (contents f)" using g(2) c by simp
  have "erases (erase_tail spi (c + 1) e g) g (c + 1) e"
    using Suc.hyps(2) Suc.prems l by (intro Suc.hyps(1)) auto
  from erases_step [OF g(2) this] Suc.hyps(2) Suc.prems(2) g(1) show ?case
    by (subst erase_tail.simps) auto
qed

lemma SPIEraseAreaEx_image:
  assumes "4096 dvd unat start" "4096 dvd length (contents f)" "unat start + unat sz \<le> length (contents f)"
    and "length (contents f) < 2 ^ 32"
  shows "\<exists>f'. SPIEraseAreaEx spi start sz f = (0, f') \<and>
    contents f' = erased (contents f) (unat start div 4096) ((unat sz + 4095) div 4096)"
proof -
  define c where "c = unat start div 4096"
  define n where "n = (unat sz + 4095) div 4096"
  define e where "e = c + n"
  let ?f = "contents f"
  have even: "start AND 1 = 0"
  proof -
    obtain k where "unat start = 4096 * k" using assms(1) by (elim dvdE)
    then have "start = word_of_nat (4096 * k)" by (metis of_nat_unat ucast_id)
    also have "\<dots> = 2 * word_of_nat (2048 * k)" by simp
    finally show ?thesis by (simp add: and_one_eq mod_2_eq_odd)
  qed
  have nowrap: "unat sz + 4095 < 2 ^ 32"
    using assms(2-4) by (auto elim!: dvdE)
  have le_e: "e * 4096 \<le> length ?f"
  proof -
    obtain k q where kq: "length ?f = 4096 * k" "unat start = 4096 * q" using assms(1,2) by (auto elim!: dvdE)
    then have "4096 * q + unat sz \<le> 4096 * k" using assms(3) by simp
    then have "unat sz + 4095 \<le> 4096 * (k - q) + 4095" and "q \<le> k" by simp_all
    from div_le_mono [OF this(1), of 4096] have "(unat sz + 4095) div 4096 \<le> k - q" by simp
    with \<open>q \<le> k\<close> have "q + (unat sz + 4095) div 4096 \<le> k" by simp
    with kq show ?thesis by (simp add: c_def n_def e_def)
  qed
  have start: "unat (start div FLASH_SECTOR_SIZE) = c" by (simp add: flash_geometry unat_div c_def)
  have count: "unat ((sz + FLASH_SECTOR_SIZE - 1) div FLASH_SECTOR_SIZE) = n"
  proof -
    have "sz + 0x1000 - 1 = sz + 4095" by simp
    moreover have "unat (sz + 4095) = unat sz + 4095"
      using nowrap by (subst unat_add_u32) simp_all
    moreover have "unat (4096 :: u32) = 4096" by simp
    ultimately show ?thesis by (simp only: flash_geometry unat_div n_def)
  qed
  have ce: "c \<le> e" and le: "length ?f \<le> 2 ^ 32" using assms(4) by (auto simp: e_def)
  from erase_head_erases [OF ce le_e le] obtain c1 where
    h: "erases (erase_head spi c e f) f c c1" "c \<le> c1" "c1 \<le> e" "c1 = e \<or> c1 mod 16 = 0" by (elim exE conjE)
  from h(1) obtain f1 where f1: "erase_head spi c e f = (None, c1, f1)" "contents f1 = erased ?f c (c1 - c)"
    by (auto simp: erases_def)
  have len: "length (contents f1) = length ?f"
    using f1(2) h(2,3) le_e by (simp add: algebra_simps)
  have e1: "e * 4096 \<le> length (contents f1)" "length (contents f1) \<le> 2 ^ 32" using len le_e le by simp_all
  from erase_blocks_erases [OF h(3) e1 h(4)] obtain c2 where
    b: "erases (erase_blocks spi c1 e f1) f1 c1 c2" "c1 \<le> c2" "c2 \<le> e" by (elim exE conjE)
  from b(1) obtain f2 where f2: "erase_blocks spi c1 e f1 = (None, c2, f2)" "contents f2 = erased (contents f1) c1 (c2 - c1)"
    by (auto simp: erases_def)
  have len2: "length (contents f2) = length ?f"
    using f2(2) b(2,3) le_e len by (simp add: algebra_simps)
  have t: "erases (erase_tail spi c2 e f2) f2 c2 e"
    using erase_tail_erases [OF b(3), of f2] len2 le_e le by simp
  then obtain f3 where f3: "erase_tail spi c2 e f2 = (None, e, f3)" "contents f3 = erased (contents f2) c2 (e - c2)"
    by (auto simp: erases_def)
  have "erases (erase_tail spi c2 e f2) f1 c1 e"
    using erases_step [of f2 f1 c1 "c2 - c1" _ e] f2(2) t b le_e len by simp
  then have "erases (erase_tail spi c2 e f2) f c e"
    using erases_step [of f1 f c "c1 - c" _ e] f1(2) h b le_e by simp
  then have "contents f3 = erased ?f c n" using f3(1) by (simp add: erases_def e_def)
  moreover have "SPIEraseAreaEx spi start sz f = (0, f3)"
    using even f1(1) f2(1) f3(1)
    by (simp add: SPIEraseAreaEx_def Let_def start count flash_geometry [symmetric] flip: e_def)
  ultimately show ?thesis by (auto simp: c_def n_def)
qed

end

lemma erase_head_code: "erase_head spi c e f = (Some x, c', f') \<Longrightarrow> x = 2"
proof (induction spi c e f rule: erase_head.induct)
  case (1 spi c e f)
  then show ?case by (subst (asm) (2) erase_head.simps) (auto split: prod.splits if_splits)
qed

lemma erase_blocks_code: "erase_blocks spi c e f = (Some x, c', f') \<Longrightarrow> x = 3"
proof (induction spi c e f rule: erase_blocks.induct)
  case (1 spi c e f)
  then show ?case by (subst (asm) (2) erase_blocks.simps) (auto split: prod.splits if_splits)
qed

lemma erase_tail_code: "erase_tail spi c e f = (Some x, c', f') \<Longrightarrow> x = 4"
proof (induction spi c e f rule: erase_tail.induct)
  case (1 spi c e f)
  then show ?case by (subst (asm) (2) erase_tail.simps) (auto split: prod.splits if_splits)
qed

section \<open>Properties\<close>

text \<open>
  Property C17: on any flash that obeys the chip's documentation, \<open>SPIEraseAreaEx\<close> with a
  sector-aligned start succeeds and erases exactly the sectors that the area touches, whether they
  are erased one by one or as 64 KiB blocks.
\<close>

theorem SPIEraseAreaEx_erases:
  assumes "nor_flash spi contents" and "4096 dvd unat start" and "4096 dvd length (contents f)"
    and "unat start + unat sz \<le> length (contents f)" and "length (contents f) < 2 ^ 32"
  shows "\<exists>f'. SPIEraseAreaEx spi start sz f = (0, f') \<and>
    contents f' = erased (contents f) (unat start div 4096) ((unat sz + 4095) div 4096)"
  using assms by (rule nor_flash.SPIEraseAreaEx_image)

theorem SPIEraseAreaEx_erases_witness:
  "\<exists>f'. SPIEraseAreaEx list_spi 0x1000 0x1001 (replicate 0x4000 0) = (0, f') \<and>
    f' = erased (replicate 0x4000 0) 1 2"
  using SPIEraseAreaEx_erases [OF list_flash.nor_flash_axioms, of "0x1000" "replicate 0x4000 0" "0x1001"]
  by simp

text \<open>
  Property C18: the alignment check of \<open>SPIEraseAreaEx\<close> refuses odd addresses and no others:
  by operator precedence it tests the lowest bit, not the twelve bits of the sector offset.
\<close>

theorem SPIEraseAreaEx_alignment_check:
  "fst (SPIEraseAreaEx spi start sz f) = 1 \<longleftrightarrow> odd (unat start)"
proof -
  have lsb: "start AND 1 \<noteq> 0 \<longleftrightarrow> odd (unat start)"
    using and_mask_dvd_nat [of 1 start] by simp
  show ?thesis
  proof (cases "odd (unat start)")
    case False
    then have "start AND 1 = 0" using lsb by blast
    then show ?thesis
      using False
      by (auto simp: SPIEraseAreaEx_def Let_def flash_geometry split: prod.splits option.splits
          dest: erase_head_code erase_blocks_code erase_tail_code)
  qed (use lsb in \<open>simp add: SPIEraseAreaEx_def flash_geometry\<close>)
qed

end
