(* ===== verification/Checksums.thy ===== *)
theory Checksums
  imports Firmware_Prelude
begin

text \<open>
  The checksums the firmware uses: the most-significant-bit-first CRC of the eboot command block
  (\<open>crc_update\<close> in \<open>eboot_command.c\<close>), the nibble-table CRC-32 of uzlib (\<open>uzlib_crc32\<close>) and
  its Adler-32 (\<open>uzlib_adler32\<close>).  The locale \<open>incremental_checksum\<close> is what their callers rely
  on, \<open>burst_detecting\<close> what the CRCs add to it, and \<open>crc_register\<close> the algebra of a linear
  feedback register from which both CRCs get their detection power.
\<close>

section \<open>Interfaces\<close>

locale incremental_checksum =
  fixes upd :: "u8 list \<Rightarrow> u32 \<Rightarrow> u32"
  assumes upd_Nil: "upd [] s = s"
    and upd_append: "upd (xs @ ys) s = upd ys (upd xs s)"
begin

lemma upd_concat: "upd (concat xss) s = fold upd xss s"
  by (induction xss arbitrary: s) (simp_all add: upd_Nil upd_append)

lemma upd_split: "upd xs s = upd (drop n xs) (upd (take n xs) s)"
  using upd_append [of "take n xs" "drop n xs"] by simp

end

locale burst_detecting = incremental_checksum +
  assumes state_inject: "upd xs s = upd xs t \<Longrightarrow> s = t"
    and burst_inject: "length xs = length ys \<Longrightarrow> length xs \<le> 4 \<Longrightarrow> upd xs s = upd ys s \<Longrightarrow> xs = ys"
begin

lemma burst_detected:
  assumes "length b = length b'" and "length b \<le> 4" and "b \<noteq> b'"
  shows "upd (xs @ b @ ys) s \<noteq> upd (xs @ b' @ ys) s"
proof
  assume "upd (xs @ b @ ys) s = upd (xs @ b' @ ys) s"
  then have "upd b (upd xs s) = upd b' (upd xs s)"
    by (simp add: upd_append) (blast dest: state_inject)
  with assms show False by (blast dest: burst_inject)
qed

end

text \<open>
  A linear feedback register: one step \<open>L\<close> is an injective linear map, and the message bit \<open>i\<close> of
  a run of at most 32 enters through the unit word \<open>e i\<close>, with \<open>L (e (i + 1)) = e i\<close>.
\<close>

locale crc_register =
  fixes L :: "u32 \<Rightarrow> u32" and e :: "nat \<Rightarrow> u32" and p :: "nat \<Rightarrow> nat"
  assumes linear: "L (x XOR y) = L x XOR L y"
    and inject: "L x = L y \<Longrightarrow> x = y"
    and shift: "i < 31 \<Longrightarrow> L (e (Suc i)) = e i"
    and unit_bit: "i < 32 \<Longrightarrow> bit (e i) j \<longleftrightarrow> j = p i"
    and position: "i < 32 \<Longrightarrow> j < 32 \<Longrightarrow> p i = p j \<Longrightarrow> i = j"
begin

definition feed :: "bool \<Rightarrow> u32 \<Rightarrow> u32" where
  "feed b x = L (x XOR (if b then e 0 else 0))"

primrec msg_from :: "nat \<Rightarrow> bool list \<Rightarrow> u32" where
  "msg_from k [] = 0"
| "msg_from k (b # bs) = (if b then e k else 0) XOR msg_from (Suc k) bs"

lemma L_zero: "L 0 = 0"
  using linear [of 0 0] by simp

lemma L_msg_from: "k + length bs \<le> 31 \<Longrightarrow> L (msg_from (Suc k) bs) = msg_from k bs"
  by (induction bs arbitrary: k) (simp_all add: L_zero linear shift)

lemma fold_feed:
  "length bs \<le> 32 \<Longrightarrow> fold feed bs x = (L ^^ length bs) (x XOR msg_from 0 bs)"
proof (induction bs arbitrary: x)
  case Nil
  then show ?case by simp
next
  case (Cons b bs)
  then have "fold feed (b # bs) x = (L ^^ length bs) (feed b x XOR L (msg_from (Suc 0) bs))"
    by (simp add: L_msg_from)
  also have "feed b x XOR L (msg_from (Suc 0) bs) = L (x XOR msg_from 0 (b # bs))"
    by (simp add: feed_def linear xor.assoc)
  finally show ?case by (simp add: funpow_swap1)
qed

lemma funpow_inject: "(L ^^ n) x = (L ^^ n) y \<Longrightarrow> x = y"
  by (induction n) (auto dest: inject)

lemma feed_inject: "fold feed bs x = fold feed bs y \<Longrightarrow> x = y"
proof (induction bs arbitrary: x y)
  case (Cons b bs)
  then have "feed b x = feed b y" by simp
  then show ?case by (auto simp: feed_def dest: inject)
qed simp

lemma bit_msg_from:
  "k + length bs \<le> 32 \<Longrightarrow> bit (msg_from k bs) j \<longleftrightarrow> (\<exists>i<length bs. j = p (k + i) \<and> bs ! i)"
proof (induction bs arbitrary: k)
  case (Cons b bs)
  have distinct: "p k \<noteq> p (Suc k + i)" if "i < length bs" for i
    using that Cons.prems position [of k "Suc k + i"] by auto
  have "bit (msg_from k (b # bs)) j \<longleftrightarrow>
      (j = p k \<and> b) \<noteq> (\<exists>i<length bs. j = p (Suc k + i) \<and> bs ! i)"
    using Cons by (simp add: bit_xor_iff unit_bit)
  also have "\<dots> \<longleftrightarrow> (\<exists>i<Suc (length bs). j = p (k + i) \<and> (b # bs) ! i)"
    using distinct by (auto simp: less_Suc_eq_0_disj)
  finally show ?case by simp
qed simp

lemma msg_from_inject:
  assumes "length bs = length cs" "length bs \<le> 32" "msg_from 0 bs = msg_from 0 cs"
  shows "bs = cs"
proof (rule nth_equalityI)
  fix i assume i: "i < length bs"
  have *: "bit (msg_from 0 ds) (p i) \<longleftrightarrow> ds ! i" if "length ds = length bs" for ds
    using that i assms(2) by (auto simp: bit_msg_from dest: position [rotated 2])
  from *[of bs] *[of cs] assms show "bs ! i = cs ! i" by simp
qed (fact assms(1))

lemma feed_burst_inject:
  assumes "length bs = length cs" "length bs \<le> 32" "fold feed bs x = fold feed cs x"
  shows "bs = cs"
proof -
  from assms have "msg_from 0 bs = msg_from 0 cs"
    by (simp add: fold_feed) (metis funpow_inject xor_cancel_left)
  with assms show ?thesis by (blast intro: msg_from_inject)
qed

end

section \<open>The eboot command CRC\<close>

text \<open>One iteration of the inner loop of \<open>crc_update\<close>, for the mask \<open>i\<close>.\<close>

definition crc_bit_step :: "u8 \<Rightarrow> u32 \<Rightarrow> u32 \<Rightarrow> u32" where
  "crc_bit_step c i crc =
     (let b = (crc AND 0x80000000 \<noteq> 0);
          b = (if ucast c AND i \<noteq> 0 then \<not> b else b);
          crc = push_bit 1 crc
      in if b then crc XOR 0x04c11db7 else crc)"

function crc_bit_loop :: "u8 \<Rightarrow> u32 \<Rightarrow> u32 \<Rightarrow> u32" where
  "crc_bit_loop c i crc =
     (if i > 0 then crc_bit_loop c (drop_bit 1 i) (crc_bit_step c i crc) else crc)"
  by pat_completeness auto
termination
proof (relation "measure (\<lambda>(c, i, crc). unat i)")
  fix c :: u8 and i crc :: u32
  assume "i > 0"
  then show "((c, drop_bit 1 i, crc_bit_step c i crc), c, i, crc) \<in> measure (\<lambda>(c, i, crc). unat i)"
    by (simp add: drop_bit_Suc unat_div word_greater_zero_iff unat_gt_0)
qed simp

declare crc_bit_loop.simps [simp del]

fun crc_update :: "u32 \<Rightarrow> u8 list \<Rightarrow> u32" where
  "crc_update crc [] = crc"
| "crc_update crc (c # data) = crc_update (crc_bit_loop c 0x80 crc) data"


definition msb_bits :: "u8 \<Rightarrow> bool list" where
  "msb_bits c = map (bit c) [7, 6, 5, 4, 3, 2, 1, 0]"

definition crc_shift :: "u32 \<Rightarrow> u32" where
  "crc_shift x = push_bit 1 x XOR (if bit x 31 then 0x04c11db7 else 0)"

interpretation eboot_reg: crc_register crc_shift "\<lambda>i. 2 ^ (31 - i)" "\<lambda>i. 31 - i"
proof unfold_locales
  fix x y :: u32
  show "crc_shift (x XOR y) = crc_shift x XOR crc_shift y"
    by (simp add: crc_shift_def bit_xor_iff push_bit_xor ac_simps)
next
  fix x y :: u32
  assume eq: "crc_shift x = crc_shift y"
  have poly: "bit (crc_shift z) 0 = bit z 31" for z
    by (simp add: crc_shift_def bit_xor_iff bit_push_bit_iff del: push_bit_Suc push_bit_of_Suc_0 One_nat_def)
  from eq poly [of x] poly [of y] have top: "bit x 31 = bit y 31" by simp
  with eq have push: "push_bit 1 x = push_bit 1 y"
    by (simp add: crc_shift_def)
  show "x = y"
  proof (rule bit_word_eqI)
    fix n assume n: "n < LENGTH(32)"
    show "bit x n = bit y n"
    proof (cases "n = 31")
      case False
      from push have "bit (push_bit 1 x) (Suc n) = bit (push_bit 1 y) (Suc n)" by simp
      with n False show ?thesis unfolding bit_push_bit_iff by auto
    qed (use top in simp)
  qed
next
  fix i :: nat assume "i < 31"
  then have "31 - i = Suc (30 - i)" "31 - Suc i = 30 - i" "30 - i \<noteq> 31" by arith+
  then show "crc_shift (2 ^ (31 - Suc i)) = 2 ^ (31 - i)"
    by (simp add: crc_shift_def bit_exp_iff)
next
  fix i j :: nat assume "i < 32"
  then show "bit (2 ^ (31 - i) :: u32) j \<longleftrightarrow> j = 31 - i"
    by (auto simp: bit_exp_iff)
qed auto

lemma crc_bit_step_feed:
  assumes "n < 8"
  shows "crc_bit_step c (2 ^ n) crc = eboot_reg.feed (bit c n) crc"
proof -
  have "(ucast c AND 2 ^ n :: u32) \<noteq> 0 \<longleftrightarrow> bit c n"
    using assms by (simp add: and_exp_eq_0_iff_not_bit bit_ucast_iff)
  moreover have "(crc AND 0x80000000 \<noteq> 0) \<longleftrightarrow> bit crc 31"
    using and_exp_eq_0_iff_not_bit [of crc 31] by simp
  moreover have "crc_shift 0x80000000 = 0x04c11db7"
    by code_simp
  moreover have "crc_bit_step c (2 ^ n) crc =
      (if bit crc 31 \<noteq> bit c n then push_bit 1 crc XOR 0x04c11db7 else push_bit 1 crc)"
    using calculation(1,2) by (simp add: crc_bit_step_def Let_def)
  ultimately show ?thesis
    by (simp add: eboot_reg.feed_def eboot_reg.linear) (simp add: crc_shift_def xor.assoc)
qed

lemma crc_bit_loop_fold: "crc_bit_loop c 0x80 crc = fold eboot_reg.feed (msb_bits c) crc"
proof -
  have m: "crc_bit_step c 0x80 x = eboot_reg.feed (bit c 7) x"
    "crc_bit_step c 0x40 x = eboot_reg.feed (bit c 6) x"
    "crc_bit_step c 0x20 x = eboot_reg.feed (bit c 5) x"
    "crc_bit_step c 0x10 x = eboot_reg.feed (bit c 4) x"
    "crc_bit_step c 8 x = eboot_reg.feed (bit c 3) x"
    "crc_bit_step c 4 x = eboot_reg.feed (bit c 2) x"
    "crc_bit_step c 2 x = eboot_reg.feed (bit c 1) x"
    "crc_bit_step c 1 x = eboot_reg.feed (bit c 0) x" for x
    using crc_bit_step_feed [of 7 c x] crc_bit_step_feed [of 6 c x] crc_bit_step_feed [of 5 c x]
      crc_bit_step_feed [of 4 c x] crc_bit_step_feed [of 3 c x] crc_bit_step_feed [of 2 c x]
      crc_bit_step_feed [of 1 c x] crc_bit_step_feed [of 0 c x]
    by simp_all
  show ?thesis
    by (simp add: crc_bit_loop.simps m msb_bits_def)
qed

lemma crc_update_fold: "crc_update crc data = fold eboot_reg.feed (concat (map msb_bits data)) crc"
  by (induction crc data rule: crc_update.induct) (simp_all add: crc_bit_loop_fold)

lemma msb_bits_inject: "concat (map msb_bits xs) = concat (map msb_bits ys) \<Longrightarrow> length xs = length ys \<Longrightarrow> xs = ys"
proof (induction xs ys rule: list_induct2')
  case (4 x xs y ys)
  then have "\<forall>n<8. bit x n = bit y n"
    by (auto simp: msb_bits_def less_Suc_eq numeral_eq_Suc)
  then have "x = y" by (auto intro: bit_word_eqI)
  with 4 show ?case by (simp add: msb_bits_def)
qed auto

lemma length_concat_msb_bits [simp]: "length (concat (map msb_bits xs)) = 8 * length xs"
  by (induction xs) (simp_all add: msb_bits_def)

interpretation eboot_crc: burst_detecting "\<lambda>data crc. crc_update crc data"
proof unfold_locales
  fix xs ys :: "u8 list" and s t :: u32
  show "crc_update s (xs @ ys) = crc_update (crc_update s xs) ys"
    by (simp add: crc_update_fold)
  show "crc_update s xs = crc_update t xs \<Longrightarrow> s = t"
    by (auto simp: crc_update_fold dest: eboot_reg.feed_inject)
  assume "length xs = length ys" "length xs \<le> 4" "crc_update s xs = crc_update s ys"
  then show "xs = ys"
    using eboot_reg.feed_burst_inject [of "concat (map msb_bits xs)" "concat (map msb_bits ys)" s]
    by (auto simp: crc_update_fold intro: msb_bits_inject)
qed simp

section \<open>The CRC-32 of uzlib\<close>

definition tinf_crc32tab :: "u32 list" where
  "tinf_crc32tab =
    [0x00000000, 0x1db71064, 0x3b6e20c8, 0x26d930ac, 0x76dc4190,
     0x6b6b51f4, 0x4db26158, 0x5005713c, 0xedb88320, 0xf00f9344,
     0xd6d6a3e8, 0xcb61b38c, 0x9b64c2b0, 0x86d3d2d4, 0xa00ae278,
     0xbdbdf21c]"

definition crc32_nibble :: "u32 \<Rightarrow> u32" where
  "crc32_nibble crc = tinf_crc32tab ! unat (crc AND 0x0f) XOR drop_bit 4 crc"

fun uzlib_crc32 :: "u8 list \<Rightarrow> u32 \<Rightarrow> u32" where
  "uzlib_crc32 [] crc = crc"
| "uzlib_crc32 (b # buf) crc = uzlib_crc32 buf (crc32_nibble (crc32_nibble (crc XOR ucast b)))"

text \<open>The bitwise reference: the reflected register with the polynomial \<open>0xedb88320\<close>.\<close>

definition crc32_shift :: "u32 \<Rightarrow> u32" where
  "crc32_shift x = drop_bit 1 x XOR (if bit x 0 then 0xedb88320 else 0)"

interpretation crc32_reg: crc_register crc32_shift "\<lambda>i. 2 ^ i" "\<lambda>i. i"
proof unfold_locales
  fix x y :: u32
  show "crc32_shift (x XOR y) = crc32_shift x XOR crc32_shift y"
    by (simp add: crc32_shift_def bit_xor_iff drop_bit_xor ac_simps)
next
  fix x y :: u32
  assume eq: "crc32_shift x = crc32_shift y"
  have "bit (0xedb88320 :: u32) 31" by simp
  then have poly: "bit (crc32_shift z) 31 = bit z 0" for z
    using bit_imp_le_length [of z 32]
    unfolding crc32_shift_def bit_xor_iff bit_drop_bit_eq by auto
  from eq poly [of x] poly [of y] have low: "bit x 0 = bit y 0" by simp
  with eq have drop: "drop_bit 1 x = drop_bit 1 y"
    by (simp add: crc32_shift_def)
  show "x = y"
  proof (rule bit_word_eqI)
    fix n assume n: "n < LENGTH(32)"
    show "bit x n = bit y n"
    proof (cases n)
      case (Suc m)
      from drop have "bit (drop_bit 1 x) m = bit (drop_bit 1 y) m" by simp
      with Suc show ?thesis unfolding bit_drop_bit_eq by simp
    qed (use low in simp)
  qed
next
  fix i :: nat assume "i < 31"
  then have "drop_bit 1 (2 ^ Suc i :: u32) = 2 ^ i"
    by (intro bit_word_eqI) (auto simp: bit_drop_bit_eq bit_exp_iff simp del: power_Suc)
  then show "crc32_shift (2 ^ Suc i) = 2 ^ i"
    by (simp add: crc32_shift_def bit_exp_iff del: power_Suc)
next
  fix i j :: nat assume "i < 32"
  then show "bit (2 ^ i :: u32) j \<longleftrightarrow> j = i"
    by (auto simp: bit_exp_iff)
qed auto

lemma crc32_shift_even: "\<not> bit x 0 \<Longrightarrow> crc32_shift x = drop_bit 1 x"
  by (simp add: crc32_shift_def)

lemma crc32_shift_high:
  assumes "\<not> bit x 0" "\<not> bit x 1" "\<not> bit x 2" "\<not> bit x 3"
  shows "(crc32_shift ^^ 4) x = drop_bit 4 x"
  using assms by (simp add: numeral_eq_Suc crc32_shift_even bit_drop_bit_eq drop_bit_drop_bit)

lemma nibble_cases:
  fixes x :: u32
  assumes "x < 16"
  shows "x \<in> set (map word_of_nat [0..<16])"
proof -
  have "unat x < 16" using assms by (simp add: word_less_nat_alt)
  then show ?thesis by (auto intro!: image_eqI [of _ _ "unat x"])
qed

lemma crc32_shift_low:
  "x \<in> set (map word_of_nat [0..<16]) \<Longrightarrow> (crc32_shift ^^ 4) x = tinf_crc32tab ! unat x"
proof -
  have "\<forall>n\<in>set [0..<16]. (crc32_shift ^^ 4) (word_of_nat n) = tinf_crc32tab ! unat (word_of_nat n :: u32)"
    by code_simp
  then show "x \<in> set (map word_of_nat [0..<16]) \<Longrightarrow> ?thesis" by auto
qed

lemma crc32_shift_funpow_linear: "(crc32_shift ^^ n) (x XOR y) = (crc32_shift ^^ n) x XOR (crc32_shift ^^ n) y"
  by (induction n arbitrary: x y) (simp_all add: funpow_swap1 crc32_reg.linear)

lemma crc32_nibble_shift: "crc32_nibble crc = (crc32_shift ^^ 4) crc"
proof -
  let ?hi = "push_bit 4 (drop_bit 4 crc)" and ?lo = "crc AND 0x0f"
  have lo_eq: "?lo = take_bit 4 crc"
    by (simp add: take_bit_eq_mask mask_eq_exp_minus_1)
  have split: "crc = ?lo XOR ?hi"
    unfolding lo_eq
    by (rule bit_word_eqI) (auto simp: bit_xor_iff bit_take_bit_iff bit_push_bit_iff bit_drop_bit_eq)
  have "?lo < 16"
    by (rule le_less_trans [OF word_and_le1]) simp
  then have lo: "(crc32_shift ^^ 4) ?lo = tinf_crc32tab ! unat ?lo"
    by (intro crc32_shift_low nibble_cases)
  have hi: "(crc32_shift ^^ 4) ?hi = drop_bit 4 crc"
  proof (subst crc32_shift_high)
    show "drop_bit 4 ?hi = drop_bit 4 crc"
    proof (rule bit_word_eqI)
      fix n
      show "bit (drop_bit 4 ?hi) n = bit (drop_bit 4 crc) n"
        using bit_imp_le_length [of crc "4 + n"] by (auto simp: bit_drop_bit_eq bit_push_bit_iff)
    qed
  qed (simp_all add: bit_push_bit_iff)
  show ?thesis
    by (subst split) (simp add: crc32_shift_funpow_linear lo hi crc32_nibble_def)
qed

lemma crc32_feed_byte:
  fixes b :: u8
  shows "(crc32_shift ^^ 8) (crc XOR ucast b) = fold crc32_reg.feed (lsb_bits 8 b) crc"
proof -
  have "crc32_reg.msg_from 0 (lsb_bits 8 b) = ucast b"
  proof (rule bit_word_eqI)
    fix n
    show "bit (crc32_reg.msg_from 0 (lsb_bits 8 b)) n = bit (ucast b :: u32) n" if "n < LENGTH(32)"
      using that bit_imp_le_length [of b n] by (auto simp: crc32_reg.bit_msg_from bit_ucast_iff)
  qed
  then show ?thesis by (simp add: crc32_reg.fold_feed)
qed

lemma uzlib_crc32_byte_step: "crc32_nibble (crc32_nibble crc) = (crc32_shift ^^ 8) crc"
  using funpow_add [of 4 4 crc32_shift] by (simp add: crc32_nibble_shift)

lemma uzlib_crc32_fold: "uzlib_crc32 buf crc = fold crc32_reg.feed (concat (map (lsb_bits 8) buf)) crc"
  by (induction buf crc rule: uzlib_crc32.induct)
    (simp_all add: uzlib_crc32_byte_step crc32_feed_byte)

lemma length_concat_lsb_bits [simp]: "length (concat (map (lsb_bits 8) (xs :: u8 list))) = 8 * length xs"
  by (induction xs) simp_all

lemma lsb_bits_8_inject [simp]: "lsb_bits 8 x = lsb_bits 8 y \<longleftrightarrow> x = y" for x y :: u8
proof
  assume eq: "lsb_bits 8 x = lsb_bits 8 y"
  show "x = y"
  proof (rule bit_word_eqI)
    show "bit x n = bit y n" if "n < LENGTH(8)" for n
      using that arg_cong [OF eq, of "\<lambda>bs. bs ! n"] by simp
  qed
qed simp

lemma concat_lsb_bits_inject:
  "concat (map (lsb_bits 8) xs) = concat (map (lsb_bits 8) ys) \<Longrightarrow> length xs = length ys \<Longrightarrow> xs = ys"
  for xs ys :: "u8 list"
  by (induction xs ys rule: list_induct2') auto

interpretation uzlib_crc: burst_detecting uzlib_crc32
proof unfold_locales
  fix xs ys :: "u8 list" and s t :: u32
  show "uzlib_crc32 (xs @ ys) s = uzlib_crc32 ys (uzlib_crc32 xs s)"
    by (simp add: uzlib_crc32_fold)
  show "uzlib_crc32 xs s = uzlib_crc32 xs t \<Longrightarrow> s = t"
    by (auto simp: uzlib_crc32_fold dest: crc32_reg.feed_inject)
  assume "length xs = length ys" "length xs \<le> 4" "uzlib_crc32 xs s = uzlib_crc32 ys s"
  then show "xs = ys"
    using crc32_reg.feed_burst_inject [of "concat (map (lsb_bits 8) xs)" "concat (map (lsb_bits 8) ys)" s]
    by (auto simp: uzlib_crc32_fold intro: concat_lsb_bits_inject)
qed simp

section \<open>Adler-32\<close>

definition A32_BASE :: u32 where "A32_BASE = 65521"
definition A32_NMAX :: nat where "A32_NMAX = 5552"

definition adler_add :: "u8 \<Rightarrow> u32 \<times> u32 \<Rightarrow> u32 \<times> u32" where
  "adler_add b s = (case s of (s1, s2) \<Rightarrow> let s1 = s1 + ucast b; s2 = s2 + s1 in (s1, s2))"

lemma adler_add_pair [simp]:
  "adler_add b (s1, s2) = (s1 + ucast b, s2 + (s1 + ucast b))"
  by (simp add: adler_add_def Let_def)

text \<open>The unrolled body: sixteen bytes \<open>buf[0]\<close> to \<open>buf[15]\<close>.\<close>

definition adler_sixteen :: "u8 list \<Rightarrow> u32 \<times> u32 \<Rightarrow> u32 \<times> u32" where
  "adler_sixteen buf s =
     adler_add (buf ! 15) (adler_add (buf ! 14) (adler_add (buf ! 13) (adler_add (buf ! 12)
    (adler_add (buf ! 11) (adler_add (buf ! 10) (adler_add (buf ! 9) (adler_add (buf ! 8)
    (adler_add (buf ! 7) (adler_add (buf ! 6) (adler_add (buf ! 5) (adler_add (buf ! 4)
    (adler_add (buf ! 3) (adler_add (buf ! 2) (adler_add (buf ! 1) (adler_add (buf ! 0) s)))))))))))))))"

text \<open>The two inner loops, \<open>for (i = k / 16; i; --i, buf += 16)\<close> and \<open>for (i = k % 16; i; --i)\<close>.\<close>

primrec adler_unrolled :: "nat \<Rightarrow> u8 list \<Rightarrow> u32 \<times> u32 \<Rightarrow> u32 \<times> u32" where
  "adler_unrolled 0 buf s = s"
| "adler_unrolled (Suc i) buf s = adler_unrolled i (drop 16 buf) (adler_sixteen buf s)"

primrec adler_rest :: "nat \<Rightarrow> u8 list \<Rightarrow> u32 \<times> u32 \<Rightarrow> u32 \<times> u32" where
  "adler_rest 0 buf s = s"
| "adler_rest (Suc i) buf s = adler_rest i (tl buf) (adler_add (hd buf) s)"

function adler_loop :: "u8 list \<Rightarrow> u32 \<times> u32 \<Rightarrow> u32 \<times> u32" where
  "adler_loop buf s =
     (if length buf > 0 then
        let k = (if length buf < A32_NMAX then length buf else A32_NMAX);
            s = adler_unrolled (k div 16) buf s;
            (s1, s2) = adler_rest (k mod 16) (drop (16 * (k div 16)) buf) s
        in adler_loop (drop k buf) (s1 mod A32_BASE, s2 mod A32_BASE)
      else s)"
  by pat_completeness auto
termination
  by (relation "measure (\<lambda>(buf, s). length buf)") (auto simp: A32_NMAX_def)

declare adler_loop.simps [simp del]

definition uzlib_adler32 :: "u8 list \<Rightarrow> u32 \<Rightarrow> u32" where
  "uzlib_adler32 data prev_sum =
     (let s1 = prev_sum AND 0xffff; s2 = drop_bit 16 prev_sum;
          (s1, s2) = adler_loop data (s1, s2)
      in push_bit 16 s2 OR s1)"

text \<open>The reference of RFC 1950: both sums reduced after every byte, over the naturals.\<close>

fun adler_ref :: "u8 list \<Rightarrow> nat \<times> nat \<Rightarrow> nat \<times> nat" where
  "adler_ref [] s = s"
| "adler_ref (x # xs) (a, b) =
     (let a' = (a + unat x) mod 65521 in adler_ref xs (a', (b + a') mod 65521))"

fun adler_sum :: "u8 list \<Rightarrow> nat \<times> nat \<Rightarrow> nat \<times> nat" where
  "adler_sum [] s = s"
| "adler_sum (x # xs) (a, b) = adler_sum xs (a + unat x, b + (a + unat x))"

definition nat_pair :: "u32 \<times> u32 \<Rightarrow> nat \<times> nat" where
  "nat_pair s = map_prod unat unat s"

lemma adler_ref_append: "adler_ref (xs @ ys) s = adler_ref ys (adler_ref xs s)"
  by (induction xs s rule: adler_ref.induct) (simp_all add: Let_def)

lemma adler_ref_reduced:
  "xs \<noteq> [] \<Longrightarrow> fst (adler_ref xs s) < 65521 \<and> snd (adler_ref xs s) < 65521"
proof (induction xs s rule: adler_ref.induct)
  case (2 x xs a b)
  then show ?case by (cases xs) (simp_all add: Let_def)
qed simp

lemma adler_ref_sum:
  "adler_ref xs (a mod 65521, b mod 65521) =
     map_prod (\<lambda>n. n mod 65521) (\<lambda>n. n mod 65521) (adler_sum xs (a, b))"
proof (induction xs arbitrary: a b)
  case (Cons x xs)
  have "adler_ref (x # xs) (a mod 65521, b mod 65521) =
      adler_ref xs ((a + unat x) mod 65521, (b + (a + unat x)) mod 65521)"
    by (simp add: Let_def mod_simps)
  then show ?case by (simp only: Cons adler_sum.simps)
qed simp

lemma adler_ref_mod: "xs \<noteq> [] \<Longrightarrow> adler_ref xs (a mod 65521, b mod 65521) = adler_ref xs (a, b)"
  by (cases xs) (simp_all add: Let_def mod_simps)

lemma fold_adler_add:
  assumes "2 * unat s2 + 2 * length xs * unat s1 + 255 * length xs * Suc (length xs) < 2 ^ 33"
  shows "nat_pair (fold adler_add xs (s1, s2)) = adler_sum xs (unat s1, unat s2)"
  using assms
proof (induction xs arbitrary: s1 s2)
  case Nil
  then show ?case by (simp add: nat_pair_def)
next
  case (Cons x xs)
  let ?n = "length xs"
  have x: "unat x \<le> 255" by simp
  have grow: "2 * (unat s2 + (unat s1 + unat x)) + 2 * ?n * (unat s1 + unat x) + 255 * ?n * Suc ?n
      \<le> 2 * unat s2 + 2 * Suc ?n * unat s1 + 255 * Suc ?n * Suc (Suc ?n)"
    using mult_le_mono2 [OF x, of "2 * Suc ?n"] by (simp add: algebra_simps)
  with Cons.prems have small: "2 * (unat s2 + (unat s1 + unat x)) + 2 * ?n * (unat s1 + unat x)
      + 255 * ?n * Suc ?n < 2 ^ 33" by simp
  then have "unat s1 + unat x < 2 ^ 32" "unat s2 + (unat s1 + unat x) < 2 ^ 32" by simp_all
  then have eqs: "unat (s1 + ucast x) = unat s1 + unat x"
    "unat (s2 + (s1 + ucast x)) = unat s2 + (unat s1 + unat x)"
    by (simp_all add: unat_add_u32)
  have "nat_pair (fold adler_add xs (s1 + ucast x, s2 + (s1 + ucast x))) =
      adler_sum xs (unat s1 + unat x, unat s2 + (unat s1 + unat x))"
    using Cons.IH [of "s2 + (s1 + ucast x)" "s1 + ucast x"] small unfolding eqs by blast
  then show ?case by simp
qed

lemma adler_sixteen_fold:
  assumes "16 \<le> length buf"
  shows "adler_sixteen buf s = fold adler_add (take 16 buf) s"
proof -
  have "take 16 buf = map (nth buf) [0..<16]"
    using assms by (intro nth_equalityI) simp_all
  then show ?thesis by (simp add: adler_sixteen_def upt_rec numeral_eq_Suc)
qed

lemma adler_unrolled_fold:
  "16 * n \<le> length buf \<Longrightarrow> adler_unrolled n buf s = fold adler_add (take (16 * n) buf) s"
  by (induction n arbitrary: buf s) (simp_all add: adler_sixteen_fold take_add)

lemma adler_rest_fold: "n \<le> length buf \<Longrightarrow> adler_rest n buf s = fold adler_add (take n buf) s"
proof (induction n arbitrary: buf s)
  case (Suc n)
  then show ?case by (cases buf) simp_all
qed simp

lemma adler_block_fold:
  assumes "k \<le> length buf"
  shows "adler_rest (k mod 16) (drop (16 * (k div 16)) buf) (adler_unrolled (k div 16) buf s) =
    fold adler_add (take k buf) s"
proof -
  have "16 * (k div 16) + k mod 16 = k" by simp
  moreover from this assms have "16 * (k div 16) \<le> length buf" "k mod 16 \<le> length buf - 16 * (k div 16)"
    by linarith+
  ultimately show ?thesis
    using take_add [of "16 * (k div 16)" "k mod 16" buf]
    by (simp add: adler_unrolled_fold adler_rest_fold)
qed

lemma adler_block:
  assumes "length xs \<le> A32_NMAX" and "unat s1 \<le> 65535" "unat s2 \<le> 65535"
    and f: "fold adler_add xs (s1, s2) = (t1, t2)"
  shows "nat_pair (t1 mod A32_BASE, t2 mod A32_BASE) =
    adler_ref xs (unat s1 mod 65521, unat s2 mod 65521)"
proof -
  have len: "length xs \<le> 5552" using assms(1) by (simp add: A32_NMAX_def)
  have "2 * unat s2 + 2 * length xs * unat s1 + 255 * length xs * Suc (length xs) \<le>
      2 * 65535 + 2 * 5552 * 65535 + 255 * 5552 * 5553"
    using len assms(2,3) by (intro add_mono mult_mono) auto
  then have "nat_pair (t1, t2) = adler_sum xs (unat s1, unat s2)"
    using fold_adler_add [of s2 xs s1] f by simp
  then show ?thesis
    by (auto simp: adler_ref_sum nat_pair_def A32_BASE_def unat_mod map_prod_def split: prod.splits)
qed

lemma adler_loop_ref:
  assumes "unat s1 \<le> 65535" "unat s2 \<le> 65535" and "buf \<noteq> []"
  shows "nat_pair (adler_loop buf (s1, s2)) = adler_ref buf (unat s1, unat s2)"
  using assms
proof (induction "length buf" arbitrary: buf s1 s2 rule: less_induct)
  case less
  define k where "k = (if length buf < A32_NMAX then length buf else A32_NMAX)"
  have k: "0 < k" "k \<le> length buf" "k \<le> A32_NMAX"
    using less.prems(3) by (auto simp: k_def A32_NMAX_def)
  obtain t1 t2 where t: "fold adler_add (take k buf) (s1, s2) = (t1, t2)" by force
  let ?u1 = "t1 mod A32_BASE" and ?u2 = "t2 mod A32_BASE"
  have step: "adler_loop buf (s1, s2) = adler_loop (drop k buf) (?u1, ?u2)"
    using less.prems(3) adler_block_fold [OF k(2), of "(s1, s2)"] t
    by (subst adler_loop.simps) (simp add: Let_def flip: k_def)
  have ref: "nat_pair (?u1, ?u2) = adler_ref (take k buf) (unat s1, unat s2)"
    using adler_block [OF _ less.prems(1,2) t] k less.prems(3)
      adler_ref_mod [of "take k buf" "unat s1" "unat s2"] by simp
  have u: "unat ?u1 \<le> 65535" "unat ?u2 \<le> 65535"
    by (simp_all add: A32_BASE_def unat_mod less_imp_le_nat order_less_le_trans [OF mod_less_divisor])
  have whole: "adler_ref buf (unat s1, unat s2) = adler_ref (drop k buf) (unat ?u1, unat ?u2)"
    using adler_ref_append [of "take k buf" "drop k buf"] ref by (simp add: nat_pair_def)
  show ?case
  proof (cases "drop k buf = []")
    case True
    then show ?thesis using step whole by (subst step) (simp add: adler_loop.simps nat_pair_def)
  next
    case False
    with less.hyps [OF _ u False] k step whole show ?thesis by simp
  qed
qed

lemma adler_low: "unat (w AND 0xffff) = unat w mod 65536" for w :: u32
proof -
  have "w AND 0xffff = take_bit 16 w"
    by (simp add: take_bit_eq_mask mask_eq_exp_minus_1)
  then show ?thesis by (simp add: take_bit_eq_mod unat_mod)
qed

lemma adler_high: "unat (drop_bit 16 w) = unat w div 65536" for w :: u32
  by (simp add: drop_bit_eq_div unat_div)

lemma adler_halves: "unat w mod 65536 \<le> 65535" "unat w div 65536 \<le> 65535" for w :: u32
proof -
  have "unat w < 4294967296" by simp
  then show "unat w div 65536 \<le> 65535" by linarith
qed (simp add: less_Suc_eq_le [symmetric])

lemma adler_pack:
  fixes s1 s2 :: u32
  assumes "unat s1 < 65536" "unat s2 < 65536"
  shows "unat (push_bit 16 s2 OR s1) = 65536 * unat s2 + unat s1"
proof -
  have low: "take_bit 16 s1 = s1"
    using assms(1) by (simp add: word_unat_eq_iff unsigned_take_bit_eq take_bit_nat_eq_self_iff)
  have "\<not> bit s1 n" if "16 \<le> n" for n
    by (subst low [symmetric]) (use that in \<open>simp add: bit_take_bit_iff\<close>)
  then have "push_bit 16 s2 AND s1 = 0"
    by (intro bit_word_eqI) (auto simp: bit_and_iff bit_push_bit_iff)
  then have "push_bit 16 s2 OR s1 = push_bit 16 s2 + s1"
    by (simp add: disjunctive_add_eq_or)
  moreover have "unat (push_bit 16 s2) = 65536 * unat s2"
    using assms(2) by (simp add: push_bit_eq_mult unat_word_ariths)
  ultimately show ?thesis
    using assms by (simp add: unat_add_u32)
qed

lemma uzlib_adler32_Nil: "uzlib_adler32 [] prev = prev"
proof -
  have "unat (drop_bit 16 prev) < 65536" "unat (prev AND 0xffff) < 65536"
    using adler_halves [of prev] by (simp_all only: adler_low adler_high)
  then have "unat (uzlib_adler32 [] prev) = unat prev"
    by (simp add: uzlib_adler32_def adler_loop.simps adler_pack adler_low adler_high)
  then show ?thesis by (simp add: word_unat_eq_iff)
qed

lemma uzlib_adler32_parts:
  assumes "data \<noteq> []"
  shows "(unat (uzlib_adler32 data prev) mod 65536, unat (uzlib_adler32 data prev) div 65536) =
    adler_ref data (unat prev mod 65536, unat prev div 65536)"
proof -
  obtain t1 t2 where t: "adler_loop data (prev AND 0xffff, drop_bit 16 prev) = (t1, t2)" by force
  have "unat (prev AND 0xffff) \<le> 65535" "unat (drop_bit 16 prev) \<le> 65535"
    using adler_halves [of prev] unfolding adler_low adler_high by auto
  from adler_loop_ref [OF this assms] t
  have ref: "(unat t1, unat t2) = adler_ref data (unat prev mod 65536, unat prev div 65536)"
    by (simp add: nat_pair_def adler_low adler_high)
  have lt: "unat t1 < 65536" "unat t2 < 65536"
    using adler_ref_reduced [OF assms, of "(unat prev mod 65536, unat prev div 65536)"]
    by (simp_all only: fst_conv snd_conv flip: ref) linarith+
  then have "unat (uzlib_adler32 data prev) = 65536 * unat t2 + unat t1"
    using t by (simp add: uzlib_adler32_def adler_pack)
  with lt show ?thesis by (simp flip: ref)
qed

interpretation adler: incremental_checksum uzlib_adler32
proof unfold_locales
  fix xs ys s
  show "uzlib_adler32 (xs @ ys) s = uzlib_adler32 ys (uzlib_adler32 xs s)"
  proof (cases "xs = [] \<or> ys = []")
    case False
    let ?l = "uzlib_adler32 (xs @ ys) s" and ?r = "uzlib_adler32 ys (uzlib_adler32 xs s)"
    from False have "(unat ?l mod 65536, unat ?l div 65536) = (unat ?r mod 65536, unat ?r div 65536)"
      using uzlib_adler32_parts [of xs s] by (simp add: uzlib_adler32_parts adler_ref_append)
    then have "unat ?l = unat ?r"
      by (metis Pair_inject div_mult_mod_eq)
    then show ?thesis by (simp add: word_unat_eq_iff)
  qed (auto simp: uzlib_adler32_Nil)
qed (rule uzlib_adler32_Nil)

section \<open>Properties\<close>

text \<open>The nibble-table CRC-32 of uzlib is the bitwise reflected CRC with
  polynomial \<open>0xedb88320\<close>, each message byte entering by XOR and being shifted out bit by bit.\<close>

theorem uzlib_crc32_bitwise:
  "uzlib_crc32 buf crc = fold (\<lambda>b c. (crc32_shift ^^ 8) (c XOR ucast b)) buf crc"
  by (induction buf crc rule: uzlib_crc32.induct) (simp_all add: uzlib_crc32_byte_step)

text \<open>Property C19: for every data block and every running value, the deferred-modulo, unrolled
  Adler-32 loop on 32-bit words never wraps: its two halves are the sums of RFC 1950 reduced after
  every byte.\<close>

theorem uzlib_adler32_rfc1950:
  "(unat (uzlib_adler32 data prev) mod 65536, unat (uzlib_adler32 data prev) div 65536) =
    (if data = [] then (unat prev mod 65536, unat prev div 65536)
     else adler_ref data (unat prev mod 65536, unat prev div 65536))"
  by (simp add: uzlib_adler32_Nil uzlib_adler32_parts)

end
