(* ===== verification/Eboot_Command.thy ===== *)
theory Eboot_Command
  imports Checksums
begin

text \<open>
  The command block through which the running application tells the eboot boot loader what to do
  (\<open>eboot_command.c\<close>): a 32-word structure in RTC memory, protected by a magic number and a CRC.
  RTC memory is the array \<open>RTC_MEM\<close>, modelled as a function from word index to word.
\<close>

section \<open>The structure and its memory layout\<close>

record eboot_command =
  magic :: u32
  action :: u32
  args :: "u32 list"
  crc32 :: u32

definition ACTION_COPY_RAW :: u32 where "ACTION_COPY_RAW = 0x00000001"
definition ACTION_LOAD_APP :: u32 where "ACTION_LOAD_APP = 0xffffffff"
definition EBOOT_MAGIC :: u32 where "EBOOT_MAGIC = 0xeb001000"
definition EBOOT_MAGIC_MASK :: u32 where "EBOOT_MAGIC_MASK = 0xfffff000"

type_synonym rtc_mem = "nat \<Rightarrow> u32"

text \<open>\<open>args\<close> has 29 elements; the structure is 32 words, \<open>crc32\<close> at byte offset 124.\<close>

definition cmd_wf :: "eboot_command \<Rightarrow> bool" where
  "cmd_wf cmd \<longleftrightarrow> length (args cmd) = 29"

definition cmd_words :: "eboot_command \<Rightarrow> u32 list" where
  "cmd_words cmd = magic cmd # action cmd # args cmd @ [crc32 cmd]"

definition words_cmd :: "u32 list \<Rightarrow> eboot_command" where
  "words_cmd ws = \<lparr>magic = ws ! 0, action = ws ! 1, args = take 29 (drop 2 ws), crc32 = ws ! 31\<rparr>"

definition cmd_bytes :: "eboot_command \<Rightarrow> u8 list" where
  "cmd_bytes cmd = concat (map le32_bytes (cmd_words cmd))"

section \<open>Operations\<close>

definition eboot_command_calculate_crc32 :: "eboot_command \<Rightarrow> u32" where
  "eboot_command_calculate_crc32 cmd = crc_update 0xffffffff (take 124 (cmd_bytes cmd))"

definition eboot_command_read :: "rtc_mem \<Rightarrow> int \<times> eboot_command" where
  "eboot_command_read rtc =
     (let cmd = words_cmd (map rtc [0..<32]);
          crc = eboot_command_calculate_crc32 cmd
      in if magic cmd AND EBOOT_MAGIC_MASK \<noteq> EBOOT_MAGIC \<or> crc32 cmd \<noteq> crc then (1, cmd)
         else (0, cmd))"

primrec rtc_store :: "u32 list \<Rightarrow> nat \<Rightarrow> rtc_mem \<Rightarrow> rtc_mem" where
  "rtc_store [] i rtc = rtc"
| "rtc_store (w # ws) i rtc = rtc_store ws (Suc i) (rtc(i := w))"

definition eboot_command_write :: "eboot_command \<Rightarrow> rtc_mem \<Rightarrow> eboot_command \<times> rtc_mem" where
  "eboot_command_write cmd rtc =
     (let cmd = cmd\<lparr>magic := EBOOT_MAGIC\<rparr>;
          cmd = cmd\<lparr>crc32 := eboot_command_calculate_crc32 cmd\<rparr>
      in (cmd, rtc_store (cmd_words cmd) 0 rtc))"

definition eboot_command_clear :: "rtc_mem \<Rightarrow> rtc_mem" where
  "eboot_command_clear rtc = rtc(0 := 0, 31 := 0)"

section \<open>Layout lemmas\<close>

lemma length_cmd_words [simp]: "cmd_wf cmd \<Longrightarrow> length (cmd_words cmd) = 32"
  by (simp add: cmd_words_def cmd_wf_def)

lemma words_cmd_wf [simp]: "length ws = 32 \<Longrightarrow> cmd_wf (words_cmd ws)"
  by (simp add: words_cmd_def cmd_wf_def)

lemma words_cmd_words: "cmd_wf cmd \<Longrightarrow> words_cmd (cmd_words cmd) = cmd"
  by (simp add: words_cmd_def cmd_words_def cmd_wf_def nth_append)

lemma cmd_words_cmd:
  assumes "length ws = 32"
  shows "cmd_words (words_cmd ws) = ws"
proof (rule nth_equalityI)
  fix i assume "i < length (cmd_words (words_cmd ws))"
  then have "i < 32" using assms by simp
  then consider "i = 0" | "i = 1" | "2 \<le> i" "i < 31" | "i = 31" by linarith
  then show "cmd_words (words_cmd ws) ! i = ws ! i"
  proof cases
    case 3
    then obtain j where "i = Suc (Suc j)" by (metis add_2_eq_Suc le_Suc_ex)
    with 3 assms show ?thesis by (simp add: cmd_words_def words_cmd_def nth_append)
  qed (use assms in \<open>simp_all add: cmd_words_def words_cmd_def nth_append nth_Cons'\<close>)
qed (use assms in simp)

lemma length_concat_le32_bytes [simp]: "length (concat (map le32_bytes ws)) = 4 * length ws"
  by (induction ws) simp_all

lemma cmd_bytes_prefix:
  assumes "cmd_wf cmd"
  shows "take 124 (cmd_bytes cmd) = concat (map le32_bytes (magic cmd # action cmd # args cmd))"
proof -
  have "cmd_bytes cmd = concat (map le32_bytes (magic cmd # action cmd # args cmd)) @ le32_bytes (crc32 cmd)"
    by (simp add: cmd_bytes_def cmd_words_def)
  moreover have "length (concat (map le32_bytes (magic cmd # action cmd # args cmd))) = 124"
    using assms by (simp only: length_concat_le32_bytes) (simp add: cmd_wf_def)
  ultimately show ?thesis by simp
qed

lemma rtc_store_nth: "rtc_store ws i rtc j = (if i \<le> j \<and> j < i + length ws then ws ! (j - i) else rtc j)"
  by (induction ws arbitrary: i rtc) (auto simp: nth_Cons' Suc_le_eq)

lemma rtc_store_map: "length ws = n \<Longrightarrow> map (rtc_store ws 0 rtc) [0..<n] = ws"
  by (rule nth_equalityI) (simp_all add: rtc_store_nth)

lemma crc32_ignores_crc_field: "cmd_wf cmd \<Longrightarrow>
  eboot_command_calculate_crc32 (cmd\<lparr>crc32 := c\<rparr>) = eboot_command_calculate_crc32 cmd"
  by (simp add: eboot_command_calculate_crc32_def cmd_bytes_prefix cmd_wf_def)

definition cmd_valid :: "eboot_command \<Rightarrow> bool" where
  "cmd_valid cmd \<longleftrightarrow> magic cmd AND EBOOT_MAGIC_MASK = EBOOT_MAGIC \<and>
     crc32 cmd = eboot_command_calculate_crc32 cmd"

lemma read_valid: "fst (eboot_command_read rtc) = 0 \<longleftrightarrow> cmd_valid (words_cmd (map rtc [0..<32]))"
  by (simp add: eboot_command_read_def cmd_valid_def Let_def)

lemma read_cmd: "snd (eboot_command_read rtc) = words_cmd (map rtc [0..<32])"
  by (simp add: eboot_command_read_def Let_def)

lemma write_cmd:
  assumes "cmd_wf cmd"
  shows "snd (eboot_command_read (snd (eboot_command_write cmd rtc))) = fst (eboot_command_write cmd rtc)"
  using assms by (simp add: read_cmd eboot_command_write_def Let_def rtc_store_map words_cmd_words cmd_wf_def)

lemma write_valid: "cmd_wf cmd \<Longrightarrow> cmd_valid (fst (eboot_command_write cmd rtc))"
  by (simp add: eboot_command_write_def Let_def cmd_valid_def crc32_ignores_crc_field cmd_wf_def
      EBOOT_MAGIC_def EBOOT_MAGIC_MASK_def)

text \<open>
  A valid block in which one word is replaced is not valid: the CRC is an injective function of
  any run of four message bytes, and of itself.
\<close>

lemma one_word_corruption:
  assumes ws: "length ws = 32" and valid: "cmd_valid (words_cmd ws)"
    and i: "i < 32" and differs: "w \<noteq> ws ! i"
  shows "\<not> cmd_valid (words_cmd (ws[i := w]))"
proof
  assume valid': "cmd_valid (words_cmd (ws[i := w]))"
  have crc: "crc_update 0xffffffff (concat (map le32_bytes (take 31 vs))) = vs ! 31"
    if "length vs = 32" "cmd_valid (words_cmd vs)" for vs
  proof -
    have "magic (words_cmd vs) # action (words_cmd vs) # args (words_cmd vs) =
        butlast (cmd_words (words_cmd vs))"
      by (simp add: cmd_words_def)
    also have "\<dots> = take 31 vs"
      using that(1) by (simp add: cmd_words_cmd butlast_conv_take)
    finally have "magic (words_cmd vs) # action (words_cmd vs) # args (words_cmd vs) = take 31 vs" .
    moreover have "take 124 (cmd_bytes (words_cmd vs)) = concat (map le32_bytes
        (magic (words_cmd vs) # action (words_cmd vs) # args (words_cmd vs)))"
      using that(1) by (intro cmd_bytes_prefix) simp
    ultimately show ?thesis
      using that by (simp add: cmd_valid_def eboot_command_calculate_crc32_def words_cmd_def)
  qed
  show False
  proof (cases "i = 31")
    case True
    with crc [OF ws valid] crc [of "ws[i := w]"] ws valid' differs show False by simp
  next
    case False
    with i have i: "i < 31" by simp
    let ?pre = "concat (map le32_bytes (take i ws))"
      and ?post = "concat (map le32_bytes (take (30 - i) (drop (Suc i) ws)))"
    have split: "concat (map le32_bytes (take 31 vs)) =
        concat (map le32_bytes (take i vs)) @ le32_bytes (vs ! i) @
        concat (map le32_bytes (take (30 - i) (drop (Suc i) vs)))" if "length vs = 32" for vs :: "u32 list"
    proof -
      have "take 31 vs = take i vs @ vs ! i # take (30 - i) (drop (Suc i) vs)"
        using that i id_take_nth_drop [of i "take 31 vs"] by (simp add: drop_take min_def)
      then show ?thesis by simp
    qed
    from crc [OF ws valid] crc [of "ws[i := w]"] ws valid' i
    have "crc_update 0xffffffff (?pre @ le32_bytes (ws ! i) @ ?post) =
        crc_update 0xffffffff (?pre @ le32_bytes w @ ?post)"
      by (simp add: split)
    moreover have "le32_bytes (ws ! i) \<noteq> le32_bytes w" using differs by simp
    ultimately show False
      using eboot_crc.burst_detected [of "le32_bytes (ws ! i)" "le32_bytes w" "0xffffffff" ?pre ?post]
      by simp
  qed
qed

lemma read_written: "cmd_wf cmd \<Longrightarrow> fst (eboot_command_read (snd (eboot_command_write cmd rtc))) = 0"
  using write_valid [of cmd rtc] write_cmd [of cmd rtc] by (simp add: read_valid read_cmd)

lemma read_cleared: "fst (eboot_command_read (eboot_command_clear rtc)) = 1"
  by (simp add: eboot_command_read_def eboot_command_clear_def words_cmd_def EBOOT_MAGIC_def Let_def)

section \<open>Properties\<close>

text \<open>Property C13: a command written to RTC memory is read back, accepted, with the magic number
  and the CRC filled in and the action and the arguments unchanged.\<close>

theorem eboot_command_roundtrip:
  assumes "cmd_wf cmd"
  shows "eboot_command_read (snd (eboot_command_write cmd rtc)) = (0, fst (eboot_command_write cmd rtc))
    \<and> action (fst (eboot_command_write cmd rtc)) = action cmd
    \<and> args (fst (eboot_command_write cmd rtc)) = args cmd"
  using read_written [OF assms, of rtc] write_cmd [OF assms, of rtc]
  by (auto simp: prod_eq_iff) (auto simp: eboot_command_write_def Let_def)

definition sample_command :: eboot_command where
  "sample_command = \<lparr>magic = 0, action = ACTION_COPY_RAW, args = [0x100000, 0, 0x1000] @ replicate 26 7, crc32 = 0\<rparr>"

lemma sample_command_wf: "cmd_wf sample_command"
  by (simp add: sample_command_def cmd_wf_def)

theorem eboot_command_roundtrip_witness:
  "eboot_command_read (snd (eboot_command_write sample_command (\<lambda>_. 5))) =
     (0, fst (eboot_command_write sample_command (\<lambda>_. 5)))
    \<and> action (fst (eboot_command_write sample_command (\<lambda>_. 5))) = ACTION_COPY_RAW
    \<and> args (fst (eboot_command_write sample_command (\<lambda>_. 5))) ! 2 = 0x1000"
  using eboot_command_roundtrip [OF sample_command_wf, of "\<lambda>_. 5"] by (simp add: sample_command_def)

text \<open>Property C3: if a stored command is acceptable and exactly one of the 32 RTC words is then
  changed to any other value, the boot loader rejects the block.\<close>

theorem eboot_command_corruption_detected:
  assumes "fst (eboot_command_read rtc) = 0" and "i < 32" and "w \<noteq> rtc i"
  shows "fst (eboot_command_read (rtc(i := w))) = 1"
proof -
  have "map (rtc(i := w)) [0..<32] = (map rtc [0..<32])[i := w]"
    using assms(2) by (intro nth_equalityI) (auto simp: nth_list_update)
  moreover have "\<not> cmd_valid (words_cmd ((map rtc [0..<32])[i := w]))"
    using assms by (intro one_word_corruption) (simp_all add: read_valid)
  ultimately have "fst (eboot_command_read (rtc(i := w))) \<noteq> 0"
    by (simp add: read_valid)
  then show ?thesis by (simp add: eboot_command_read_def Let_def split: if_splits)
qed

theorem eboot_command_corruption_detected_witness:
  "fst (eboot_command_read ((snd (eboot_command_write sample_command (\<lambda>_. 5)))(2 := 0x200000))) = 1"
proof (rule eboot_command_corruption_detected)
  show "fst (eboot_command_read (snd (eboot_command_write sample_command (\<lambda>_. 5)))) = 0"
    by (rule read_written [OF sample_command_wf])
  show "0x200000 \<noteq> snd (eboot_command_write sample_command (\<lambda>_. 5)) 2"
    by (simp add: eboot_command_write_def sample_command_def rtc_store_nth cmd_words_def Let_def)
qed simp

end
