(* ===== verification/Uzlib_Inflate.thy ===== *)
theory Uzlib_Inflate
  imports Checksums
begin

text \<open>
  The decompressor of uzlib (\<open>tinflate.c\<close>): the byte source, the bit reader, the Huffman trees,
  the block decoders and the resumable driver \<open>uzlib_uncompress\<close>.

  \<^item> The pointers \<open>source\<close> and \<open>source_limit\<close> are the list of the bytes between them; the read
    callback is a function on its own state that returns the value, the new buffer and its state.
  \<^item> \<open>dest_start\<close> and \<open>dest\<close> are the list of the bytes written between them, \<open>dest_limit\<close> the
    distance from \<open>dest_start\<close>.
  \<^item> A result is \<open>Ret\<close> of the C return value, or \<open>Undef\<close> where the C code would index an array
    out of its range.
  The build is the default one: tables are constants (no \<open>RUNTIME_BITS_TABLES\<close>), no paranoid
  checks, no \<open>memcpy\<close>.
\<close>

section \<open>Result codes, trees and the decompressor state\<close>

datatype c_result = Ret int | Undef

definition TINF_OK :: int where "TINF_OK = 0"
definition TINF_DONE :: int where "TINF_DONE = 1"
definition TINF_DATA_ERROR :: int where "TINF_DATA_ERROR = - 3"
definition TINF_CHKSUM_ERROR :: int where "TINF_CHKSUM_ERROR = - 4"
definition TINF_DICT_ERROR :: int where "TINF_DICT_ERROR = - 5"

definition TINF_CHKSUM_NONE :: nat where "TINF_CHKSUM_NONE = 0"
definition TINF_CHKSUM_ADLER :: nat where "TINF_CHKSUM_ADLER = 1"
definition TINF_CHKSUM_CRC :: nat where "TINF_CHKSUM_CRC = 2"

lemmas tinf_codes = TINF_OK_def TINF_DONE_def TINF_DATA_ERROR_def TINF_CHKSUM_ERROR_def
  TINF_DICT_ERROR_def

record tinf_tree =
  table :: "nat list"
  trans :: "nat list"

record 'c uncomp =
  source :: "u8 list"
  source_read_cb :: "('c \<Rightarrow> int \<times> u8 list \<times> 'c) option"
  cb_state :: 'c
  tag :: u32
  bitcount :: nat
  dest :: "u8 list"
  dest_limit :: nat
  checksum :: u32
  checksum_type :: nat
  eof :: bool
  btype :: int
  bfinal :: nat
  curlen :: nat
  lzOff :: int
  dict_ring :: "u8 list option"
  dict_size :: nat
  dict_idx :: nat
  ltree :: tinf_tree
  dtree :: tinf_tree

definition length_bits :: "nat list" where
  "length_bits =
    [0, 0, 0, 0, 0, 0, 0, 0,
     1, 1, 1, 1, 2, 2, 2, 2,
     3, 3, 3, 3, 4, 4, 4, 4,
     5, 5, 5, 5, 0, 0]"

definition length_base :: "nat list" where
  "length_base =
    [3, 4, 5, 6, 7, 8, 9, 10,
     11, 13, 15, 17, 19, 23, 27, 31,
     35, 43, 51, 59, 67, 83, 99, 115,
     131, 163, 195, 227, 258, 0]"

definition dist_bits :: "nat list" where
  "dist_bits =
    [0, 0, 0, 0, 1, 1, 2, 2,
     3, 3, 4, 4, 5, 5, 6, 6,
     7, 7, 8, 8, 9, 9, 10, 10,
     11, 11, 12, 12, 13, 13]"

definition dist_base :: "nat list" where
  "dist_base =
    [1, 2, 3, 4, 5, 7, 9, 13,
     17, 25, 33, 49, 65, 97, 129, 193,
     257, 385, 513, 769, 1025, 1537, 2049, 3073,
     4097, 6145, 8193, 12289, 16385, 24577]"

definition clcidx :: "nat list" where
  "clcidx =
    [16, 17, 18, 0, 8, 7, 9, 6,
     10, 5, 11, 4, 12, 3, 13, 2,
     14, 1, 15]"

section \<open>Trees\<close>

text \<open>\<open>for (i = 0; i < n; ++i) a[off + i] = f(i);\<close>\<close>

definition for_set :: "nat \<Rightarrow> nat \<Rightarrow> (nat \<Rightarrow> 'a) \<Rightarrow> 'a list \<Rightarrow> 'a list" where
  "for_set off n f a = fold (\<lambda>i a. a[off + i := f i]) [0..<n] a"

definition tinf_build_fixed_trees :: "tinf_tree \<Rightarrow> tinf_tree \<Rightarrow> tinf_tree \<times> tinf_tree" where
  "tinf_build_fixed_trees lt dt =
     (let lt = lt\<lparr>table := (for_set 0 7 (\<lambda>i. 0) (table lt))[7 := 24, 8 := 152, 9 := 112]\<rparr>;
          lt = lt\<lparr>trans := for_set 0 24 (\<lambda>i. 256 + i) (trans lt)\<rparr>;
          lt = lt\<lparr>trans := for_set 24 144 (\<lambda>i. i) (trans lt)\<rparr>;
          lt = lt\<lparr>trans := for_set (24 + 144) 8 (\<lambda>i. 280 + i) (trans lt)\<rparr>;
          lt = lt\<lparr>trans := for_set (24 + 144 + 8) 112 (\<lambda>i. 144 + i) (trans lt)\<rparr>;
          dt = dt\<lparr>table := (for_set 0 5 (\<lambda>i. 0) (table dt))[5 := 32]\<rparr>;
          dt = dt\<lparr>trans := for_set 0 32 (\<lambda>i. i) (trans dt)\<rparr>
      in (lt, dt))"

definition count_lengths :: "nat list \<Rightarrow> nat \<Rightarrow> nat list \<Rightarrow> nat list" where
  "count_lengths lengths num tbl =
     fold (\<lambda>i tbl. tbl[lengths ! i := tbl ! (lengths ! i) + 1]) [0..<num] tbl"

text \<open>The offset table: \<open>offs[i] = sum; sum += t->table[i];\<close> for the 16 code lengths.\<close>

fun offsets_from :: "nat \<Rightarrow> nat list \<Rightarrow> nat list" where
  "offsets_from acc [] = []"
| "offsets_from acc (n # tbl) = acc # offsets_from (acc + n) tbl"

definition sort_symbols :: "nat list \<Rightarrow> nat \<Rightarrow> nat list \<times> nat list \<Rightarrow> nat list \<times> nat list" where
  "sort_symbols lengths num st =
     fold (\<lambda>i (trans, offs). if lengths ! i \<noteq> 0
             then (trans[offs ! (lengths ! i) := i],
                   offs[lengths ! i := offs ! (lengths ! i) + 1])
             else (trans, offs)) [0..<num] st"

definition tinf_build_tree :: "tinf_tree \<Rightarrow> nat list \<Rightarrow> nat \<Rightarrow> tinf_tree" where
  "tinf_build_tree t lengths num =
     (let tbl = for_set 0 16 (\<lambda>i. 0) (table t);
          tbl = count_lengths lengths num tbl;
          tbl = tbl[0 := 0];
          offs = offsets_from 0 tbl;
          (trn, offs) = sort_symbols lengths num (trans t, offs)
      in t\<lparr>table := tbl, trans := trn\<rparr>)"

section \<open>Bytes and bits\<close>

definition uzlib_get_byte :: "'c uncomp \<Rightarrow> u8 \<times> 'c uncomp" where
  "uzlib_get_byte d =
     (case source d of
        b # bs \<Rightarrow> (b, d\<lparr>source := bs\<rparr>)
      | [] \<Rightarrow>
        (case source_read_cb d of
           Some cb \<Rightarrow>
             if \<not> eof d then
               (let (val, src, c) = cb (cb_state d);
                    d = d\<lparr>source := src, cb_state := c\<rparr>
                in if val \<ge> 0 then (word_of_int val, d) else (0, d\<lparr>eof := True\<rparr>))
             else (0, d\<lparr>eof := True\<rparr>)
         | None \<Rightarrow> (0, d\<lparr>eof := True\<rparr>)))"

text \<open>\<open>for (i = 4; i--;)\<close> with the running value.\<close>

primrec get_le_loop :: "nat \<Rightarrow> u32 \<Rightarrow> 'c uncomp \<Rightarrow> u32 \<times> 'c uncomp" where
  "get_le_loop 0 val d = (val, d)"
| "get_le_loop (Suc i) val d =
     (let (b, d) = uzlib_get_byte d
      in get_le_loop i (drop_bit 8 val OR push_bit 24 (ucast b)) d)"

definition tinf_get_le_uint32 :: "'c uncomp \<Rightarrow> u32 \<times> 'c uncomp" where
  "tinf_get_le_uint32 d = get_le_loop 4 0 d"

primrec get_be_loop :: "nat \<Rightarrow> u32 \<Rightarrow> 'c uncomp \<Rightarrow> u32 \<times> 'c uncomp" where
  "get_be_loop 0 val d = (val, d)"
| "get_be_loop (Suc i) val d =
     (let (b, d) = uzlib_get_byte d in get_be_loop i (push_bit 8 val OR ucast b) d)"

definition tinf_get_be_uint32 :: "'c uncomp \<Rightarrow> u32 \<times> 'c uncomp" where
  "tinf_get_be_uint32 d = get_be_loop 4 0 d"

definition tinf_getbit :: "'c uncomp \<Rightarrow> nat \<times> 'c uncomp" where
  "tinf_getbit d =
     (let d = (if bitcount d = 0 then
                 let (b, d) = uzlib_get_byte d in d\<lparr>tag := ucast b, bitcount := 7\<rparr>
               else d\<lparr>bitcount := bitcount d - 1\<rparr>)
      in (unat (tag d AND 1), d\<lparr>tag := drop_bit 1 (tag d)\<rparr>))"

text \<open>The loop \<open>for (mask = 1; mask < limit; mask *= 2)\<close> runs \<open>num\<close> times, as \<open>limit = 1 << num\<close>.\<close>

primrec read_bits_loop :: "nat \<Rightarrow> nat \<Rightarrow> nat \<Rightarrow> 'c uncomp \<Rightarrow> nat \<times> 'c uncomp" where
  "read_bits_loop 0 msk val d = (val, d)"
| "read_bits_loop (Suc n) msk val d =
     (let (b, d) = tinf_getbit d
      in read_bits_loop n (msk * 2) (if b \<noteq> 0 then val + msk else val) d)"

definition tinf_read_bits :: "'c uncomp \<Rightarrow> nat \<Rightarrow> nat \<Rightarrow> nat \<times> 'c uncomp" where
  "tinf_read_bits d num base =
     (let (val, d) = read_bits_loop num 1 0 d in (val + base, d))"

text \<open>
  The \<open>do\<close> loop of \<open>tinf_decode_symbol\<close>; \<open>len\<close> starts at 0 and the loop leaves with an error
  when it reaches the size 16 of the table.
\<close>

function decode_loop ::
  "tinf_tree \<Rightarrow> int \<Rightarrow> int \<Rightarrow> nat \<Rightarrow> 'c uncomp \<Rightarrow> c_result \<times> 'c uncomp" where
  "decode_loop t sm cur len d =
     (let (b, d) = tinf_getbit d;
          cur = 2 * cur + int b;
          len = len + 1
      in if len \<ge> 16 then (Ret TINF_DATA_ERROR, d)
         else let sm = sm + int (table t ! len);
                  cur = cur - int (table t ! len)
              in if cur \<ge> 0 then decode_loop t sm cur len d
                 else let sm = sm + cur
                      in if 0 \<le> sm \<and> sm < 288 then (Ret (int (trans t ! nat sm)), d)
                         else (Undef, d))"
  by pat_completeness auto
termination
  by (relation "measure (\<lambda>(t, sm, cur, len, d). 16 - len)") auto

declare decode_loop.simps [simp del]

definition tinf_decode_symbol :: "'c uncomp \<Rightarrow> tinf_tree \<Rightarrow> c_result \<times> 'c uncomp" where
  "tinf_decode_symbol d t = decode_loop t 0 0 0 d"

lemma read_bits_loop_ge: "val \<le> fst (read_bits_loop n msk val d)"
proof (induction n arbitrary: msk val d)
  case (Suc n)
  obtain b e where "tinf_getbit d = (b, e)" by force
  moreover have "val \<le> fst (read_bits_loop n (msk * 2) (if b \<noteq> 0 then val + msk else val) e)"
    using Suc [of "if b \<noteq> 0 then val + msk else val" "msk * 2" e] by (simp split: if_splits)
  ultimately show ?case by simp
qed simp

lemma tinf_read_bits_ge: "base \<le> fst (tinf_read_bits d num base)"
  by (simp add: tinf_read_bits_def split: prod.splits)

lemma read_bits_ge: "(v, e) = tinf_read_bits d num base \<Longrightarrow> base \<le> v"
  using tinf_read_bits_ge [of base d num] by (metis fst_conv)

section \<open>Dynamic trees\<close>

text \<open>
  The code lengths read for the dynamic trees.  The array \<open>lengths\<close> has 320 entries; the loop runs
  while \<open>num < hlimit\<close>, and the symbols 16 to 18 repeat a length.
\<close>

function decode_lengths ::
  "nat \<Rightarrow> nat \<Rightarrow> nat list \<Rightarrow> tinf_tree \<Rightarrow> 'c uncomp \<Rightarrow> c_result \<times> nat list \<times> 'c uncomp" where
  "decode_lengths hlimit num lengths lt d =
     (if num < hlimit then
        case tinf_decode_symbol d lt of
          (Undef, d) \<Rightarrow> (Undef, lengths, d)
        | (Ret sy, d) \<Rightarrow>
            if sy < 0 then (Ret sy, lengths, d)
            else if sy = 16 \<and> num = 0 then (Ret TINF_DATA_ERROR, lengths, d)
            else if sy = 16 \<or> sy = 17 \<or> sy = 18 then
              (let fill_value = (if sy = 16 then lengths ! (num - 1) else 0);
                   lbits = (if sy = 16 then 2 else if sy = 17 then 3 else 7);
                   lbase = (if sy = 18 then 11 else 3);
                   (len, d) = tinf_read_bits d lbits lbase
               in if num + len > hlimit then (Ret TINF_DATA_ERROR, lengths, d)
                  else decode_lengths hlimit (num + len) (for_set num len (\<lambda>_. fill_value) lengths) lt d)
            else decode_lengths hlimit (num + 1) (lengths[num := nat sy]) lt d
      else (Ret TINF_OK, lengths, d))"
  by pat_completeness auto
termination
  by (relation "measure (\<lambda>(hlimit, num, lengths, lt, d). hlimit - num)")
     (auto dest!: read_bits_ge split: if_splits)

declare decode_lengths.simps [simp del]

definition read_clens :: "nat \<Rightarrow> nat list \<Rightarrow> 'c uncomp \<Rightarrow> nat list \<times> 'c uncomp" where
  "read_clens hclen lengths d =
     fold (\<lambda>i (lengths, d). let (clen, d) = tinf_read_bits d 3 0
             in (lengths[clcidx ! i := clen], d)) [0..<hclen] (lengths, d)"

text \<open>
  \<open>tinf_decode_trees(d, &d->ltree, &d->dtree)\<close>: the only call passes the decompressor's own trees,
  so they are read from and written to the state.
\<close>

definition tinf_decode_trees :: "'c uncomp \<Rightarrow> c_result \<times> 'c uncomp" where
  "tinf_decode_trees d =
     (let (hlit, d) = tinf_read_bits d 5 257;
          (hdist, d) = tinf_read_bits d 5 1;
          (hclen, d) = tinf_read_bits d 4 4;
          lengths = for_set 0 19 (\<lambda>i. 0) (replicate (288 + 32) 0);
          (lengths, d) = read_clens hclen lengths d;
          d = d\<lparr>ltree := tinf_build_tree (ltree d) lengths 19\<rparr>;
          (res, lengths, d) = decode_lengths (hlit + hdist) 0 lengths (ltree d) d
      in if res \<noteq> Ret TINF_OK then (res, d)
         else let d = d\<lparr>ltree := tinf_build_tree (ltree d) lengths hlit\<rparr>;
                  d = d\<lparr>dtree := tinf_build_tree (dtree d) (drop hlit lengths) hdist\<rparr>
              in (Ret TINF_OK, d))"

section \<open>Blocks\<close>

text \<open>The macro \<open>TINF_PUT\<close>: append to the output and, with a dictionary, to the ring.\<close>

definition TINF_PUT :: "'c uncomp \<Rightarrow> u8 \<Rightarrow> 'c uncomp" where
  "TINF_PUT d c =
     (let d = d\<lparr>dest := dest d @ [c]\<rparr>
      in case dict_ring d of
           None \<Rightarrow> d
         | Some ring \<Rightarrow>
             let d = d\<lparr>dict_ring := Some (ring[dict_idx d := c]), dict_idx := dict_idx d + 1\<rparr>
             in if dict_idx d = dict_size d then d\<lparr>dict_idx := 0\<rparr> else d)"

text \<open>The second half of \<open>tinf_inflate_block_data\<close>: copy the next byte of the match.\<close>

definition copy_match_byte :: "'c uncomp \<Rightarrow> c_result \<times> 'c uncomp" where
  "copy_match_byte d =
     (case dict_ring d of
        Some ring \<Rightarrow>
          if 0 \<le> lzOff d \<and> lzOff d < int (length ring) then
            (let d = TINF_PUT d (ring ! nat (lzOff d));
                 d = d\<lparr>lzOff := lzOff d + 1\<rparr>;
                 d = (if lzOff d = int (dict_size d) then d\<lparr>lzOff := 0\<rparr> else d)
             in (Ret TINF_OK, d\<lparr>curlen := curlen d - 1\<rparr>))
          else (Undef, d)
      | None \<Rightarrow>
          (let i = int (length (dest d)) + lzOff d
           in if 0 \<le> i \<and> i < int (length (dest d)) then
                let d = d\<lparr>dest := dest d @ [dest d ! nat i]\<rparr>
                in (Ret TINF_OK, d\<lparr>curlen := curlen d - 1\<rparr>)
              else (Undef, d)))"

text \<open>The distance part: validate the offset and set \<open>lzOff\<close>.\<close>

definition set_lz_offset :: "nat \<Rightarrow> 'c uncomp \<Rightarrow> c_result \<times> 'c uncomp" where
  "set_lz_offset offs d =
     (case dict_ring d of
        Some ring \<Rightarrow>
          if offs > dict_size d then (Ret TINF_DICT_ERROR, d)
          else let d = d\<lparr>lzOff := int (dict_idx d) - int offs\<rparr>;
                   d = (if lzOff d < 0 then d\<lparr>lzOff := lzOff d + int (dict_size d)\<rparr> else d)
               in (Ret TINF_OK, d)
      | None \<Rightarrow>
          if offs > length (dest d) then (Ret TINF_DATA_ERROR, d)
          else (Ret TINF_OK, d\<lparr>lzOff := - int offs\<rparr>))"

definition tinf_inflate_block_data :: "'c uncomp \<Rightarrow> c_result \<times> 'c uncomp" where
  "tinf_inflate_block_data d =
     (if curlen d = 0 then
        case tinf_decode_symbol d (ltree d) of
          (Undef, d) \<Rightarrow> (Undef, d)
        | (Ret sy, d) \<Rightarrow>
            if eof d then (Ret TINF_DATA_ERROR, d)
            else if sy < 256 then (Ret TINF_OK, TINF_PUT d (word_of_int sy))
            else if sy = 256 then (Ret TINF_DONE, d)
            else
              let sy = sy - 257
              in if sy \<ge> 29 then (Ret TINF_DATA_ERROR, d)
                 else
                   let (len, d) = tinf_read_bits d (length_bits ! nat sy) (length_base ! nat sy);
                       d = d\<lparr>curlen := len\<rparr>
                   in case tinf_decode_symbol d (dtree d) of
                        (Undef, d) \<Rightarrow> (Undef, d)
                      | (Ret dist, d) \<Rightarrow>
                          if dist \<ge> 30 then (Ret TINF_DATA_ERROR, d)
                          else if dist < 0 then (Undef, d)
                          else
                            let (offs, d) = tinf_read_bits d (dist_bits ! nat dist) (dist_base ! nat dist);
                                (res, d) = set_lz_offset offs d
                            in if res \<noteq> Ret TINF_OK then (res, d) else copy_match_byte d
      else copy_match_byte d)"

definition tinf_inflate_uncompressed_block :: "'c uncomp \<Rightarrow> c_result \<times> 'c uncomp" where
  "tinf_inflate_uncompressed_block d =
     (let (ok, d) =
        (if curlen d = 0 then
           let (b0, d) = uzlib_get_byte d;
               (b1, d) = uzlib_get_byte d;
               len = unat b0 + 256 * unat b1;
               (b2, d) = uzlib_get_byte d;
               (b3, d) = uzlib_get_byte d;
               invlen = unat b2 + 256 * unat b3
           in if of_nat len \<noteq> NOT (of_nat invlen :: u32) AND 0x0000ffff then (False, d)
              else (True, d\<lparr>curlen := len + 1, bitcount := 0\<rparr>)
         else (True, d))
      in if \<not> ok then (Ret TINF_DATA_ERROR, d)
         else
           let d = d\<lparr>curlen := curlen d - 1\<rparr>
           in if curlen d = 0 then (Ret TINF_DONE, d)
              else let (c, d) = uzlib_get_byte d in (Ret TINF_OK, TINF_PUT d c))"

section \<open>The driver\<close>

definition uzlib_uncompress_init :: "'c uncomp \<Rightarrow> u8 list option \<Rightarrow> nat \<Rightarrow> 'c uncomp" where
  "uzlib_uncompress_init d dict dictLen =
     d\<lparr>eof := False, bitcount := 0, bfinal := 0, btype := - 1, dict_size := dictLen,
        dict_ring := dict, dict_idx := 0, curlen := 0\<rparr>"

text \<open>The code from the label \<open>next_blk\<close> to the end of the block start.\<close>

definition start_block :: "'c uncomp \<Rightarrow> c_result \<times> 'c uncomp" where
  "start_block d =
     (let old_btype = btype d;
          (b, d) = tinf_getbit d;
          d = d\<lparr>bfinal := b\<rparr>;
          (ty, d) = tinf_read_bits d 2 0;
          d = d\<lparr>btype := int ty\<rparr>
      in if btype d = 1 \<and> old_btype \<noteq> 1 then
           let (lt, dt) = tinf_build_fixed_trees (ltree d) (dtree d)
           in (Ret TINF_OK, d\<lparr>ltree := lt, dtree := dt\<rparr>)
         else if btype d = 2 then tinf_decode_trees d
         else (Ret TINF_OK, d))"

definition process_block :: "'c uncomp \<Rightarrow> c_result \<times> 'c uncomp" where
  "process_block d =
     (if btype d = 0 then tinf_inflate_uncompressed_block d
      else if btype d = 1 \<or> btype d = 2 then tinf_inflate_block_data d
      else (Ret TINF_DATA_ERROR, d))"

text \<open>
  The \<open>do\<close> loop of \<open>uzlib_uncompress\<close>.  The flag says whether control is at the label
  \<open>next_blk\<close>; the fuel bounds the number of block steps, each of which writes one byte or ends a
  block.  \<open>None\<close> means the fuel ran out.
\<close>

fun uncompress_loop :: "nat \<Rightarrow> bool \<Rightarrow> 'c uncomp \<Rightarrow> (c_result \<times> 'c uncomp) option" where
  "uncompress_loop 0 next_blk d = None"
| "uncompress_loop (Suc fuel) next_blk d =
     (let (res, d) = (if next_blk \<or> btype d = - 1 then start_block d else (Ret TINF_OK, d))
      in if res \<noteq> Ret TINF_OK then Some (res, d)
         else
           let (res, d) = process_block d
           in if res = Ret TINF_DONE \<and> bfinal d = 0 then uncompress_loop fuel True d
              else if res \<noteq> Ret TINF_OK then Some (res, d)
              else if length (dest d) < dest_limit d then uncompress_loop fuel False d
              else Some (Ret TINF_OK, d))"

definition uzlib_uncompress :: "nat \<Rightarrow> 'c uncomp \<Rightarrow> (c_result \<times> 'c uncomp) option" where
  "uzlib_uncompress fuel d = uncompress_loop fuel False d"

definition uzlib_uncompress_chksum :: "nat \<Rightarrow> 'c uncomp \<Rightarrow> (c_result \<times> 'c uncomp) option" where
  "uzlib_uncompress_chksum fuel d =
     (let start = length (dest d)
      in case uzlib_uncompress fuel d of
           None \<Rightarrow> None
         | Some (Undef, d) \<Rightarrow> Some (Undef, d)
         | Some (Ret res, d) \<Rightarrow>
             if res < 0 then Some (Ret res, d)
             else
               let out = drop start (dest d);
                   d = (if checksum_type d = TINF_CHKSUM_ADLER
                          then d\<lparr>checksum := uzlib_adler32 out (checksum d)\<rparr>
                        else if checksum_type d = TINF_CHKSUM_CRC
                          then d\<lparr>checksum := uzlib_crc32 out (checksum d)\<rparr>
                        else d)
               in if res = TINF_DONE then
                    if checksum_type d = TINF_CHKSUM_ADLER then
                      let (val, d) = tinf_get_be_uint32 d
                      in if checksum d \<noteq> val then Some (Ret TINF_CHKSUM_ERROR, d) else Some (Ret res, d)
                    else if checksum_type d = TINF_CHKSUM_CRC then
                      let (val, d) = tinf_get_le_uint32 d
                      in if NOT (checksum d) \<noteq> val then Some (Ret TINF_CHKSUM_ERROR, d)
                         else let (val, d) = tinf_get_le_uint32 d in Some (Ret res, d)
                    else Some (Ret res, d)
                  else Some (Ret res, d))"

end
