(* ===== verification/Uzlib_Deflate.thy ===== *)
theory Uzlib_Deflate
  imports Uzlib_Inflate
begin

text \<open>
  The static-Huffman deflate encoder of uzlib (\<open>defl_static.c\<close>): the bit output buffer, the code
  tables and the emission of literals, matches and block delimiters.  A failed \<open>assert\<close> is
  \<open>None\<close>.  \<open>unsigned long\<close> has 32 bits, as on the ESP8266.
\<close>

section \<open>Output buffer\<close>

record out_buf =
  outbuf :: "u8 list"
  outsize :: nat
  ob_outbits :: u32
  noutbits :: nat
  comp_disabled :: bool

text \<open>The \<open>while\<close> loop of \<open>outbits\<close>; \<open>outlen\<close> is the length of the list \<open>outbuf\<close>.\<close>

function flush_bytes :: "out_buf \<Rightarrow> out_buf" where
  "flush_bytes out =
     (if noutbits out \<ge> 8 then
        let out = (if length (outbuf out) \<ge> outsize out
                   then out\<lparr>outsize := length (outbuf out) + 64\<rparr> else out);
            out = out\<lparr>outbuf := outbuf out @ [ucast (ob_outbits out AND 0xFF)]\<rparr>
        in flush_bytes (out\<lparr>ob_outbits := drop_bit 8 (ob_outbits out), noutbits := noutbits out - 8\<rparr>)
      else out)"
  by pat_completeness auto
termination
  by (relation "measure noutbits") (auto simp: Let_def)

declare flush_bytes.simps [simp del]

definition outbits :: "out_buf \<Rightarrow> u32 \<Rightarrow> nat \<Rightarrow> out_buf option" where
  "outbits out bits nbits =
     (if noutbits out + nbits \<le> 32 then
        let out = out\<lparr>ob_outbits := ob_outbits out OR push_bit (noutbits out) bits\<rparr>;
            out = out\<lparr>noutbits := noutbits out + nbits\<rparr>
        in Some (flush_bytes out)
      else None)"

section \<open>Tables\<close>

definition mirrorbytes :: "u8 list" where
  "mirrorbytes =
    [
     0x00, 0x80, 0x40, 0xc0, 0x20, 0xa0, 0x60, 0xe0,
     0x10, 0x90, 0x50, 0xd0, 0x30, 0xb0, 0x70, 0xf0,
     0x08, 0x88, 0x48, 0xc8, 0x28, 0xa8, 0x68, 0xe8,
     0x18, 0x98, 0x58, 0xd8, 0x38, 0xb8, 0x78, 0xf8,
     0x04, 0x84, 0x44, 0xc4, 0x24, 0xa4, 0x64, 0xe4,
     0x14, 0x94, 0x54, 0xd4, 0x34, 0xb4, 0x74, 0xf4,
     0x0c, 0x8c, 0x4c, 0xcc, 0x2c, 0xac, 0x6c, 0xec,
     0x1c, 0x9c, 0x5c, 0xdc, 0x3c, 0xbc, 0x7c, 0xfc,
     0x02, 0x82, 0x42, 0xc2, 0x22, 0xa2, 0x62, 0xe2,
     0x12, 0x92, 0x52, 0xd2, 0x32, 0xb2, 0x72, 0xf2,
     0x0a, 0x8a, 0x4a, 0xca, 0x2a, 0xaa, 0x6a, 0xea,
     0x1a, 0x9a, 0x5a, 0xda, 0x3a, 0xba, 0x7a, 0xfa,
     0x06, 0x86, 0x46, 0xc6, 0x26, 0xa6, 0x66, 0xe6,
     0x16, 0x96, 0x56, 0xd6, 0x36, 0xb6, 0x76, 0xf6,
     0x0e, 0x8e, 0x4e, 0xce, 0x2e, 0xae, 0x6e, 0xee,
     0x1e, 0x9e, 0x5e, 0xde, 0x3e, 0xbe, 0x7e, 0xfe,
     0x01, 0x81, 0x41, 0xc1, 0x21, 0xa1, 0x61, 0xe1,
     0x11, 0x91, 0x51, 0xd1, 0x31, 0xb1, 0x71, 0xf1,
     0x09, 0x89, 0x49, 0xc9, 0x29, 0xa9, 0x69, 0xe9,
     0x19, 0x99, 0x59, 0xd9, 0x39, 0xb9, 0x79, 0xf9,
     0x05, 0x85, 0x45, 0xc5, 0x25, 0xa5, 0x65, 0xe5,
     0x15, 0x95, 0x55, 0xd5, 0x35, 0xb5, 0x75, 0xf5,
     0x0d, 0x8d, 0x4d, 0xcd, 0x2d, 0xad, 0x6d, 0xed,
     0x1d, 0x9d, 0x5d, 0xdd, 0x3d, 0xbd, 0x7d, 0xfd,
     0x03, 0x83, 0x43, 0xc3, 0x23, 0xa3, 0x63, 0xe3,
     0x13, 0x93, 0x53, 0xd3, 0x33, 0xb3, 0x73, 0xf3,
     0x0b, 0x8b, 0x4b, 0xcb, 0x2b, 0xab, 0x6b, 0xeb,
     0x1b, 0x9b, 0x5b, 0xdb, 0x3b, 0xbb, 0x7b, 0xfb,
     0x07, 0x87, 0x47, 0xc7, 0x27, 0xa7, 0x67, 0xe7,
     0x17, 0x97, 0x57, 0xd7, 0x37, 0xb7, 0x77, 0xf7,
     0x0f, 0x8f, 0x4f, 0xcf, 0x2f, 0xaf, 0x6f, 0xef,
     0x1f, 0x9f, 0x5f, 0xdf, 0x3f, 0xbf, 0x7f, 0xff]"

record len_coderecord =
  lextrabits :: nat
  lmin :: nat
  lmax :: nat

record dist_coderecord =
  code :: nat
  dextrabits :: nat
  dmin :: nat
  dmax :: nat

definition TO_LCODE :: "nat \<Rightarrow> nat \<Rightarrow> nat \<Rightarrow> len_coderecord" where
  "TO_LCODE e x y = \<lparr>lextrabits = e, lmin = x - 3, lmax = y - 3\<rparr>"

definition FROM_LCODE :: "nat \<Rightarrow> nat" where
  "FROM_LCODE x = x + 3"

definition DCODE :: "nat \<Rightarrow> nat \<Rightarrow> nat \<Rightarrow> nat \<Rightarrow> dist_coderecord" where
  "DCODE c e x y = \<lparr>code = c, dextrabits = e, dmin = x, dmax = y\<rparr>"

definition lencodes :: "len_coderecord list" where
  "lencodes =
    [TO_LCODE 0 3 3,
     TO_LCODE 0 4 4,
     TO_LCODE 0 5 5,
     TO_LCODE 0 6 6,
     TO_LCODE 0 7 7,
     TO_LCODE 0 8 8,
     TO_LCODE 0 9 9,
     TO_LCODE 0 10 10,
     TO_LCODE 1 11 12,
     TO_LCODE 1 13 14,
     TO_LCODE 1 15 16,
     TO_LCODE 1 17 18,
     TO_LCODE 2 19 22,
     TO_LCODE 2 23 26,
     TO_LCODE 2 27 30,
     TO_LCODE 2 31 34,
     TO_LCODE 3 35 42,
     TO_LCODE 3 43 50,
     TO_LCODE 3 51 58,
     TO_LCODE 3 59 66,
     TO_LCODE 4 67 82,
     TO_LCODE 4 83 98,
     TO_LCODE 4 99 114,
     TO_LCODE 4 115 130,
     TO_LCODE 5 131 162,
     TO_LCODE 5 163 194,
     TO_LCODE 5 195 226,
     TO_LCODE 5 227 257,
     TO_LCODE 0 258 258]"

definition distcodes :: "dist_coderecord list" where
  "distcodes =
    [DCODE 0 0 1 1,
     DCODE 1 0 2 2,
     DCODE 2 0 3 3,
     DCODE 3 0 4 4,
     DCODE 4 1 5 6,
     DCODE 5 1 7 8,
     DCODE 6 2 9 12,
     DCODE 7 2 13 16,
     DCODE 8 3 17 24,
     DCODE 9 3 25 32,
     DCODE 10 4 33 48,
     DCODE 11 4 49 64,
     DCODE 12 5 65 96,
     DCODE 13 5 97 128,
     DCODE 14 6 129 192,
     DCODE 15 6 193 256,
     DCODE 16 7 257 384,
     DCODE 17 7 385 512,
     DCODE 18 8 513 768,
     DCODE 19 8 769 1024,
     DCODE 20 9 1025 1536,
     DCODE 21 9 1537 2048,
     DCODE 22 10 2049 3072,
     DCODE 23 10 3073 4096,
     DCODE 24 11 4097 6144,
     DCODE 25 11 6145 8192,
     DCODE 26 12 8193 12288,
     DCODE 27 12 12289 16384,
     DCODE 28 13 16385 24576,
     DCODE 29 13 24577 32768]"

section \<open>Emission\<close>

definition zlib_literal :: "out_buf \<Rightarrow> u8 \<Rightarrow> out_buf option" where
  "zlib_literal out c =
     (if comp_disabled out then outbits out (ucast c) 8
      else if c \<le> 143 then outbits out (ucast (mirrorbytes ! (0x30 + unat c))) 8
      else outbits out (1 + 2 * ucast (mirrorbytes ! (0x90 - 144 + unat c))) 9)"

text \<open>
  The binary search \<open>while (1) { assert(j - i >= 2); k = (j + i) / 2; ... }\<close>, which \<open>zlib_match\<close>
  contains twice: over \<open>lencodes\<close> and over \<open>distcodes\<close>.  The result is the index of the record
  whose range \<open>lo k\<close> to \<open>hi k\<close> contains \<open>x\<close>.
\<close>

function range_search :: "(nat \<Rightarrow> nat) \<Rightarrow> (nat \<Rightarrow> nat) \<Rightarrow> int \<Rightarrow> int \<Rightarrow> nat \<Rightarrow> nat option" where
  "range_search lo hi i j x =
     (if j - i \<ge> 2 then
        let k = (j + i) div 2
        in if x < lo (nat k) then range_search lo hi i k x
           else if x > hi (nat k) then range_search lo hi k j x
           else Some (nat k)
      else None)"
  by pat_completeness auto
termination
  by (relation "measure (\<lambda>(lo, hi, i, j, n). nat (j - i))") auto

declare range_search.simps [simp del]

definition search_len :: "nat \<Rightarrow> nat option" where
  "search_len thislen =
     range_search (\<lambda>k. FROM_LCODE (lmin (lencodes ! k))) (\<lambda>k. FROM_LCODE (lmax (lencodes ! k)))
       (- 1) (int (length lencodes)) thislen"

definition search_dist :: "nat \<Rightarrow> nat option" where
  "search_dist distance =
     range_search (\<lambda>k. dmin (distcodes ! k)) (\<lambda>k. dmax (distcodes ! k))
       (- 1) (int (length distcodes)) distance"

text \<open>The transmission of one length code, with its extra bits, and of one distance code.\<close>

definition emit_len :: "out_buf \<Rightarrow> nat \<Rightarrow> out_buf option" where
  "emit_len out thislen =
     Option.bind (search_len thislen) (\<lambda>k.
       let l = lencodes ! k; lcode = k + 257
       in Option.bind
            (if lcode \<le> 279 then outbits out (ucast (mirrorbytes ! ((lcode - 256) * 2))) 7
             else outbits out (ucast (mirrorbytes ! (0xc0 + lcode - 280))) 8) (\<lambda>out.
          if lextrabits l \<noteq> 0
          then outbits out (of_nat (thislen - FROM_LCODE (lmin l))) (lextrabits l)
          else Some out))"

definition emit_dist :: "out_buf \<Rightarrow> nat \<Rightarrow> out_buf option" where
  "emit_dist out distance =
     Option.bind (search_dist distance) (\<lambda>k.
       let d = distcodes ! k
       in Option.bind (outbits out (ucast (mirrorbytes ! (code d * 8))) 5) (\<lambda>out.
          if dextrabits d \<noteq> 0
          then outbits out (of_nat (distance - dmin d)) (dextrabits d)
          else Some out))"

definition match_piece :: "nat \<Rightarrow> nat" where
  "match_piece len = (if len > 260 then 258 else if len \<le> 258 then len else len - 3)"

function match_loop :: "out_buf \<Rightarrow> nat \<Rightarrow> nat \<Rightarrow> out_buf option" where
  "match_loop out distance len =
     (if len > 0 then
        let thislen = match_piece len
        in Option.bind (emit_len out thislen) (\<lambda>out.
           Option.bind (emit_dist out distance) (\<lambda>out.
             match_loop out distance (len - thislen)))
      else Some out)"
  by pat_completeness auto
termination
  by (relation "measure (\<lambda>(out, distance, len). len)") (auto simp: match_piece_def)

declare match_loop.simps [simp del]

definition zlib_match :: "out_buf \<Rightarrow> nat \<Rightarrow> nat \<Rightarrow> out_buf option" where
  "zlib_match out distance len = (if comp_disabled out then None else match_loop out distance len)"

definition zlib_start_block :: "out_buf \<Rightarrow> out_buf option" where
  "zlib_start_block out = Option.bind (outbits out 1 1) (\<lambda>out. outbits out 1 2)"

definition zlib_finish_block :: "out_buf \<Rightarrow> out_buf option" where
  "zlib_finish_block out = Option.bind (outbits out 0 7) (\<lambda>out. outbits out 0 7)"

end
