(* ===== verification/Uzlib_Bits.thy ===== *)
theory Uzlib_Bits
  imports Uzlib_Deflate
begin

text \<open>
  The bit level: the byte-wise reader of \<open>tinflate.c\<close> and the byte-wise writer of
  \<open>defl_static.c\<close> both refine a plain list of bits, least significant bit of each byte first.
\<close>

section \<open>The reader as a bit list\<close>

text \<open>
  \<open>supplies cb src c bs\<close>: the buffer \<open>src\<close>, refilled by the callback, yields the bytes \<open>bs\<close>.
\<close>

fun supplies :: "('c \<Rightarrow> int \<times> u8 list \<times> 'c) option \<Rightarrow> u8 list \<Rightarrow> 'c \<Rightarrow> u8 list \<Rightarrow> bool" where
  "supplies cb src c [] = True"
| "supplies cb (s # src) c (b # bs) = (s = b \<and> supplies cb src c bs)"
| "supplies cb [] c (b # bs) =
     (case cb of None \<Rightarrow> False
      | Some read \<Rightarrow> (case read c of (val, src, c) \<Rightarrow> val = int (unat b) \<and> supplies cb src c bs))"

lemma supplies_list: "supplies cb src c src"
  by (induction src) auto

lemma supplies_append: "supplies cb src c (xs @ ys) \<Longrightarrow> supplies cb src c xs"
  by (induction cb src c xs rule: supplies.induct) (auto split: option.splits)

text \<open>
  \<open>reads d d'\<close>: only the reader's own fields differ, and fewer than 8 bits stay buffered in \<open>tag\<close>.
\<close>

definition reads :: "'c uncomp \<Rightarrow> 'c uncomp \<Rightarrow> bool" where
  "reads d d' \<longleftrightarrow> d' = d\<lparr>source := source d', cb_state := cb_state d', tag := tag d', bitcount := bitcount d'\<rparr> \<and>
     (bitcount d < 8 \<longrightarrow> bitcount d' < 8)"

lemma reads_refl [simp, intro]: "reads d d"
  by (simp add: reads_def)

lemma reads_trans [trans]: "reads d e \<Longrightarrow> reads e f \<Longrightarrow> reads d f"
  by (cases d; cases e; cases f) (simp add: reads_def)

lemma reads_fields:
  assumes "reads d d'"
  shows "dest d' = dest d" "dest_limit d' = dest_limit d" "eof d' = eof d" "btype d' = btype d"
    "bfinal d' = bfinal d" "curlen d' = curlen d" "lzOff d' = lzOff d" "dict_ring d' = dict_ring d"
    "dict_size d' = dict_size d" "dict_idx d' = dict_idx d" "ltree d' = ltree d" "dtree d' = dtree d"
    "source_read_cb d' = source_read_cb d" "checksum d' = checksum d"
    "checksum_type d' = checksum_type d"
  using assms by (cases d; cases d'; simp add: reads_def)+

lemma reads_bitcount: "reads d d' \<Longrightarrow> bitcount d < 8 \<Longrightarrow> bitcount d' < 8"
  by (simp add: reads_def)

fun bits_val :: "bool list \<Rightarrow> nat" where
  "bits_val [] = 0"
| "bits_val (b # bs) = of_bool b + 2 * bits_val bs"

lemma bits_val_less: "bits_val bs < 2 ^ length bs"
  by (induction bs) (auto simp: of_bool_def)

lemma bit_bits_val: "bit (bits_val bs) i \<longleftrightarrow> i < length bs \<and> bs ! i"
proof (induction bs arbitrary: i)
  case (Cons b bs)
  then show ?case by (cases i) (auto simp: bit_0 bit_Suc)
qed simp

lemma bits_val_lsb_bits: "bits_val (lsb_bits n w) = take_bit n (unat w)"
  by (rule bit_eqI) (auto simp: bit_bits_val bit_take_bit_iff bit_unsigned_iff)

lemma unat_and_1: "unat (w AND 1) = of_bool (bit w 0)" for w :: u32
  by (simp add: and_one_eq mod_2_eq_odd bit_0)

lemma lsb_bits_byte_Cons:
  "lsb_bits 8 x = bit (ucast x :: u32) 0 # lsb_bits 7 (drop_bit 1 (ucast x :: u32))" for x :: u8
proof -
  have "lsb_bits 8 x = bit x 0 # lsb_bits 7 (drop_bit 1 x)"
    using lsb_bits_Suc [of 7 x] by simp
  moreover have "lsb_bits 7 (drop_bit 1 x) = lsb_bits 7 (drop_bit 1 (ucast x :: u32))"
    by (rule nth_equalityI) (auto simp: bit_drop_bit_eq bit_ucast_iff simp del: drop_bit_Suc One_nat_def)
  ultimately show ?thesis by (simp add: bit_ucast_iff)
qed

text \<open>Symbol decoding on a bit list: the index into \<open>trans\<close> and the remaining bits.\<close>

fun decode_index :: "nat list \<Rightarrow> int \<Rightarrow> int \<Rightarrow> nat \<Rightarrow> bool list \<Rightarrow> (nat \<times> bool list) option" where
  "decode_index tbl sm cur len [] = None"
| "decode_index tbl sm cur len (b # bs) =
     (let cur = 2 * cur + of_bool b; len = len + 1
      in if len \<ge> 16 then None
         else let sm = sm + int (tbl ! len); cur = cur - int (tbl ! len)
              in if cur \<ge> 0 then decode_index tbl sm cur len bs
                 else if 0 \<le> sm + cur \<and> sm + cur < 288 then Some (nat (sm + cur), bs) else None)"

lemma decode_index_append:
  "decode_index tbl sm cur len bs = Some (k, rest) \<Longrightarrow> decode_index tbl sm cur len (bs @ cs) = Some (k, rest @ cs)"
  by (induction tbl sm cur len bs rule: decode_index.induct) (auto simp: Let_def split: if_splits)

lemma decode_index_cong:
  "(\<And>i. i \<le> len + length bs \<Longrightarrow> tbl ! i = tbl' ! i) \<Longrightarrow>
   decode_index tbl sm cur len bs = decode_index tbl' sm cur len bs"
proof (induction tbl sm cur len bs rule: decode_index.induct)
  case (2 tbl sm cur len b bs)
  from "2.prems" [of "len + 1"] have eq: "tbl ! (len + 1) = tbl' ! (len + 1)" by simp
  have "decode_index tbl s c (len + 1) bs = decode_index tbl' s c (len + 1) bs"
    if "s = sm + int (tbl ! (len + 1))" "c = 2 * cur + of_bool b - int (tbl ! (len + 1))"
      "\<not> 16 \<le> len + 1" "0 \<le> c" for s c
    using "2.IH" [OF refl refl that(3) that(1,2,4)] "2.prems" by simp
  then show ?case unfolding decode_index.simps Let_def eq by simp
qed simp

text \<open>
  What the reader relies on: \<open>yields cb src c bs\<close> says that the buffer \<open>src\<close>, refilled by the
  callback \<open>cb\<close> in state \<open>c\<close>, yields the bytes \<open>bs\<close>; one byte at a time, from the buffer first.
\<close>

locale byte_source =
  fixes yields :: "('c \<Rightarrow> int \<times> u8 list \<times> 'c) option \<Rightarrow> u8 list \<Rightarrow> 'c \<Rightarrow> u8 list \<Rightarrow> bool"
  assumes from_buffer: "yields cb (s # src) c (b # bs) \<Longrightarrow> s = b \<and> yields cb src c bs"
    and from_callback: "yields cb [] c (b # bs) \<Longrightarrow>
      \<exists>read src c'. cb = Some read \<and> read c = (int (unat b), src, c') \<and> yields cb src c' bs"
begin

text \<open>\<open>next_bits d bs\<close>: the bits that the reader delivers next.\<close>

definition next_bits :: "'c uncomp \<Rightarrow> bool list \<Rightarrow> bool" where
  "next_bits d bs \<longleftrightarrow> \<not> eof d \<and>
     (\<exists>bytes. yields (source_read_cb d) (source d) (cb_state d) bytes \<and>
        bs = lsb_bits (bitcount d) (tag d) @ concat (map (lsb_bits 8) bytes))"

text \<open>\<open>next_bytes d bs\<close>: the bytes that \<open>uzlib_get_byte\<close> delivers next.\<close>

definition next_bytes :: "'c uncomp \<Rightarrow> u8 list \<Rightarrow> bool" where
  "next_bytes d bs \<longleftrightarrow> \<not> eof d \<and> yields (source_read_cb d) (source d) (cb_state d) bs"

lemma next_bits_bytes:
  "next_bits d bs \<longleftrightarrow> (\<exists>bytes. next_bytes d bytes \<and> bs = lsb_bits (bitcount d) (tag d) @ concat (map (lsb_bits 8) bytes))"
  by (auto simp: next_bits_def next_bytes_def)

lemma uzlib_get_byte_bytes:
  assumes "next_bytes d (b # bs)"
  shows "\<exists>d'. uzlib_get_byte d = (b, d') \<and> next_bytes d' bs \<and> d' = d\<lparr>source := source d', cb_state := cb_state d'\<rparr>"
proof (cases "source d")
  case Nil
  with assms obtain read src c where "source_read_cb d = Some read" "read (cb_state d) = (int (unat b), src, c)"
    "yields (source_read_cb d) src c bs"
    using from_callback [of "source_read_cb d" "cb_state d" b bs] by (auto simp: next_bytes_def)
  with Nil assms show ?thesis by (simp add: uzlib_get_byte_def next_bytes_def)
qed (use assms from_buffer in \<open>auto simp: uzlib_get_byte_def next_bytes_def\<close>)

lemma tinf_getbit_bits:
  assumes "next_bits d (b # bs)"
  shows "\<exists>d'. tinf_getbit d = (of_bool b, d') \<and> next_bits d' bs \<and> reads d d'"
proof -
  from assms obtain bytes where bytes: "next_bytes d bytes"
    "b # bs = lsb_bits (bitcount d) (tag d) @ concat (map (lsb_bits 8) bytes)"
    by (auto simp: next_bits_bytes)
  show ?thesis
  proof (cases "bitcount d")
    case 0
    with bytes(2) obtain x xs where x: "bytes = x # xs" by (cases bytes) auto
    from uzlib_get_byte_bytes [OF bytes(1) [unfolded x]] obtain e where
      e: "uzlib_get_byte d = (x, e)" "next_bytes e xs" "e = d\<lparr>source := source e, cb_state := cb_state e\<rparr>"
      by auto
    let ?t = "ucast x :: u32"
    let ?d = "e\<lparr>tag := drop_bit 1 ?t, bitcount := 7\<rparr>"
    have bs: "b = bit ?t 0" "bs = lsb_bits 7 (drop_bit 1 ?t) @ concat (map (lsb_bits 8) xs)"
      using bytes(2) 0 x lsb_bits_byte_Cons [of x] by simp_all
    have "tinf_getbit d = (of_bool b, ?d)"
      using 0 e(1) bs(1) by (simp add: tinf_getbit_def unat_and_1 del: drop_bit_Suc One_nat_def)
    moreover have "next_bits ?d bs"
      using e(2) bs(2) by (auto simp: next_bits_bytes next_bytes_def simp del: drop_bit_Suc One_nat_def)
    moreover have "reads d ?d"
      using e(3) by (cases d; cases e) (simp add: reads_def del: drop_bit_Suc One_nat_def)
    ultimately show ?thesis by blast
  next
    case (Suc n)
    let ?d = "d\<lparr>tag := drop_bit 1 (tag d), bitcount := n\<rparr>"
    have bs: "b = bit (tag d) 0" "bs = lsb_bits n (drop_bit 1 (tag d)) @ concat (map (lsb_bits 8) bytes)"
      using bytes(2) Suc by (simp_all add: lsb_bits_Suc)
    have "tinf_getbit d = (of_bool b, ?d)"
      using Suc bs(1) by (simp add: tinf_getbit_def unat_and_1 del: drop_bit_Suc One_nat_def)
    moreover have "next_bits ?d bs"
      using bytes(1) bs(2) by (auto simp: next_bits_bytes next_bytes_def simp del: drop_bit_Suc One_nat_def)
    moreover have "reads d ?d" using Suc by (simp add: reads_def del: drop_bit_Suc One_nat_def)
    ultimately show ?thesis by blast
  qed
qed

lemma read_bits_loop_bits:
  "next_bits d (bs @ rest) \<Longrightarrow> length bs = n \<Longrightarrow>
   \<exists>d'. read_bits_loop n m val d = (val + m * bits_val bs, d') \<and> next_bits d' rest \<and> reads d d'"
proof (induction n arbitrary: bs m val d)
  case (Suc n)
  then obtain b cs where bs: "bs = b # cs" by (cases bs) auto
  with Suc.prems obtain e where e: "tinf_getbit d = (of_bool b, e)" "next_bits e (cs @ rest)" "reads d e"
    using tinf_getbit_bits [of d b "cs @ rest"] by auto
  from Suc.IH [OF e(2), of "m * 2" "if of_bool b \<noteq> (0::nat) then val + m else val"] Suc.prems bs
  obtain f where f: "read_bits_loop n (m * 2) (if of_bool b \<noteq> (0::nat) then val + m else val) e =
      ((if of_bool b \<noteq> (0::nat) then val + m else val) + m * 2 * bits_val cs, f)"
    "next_bits f rest" "reads e f" by auto
  then show ?case
    using bs e(1) reads_trans [OF e(3) f(3)] by (auto simp: algebra_simps)
qed auto

lemma tinf_read_bits_bits:
  assumes "next_bits d (bs @ rest)" "length bs = n"
  shows "\<exists>d'. tinf_read_bits d n base = (bits_val bs + base, d') \<and> next_bits d' rest \<and> reads d d'"
  using read_bits_loop_bits [OF assms, of 1 0] by (auto simp: tinf_read_bits_def)

lemma decode_loop_bits:
  "next_bits d bs \<Longrightarrow> decode_index (table t) sm cur len bs = Some (k, rest) \<Longrightarrow>
   \<exists>d'. decode_loop t sm cur len d = (Ret (int (trans t ! k)), d') \<and> next_bits d' rest \<and> reads d d'"
proof (induction "table t" sm cur len bs arbitrary: d rule: decode_index.induct)
  case (2 sm cur len b bs)
  obtain e where e: "tinf_getbit d = (of_bool b, e)" "next_bits e bs" "reads d e"
    using tinf_getbit_bits [OF "2.prems"(1)] by auto
  let ?cur = "2 * cur + of_bool b - int (table t ! (len + 1))" and ?sm = "sm + int (table t ! (len + 1))"
  from "2.prems"(2) have len: "\<not> 16 \<le> len + 1" by (simp add: Let_def split: if_splits)
  show ?case
  proof (cases "?cur \<ge> 0")
    case True
    with "2.prems"(2) len have "decode_index (table t) ?sm ?cur (len + 1) bs = Some (k, rest)"
      by (simp add: Let_def)
    from "2.hyps" [OF refl refl len refl refl True e(2) this]
    obtain f where "decode_loop t ?sm ?cur (len + 1) e = (Ret (int (trans t ! k)), f)"
      "next_bits f rest" "reads e f" by auto
    with True len e reads_trans [OF e(3)] show ?thesis
      by (subst decode_loop.simps) (auto simp: Let_def)
  next
    case False
    with "2.prems"(2) len e show ?thesis
      by (subst decode_loop.simps) (auto simp: Let_def split: if_splits)
  qed
qed simp

lemma tinf_decode_symbol_bits:
  assumes "next_bits d (bs @ rest)" "decode_index (table t) 0 0 0 bs = Some (k, [])"
  shows "\<exists>d'. tinf_decode_symbol d t = (Ret (int (trans t ! k)), d') \<and> next_bits d' rest \<and> reads d d'"
  using decode_loop_bits [OF assms(1) decode_index_append [OF assms(2), of rest]]
  by (simp add: tinf_decode_symbol_def)

lemma next_bits_update [simp]:
  "next_bits (d\<lparr>curlen := n\<rparr>) = next_bits d" "next_bits (d\<lparr>lzOff := l\<rparr>) = next_bits d"
  "next_bits (d\<lparr>bfinal := f\<rparr>) = next_bits d" "next_bits (d\<lparr>btype := b\<rparr>) = next_bits d"
  "next_bits (d\<lparr>ltree := lt\<rparr>) = next_bits d" "next_bits (d\<lparr>dtree := dt\<rparr>) = next_bits d"
  "next_bits (d\<lparr>dest := out\<rparr>) = next_bits d" "next_bits (d\<lparr>dest_limit := lim\<rparr>) = next_bits d"
  "next_bits (d\<lparr>checksum := k\<rparr>) = next_bits d" "next_bits (d\<lparr>checksum_type := ct\<rparr>) = next_bits d"
  by (rule ext; simp add: next_bits_def)+

lemma next_bits_put [simp]: "next_bits (TINF_PUT d c) = next_bits d"
  by (simp add: TINF_PUT_def next_bits_def fun_eq_iff Let_def split: option.splits)

end

text \<open>The source as the code runs it: the bytes that the buffer and the callback deliver.\<close>

interpretation mem: byte_source supplies
  by unfold_locales (auto split: option.splits prod.splits)

section \<open>The writer as a bit list\<close>

definition ob_wf :: "out_buf \<Rightarrow> bool" where
  "ob_wf out \<longleftrightarrow> noutbits out < 8 \<and> drop_bit (noutbits out) (ob_outbits out) = 0"

definition ob_stream :: "out_buf \<Rightarrow> bool list" where
  "ob_stream out = concat (map (lsb_bits 8) (outbuf out)) @ lsb_bits (noutbits out) (ob_outbits out)"

lemma lsb_bits_add: "lsb_bits (m + n) w = lsb_bits m w @ lsb_bits n (drop_bit m w)"
  by (rule nth_equalityI) (auto simp: nth_append bit_drop_bit_eq)

lemma lsb_bits_byte: "lsb_bits 8 (ucast (w AND 0xFF) :: u8) = lsb_bits 8 w" for w :: u32
proof -
  have "w AND 0xFF = take_bit 8 w" by (simp add: take_bit_eq_mask mask_eq_exp_minus_1)
  then show ?thesis by (intro nth_equalityI) (auto simp: bit_ucast_iff bit_take_bit_iff)
qed

lemma flush_bytes_stream:
  "drop_bit (noutbits out) (ob_outbits out) = 0 \<Longrightarrow>
   ob_wf (flush_bytes out) \<and> ob_stream (flush_bytes out) = ob_stream out \<and>
   comp_disabled (flush_bytes out) = comp_disabled out"
proof (induction out rule: flush_bytes.induct)
  case (1 out)
  show ?case
  proof (cases "noutbits out \<ge> 8")
    case True
    let ?o = "if length (outbuf out) \<ge> outsize out then out\<lparr>outsize := length (outbuf out) + 64\<rparr> else out"
    let ?p = "?o\<lparr>outbuf := outbuf ?o @ [ucast (ob_outbits ?o AND 0xFF)]\<rparr>"
    let ?q = "?p\<lparr>ob_outbits := drop_bit 8 (ob_outbits ?p), noutbits := noutbits ?p - 8\<rparr>"
    have step: "flush_bytes out = flush_bytes ?q"
      using True by (subst flush_bytes.simps) (simp only: Let_def if_True)
    have "drop_bit (noutbits ?q) (ob_outbits ?q) = 0"
      using True "1.prems" by (simp add: drop_bit_drop_bit)
    then have IH: "ob_wf (flush_bytes ?q) \<and> ob_stream (flush_bytes ?q) = ob_stream ?q \<and>
        comp_disabled (flush_bytes ?q) = comp_disabled ?q"
      using "1.IH" [OF True refl refl] by simp
    have "ob_stream ?q = ob_stream out"
      using True lsb_bits_add [of 8 "noutbits out - 8" "ob_outbits out"]
      by (simp add: ob_stream_def lsb_bits_byte)
    moreover have "comp_disabled ?q = comp_disabled out" by simp
    ultimately show ?thesis using IH by (simp only: step)
  next
    case False
    with "1.prems" show ?thesis by (subst (1 2 3) flush_bytes.simps) (simp add: ob_wf_def)
  qed
qed

text \<open>\<open>emits out r bs\<close>: the operation with result \<open>r\<close> succeeds and appends \<open>bs\<close> to \<open>out\<close>.\<close>

definition emits :: "out_buf \<Rightarrow> out_buf option \<Rightarrow> bool list \<Rightarrow> bool" where
  "emits out r bs \<longleftrightarrow> (\<exists>out'. r = Some out' \<and> ob_wf out' \<and> ob_stream out' = ob_stream out @ bs \<and>
     comp_disabled out' = comp_disabled out)"

lemma outbits_emits:
  assumes "ob_wf out" "drop_bit n bits = 0" "n \<le> 24"
  shows "emits out (outbits out bits n) (lsb_bits n bits)"
proof -
  let ?m = "noutbits out" and ?w = "ob_outbits out OR push_bit (noutbits out) bits"
  have m: "?m < 8" and clear: "drop_bit ?m (ob_outbits out) = 0"
    using assms(1) by (auto simp: ob_wf_def)
  have beyond: "\<not> bit (ob_outbits out) i" if "?m \<le> i" for i
    using arg_cong [OF clear, of "\<lambda>w. bit w (i - ?m)"] that by (simp add: bit_drop_bit_eq)
  have beyond': "\<not> bit bits i" if "n \<le> i" for i
    using arg_cong [OF assms(2), of "\<lambda>w. bit w (i - n)"] that by (simp add: bit_drop_bit_eq)
  have zero: "drop_bit (?m + n) ?w = 0"
    by (rule bit_word_eqI) (auto simp: bit_drop_bit_eq bit_or_iff bit_push_bit_iff beyond beyond')
  have low: "lsb_bits ?m ?w = lsb_bits ?m (ob_outbits out)"
    by (rule nth_equalityI) (auto simp: bit_or_iff bit_push_bit_iff)
  have high: "lsb_bits n (drop_bit ?m ?w) = lsb_bits n bits"
    using m assms(3)
    by (intro nth_equalityI) (auto simp: bit_drop_bit_eq bit_or_iff bit_push_bit_iff beyond)
  let ?o = "out\<lparr>ob_outbits := ?w, noutbits := ?m + n\<rparr>"
  have "ob_stream ?o = ob_stream out @ lsb_bits n bits"
    by (simp add: ob_stream_def lsb_bits_add low high del: drop_bit_or)
  moreover have "outbits out bits n = Some (flush_bytes ?o)"
    using m assms(3) by (simp add: outbits_def Let_def)
  ultimately show ?thesis
    using flush_bytes_stream [of ?o] zero by (simp add: emits_def)
qed

lemma emits_Some: "ob_wf out \<Longrightarrow> emits out (Some out) []"
  by (simp add: emits_def)

lemma emits_bind:
  assumes "emits out r xs"
    and "\<And>o'. ob_wf o' \<Longrightarrow> comp_disabled o' = comp_disabled out \<Longrightarrow> emits o' (f o') ys"
  shows "emits out (Option.bind r f) (xs @ ys)"
  using assms by (fastforce simp: emits_def)

end
