(* ===== verification/Uzlib_Codec.thy ===== *)
theory Uzlib_Codec
  imports Uzlib_Bits
begin

text \<open>
  The code words: what the encoder emits for a literal, a match length, a match distance and the
  end of a block, and that the decoder's fixed trees map each of them back.
\<close>

section \<open>Emitted code words\<close>

definition lit_bits :: "u8 \<Rightarrow> bool list" where
  "lit_bits c = (if c \<le> 143 then lsb_bits 8 (ucast (mirrorbytes ! (0x30 + unat c)) :: u32)
                 else lsb_bits 9 (1 + 2 * ucast (mirrorbytes ! unat c) :: u32))"

definition lcode_bits :: "nat \<Rightarrow> bool list" where
  "lcode_bits k = (if k + 257 \<le> 279 then lsb_bits 7 (ucast (mirrorbytes ! ((k + 1) * 2)) :: u32)
                   else lsb_bits 8 (ucast (mirrorbytes ! (169 + k)) :: u32))"

definition dcode_bits :: "nat \<Rightarrow> bool list" where
  "dcode_bits k = lsb_bits 5 (ucast (mirrorbytes ! (k * 8)) :: u32)"

definition nat_bits :: "nat \<Rightarrow> nat \<Rightarrow> bool list" where
  "nat_bits n x = lsb_bits n (of_nat x :: u32)"

definition eob_bits :: "bool list" where
  "eob_bits = lsb_bits 7 (0 :: u32)"

lemma length_nat_bits [simp]: "length (nat_bits n x) = n"
  by (simp add: nat_bits_def)

lemma drop_bit_u32_0:
  fixes w :: u32
  assumes "unat w < 2 ^ n"
  shows "drop_bit n w = 0"
proof -
  have "take_bit n w = w"
    using assms by (simp add: word_unat_eq_iff unsigned_take_bit_eq take_bit_nat_eq_self_iff)
  then show ?thesis by (metis cancel_comm_monoid_add_class.diff_cancel drop_bit_take_bit take_bit_0)
qed

lemma drop_bit_byte: "7 < n \<Longrightarrow> drop_bit n (ucast (x :: u8) :: u32) = 0"
  by (intro drop_bit_u32_0) (simp add: order_less_le_trans [OF unat_u8_less] self_le_power
    power_increasing [of 8 n "2::nat", simplified])

lemma bits_val_nat_bits: "x < 2 ^ n \<Longrightarrow> n \<le> 32 \<Longrightarrow> bits_val (nat_bits n x) = x"
proof -
  assume x: "x < 2 ^ n" and n: "n \<le> 32"
  then have "x < 2 ^ 32" by (meson less_le_trans one_le_numeral power_increasing)
  with x show ?thesis
    by (simp add: nat_bits_def bits_val_lsb_bits unat_of_nat take_bit_nat_eq_self_iff)
qed

section \<open>The searches\<close>

lemma range_search_complete:
  assumes lo: "\<And>a b. a \<le> b \<Longrightarrow> b < n \<Longrightarrow> lo a \<le> lo b" and hi: "\<And>a b. a \<le> b \<Longrightarrow> b < n \<Longrightarrow> hi a \<le> hi b"
    and k: "lo k \<le> x" "x \<le> hi k"
  shows "- 1 \<le> i \<Longrightarrow> i < int k \<Longrightarrow> int k < j \<Longrightarrow> j \<le> int n \<Longrightarrow>
    \<exists>k'<n. range_search lo hi i j x = Some k' \<and> lo k' \<le> x \<and> x \<le> hi k'"
proof (induction "nat (j - i)" arbitrary: i j rule: less_induct)
  case less
  let ?m = "(j + i) div 2"
  have m: "i < ?m" "?m < j" "0 \<le> ?m" "nat ?m < n" and j: "j - i \<ge> 2" using less.prems by linarith+
  consider "x < lo (nat ?m)" | "\<not> x < lo (nat ?m)" "hi (nat ?m) < x"
    | "\<not> x < lo (nat ?m)" "\<not> hi (nat ?m) < x" by blast
  then show ?case
  proof cases
    case 1
    then have "int k < ?m"
      using less.prems m k lo [of "nat ?m" k] by (cases "nat ?m \<le> k") auto
    with less.hyps [of ?m i] 1 less.prems m j show ?thesis
      by (subst range_search.simps) (simp add: Let_def)
  next
    case 2
    then have "?m < int k"
      using less.prems m k hi [of k "nat ?m"] by (cases "k \<le> nat ?m") auto
    with less.hyps [of j ?m] 2 less.prems m j show ?thesis
      by (subst range_search.simps) (simp add: Let_def)
  next
    case 3
    with m j show ?thesis by (subst range_search.simps) (simp add: Let_def)
  qed
qed

text \<open>Adjacent ranges from \<open>lo 0\<close> on leave no gap.\<close>

lemma range_exists:
  fixes x :: nat
  assumes "\<And>a. Suc a < n \<Longrightarrow> lo (Suc a) = hi a + 1"
  shows "k < n \<Longrightarrow> lo 0 \<le> x \<Longrightarrow> x \<le> hi k \<Longrightarrow> \<exists>k'\<le>k. lo k' \<le> x \<and> x \<le> hi k'"
proof (induction k)
  case (Suc k)
  show ?case
  proof (cases "x \<le> hi k")
    case False
    with Suc.prems assms [of k] show ?thesis by (intro exI [of _ "Suc k"]) simp
  qed (use Suc in \<open>auto intro: le_SucI\<close>)
qed auto

lemma range_search_found:
  assumes "\<And>a. Suc a < n \<Longrightarrow> lo (Suc a) = hi a + 1" "\<And>a. a < n \<Longrightarrow> lo a \<le> hi a"
    and "0 < n" "lo 0 \<le> x" "x \<le> hi (n - 1)"
  shows "\<exists>k<n. range_search lo hi (- 1) (int n) x = Some k \<and> lo k \<le> x \<and> x \<le> hi k"
proof -
  have adj: "lo a \<le> lo (Suc a) \<and> hi a \<le> hi (Suc a)" if "Suc a < n" for a
    using that assms(1) [of a] assms(2) [of a] assms(2) [of "Suc a"] by simp
  have mono: "lo a \<le> lo b \<and> hi a \<le> hi b" if "a \<le> b" "b < n" for a b
    using that
  proof (induction rule: dec_induct)
    case (step c)
    then show ?case using adj [of c] by (auto intro: order_trans)
  qed simp
  obtain k where "k \<le> n - 1" "lo k \<le> x" "x \<le> hi k"
    using range_exists [of n lo hi "n - 1" x] assms by auto
  with \<open>0 < n\<close> show ?thesis
    by (intro range_search_complete [where k = k]) (use mono in auto)
qed

text \<open>The records of the encoder against the tables of the decoder.\<close>

lemma lencodes_tables:
  "length lencodes = 29"
  "map lextrabits lencodes = take 29 length_bits"
  "map (\<lambda>l. FROM_LCODE (lmin l)) lencodes = take 29 length_base"
  "list_all (\<lambda>l. lmin l \<le> lmax l \<and> lmax l - lmin l < 2 ^ lextrabits l \<and> lextrabits l \<le> 5) lencodes"
  "map lmin (tl lencodes) = map (\<lambda>l. lmax l + 1) (butlast lencodes)"
  "lmin (lencodes ! 0) = 0" "lmax (lencodes ! 28) = 255"
  by (simp_all add: lencodes_def length_bits_def length_base_def TO_LCODE_def FROM_LCODE_def)

lemma distcodes_tables:
  "length distcodes = 30"
  "map dextrabits distcodes = dist_bits"
  "map dmin distcodes = dist_base"
  "map code distcodes = [0..<30]"
  "list_all (\<lambda>l. dmin l \<le> dmax l \<and> dmax l - dmin l < 2 ^ dextrabits l \<and> dextrabits l \<le> 13) distcodes"
  "map dmin (tl distcodes) = map (\<lambda>l. dmax l + 1) (butlast distcodes)"
  "dmin (distcodes ! 0) = 1" "dmax (distcodes ! 29) = 32768"
  by (simp_all add: distcodes_def dist_bits_def dist_base_def DCODE_def upt_rec)

lemma lencodes_nth:
  assumes "k < 29"
  shows "length_bits ! k = lextrabits (lencodes ! k)" "length_base ! k = FROM_LCODE (lmin (lencodes ! k))"
    "lmin (lencodes ! k) \<le> lmax (lencodes ! k)"
    "lmax (lencodes ! k) - lmin (lencodes ! k) < 2 ^ lextrabits (lencodes ! k)"
    "lextrabits (lencodes ! k) \<le> 5"
  using assms arg_cong [OF lencodes_tables(2), of "\<lambda>l. l ! k"] arg_cong [OF lencodes_tables(3), of "\<lambda>l. l ! k"]
    lencodes_tables(1,4) by (auto simp: list_all_length)

lemma distcodes_nth:
  assumes "k < 30"
  shows "dist_bits ! k = dextrabits (distcodes ! k)" "dist_base ! k = dmin (distcodes ! k)"
    "code (distcodes ! k) = k" "dmin (distcodes ! k) \<le> dmax (distcodes ! k)"
    "dmax (distcodes ! k) - dmin (distcodes ! k) < 2 ^ dextrabits (distcodes ! k)"
    "dextrabits (distcodes ! k) \<le> 13"
  using assms arg_cong [OF distcodes_tables(2), of "\<lambda>l. l ! k"] arg_cong [OF distcodes_tables(3), of "\<lambda>l. l ! k"]
    arg_cong [OF distcodes_tables(4), of "\<lambda>l. l ! k"] distcodes_tables(1,5) by (auto simp: list_all_length)

lemma search_len_found:
  assumes "3 \<le> n" "n \<le> 258"
  obtains k where "search_len n = Some k" "k < 29"
    "FROM_LCODE (lmin (lencodes ! k)) \<le> n" "n \<le> FROM_LCODE (lmax (lencodes ! k))"
proof -
  have adj: "lmin (lencodes ! Suc a) = lmax (lencodes ! a) + 1" if "Suc a < 29" for a
    using that arg_cong [OF lencodes_tables(5), of "\<lambda>l. l ! a"] lencodes_tables(1)
    by (simp add: nth_tl nth_butlast)
  have "\<exists>k<29. search_len n = Some k \<and> FROM_LCODE (lmin (lencodes ! k)) \<le> n \<and>
      n \<le> FROM_LCODE (lmax (lencodes ! k))"
    unfolding search_len_def lencodes_tables(1) of_nat_numeral
    by (rule range_search_found [of 29, simplified])
       (use assms adj in \<open>simp_all add: FROM_LCODE_def lencodes_nth lencodes_tables(6,7) del: One_nat_def\<close>)
  with that show thesis by blast
qed

lemma search_dist_found:
  assumes "0 < dist" "dist \<le> 32768"
  obtains k where "search_dist dist = Some k" "k < 30"
    "dmin (distcodes ! k) \<le> dist" "dist \<le> dmax (distcodes ! k)"
proof -
  have adj: "dmin (distcodes ! Suc a) = dmax (distcodes ! a) + 1" if "Suc a < 30" for a
    using that arg_cong [OF distcodes_tables(6), of "\<lambda>l. l ! a"] distcodes_tables(1)
    by (simp add: nth_tl nth_butlast)
  have "\<exists>k<30. search_dist dist = Some k \<and> dmin (distcodes ! k) \<le> dist \<and> dist \<le> dmax (distcodes ! k)"
    unfolding search_dist_def distcodes_tables(1) of_nat_numeral
    by (rule range_search_found [of 30, simplified])
       (use assms adj in \<open>simp_all add: distcodes_nth distcodes_tables(7,8) del: One_nat_def\<close>)
  with that show thesis by blast
qed

section \<open>The mirror table\<close>

text \<open>The table of reversed bytes, built by doubling.\<close>

primrec mirror_table :: "nat \<Rightarrow> u8 list" where
  "mirror_table 0 = [0]"
| "mirror_table (Suc k) = mirror_table k @ map (\<lambda>b. b OR 2 ^ (7 - k)) (mirror_table k)"

lemma mirrorbytes_doubling: "mirrorbytes = mirror_table 8"
  by (simp add: mirrorbytes_def numeral_eq_Suc)

lemma length_mirror_table [simp]: "length (mirror_table k) = 2 ^ k"
  by (induction k) simp_all

lemma bit_mirror_table:
  "k \<le> 8 \<Longrightarrow> n < 2 ^ k \<Longrightarrow> bit (mirror_table k ! n) i \<longleftrightarrow> i < 8 \<and> bit n (7 - i)"
proof (induction k arbitrary: n)
  case (Suc k)
  show ?case
  proof (cases "n < 2 ^ k")
    case True
    with Suc show ?thesis by (simp add: nth_append)
  next
    case False
    define m where "m = n - 2 ^ k"
    with False Suc.prems have n: "n = 2 ^ k + m" "m < 2 ^ k" by simp_all
    have "take_bit k m = m" using n(2) by (simp add: take_bit_nat_eq_self_iff)
    then have "\<not> bit m k" by (metis bit_take_bit_iff less_irrefl)
    then have "2 ^ k + m = 2 ^ k OR m"
      by (intro disjunctive_add_eq_or bit_eqI) (auto simp: bit_and_iff bit_exp_iff)
    then have "bit n j \<longleftrightarrow> j = k \<or> bit m j" for j
      by (simp add: n(1) bit_or_iff bit_exp_iff)
    moreover have "bit (mirror_table (Suc k) ! n) i \<longleftrightarrow> bit (mirror_table k ! m) i \<or> (i < 8 \<and> i = 7 - k)"
      using False n Suc.prems by (auto simp: nth_append bit_or_iff bit_exp_iff)
    ultimately show ?thesis using Suc n by auto
  qed
qed simp

text \<open>The most-significant-first bits of a code word.\<close>

definition msb_first :: "nat \<Rightarrow> nat \<Rightarrow> bool list" where
  "msb_first n v = rev (map (bit v) [0..<n])"

lemma length_msb_first [simp]: "length (msb_first n v) = n"
  by (simp add: msb_first_def)

lemma nth_msb_first: "i < n \<Longrightarrow> msb_first n v ! i = bit v (n - 1 - i)"
  by (simp add: msb_first_def rev_nth)

lemma msb_first_Suc: "msb_first (Suc n) v = msb_first n (v div 2) @ [odd v]"
  by (rule nth_equalityI) (auto simp: nth_msb_first nth_append bit_0 less_Suc_eq bit_Suc [symmetric] Suc_diff_Suc)

lemma lsb_bits_mirror:
  assumes "n < 256" "k \<le> 8"
  shows "lsb_bits k (ucast (mirrorbytes ! n) :: u32) = msb_first k (n div 2 ^ (8 - k))"
proof (rule nth_equalityI)
  fix i assume "i < length (lsb_bits k (ucast (mirrorbytes ! n) :: u32))"
  then have "i < k" by simp
  with assms show "lsb_bits k (ucast (mirrorbytes ! n) :: u32) ! i = msb_first k (n div 2 ^ (8 - k)) ! i"
    using bit_mirror_table [of 8 n i] bit_drop_bit_eq [of "8 - k" n]
    by (simp add: bit_ucast_iff nth_msb_first mirrorbytes_doubling flip: drop_bit_eq_div)
qed simp

section \<open>Decoding with the fixed trees\<close>

definition fixed_ltable :: "nat list" where
  "fixed_ltable = [0, 0, 0, 0, 0, 0, 0, 24, 152, 112]"

definition fixed_lsym :: "nat \<Rightarrow> nat" where
  "fixed_lsym k = (if k < 24 then 256 + k else if k < 168 then k - 24 else if k < 176 then 112 + k else k - 32)"

definition fixed_dtable :: "nat list" where
  "fixed_dtable = [0, 0, 0, 0, 0, 32]"

lemma bits_val_append: "bits_val (xs @ ys) = bits_val xs + 2 ^ length xs * bits_val ys"
  by (induction xs) (simp_all add: algebra_simps)

lemma bits_val_msb_first: "bits_val (rev (msb_first n v)) = take_bit n v"
  by (rule bit_eqI) (auto simp: bit_bits_val msb_first_def bit_take_bit_iff)

lemma decode_index_zeros:
  "(\<And>i. len < i \<Longrightarrow> i \<le> len + length bs \<Longrightarrow> tbl ! i = 0) \<Longrightarrow> 0 \<le> cur \<Longrightarrow> len + length bs < 16 \<Longrightarrow>
   decode_index tbl sm cur len (bs @ cs) =
   decode_index tbl sm (cur * 2 ^ length bs + int (bits_val (rev bs))) (len + length bs) cs"
proof (induction bs arbitrary: cur len)
  case (Cons b bs)
  have "decode_index tbl sm cur len ((b # bs) @ cs) = decode_index tbl sm (2 * cur + of_bool b) (Suc len) (bs @ cs)"
    using Cons.prems by simp
  also have "\<dots> = decode_index tbl sm ((2 * cur + of_bool b) * 2 ^ length bs + int (bits_val (rev bs)))
      (Suc len + length bs) cs"
    using Cons.prems by (intro Cons.IH) auto
  finally show ?case by (simp add: bits_val_append algebra_simps)
qed simp

lemma fixed_table_zeros:
  "0 < i \<Longrightarrow> i \<le> 6 \<Longrightarrow> fixed_ltable ! i = 0" "0 < i \<Longrightarrow> i \<le> 4 \<Longrightarrow> fixed_dtable ! i = 0"
  by (auto simp: fixed_ltable_def fixed_dtable_def nth_Cons' numeral_eq_Suc)

lemma fixed_table_ends:
  "fixed_ltable ! 7 = 24" "fixed_ltable ! 8 = 152" "fixed_ltable ! 9 = 112" "fixed_dtable ! 5 = 32"
  by (simp_all add: fixed_ltable_def fixed_dtable_def)

lemma decode_fixed_prefix:
  "decode_index fixed_ltable 0 0 0 (msb_first 6 v @ cs) = decode_index fixed_ltable 0 (int (v mod 64)) 6 cs"
  by (subst decode_index_zeros) (auto simp: fixed_table_zeros bits_val_msb_first take_bit_eq_mod)

lemma halve_bit: "2 * int (v div 2) + of_bool (odd v) = int v"
  by (cases "odd v") (auto elim: oddE)

lemma decode_fixed_7:
  assumes "v < 24"
  shows "decode_index fixed_ltable 0 0 0 (msb_first 7 v) = Some (v, [])"
proof -
  have bits: "msb_first 7 v = msb_first 6 (v div 2) @ [odd v]"
    using msb_first_Suc [of 6 v] by simp
  have "v div 2 mod 64 = v div 2" using assms by simp
  then show ?thesis
    unfolding bits decode_fixed_prefix using assms by (simp add: fixed_table_ends halve_bit Let_def)
qed

lemma decode_fixed_8:
  assumes "48 \<le> v" "v < 200"
  shows "decode_index fixed_ltable 0 0 0 (msb_first 8 v) = Some (v - 24, [])"
proof -
  have bits: "msb_first 8 v = msb_first 6 (v div 2 div 2) @ [odd (v div 2), odd v]"
    using msb_first_Suc [of 7 v] msb_first_Suc [of 6 "v div 2"] by simp
  have "v div 2 div 2 mod 64 = v div 2 div 2" using assms by simp
  moreover have "2 * (int (v div 2) - 24) + of_bool (odd v) = int v - 48"
    using halve_bit [of v] by simp
  moreover have "24 \<le> v div 2" using assms by linarith
  ultimately show ?thesis
    unfolding bits decode_fixed_prefix using assms
    by (simp add: fixed_table_ends halve_bit Let_def)
qed

lemma decode_fixed_9:
  assumes "400 \<le> v" "v < 512"
  shows "decode_index fixed_ltable 0 0 0 (msb_first 9 v) = Some (v - 224, [])"
proof -
  have bits: "msb_first 9 v = msb_first 6 (v div 2 div 2 div 2) @ [odd (v div 2 div 2), odd (v div 2), odd v]"
    using msb_first_Suc [of 8 v] msb_first_Suc [of 7 "v div 2"] msb_first_Suc [of 6 "v div 2 div 2"] by simp
  have "v div 2 div 2 div 2 mod 64 = v div 2 div 2 div 2" using assms by simp
  moreover have "2 * (int (v div 2 div 2) - 24) + of_bool (odd (v div 2)) = int (v div 2) - 48"
    "2 * (int (v div 2) - 200) + of_bool (odd v) = int v - 400"
    using halve_bit [of v] halve_bit [of "v div 2"] by simp_all
  moreover have "100 \<le> v div 2 div 2" "200 \<le> v div 2" using assms by linarith+
  ultimately show ?thesis
    unfolding bits decode_fixed_prefix using assms
    by (simp add: fixed_table_ends halve_bit Let_def)
qed

lemma decode_fixed_dist:
  assumes "v < 32"
  shows "decode_index fixed_dtable 0 0 0 (msb_first 5 v) = Some (v, [])"
proof -
  have bits: "msb_first 5 v = msb_first 4 (v div 2) @ [odd v]"
    using msb_first_Suc [of 4 v] by simp
  have "decode_index fixed_dtable 0 0 0 (msb_first 4 (v div 2) @ [odd v]) =
      decode_index fixed_dtable 0 (int (v div 2 mod 16)) 4 [odd v]"
    by (subst decode_index_zeros) (auto simp: fixed_table_zeros bits_val_msb_first take_bit_eq_mod)
  moreover have "v div 2 mod 16 = v div 2" using assms by simp
  ultimately show ?thesis
    unfolding bits using assms by (simp add: fixed_table_ends halve_bit Let_def)
qed

lemma nth_fixed_tables:
  "i \<le> 9 \<Longrightarrow> fixed_ltable ! i = (if i < 7 then 0 else if i = 7 then 24 else if i = 8 then 152 else 112)"
  "i \<le> 5 \<Longrightarrow> fixed_dtable ! i = (if i < 5 then 0 else 32)"
  by (auto simp: fixed_ltable_def fixed_dtable_def nth_Cons' numeral_eq_Suc)

lemma le_143: "c \<le> 143 \<longleftrightarrow> unat c \<le> 143" for c :: u8
  by (simp add: word_le_nat_alt)

lemma lit_bits_msb:
  "lit_bits c = (if unat c \<le> 143 then msb_first 8 (48 + unat c) else msb_first 9 (256 + unat c))"
proof (cases "unat c \<le> 143")
  case True
  then show ?thesis by (simp add: lit_bits_def le_143 lsb_bits_mirror)
next
  case False
  let ?m = "ucast (mirrorbytes ! unat c) :: u32"
  have m: "msb_first 8 (unat c) = lsb_bits 8 ?m" by (simp add: lsb_bits_mirror)
  have "256 + unat c = 256 OR unat c"
  proof (rule disjunctive_add_eq_or)
    have "take_bit 8 (unat c) = unat c" by (simp add: take_bit_nat_eq_self_iff)
    then have "\<not> bit (unat c) 8" by (metis bit_take_bit_iff less_irrefl)
    then show "256 AND unat c = 0"
      using bit_exp_iff [of 8, where 'a = nat] by (intro bit_eqI) (auto simp: bit_and_iff)
  qed
  then have "bit (256 + unat c) j \<longleftrightarrow> j = 8 \<or> bit (unat c) j" for j
    using bit_exp_iff [of 8 j, where 'a = nat] by (simp add: bit_or_iff)
  then have "msb_first 9 (256 + unat c) = True # msb_first 8 (unat c)"
    by (intro nth_equalityI) (auto simp: nth_msb_first nth_Cons' Suc_diff_Suc)
  moreover have "lsb_bits 9 (1 + 2 * ?m) = True # lsb_bits 8 ?m"
  proof -
    have "drop_bit 1 (1 + 2 * ?m) = ?m"
      using drop_bit_u32_0 [of ?m 31] by (simp add: drop_bit_eq_div unat_div word_unat_eq_iff
        unat_word_ariths order_less_le_trans [OF unat_u8_less])
    then show ?thesis
      using lsb_bits_Suc [of 8 "1 + 2 * ?m"] by (simp add: bit_0)
  qed
  ultimately show ?thesis using False m by (simp add: lit_bits_def le_143)
qed

lemma lit_code:
  "length (lit_bits c) \<le> 9 \<and> (\<exists>k<288. decode_index fixed_ltable 0 0 0 (lit_bits c) = Some (k, []) \<and>
     fixed_lsym k = unat c)"
proof (cases "unat c \<le> 143")
  case True
  then show ?thesis by (simp add: lit_bits_msb decode_fixed_8 fixed_lsym_def)
next
  case False
  then have "400 \<le> 256 + unat c" "256 + unat c < 512" using unat_u8_less [of c] by linarith+
  with False show ?thesis using decode_fixed_9 [of "256 + unat c"] by (simp add: lit_bits_msb fixed_lsym_def)
qed

lemma len_code:
  assumes "k < 29"
  shows "length (lcode_bits k) \<le> 9 \<and> (\<exists>i<288. decode_index fixed_ltable 0 0 0 (lcode_bits k) = Some (i, []) \<and>
     fixed_lsym i = k + 257)"
proof (cases "k + 257 \<le> 279")
  case True
  then have "lcode_bits k = msb_first 7 (k + 1)"
    using assms lsb_bits_mirror [of "(k + 1) * 2" 7] by (simp add: lcode_bits_def)
  with True show ?thesis using decode_fixed_7 [of "k + 1"] by (simp add: fixed_lsym_def)
next
  case False
  then have "lcode_bits k = msb_first 8 (169 + k)"
    using assms by (simp add: lcode_bits_def lsb_bits_mirror)
  with False assms show ?thesis using decode_fixed_8 [of "169 + k"] by (simp add: fixed_lsym_def)
qed

lemma eob_code: "length eob_bits \<le> 9 \<and> decode_index fixed_ltable 0 0 0 eob_bits = Some (0, [])"
proof -
  have "eob_bits = msb_first 7 0" by (rule nth_equalityI) (auto simp: eob_bits_def nth_msb_first)
  then show ?thesis using decode_fixed_7 [of 0] length_msb_first [of 7 0] by simp
qed

lemma dist_code:
  assumes "k < 30"
  shows "length (dcode_bits k) = 5 \<and> decode_index fixed_dtable 0 0 0 (dcode_bits k) = Some (k, [])"
  using assms lsb_bits_mirror [of "k * 8" 5] by (simp add: dcode_bits_def decode_fixed_dist)

section \<open>The fixed trees in the decoder state\<close>

definition tree_dims :: "tinf_tree \<Rightarrow> bool" where
  "tree_dims t \<longleftrightarrow> length (table t) = 16 \<and> length (trans t) = 288"

definition fixed_trees :: "tinf_tree \<Rightarrow> tinf_tree \<Rightarrow> bool" where
  "fixed_trees lt dt \<longleftrightarrow>
     (\<forall>i\<le>9. table lt ! i = fixed_ltable ! i) \<and> (\<forall>k<288. trans lt ! k = fixed_lsym k) \<and>
     (\<forall>i\<le>5. table dt ! i = fixed_dtable ! i) \<and> (\<forall>k<32. trans dt ! k = k)"

lemma length_for_set [simp]: "length (for_set off n f a) = length a"
  by (induction n) (simp_all add: for_set_def)

lemma nth_for_set:
  "off + n \<le> length a \<Longrightarrow> for_set off n f a ! i = (if off \<le> i \<and> i < off + n then f (i - off) else a ! i)"
proof (induction n)
  case (Suc n)
  have "for_set off (Suc n) f a = (for_set off n f a)[off + n := f n]"
    by (simp add: for_set_def)
  with Suc show ?case by (auto simp: nth_list_update less_Suc_eq)
qed (auto simp: for_set_def)

lemma build_fixed_trees:
  assumes "tree_dims lt" "tree_dims dt"
  shows "fixed_trees (fst (tinf_build_fixed_trees lt dt)) (snd (tinf_build_fixed_trees lt dt))"
  using assms unfolding fixed_trees_def tinf_build_fixed_trees_def Let_def tree_dims_def
  by (auto simp: nth_for_set nth_list_update nth_fixed_tables fixed_lsym_def)

context byte_source
begin

lemma fixed_symbol:
  assumes "fixed_trees lt dt" and "next_bits d (bs @ rest)" and "length bs \<le> 9"
    and "decode_index fixed_ltable 0 0 0 bs = Some (k, [])" "k < 288"
  shows "\<exists>d'. tinf_decode_symbol d lt = (Ret (int (fixed_lsym k)), d') \<and> next_bits d' rest \<and> reads d d'"
proof -
  have "decode_index (table lt) 0 0 0 bs = Some (k, [])"
    using assms by (subst decode_index_cong [where tbl' = fixed_ltable]) (auto simp: fixed_trees_def)
  from tinf_decode_symbol_bits [OF assms(2) this] assms(1,5) show ?thesis
    by (simp add: fixed_trees_def)
qed

lemma fixed_distance:
  assumes "fixed_trees lt dt" and "next_bits d (bs @ rest)" and "length bs \<le> 5"
    and "decode_index fixed_dtable 0 0 0 bs = Some (k, [])" "k < 32"
  shows "\<exists>d'. tinf_decode_symbol d dt = (Ret (int k), d') \<and> next_bits d' rest \<and> reads d d'"
proof -
  have "decode_index (table dt) 0 0 0 bs = Some (k, [])"
    using assms by (subst decode_index_cong [where tbl' = fixed_dtable]) (auto simp: fixed_trees_def)
  from tinf_decode_symbol_bits [OF assms(2) this] assms(1,5) show ?thesis
    by (simp add: fixed_trees_def)
qed

end

end
