(* ===== verification/Uzlib_Lz77.thy ===== *)
theory Uzlib_Lz77
  imports Uzlib_Codec
begin

text \<open>
  The LZ77 match finder of uzlib (\<open>genlz77.c\<close>), and what the encoder of \<open>defl_static.c\<close> emits as a
  list of tokens.  Pointers into the source buffer are indices; an empty hash bucket is \<open>None\<close>.
\<close>

section \<open>The compressor\<close>

definition MIN_MATCH :: nat where "MIN_MATCH = 3"
definition MAX_MATCH :: nat where "MAX_MATCH = 258"

record uzlib_comp =
  comp_out :: out_buf
  hash_table :: "nat \<Rightarrow> nat option"
  hash_bits :: nat
  comp_dict_size :: nat

definition HASH :: "uzlib_comp \<Rightarrow> u8 list \<Rightarrow> nat \<Rightarrow> u32" where
  "HASH data src p =
     (let v = push_bit 16 (ucast (src ! p)) OR push_bit 8 (ucast (src ! (p + 1))) OR ucast (src ! (p + 2))
      in (drop_bit (3 * 8 - hash_bits data) v - v) AND (push_bit (hash_bits data) 1 - 1))"

text \<open>\<open>while (*src == *m && len < MAX_MATCH && src < top) { src++; m++; len++; }\<close>\<close>

function extend_match :: "u8 list \<Rightarrow> nat \<Rightarrow> nat \<Rightarrow> nat \<Rightarrow> nat \<times> nat" where
  "extend_match bs src m len =
     (if bs ! src = bs ! m \<and> len < MAX_MATCH \<and> src + MIN_MATCH < length bs
      then extend_match bs (src + 1) (m + 1) (len + 1)
      else (src, len))"
  by pat_completeness auto
termination
  by (relation "measure (\<lambda>(bs, src, m, len). length bs - src)") auto

declare extend_match.simps [simp del]

lemma extend_match_spec:
  "extend_match bs src m len = (src', len') \<Longrightarrow>
   len \<le> len' \<and> src' = src + (len' - len) \<and> (len \<le> MAX_MATCH \<longrightarrow> len' \<le> MAX_MATCH) \<and>
   (\<forall>j<len' - len. bs ! (m + j) = bs ! (src + j)) \<and> (src \<le> length bs \<longrightarrow> src' \<le> length bs)"
proof (induction bs src m len rule: extend_match.induct)
  case (1 bs src m len)
  show ?case
  proof (cases "bs ! src = bs ! m \<and> len < MAX_MATCH \<and> src + MIN_MATCH < length bs")
    case True
    with "1.prems" have "extend_match bs (src + 1) (m + 1) (len + 1) = (src', len')"
      by (subst (asm) extend_match.simps) simp
    note IH = "1.IH" [OF True this]
    have "bs ! (m + j) = bs ! (src + j)" if "j < len' - len" for j
    proof (cases j)
      case (Suc i)
      with that have "i < len' - (len + 1)" by simp
      with IH Suc show ?thesis by simp
    qed (use True in simp)
    with IH True show ?thesis by auto
  next
    case False
    with "1.prems" show ?thesis by (subst (asm) extend_match.simps) auto
  qed
qed

lemma extend_match_ge: "(src', len') = extend_match bs src m len \<Longrightarrow> src \<le> src'"
  using extend_match_spec [of bs src m len src' len'] by auto

primrec emit_literals :: "out_buf \<Rightarrow> u8 list \<Rightarrow> out_buf option" where
  "emit_literals out [] = Some out"
| "emit_literals out (b # bs) = Option.bind (zlib_literal out b) (\<lambda>out. emit_literals out bs)"

text \<open>
  The main loop; \<open>src < top\<close> is \<open>i + MIN_MATCH < length bs\<close>, and the last iteration hands over to the
  loop for the buffer tail.
\<close>

function compress_from :: "uzlib_comp \<Rightarrow> u8 list \<Rightarrow> nat \<Rightarrow> uzlib_comp option" where
  "compress_from data bs i =
     (if i + MIN_MATCH < length bs then
        let h = HASH data bs i;
            bucket = unat (h AND (push_bit (hash_bits data) 1 - 1));
            subs = hash_table data bucket;
            data = data\<lparr>hash_table := (hash_table data)(bucket := Some i)\<rparr>
        in case subs of
             Some m \<Rightarrow>
               if m < i \<and> i - m \<le> comp_dict_size data \<and>
                  take MIN_MATCH (drop i bs) = take MIN_MATCH (drop m bs) then
                 (let (i', len) = extend_match bs (i + MIN_MATCH) (m + MIN_MATCH) MIN_MATCH
                  in case zlib_match (comp_out data) (i' - len - m) len of
                       None \<Rightarrow> None
                     | Some out \<Rightarrow> compress_from (data\<lparr>comp_out := out\<rparr>) bs i')
               else (case zlib_literal (comp_out data) (bs ! i) of
                       None \<Rightarrow> None
                     | Some out \<Rightarrow> compress_from (data\<lparr>comp_out := out\<rparr>) bs (i + 1))
           | None \<Rightarrow> (case zlib_literal (comp_out data) (bs ! i) of
                       None \<Rightarrow> None
                     | Some out \<Rightarrow> compress_from (data\<lparr>comp_out := out\<rparr>) bs (i + 1))
      else map_option (\<lambda>out. data\<lparr>comp_out := out\<rparr>) (emit_literals (comp_out data) (drop i bs)))"
  by pat_completeness auto
termination
  by (relation "measure (\<lambda>(data, bs, i). length bs - i)")
     (auto dest!: extend_match_ge simp: MIN_MATCH_def)

declare compress_from.simps [simp del]

definition uzlib_compress :: "uzlib_comp \<Rightarrow> u8 list \<Rightarrow> uzlib_comp option" where
  "uzlib_compress data src = compress_from data src 0"

section \<open>Tokens\<close>

datatype token = Lit u8 | Match nat nat \<comment> \<open>distance, length\<close>

text \<open>What a token list means: the output it produces after \<open>out\<close>.\<close>

primrec copy_back :: "nat \<Rightarrow> nat \<Rightarrow> u8 list \<Rightarrow> u8 list" where
  "copy_back 0 dist out = out"
| "copy_back (Suc n) dist out = copy_back n dist (out @ [out ! (length out - dist)])"

fun expand :: "token list \<Rightarrow> u8 list \<Rightarrow> u8 list" where
  "expand [] out = out"
| "expand (Lit c # ts) out = expand ts (out @ [c])"
| "expand (Match dist len # ts) out = expand ts (copy_back len dist out)"

text \<open>Tokens that can be decoded after \<open>n\<close> bytes of output with a window of \<open>w\<close> bytes.\<close>

fun valid_tokens :: "nat \<Rightarrow> token list \<Rightarrow> nat \<Rightarrow> bool" where
  "valid_tokens w [] n = True"
| "valid_tokens w (Lit c # ts) n = valid_tokens w ts (n + 1)"
| "valid_tokens w (Match dist len # ts) n =
     (0 < dist \<and> dist \<le> n \<and> dist \<le> w \<and> 3 \<le> len \<and> len \<le> 258 \<and> valid_tokens w ts (n + len))"

definition len_bits :: "nat \<Rightarrow> bool list" where
  "len_bits n = (case search_len n of None \<Rightarrow> []
     | Some k \<Rightarrow> lcode_bits k @ nat_bits (lextrabits (lencodes ! k)) (n - FROM_LCODE (lmin (lencodes ! k))))"

definition distance_bits :: "nat \<Rightarrow> bool list" where
  "distance_bits n = (case search_dist n of None \<Rightarrow> []
     | Some k \<Rightarrow> dcode_bits k @ nat_bits (dextrabits (distcodes ! k)) (n - dmin (distcodes ! k)))"

primrec token_bits :: "token \<Rightarrow> bool list" where
  "token_bits (Lit c) = lit_bits c"
| "token_bits (Match dist len) = len_bits len @ distance_bits dist"

lemma length_copy_back [simp]: "length (copy_back n dist out) = length out + n"
  by (induction n arbitrary: out) simp_all

section \<open>What the encoder emits\<close>

lemma zlib_literal_emits:
  assumes "ob_wf out" "\<not> comp_disabled out"
  shows "emits out (zlib_literal out c) (token_bits (Lit c))"
proof (cases "c \<le> 143")
  case True
  with assms show ?thesis
    by (simp add: zlib_literal_def lit_bits_def outbits_emits drop_bit_byte)
next
  case False
  have "unat (mirrorbytes ! unat c) \<le> 255" by simp
  then have "unat (1 + 2 * ucast (mirrorbytes ! unat c) :: u32) < 2 ^ 9"
    by (simp add: unat_word_ariths del: unat_u8_le)
  with False assms show ?thesis
    by (simp add: zlib_literal_def lit_bits_def outbits_emits drop_bit_u32_0)
qed

lemma outbits_emits_nat:
  assumes "ob_wf out" "x < 2 ^ n" "n \<le> 24"
  shows "emits out (if n \<noteq> 0 then outbits out (of_nat x) n else Some out) (nat_bits n x)"
proof (cases "n = 0")
  case True
  with assms(1) show ?thesis by (simp add: emits_Some nat_bits_def)
next
  case False
  have "x < 2 ^ 32"
    using assms(2) power_increasing [of n 32 "2::nat"] assms(3) by linarith
  then have "unat (of_nat x :: u32) < 2 ^ n"
    using assms(2) by (simp add: unat_of_nat)
  with False assms show ?thesis
    by (simp add: nat_bits_def outbits_emits drop_bit_u32_0)
qed

lemma mirror_bits_drop: "7 < n \<Longrightarrow> drop_bit n (ucast (mirrorbytes ! i) :: u32) = 0"
  by (rule drop_bit_byte)

lemma mirror_drop:
  assumes "n < 256" "k \<le> 8" "2 ^ (8 - k) dvd n"
  shows "drop_bit k (ucast (mirrorbytes ! n) :: u32) = 0"
proof (rule bit_word_eqI)
  fix i
  have "\<not> bit n (7 - (k + i))" if "k + i < 8"
  proof -
    from assms(3) obtain q where "n = 2 ^ (8 - k) * q" by (elim dvdE)
    then have "n = push_bit (8 - k) q" by (simp add: push_bit_eq_mult)
    moreover from that have "\<not> 8 - k \<le> 7 - (k + i)" by linarith
    ultimately show ?thesis by (simp add: bit_push_bit_iff)
  qed
  then show "bit (drop_bit k (ucast (mirrorbytes ! n) :: u32)) i = bit (0 :: u32) i"
    using assms(1) bit_mirror_table [of 8 n "k + i"]
    by (auto simp: bit_drop_bit_eq bit_ucast_iff mirrorbytes_doubling)
qed

lemma emit_len_emits:
  assumes "ob_wf out" "3 \<le> n" "n \<le> 258"
  shows "emits out (emit_len out n) (len_bits n)"
proof -
  from assms(2,3) obtain k where k: "search_len n = Some k" "k < 29"
    "FROM_LCODE (lmin (lencodes ! k)) \<le> n" "n \<le> FROM_LCODE (lmax (lencodes ! k))"
    by (rule search_len_found)
  then have x: "n - FROM_LCODE (lmin (lencodes ! k)) < 2 ^ lextrabits (lencodes ! k)"
    "lextrabits (lencodes ! k) \<le> 24"
    using lencodes_nth [OF k(2)] by (auto simp: FROM_LCODE_def)
  have code: "emits out (if k + 257 \<le> 279 then outbits out (ucast (mirrorbytes ! ((k + 257 - 256) * 2))) 7
      else outbits out (ucast (mirrorbytes ! (0xc0 + (k + 257) - 280))) 8) (lcode_bits k)"
  proof (cases "k + 257 \<le> 279")
    case True
    have "drop_bit 7 (ucast (mirrorbytes ! ((k + 1) * 2)) :: u32) = 0"
      using k(2) by (intro mirror_drop) simp_all
    with True assms(1) show ?thesis by (simp add: lcode_bits_def outbits_emits)
  next
    case False
    with assms(1) show ?thesis by (simp add: lcode_bits_def outbits_emits mirror_bits_drop)
  qed
  show ?thesis
    unfolding emit_len_def len_bits_def k(1) bind.bind_lunit Let_def option.case
    by (rule emits_bind [OF code]) (use x in \<open>intro outbits_emits_nat\<close>)
qed

lemma emit_dist_emits:
  assumes "ob_wf out" "0 < n" "n \<le> 32768"
  shows "emits out (emit_dist out n) (distance_bits n)"
proof -
  from assms obtain k where k: "search_dist n = Some k" "k < 30"
    "dmin (distcodes ! k) \<le> n" "n \<le> dmax (distcodes ! k)"
    by (auto elim: search_dist_found)
  then have x: "n - dmin (distcodes ! k) < 2 ^ dextrabits (distcodes ! k)"
    "dextrabits (distcodes ! k) \<le> 24" and c: "code (distcodes ! k) = k"
    using distcodes_nth [OF k(2)] by auto
  have "drop_bit 5 (ucast (mirrorbytes ! (k * 8)) :: u32) = 0"
    using k(2) by (intro mirror_drop) simp_all
  with assms(1) have code: "emits out (outbits out (ucast (mirrorbytes ! (code (distcodes ! k) * 8))) 5) (dcode_bits k)"
    by (simp add: c dcode_bits_def outbits_emits)
  show ?thesis
    unfolding emit_dist_def distance_bits_def k(1) bind.bind_lunit Let_def option.case
    by (rule emits_bind [OF code]) (use x in \<open>intro outbits_emits_nat\<close>)
qed

text \<open>The tokens of one call of \<open>zlib_match\<close>: a length beyond 258 is split.\<close>

function match_tokens :: "nat \<Rightarrow> nat \<Rightarrow> token list" where
  "match_tokens dist len =
     (if len > 0 then Match dist (match_piece len) # match_tokens dist (len - match_piece len) else [])"
  by pat_completeness auto
termination
  by (relation "measure (\<lambda>(dist, len). len)") (auto simp: match_piece_def)

declare match_tokens.simps [simp del]

definition stream_bits :: "token list \<Rightarrow> bool list" where
  "stream_bits ts = concat (map token_bits ts)"

lemma stream_bits_simps [simp]:
  "stream_bits [] = []" "stream_bits (t # ts) = token_bits t @ stream_bits ts"
  "stream_bits (ts @ us) = stream_bits ts @ stream_bits us"
  by (simp_all add: stream_bits_def)

lemma match_piece_range:
  "3 \<le> len \<Longrightarrow> 3 \<le> match_piece len \<and> match_piece len \<le> 258 \<and> match_piece len \<le> len \<and>
     (len - match_piece len = 0 \<or> 3 \<le> len - match_piece len)"
  by (auto simp: match_piece_def)

lemma match_loop_emits:
  "ob_wf out \<Longrightarrow> 0 < dist \<Longrightarrow> dist \<le> 32768 \<Longrightarrow> len = 0 \<or> 3 \<le> len \<Longrightarrow>
   emits out (match_loop out dist len) (stream_bits (match_tokens dist len))"
proof (induction "len" arbitrary: out rule: less_induct)
  case (less len)
  show ?case
  proof (cases "len = 0")
    case True
    with less.prems show ?thesis
      by (simp add: match_loop.simps [of out dist 0] match_tokens.simps [of dist 0] emits_Some)
  next
    case False
    with less.prems have p: "3 \<le> match_piece len" "match_piece len \<le> 258" "match_piece len \<le> len"
      "len - match_piece len = 0 \<or> 3 \<le> len - match_piece len"
      using match_piece_range [of len] by auto
    have "emits out (Option.bind (emit_len out (match_piece len)) (\<lambda>out.
            Option.bind (emit_dist out dist) (\<lambda>out. match_loop out dist (len - match_piece len))))
        (len_bits (match_piece len) @ distance_bits dist @ stream_bits (match_tokens dist (len - match_piece len)))"
      using less.prems p
      by (intro emits_bind emit_len_emits emit_dist_emits less.IH) auto
    with False show ?thesis
      by (simp add: match_loop.simps [of out dist len] match_tokens.simps [of dist len] Let_def)
  qed
qed

lemma zlib_match_emits:
  assumes "ob_wf out" "\<not> comp_disabled out" "0 < dist" "dist \<le> 32768" "3 \<le> len"
  shows "emits out (zlib_match out dist len) (stream_bits (match_tokens dist len))"
  using assms by (simp add: zlib_match_def match_loop_emits)

lemma copy_back_add: "copy_back (m + n) dist out = copy_back n dist (copy_back m dist out)"
  by (induction m arbitrary: out) simp_all

lemma expand_match_tokens: "len = 0 \<or> 3 \<le> len \<Longrightarrow> expand (match_tokens dist len @ ts) out = expand ts (copy_back len dist out)"
proof (induction len arbitrary: out rule: less_induct)
  case (less len)
  show ?case
  proof (cases "len = 0")
    case True
    then show ?thesis by (simp add: match_tokens.simps [of dist 0])
  next
    case False
    with less.prems match_piece_range [of len] less.IH [of "len - match_piece len"]
    show ?thesis
      using copy_back_add [of "match_piece len" "len - match_piece len" dist out]
      by (auto simp: match_tokens.simps [of dist len])
  qed
qed

lemma valid_match_tokens:
  "len = 0 \<or> 3 \<le> len \<Longrightarrow> 0 < dist \<Longrightarrow> dist \<le> n \<Longrightarrow> dist \<le> w \<Longrightarrow>
   valid_tokens w (match_tokens dist len @ ts) n = valid_tokens w ts (n + len)"
proof (induction len arbitrary: n rule: less_induct)
  case (less len)
  show ?case
  proof (cases "len = 0")
    case True
    then show ?thesis by (simp add: match_tokens.simps [of dist 0])
  next
    case False
    with less.prems match_piece_range [of len] less.IH [of "len - match_piece len" "n + match_piece len"]
    show ?thesis
      by (auto simp: match_tokens.simps [of dist len])
  qed
qed

section \<open>What the compressor emits\<close>

definition comp_wf :: "uzlib_comp \<Rightarrow> bool" where
  "comp_wf data \<longleftrightarrow> ob_wf (comp_out data) \<and> \<not> comp_disabled (comp_out data) \<and> comp_dict_size data \<le> 32768"

lemma emit_literals_emits:
  "ob_wf out \<Longrightarrow> \<not> comp_disabled out \<Longrightarrow> emits out (emit_literals out xs) (stream_bits (map Lit xs))"
proof (induction xs arbitrary: out)
  case (Cons x xs)
  then have "emits out (Option.bind (zlib_literal out x) (\<lambda>out. emit_literals out xs))
      (token_bits (Lit x) @ stream_bits (map Lit xs))"
    by (intro emits_bind zlib_literal_emits Cons.IH) auto
  then show ?case by simp
qed (simp add: emits_Some)

lemma expand_literals: "expand (map Lit xs) out = out @ xs"
  by (induction xs arbitrary: out) simp_all

lemma valid_literals: "valid_tokens w (map Lit xs) n"
  by (induction xs arbitrary: n) simp_all

lemma copy_back_take:
  "0 < o' \<Longrightarrow> o' \<le> i \<Longrightarrow> i + n \<le> length bs \<Longrightarrow> (\<And>j. j < n \<Longrightarrow> bs ! (i - o' + j) = bs ! (i + j)) \<Longrightarrow>
   copy_back n o' (take i bs) = take (i + n) bs"
proof (induction n arbitrary: i)
  case (Suc n)
  have "take i bs ! (length (take i bs) - o') = bs ! i"
    using Suc.prems(1-3) Suc.prems(4) [of 0] by simp
  then have "copy_back (Suc n) o' (take i bs) = copy_back n o' (take (Suc i) bs)"
    using Suc.prems(3) by (simp add: take_Suc_conv_app_nth)
  also have "\<dots> = take (Suc i + n) bs"
  proof (rule Suc.IH)
    fix j assume "j < n"
    with Suc.prems(4) [of "Suc j"] Suc.prems(2) show "bs ! (Suc i - o' + j) = bs ! (Suc i + j)"
      by (simp add: Suc_diff_le)
  qed (use Suc.prems in auto)
  finally show ?case by simp
qed simp

text \<open>What one step of the main loop contributes: tokens that produce the bytes it moved past.\<close>

definition produces :: "nat \<Rightarrow> u8 list \<Rightarrow> nat \<Rightarrow> token list \<Rightarrow> nat \<Rightarrow> bool" where
  "produces w bs i ts i' \<longleftrightarrow> i < i' \<and> i' \<le> length bs \<and>
     (\<forall>us. expand (ts @ us) (take i bs) = expand us (take i' bs) \<and>
           (valid_tokens w us i' \<longrightarrow> valid_tokens w (ts @ us) i))"

lemma produces_literal: "i < length bs \<Longrightarrow> produces w bs i [Lit (bs ! i)] (i + 1)"
  by (simp add: produces_def take_Suc_conv_app_nth)

lemma produces_match:
  assumes "m < i" "i - m \<le> w" "i + 3 < length bs" and same: "take 3 (drop i bs) = take 3 (drop m bs)"
    and ext: "extend_match bs (i + 3) (m + 3) 3 = (i', len)"
  shows "produces w bs i (match_tokens (i' - len - m) len) i' \<and> i' - len - m = i - m \<and> 3 \<le> len"
proof -
  have e: "3 \<le> len" "i' = i + len" "len \<le> MAX_MATCH" "i' \<le> length bs"
    "\<forall>j<len - 3. bs ! (m + 3 + j) = bs ! (i + 3 + j)"
    using extend_match_spec [OF ext] assms(3) by (auto simp: MAX_MATCH_def)
  have "bs ! (m + j) = bs ! (i + j)" if "j < len" for j
  proof (cases "j < 3")
    case True
    with arg_cong [OF same, of "\<lambda>l. l ! j"] assms(1,3) show ?thesis by simp
  next
    case False
    with that e(5) [rule_format, of "j - 3"] show ?thesis by simp
  qed
  then have "copy_back len (i - m) (take i bs) = take i' bs"
    using assms(1) e by (subst copy_back_take) (auto simp: add.commute)
  then show ?thesis
    using e assms(1,2) by (simp add: produces_def expand_match_tokens valid_match_tokens)
qed

lemma compress_from_emits:
  "comp_wf data \<Longrightarrow> i \<le> length bs \<Longrightarrow>
   \<exists>ts data'. compress_from data bs i = Some data' \<and> emits (comp_out data) (Some (comp_out data')) (stream_bits ts) \<and>
     valid_tokens (comp_dict_size data) ts i \<and> expand ts (take i bs) = bs"
proof (induction "length bs - i" arbitrary: data i rule: less_induct)
  case less
  note wf = less.prems(1)
  show ?case
  proof (cases "i + MIN_MATCH < length bs")
    case False
    have "emits (comp_out data) (emit_literals (comp_out data) (drop i bs)) (stream_bits (map Lit (drop i bs)))"
      using wf by (intro emit_literals_emits) (auto simp: comp_wf_def)
    then obtain out' where "emit_literals (comp_out data) (drop i bs) = Some out'"
      "emits (comp_out data) (Some out') (stream_bits (map Lit (drop i bs)))"
      by (auto simp: emits_def)
    with False show ?thesis
      by (subst compress_from.simps)
        (auto intro!: exI [of _ "map Lit (drop i bs)"] simp: valid_literals expand_literals)
  next
    case True
    let ?bucket = "unat (HASH data bs i AND (push_bit (hash_bits data) 1 - 1))"
    let ?data = "data\<lparr>hash_table := (hash_table data)(?bucket := Some i)\<rparr>"
    have continue: ?thesis
      if "compress_from data bs i = (case r of None \<Rightarrow> None
           | Some out \<Rightarrow> compress_from (?data\<lparr>comp_out := out\<rparr>) bs i')"
        "emits (comp_out data) r (stream_bits ts)" "produces (comp_dict_size data) bs i ts i'" for r ts i'
    proof -
      from that(2) obtain out where out: "r = Some out" "ob_wf out"
        "ob_stream out = ob_stream (comp_out data) @ stream_bits ts"
        "comp_disabled out = comp_disabled (comp_out data)" by (auto simp: emits_def)
      from out wf have wf': "comp_wf (?data\<lparr>comp_out := out\<rparr>)" by (simp add: comp_wf_def)
      from that(3) have i': "i < i'" "i' \<le> length bs" by (auto simp: produces_def)
      from i' have "length bs - i' < length bs - i" by linarith
      from less.hyps [OF this wf' i'(2)] obtain us data' where
        "compress_from (?data\<lparr>comp_out := out\<rparr>) bs i' = Some data'"
        "emits out (Some (comp_out data')) (stream_bits us)"
        "valid_tokens (comp_dict_size data) us i'" "expand us (take i' bs) = bs" by auto
      with out that(1,3) show ?thesis
        by (intro exI [of _ "ts @ us"] exI [of _ data']) (auto simp: emits_def produces_def)
    qed
    have literal: ?thesis if "compress_from data bs i = (case zlib_literal (comp_out data) (bs ! i) of None \<Rightarrow> None
        | Some out \<Rightarrow> compress_from (?data\<lparr>comp_out := out\<rparr>) bs (i + 1))"
      using that wf True
      by (intro continue [where ts = "[Lit (bs ! i)]" and i' = "i + 1"] produces_literal)
        (auto simp: comp_wf_def dest: zlib_literal_emits)
    show ?thesis
    proof (cases "hash_table data ?bucket")
      case None
      with True show ?thesis
        by (intro literal) (subst compress_from.simps, simp add: Let_def del: push_bit_of_1)
    next
      case (Some m)
      show ?thesis
      proof (cases "m < i \<and> i - m \<le> comp_dict_size data \<and>
                  take MIN_MATCH (drop i bs) = take MIN_MATCH (drop m bs)")
        case False
        with True Some show ?thesis
          by (intro literal) (subst compress_from.simps, auto simp: Let_def simp del: push_bit_of_1)
      next
        case match: True
        obtain i' len where ext: "extend_match bs (i + 3) (m + 3) 3 = (i', len)" by force
        from match True have p: "produces (comp_dict_size data) bs i (match_tokens (i' - len - m) len) i'"
          "i' - len - m = i - m" "3 \<le> len"
          using produces_match [OF _ _ _ _ ext, of "comp_dict_size data"] by (auto simp: MIN_MATCH_def)
        have "emits (comp_out data) (zlib_match (comp_out data) (i' - len - m) len)
            (stream_bits (match_tokens (i' - len - m) len))"
          using wf match p by (intro zlib_match_emits) (auto simp: comp_wf_def)
        moreover have "compress_from data bs i =
            (case zlib_match (comp_out data) (i' - len - m) len of None \<Rightarrow> None
             | Some out \<Rightarrow> compress_from (?data\<lparr>comp_out := out\<rparr>) bs i')"
          using True Some match ext by (subst compress_from.simps) (simp add: Let_def MIN_MATCH_def del: push_bit_of_1)
        ultimately show ?thesis using p(1) by (blast intro: continue)
      qed
    qed
  qed
qed

end
