(* ===== verification/Uzlib_Roundtrip.thy ===== *)
theory Uzlib_Roundtrip
  imports Uzlib_Lz77
begin

text \<open>
  The decompressor undoes the compressor.  The match decoder relies on a window of the past output:
  the destination buffer itself, or a ring dictionary.  The locale \<open>lz_window\<close> states what it needs
  of either; the correctness of decoding a token stream is proved once inside it and interpreted for
  the two windows the code has.
\<close>

section \<open>Frame facts\<close>

lemma TINF_PUT_fields [simp]:
  "dest (TINF_PUT d c) = dest d @ [c]"
  "dest_limit (TINF_PUT d c) = dest_limit d" "eof (TINF_PUT d c) = eof d" "btype (TINF_PUT d c) = btype d"
  "bfinal (TINF_PUT d c) = bfinal d" "curlen (TINF_PUT d c) = curlen d" "lzOff (TINF_PUT d c) = lzOff d"
  "ltree (TINF_PUT d c) = ltree d" "dtree (TINF_PUT d c) = dtree d" "dict_size (TINF_PUT d c) = dict_size d"
  "source (TINF_PUT d c) = source d" "tag (TINF_PUT d c) = tag d" "bitcount (TINF_PUT d c) = bitcount d"
  "source_read_cb (TINF_PUT d c) = source_read_cb d" "cb_state (TINF_PUT d c) = cb_state d"
  "checksum (TINF_PUT d c) = checksum d" "checksum_type (TINF_PUT d c) = checksum_type d"
  by (simp_all add: TINF_PUT_def Let_def split: option.splits)

lemma drop_take_one:
  assumes "take (length h + 1) xs = h @ [b]"
  shows "drop (length h) xs = b # drop (length h + 1) xs"
proof -
  have "drop (length h) xs = drop (length h) (take (length h + 1) xs @ drop (length h + 1) xs)" by simp
  also have "\<dots> = b # drop (length h + 1) xs" by (simp only: assms) simp
  finally show ?thesis .
qed

text \<open>What the block decoders leave alone.\<close>

definition same_env :: "'c uncomp \<Rightarrow> 'c uncomp \<Rightarrow> bool" where
  "same_env d d' \<longleftrightarrow> dest_limit d' = dest_limit d \<and> checksum d' = checksum d \<and>
     checksum_type d' = checksum_type d \<and> source_read_cb d' = source_read_cb d"

lemma same_env_trans [trans]: "same_env d e \<Longrightarrow> same_env e f \<Longrightarrow> same_env d f"
  by (simp add: same_env_def)

lemma reads_same_env: "reads d d' \<Longrightarrow> same_env d d'"
  by (simp add: same_env_def reads_fields)

text \<open>The block header of \<open>zlib_start_block\<close>: a final block with the fixed trees.\<close>

definition block_header :: "bool list" where
  "block_header = [True, True, False]"

section \<open>The window interface\<close>

text \<open>
  \<open>win d h\<close>: the window of \<open>d\<close> represents the output history \<open>h\<close>.  \<open>lz_at d n\<close>: the match pointer
  is \<open>n\<close> bytes back.  \<open>w\<close> is the largest distance the window serves.
\<close>

locale lz_window =
  fixes win :: "'c uncomp \<Rightarrow> u8 list \<Rightarrow> bool" and lz_at :: "'c uncomp \<Rightarrow> nat \<Rightarrow> bool" and w :: nat
  assumes window_size: "w \<le> 32768"
    and win_reads: "win d h \<Longrightarrow> reads d d' \<Longrightarrow> win d' h"
    and win_curlen: "win d h \<Longrightarrow> win (d\<lparr>curlen := n\<rparr>) h"
    and win_block: "win d h \<Longrightarrow> win (d\<lparr>bfinal := f\<rparr>) h" "win d h \<Longrightarrow> win (d\<lparr>btype := b\<rparr>) h"
      "win d h \<Longrightarrow> win (d\<lparr>ltree := lt, dtree := dt\<rparr>) h"
    and win_client: "win d h \<Longrightarrow> win (d\<lparr>dest_limit := lim\<rparr>) h" "win d h \<Longrightarrow> win (d\<lparr>checksum := ck\<rparr>) h"
    and lz_at_client: "lz_at d n \<Longrightarrow> lz_at (d\<lparr>dest_limit := lim\<rparr>) n" "lz_at d n \<Longrightarrow> lz_at (d\<lparr>checksum := ck\<rparr>) n"
    and win_put: "win d h \<Longrightarrow> win (TINF_PUT d c) (h @ [c])"
    and win_offset: "win d h \<Longrightarrow> 0 < n \<Longrightarrow> n \<le> length h \<Longrightarrow> n \<le> w \<Longrightarrow>
      \<exists>l. set_lz_offset n d = (Ret TINF_OK, d\<lparr>lzOff := l\<rparr>) \<and> win (d\<lparr>lzOff := l\<rparr>) h \<and> lz_at (d\<lparr>lzOff := l\<rparr>) n"
    and win_copy: "win d h \<Longrightarrow> lz_at d n \<Longrightarrow> 0 < n \<Longrightarrow> n \<le> length h \<Longrightarrow> n \<le> w \<Longrightarrow>
      \<exists>l. let d' = (TINF_PUT d (h ! (length h - n)))\<lparr>lzOff := l, curlen := curlen d - 1\<rparr>
          in copy_match_byte d = (Ret TINF_OK, d') \<and> win d' (h @ [h ! (length h - n)]) \<and> lz_at d' n"

text \<open>A decoder is a byte source and a window.\<close>

locale lz_decoder = byte_source yields + lz_window win lz_at w
  for yields :: "('c \<Rightarrow> int \<times> u8 list \<times> 'c) option \<Rightarrow> u8 list \<Rightarrow> 'c \<Rightarrow> u8 list \<Rightarrow> bool"
    and win :: "'c uncomp \<Rightarrow> u8 list \<Rightarrow> bool" and lz_at :: "'c uncomp \<Rightarrow> nat \<Rightarrow> bool" and w :: nat
begin

text \<open>
  \<open>decoding d h k n ts tail\<close>: inside the final fixed-tree block, with history \<open>h\<close>, \<open>k\<close> bytes of a
  match at distance \<open>n\<close> still to copy, and the code words of \<open>ts\<close>, the end-of-block code and \<open>tail\<close>
  still to be read.
\<close>

definition decoding :: "'c uncomp \<Rightarrow> u8 list \<Rightarrow> nat \<Rightarrow> nat \<Rightarrow> token list \<Rightarrow> bool list \<Rightarrow> bool" where
  "decoding d h k n ts tail \<longleftrightarrow>
     btype d = 1 \<and> bfinal d = 1 \<and> curlen d = k \<and> \<not> eof d \<and> fixed_trees (ltree d) (dtree d) \<and>
     next_bits d (stream_bits ts @ eob_bits @ tail) \<and> win d h \<and>
     bitcount d < 8 \<and> (0 < k \<longrightarrow> lz_at d n \<and> 0 < n \<and> n \<le> length h \<and> n \<le> w) \<and> valid_tokens w ts (length h + k)"

definition final_output :: "u8 list \<Rightarrow> nat \<Rightarrow> nat \<Rightarrow> token list \<Rightarrow> u8 list" where
  "final_output h k n ts = expand ts (copy_back k n h)"

text \<open>One step of the block decoder: it writes one more byte of the final output.\<close>

definition one_byte :: "'c uncomp \<Rightarrow> u8 list \<Rightarrow> nat \<Rightarrow> nat \<Rightarrow> token list \<Rightarrow> bool list \<Rightarrow> bool" where
  "one_byte d h k n ts tail \<longleftrightarrow>
     (\<exists>d' b k' n' ts'. process_block d = (Ret TINF_OK, d') \<and> decoding d' (h @ [b]) k' n' ts' tail \<and>
        final_output (h @ [b]) k' n' ts' = final_output h k n ts \<and>
        dest d' = dest d @ [b] \<and> same_env d d')"

lemma process_block_fixed: "btype d = 1 \<Longrightarrow> process_block d = tinf_inflate_block_data d"
  by (simp add: process_block_def)

lemma copying:
  assumes "win d h" "lz_at d n" "0 < n" "n \<le> length h" "n \<le> w" "0 < curlen d"
    and dec: "btype d = 1" "bfinal d = 1" "\<not> eof d" "fixed_trees (ltree d) (dtree d)"
      "next_bits d (stream_bits ts @ eob_bits @ tail)" "valid_tokens w ts (length h + curlen d)" "bitcount d < 8"
  obtains d' where "copy_match_byte d = (Ret TINF_OK, d')"
    "decoding d' (h @ [h ! (length h - n)]) (curlen d - 1) n ts tail"
    "dest d' = dest d @ [h ! (length h - n)]" "same_env d d'"
proof -
  from win_copy [OF assms(1-5)] obtain l where
    l: "copy_match_byte d = (Ret TINF_OK, (TINF_PUT d (h ! (length h - n)))\<lparr>lzOff := l, curlen := curlen d - 1\<rparr>)"
    "win ((TINF_PUT d (h ! (length h - n)))\<lparr>lzOff := l, curlen := curlen d - 1\<rparr>) (h @ [h ! (length h - n)])"
    "lz_at ((TINF_PUT d (h ! (length h - n)))\<lparr>lzOff := l, curlen := curlen d - 1\<rparr>) n"
    by (auto simp: Let_def)
  show thesis
    by (rule that [OF l(1)]) (use l assms in \<open>auto simp: decoding_def same_env_def\<close>)
qed

lemma one_byte_copy:
  assumes "decoding d h k n ts tail" "0 < k"
  shows "one_byte d h k n ts tail"
proof -
  from assms obtain d' where d': "copy_match_byte d = (Ret TINF_OK, d')"
    "decoding d' (h @ [h ! (length h - n)]) (k - 1) n ts tail"
    "dest d' = dest d @ [h ! (length h - n)]" "same_env d d'"
    by (auto simp: decoding_def elim: copying)
  moreover have "process_block d = (Ret TINF_OK, d')"
    using assms d'(1) by (simp add: decoding_def process_block_fixed tinf_inflate_block_data_def)
  moreover have "copy_back k n h = copy_back (k - 1) n (h @ [h ! (length h - n)])"
    using assms(2) by (cases k) simp_all
  ultimately show ?thesis unfolding one_byte_def final_output_def by metis
qed

lemma one_byte_literal:
  assumes "decoding d h 0 n (Lit c # ts) tail"
  shows "one_byte d h 0 n (Lit c # ts) tail"
proof -
  have d: "btype d = 1" "curlen d = 0" "\<not> eof d" "fixed_trees (ltree d) (dtree d)"
    "next_bits d (lit_bits c @ (stream_bits ts @ eob_bits @ tail))" "win d h" "bfinal d = 1"
    "valid_tokens w ts (length h + 1)" "bitcount d < 8"
    using assms by (simp_all add: decoding_def)
  from lit_code [of c] obtain k where k: "k < 288"
    "decode_index fixed_ltable 0 0 0 (lit_bits c) = Some (k, [])" "fixed_lsym k = unat c" "length (lit_bits c) \<le> 9"
    by auto
  from fixed_symbol [OF d(4,5) k(4,2,1)] k(3) obtain e where
    e: "tinf_decode_symbol d (ltree d) = (Ret (int (unat c)), e)"
      "next_bits e (stream_bits ts @ eob_bits @ tail)" "reads d e" by auto
  note f = reads_fields [OF e(3)] reads_bitcount [OF e(3) d(9)]
  have c: "int (unat c) < 256" "word_of_int (int (unat c)) = c"
    using unat_u8_less [of c] by (simp_all only: of_nat_less_numeral_iff) simp
  have "process_block d = (Ret TINF_OK, TINF_PUT e c)"
    using d f c e(1) by (simp add: process_block_fixed tinf_inflate_block_data_def)
  moreover have "decoding (TINF_PUT e c) (h @ [c]) 0 n ts tail"
    using d f e(2) win_put [OF win_reads [OF d(6) e(3)], of c] by (simp add: decoding_def)
  ultimately show ?thesis
    unfolding one_byte_def final_output_def same_env_def using f by fastforce
qed

text \<open>The two halves of a match: the length with its extra bits, then the distance with its own.\<close>

lemma read_length:
  assumes "fixed_trees (ltree d) dt" "next_bits d (len_bits len @ rest)" "3 \<le> len" "len \<le> 258"
  obtains k e f where "k < 29" "tinf_decode_symbol d (ltree d) = (Ret (int k + 257), e)" "reads d e"
    "tinf_read_bits e (length_bits ! k) (length_base ! k) = (len, f)" "reads e f" "next_bits f rest"
proof -
  from assms(3,4) obtain k where k: "search_len len = Some k" "k < 29"
    "FROM_LCODE (lmin (lencodes ! k)) \<le> len" "len \<le> FROM_LCODE (lmax (lencodes ! k))"
    by (rule search_len_found)
  let ?x = "len - FROM_LCODE (lmin (lencodes ! k))" and ?e = "lextrabits (lencodes ! k)"
  have x: "?x < 2 ^ ?e" "?e \<le> 32" using k lencodes_nth [OF k(2)] by (auto simp: FROM_LCODE_def)
  from len_code [OF k(2)] obtain i where i: "i < 288" "length (lcode_bits k) \<le> 9"
    "decode_index fixed_ltable 0 0 0 (lcode_bits k) = Some (i, [])" "fixed_lsym i = k + 257" by auto
  have bits: "next_bits d (lcode_bits k @ (nat_bits ?e ?x @ rest))"
    using assms(2) k(1) by (simp add: len_bits_def)
  from fixed_symbol [OF assms(1) bits i(2,3,1)] i(4) obtain e where
    e: "tinf_decode_symbol d (ltree d) = (Ret (int k + 257), e)" "next_bits e (nat_bits ?e ?x @ rest)" "reads d e"
    by auto
  from tinf_read_bits_bits [OF e(2), of ?e "length_base ! k"] obtain f where
    f: "tinf_read_bits e ?e (length_base ! k) = (?x + length_base ! k, f)" "next_bits f rest" "reads e f"
    using x by (auto simp: bits_val_nat_bits)
  show thesis
    by (rule that [of k e f]) (use e f k lencodes_nth [OF k(2)] in auto)
qed

lemma read_distance:
  assumes "fixed_trees lt (dtree d)" "next_bits d (distance_bits n @ rest)" "0 < n" "n \<le> 32768"
  obtains k e f where "k < 30" "tinf_decode_symbol d (dtree d) = (Ret (int k), e)" "reads d e"
    "tinf_read_bits e (dist_bits ! k) (dist_base ! k) = (n, f)" "reads e f" "next_bits f rest"
proof -
  from assms(3,4) obtain k where k: "search_dist n = Some k" "k < 30"
    "dmin (distcodes ! k) \<le> n" "n \<le> dmax (distcodes ! k)"
    by (rule search_dist_found)
  let ?x = "n - dmin (distcodes ! k)" and ?e = "dextrabits (distcodes ! k)"
  have x: "?x < 2 ^ ?e" "?e \<le> 32" using k distcodes_nth [OF k(2)] by auto
  have c: "length (dcode_bits k) \<le> 5" "decode_index fixed_dtable 0 0 0 (dcode_bits k) = Some (k, [])" "k < 32"
    using dist_code [OF k(2)] k(2) by auto
  have bits: "next_bits d (dcode_bits k @ (nat_bits ?e ?x @ rest))"
    using assms(2) k(1) by (simp add: distance_bits_def)
  from fixed_distance [OF assms(1) bits c] obtain e where
    e: "tinf_decode_symbol d (dtree d) = (Ret (int k), e)" "next_bits e (nat_bits ?e ?x @ rest)" "reads d e"
    by auto
  from tinf_read_bits_bits [OF e(2), of ?e "dist_base ! k"] obtain f where
    f: "tinf_read_bits e ?e (dist_base ! k) = (?x + dist_base ! k, f)" "next_bits f rest" "reads e f"
    using x by (auto simp: bits_val_nat_bits)
  show thesis
    by (rule that [of k e f]) (use e f k distcodes_nth [OF k(2)] in auto)
qed

lemma one_byte_match:
  assumes "decoding d h 0 n0 (Match n len # ts) tail"
  shows "one_byte d h 0 n0 (Match n len # ts) tail"
proof -
  let ?rest = "stream_bits ts @ eob_bits @ tail"
  have d: "btype d = 1" "curlen d = 0" "\<not> eof d" "fixed_trees (ltree d) (dtree d)"
    "next_bits d (len_bits len @ (distance_bits n @ ?rest))" "win d h" "bfinal d = 1"
    "0 < n" "n \<le> length h" "n \<le> w" "3 \<le> len" "len \<le> 258" "valid_tokens w ts (length h + len)" "bitcount d < 8"
    using assms by (simp_all add: decoding_def)
  from read_length [OF d(4,5,11,12)] obtain k e f where
    l: "k < 29" "tinf_decode_symbol d (ltree d) = (Ret (int k + 257), e)" "reads d e"
      "tinf_read_bits e (length_bits ! k) (length_base ! k) = (len, f)" "reads e f"
      "next_bits f (distance_bits n @ ?rest)" .
  let ?f = "f\<lparr>curlen := len\<rparr>"
  have df: "reads d f" using l(3,5) by (rule reads_trans)
  note F = reads_fields [OF df] reads_bitcount [OF df d(14)] and E = reads_fields [OF l(3)]
  have "fixed_trees (ltree f) (dtree ?f)" "next_bits ?f (distance_bits n @ ?rest)" "n \<le> 32768"
    using d(4,10) F l(6) window_size by auto
  from read_distance [OF this(1,2) d(8) this(3)] obtain kd g i where
    r: "kd < 30" "tinf_decode_symbol ?f (dtree ?f) = (Ret (int kd), g)" "reads ?f g"
      "tinf_read_bits g (dist_bits ! kd) (dist_base ! kd) = (n, i)" "reads g i" "next_bits i ?rest" .
  have fi: "reads ?f i" using r(3,5) by (rule reads_trans)
  have "bitcount ?f < 8" using reads_bitcount [OF df d(14)] by simp
  note I = reads_fields [OF fi] reads_bitcount [OF fi this]
  have "win i h" by (rule win_reads [OF win_curlen [OF win_reads [OF d(6) df]] fi])
  from win_offset [OF this d(8,9,10)] obtain l where
    o: "set_lz_offset n i = (Ret TINF_OK, i\<lparr>lzOff := l\<rparr>)" "win (i\<lparr>lzOff := l\<rparr>) h" "lz_at (i\<lparr>lzOff := l\<rparr>) n"
    by auto
  let ?i = "i\<lparr>lzOff := l\<rparr>"
  have "0 < curlen ?i" "btype ?i = 1" "bfinal ?i = 1" "\<not> eof ?i" "fixed_trees (ltree ?i) (dtree ?i)"
    "next_bits ?i ?rest" "valid_tokens w ts (length h + curlen ?i)" "bitcount ?i < 8"
    using d F I r(6) by auto
  from copying [OF o(2,3) d(8,9,10) this] obtain d' where
    c: "copy_match_byte ?i = (Ret TINF_OK, d')" "decoding d' (h @ [h ! (length h - n)]) (curlen ?i - 1) n ts tail"
      "dest d' = dest ?i @ [h ! (length h - n)]" "same_env ?i d'" .
  have "process_block d = (Ret TINF_OK, d')"
    using d E F l r o c(1)
    by (simp add: process_block_fixed tinf_inflate_block_data_def Let_def)
  moreover have "final_output (h @ [h ! (length h - n)]) (len - 1) n ts = final_output h 0 n0 (Match n len # ts)"
    using d(11) by (cases len) (simp_all add: final_output_def)
  ultimately show ?thesis
    unfolding one_byte_def using c F I by (fastforce simp: same_env_def)
qed

lemma copy_back_prefix: "take (length out) (copy_back k n out) = out"
proof (induction k arbitrary: out)
  case (Suc k)
  have "take (length out) (take (length out + 1) (copy_back k n (out @ [out ! (length out - n)]))) = out"
    using Suc.IH [of "out @ [out ! (length out - n)]"] by simp
  then show ?case by simp
qed simp

lemma take_prefix: "take (length b) c = b \<Longrightarrow> take (length a) b = a \<Longrightarrow> take (length a) c = a"
  by (metis min.absorb1 nle_le take_all take_take)

lemma expand_prefix: "take (length out) (expand ts out) = out"
proof (induction ts out rule: expand.induct)
  case (2 c ts out)
  show ?case unfolding expand.simps by (rule take_prefix [OF 2]) simp
next
  case (3 dist len ts out)
  show ?case unfolding expand.simps by (rule take_prefix [OF 3 copy_back_prefix])
qed simp

lemma final_output_prefix: "take (length h) (final_output h k n ts) = h"
  unfolding final_output_def by (rule take_prefix [OF expand_prefix copy_back_prefix])

lemma length_expand: "length out \<le> length (expand ts out)"
  using expand_prefix [of out ts] by (metis length_take min.absorb_iff2 min.commute)

lemma one_byte:
  assumes "decoding d h k n ts tail" "length h < length (final_output h k n ts)"
  shows "one_byte d h k n ts tail"
proof (cases "k = 0")
  case True
  show ?thesis
  proof (cases ts)
    case Nil
    with assms(2) True show ?thesis by (simp add: final_output_def)
  next
    case (Cons t us)
    with assms(1) True show ?thesis
      by (cases t) (simp_all add: one_byte_literal one_byte_match)
  qed
qed (use assms(1) in \<open>simp add: one_byte_copy\<close>)

lemma end_of_block:
  assumes "decoding d h k n ts tail" "length h = length (final_output h k n ts)"
  shows "\<exists>d'. process_block d = (Ret TINF_DONE, d') \<and> reads d d' \<and> next_bits d' tail"
proof -
  have "length h + k \<le> length (final_output h k n ts)"
    using length_expand [of "copy_back k n h" ts] by (simp add: final_output_def)
  with assms(2) have k: "k = 0" by simp
  have "ts = []"
  proof (rule ccontr)
    assume "ts \<noteq> []"
    then obtain t us where ts: "ts = t # us" by (cases ts) auto
    show False
    proof (cases t)
      case (Lit c)
      with assms(2) k ts length_expand [of "h @ [c]" us] show False by (simp add: final_output_def)
    next
      case (Match dist len)
      with assms k ts length_expand [of "copy_back len dist h" us] show False
        by (simp add: final_output_def decoding_def)
    qed
  qed
  with assms k have d: "btype d = 1" "curlen d = 0" "\<not> eof d" "fixed_trees (ltree d) (dtree d)"
    "next_bits d (eob_bits @ tail)"
    by (simp_all add: decoding_def)
  have "length eob_bits \<le> 9" "decode_index fixed_ltable 0 0 0 eob_bits = Some (0, [])" "0 < (288::nat)"
    using eob_code by auto
  from fixed_symbol [OF d(4,5) this] obtain e where
    e: "tinf_decode_symbol d (ltree d) = (Ret 256, e)" "next_bits e tail" "reads d e"
    by (auto simp: fixed_lsym_def)
  have "process_block d = (Ret TINF_DONE, e)"
    using d e reads_fields [OF e(3)] by (simp add: process_block_fixed tinf_inflate_block_data_def)
  with e show ?thesis by blast
qed

text \<open>The driver: with \<open>m\<close> bytes of room it writes \<open>m\<close> bytes, or all that is left and is done.\<close>

lemma uncompress_step:
  assumes "decoding d h k n ts tail" "process_block d = (Ret TINF_OK, d')"
  shows "uncompress_loop (Suc fuel) False d =
    (if length (dest d') < dest_limit d' then uncompress_loop fuel False d' else Some (Ret TINF_OK, d'))"
  using assms by (simp add: decoding_def TINF_OK_def TINF_DONE_def)

lemma uncompress_partial:
  "decoding d h k n ts tail \<Longrightarrow> 0 < m \<Longrightarrow> length h + m \<le> length (final_output h k n ts) \<Longrightarrow>
   dest_limit d = length (dest d) + m \<Longrightarrow> m \<le> fuel \<Longrightarrow>
   \<exists>d' k' n' ts'. uncompress_loop fuel False d = Some (Ret TINF_OK, d') \<and>
     decoding d' (take (length h + m) (final_output h k n ts)) k' n' ts' tail \<and>
     final_output (take (length h + m) (final_output h k n ts)) k' n' ts' = final_output h k n ts \<and>
     dest d' = dest d @ take m (drop (length h) (final_output h k n ts)) \<and> same_env d d'"
proof (induction m arbitrary: d h k n ts fuel)
  case (Suc m)
  from Suc.prems(5) obtain f where f: "fuel = Suc f" by (cases fuel) auto
  let ?F = "final_output h k n ts"
  from Suc.prems have "one_byte d h k n ts tail" by (intro one_byte) simp_all
  then obtain d' b k' n' ts' where d': "process_block d = (Ret TINF_OK, d')" "decoding d' (h @ [b]) k' n' ts' tail"
    "final_output (h @ [b]) k' n' ts' = ?F" "dest d' = dest d @ [b]" "same_env d d'"
    by (auto simp: one_byte_def)
  have hb: "take (length h + 1) ?F = h @ [b]"
    using final_output_prefix [of "h @ [b]" k' n' ts'] d'(3) by simp
  have dr: "drop (length h) ?F = b # drop (length h + 1) ?F"
    using drop_take_one [OF hb] Suc.prems(3) by simp
  note step = uncompress_step [OF Suc.prems(1) d'(1), of f]
  have lim: "dest_limit d' = dest_limit d" using d'(5) by (simp add: same_env_def)
  show ?case
  proof (cases "m = 0")
    case True
    with step f d' lim Suc.prems(4) hb dr show ?thesis by auto
  next
    case False
    with Suc.prems d' lim f have "0 < m" "length (h @ [b]) + m \<le> length (final_output (h @ [b]) k' n' ts')"
      "dest_limit d' = length (dest d') + m" "m \<le> f" by auto
    from Suc.IH [OF d'(2) this] obtain e k'' n'' ts'' where
      "uncompress_loop f False d' = Some (Ret TINF_OK, e)"
      "decoding e (take (length h + Suc m) ?F) k'' n'' ts'' tail"
      "final_output (take (length h + Suc m) ?F) k'' n'' ts'' = ?F"
      "dest e = dest d' @ take m (drop (length h + 1) ?F)" "same_env d' e"
      using d'(3) by auto
    with step f d' lim \<open>0 < m\<close> \<open>dest_limit d' = length (dest d') + m\<close> dr same_env_trans [OF d'(5)]
    show ?thesis by (intro exI [of _ e] exI [of _ k''] exI [of _ n''] exI [of _ ts'']) simp
  qed
qed simp

lemma uncompress_rest:
  "decoding d h k n ts tail \<Longrightarrow> length (final_output h k n ts) = length h + m \<Longrightarrow>
   length (dest d) + m < dest_limit d \<Longrightarrow> m < fuel \<Longrightarrow>
   \<exists>d'. uncompress_loop fuel False d = Some (Ret TINF_DONE, d') \<and>
     dest d' = dest d @ drop (length h) (final_output h k n ts) \<and> next_bits d' tail \<and>
     bitcount d' < 8 \<and> \<not> eof d' \<and> same_env d d'"
proof (induction m arbitrary: d h k n ts fuel)
  case 0
  from 0(4) obtain f where f: "fuel = Suc f" by (cases fuel) auto
  from end_of_block [OF 0(1)] 0(2) obtain d' where d': "process_block d = (Ret TINF_DONE, d')" "reads d d'"
    "next_bits d' tail" by auto
  with 0 f reads_fields [OF d'(2)] reads_bitcount [OF d'(2)] reads_same_env [OF d'(2)] show ?case
    by (auto simp: decoding_def TINF_OK_def TINF_DONE_def)
next
  case (Suc m)
  from Suc.prems(4) obtain f where f: "fuel = Suc f" by (cases fuel) auto
  let ?F = "final_output h k n ts"
  from Suc.prems have "one_byte d h k n ts tail" by (intro one_byte) simp_all
  then obtain d' b k' n' ts' where d': "process_block d = (Ret TINF_OK, d')" "decoding d' (h @ [b]) k' n' ts' tail"
    "final_output (h @ [b]) k' n' ts' = ?F" "dest d' = dest d @ [b]" "same_env d d'"
    by (auto simp: one_byte_def)
  have hb: "take (length h + 1) ?F = h @ [b]"
    using final_output_prefix [of "h @ [b]" k' n' ts'] d'(3) by simp
  have dr: "drop (length h) ?F = b # drop (length h + 1) ?F"
    using drop_take_one [OF hb] Suc.prems(2) by simp
  note step = uncompress_step [OF Suc.prems(1) d'(1), of f]
  have lim: "dest_limit d' = dest_limit d" using d'(5) by (simp add: same_env_def)
  have "length (final_output (h @ [b]) k' n' ts') = length (h @ [b]) + m"
    "length (dest d') + m < dest_limit d'" "m < f"
    using Suc.prems d' lim f by auto
  from Suc.IH [OF d'(2) this] step f d' lim this(2) dr show ?case
    by (auto dest: same_env_trans [OF d'(5)])
qed

definition at_start :: "'c uncomp \<Rightarrow> token list \<Rightarrow> bool list \<Rightarrow> bool" where
  "at_start d ts tail \<longleftrightarrow> btype d = - 1 \<and> curlen d = 0 \<and> bitcount d < 8 \<and> win d [] \<and>
     tree_dims (ltree d) \<and> tree_dims (dtree d) \<and> valid_tokens w ts 0 \<and>
     next_bits d (block_header @ stream_bits ts @ eob_bits @ tail)"

lemma start_fixed:
  assumes "at_start d ts tail"
  shows "\<exists>e. start_block d = (Ret TINF_OK, e) \<and> decoding e [] 0 0 ts tail \<and> dest e = dest d \<and> same_env d e"
proof -
  let ?rest = "stream_bits ts @ eob_bits @ tail"
  have d: "btype d = - 1" "curlen d = 0" "bitcount d < 8" "win d []" "tree_dims (ltree d)" "tree_dims (dtree d)"
    "valid_tokens w ts 0" "next_bits d (True # [True, False] @ ?rest)"
    using assms by (simp_all add: at_start_def block_header_def)
  from tinf_getbit_bits [OF d(8)] obtain d1 where
    d1: "tinf_getbit d = (1, d1)" "next_bits d1 ([True, False] @ ?rest)" "reads d d1" by auto
  let ?d1 = "d1\<lparr>bfinal := 1\<rparr>"
  from d1(2) have "next_bits ?d1 ([True, False] @ ?rest)" by simp
  from tinf_read_bits_bits [OF this, of 2 0] obtain d2 where
    d2: "tinf_read_bits ?d1 2 0 = (1, d2)" "next_bits d2 ?rest" "reads ?d1 d2" by auto
  have tr: "fixed_trees (fst (tinf_build_fixed_trees (ltree d2) (dtree d2)))
      (snd (tinf_build_fixed_trees (ltree d2) (dtree d2)))"
    using d(5,6) reads_fields [OF d1(3)] reads_fields [OF d2(3)] by (intro build_fixed_trees) simp_all
  obtain lt dt where tb: "tinf_build_fixed_trees (ltree d2) (dtree d2) = (lt, dt)" by force
  let ?e = "d2\<lparr>btype := 1, ltree := lt, dtree := dt\<rparr>"
  have bc: "bitcount d2 < 8"
    using reads_bitcount [OF d2(3)] reads_bitcount [OF d1(3) d(3)] by simp
  have "win ?e []"
    using win_block(3) [OF win_block(2) [OF win_reads [OF win_block(1) [OF win_reads [OF d(4) d1(3)]] d2(3)]]] .
  then have "decoding ?e [] 0 0 ts tail"
    using d d2(2) tr tb bc reads_fields [OF d1(3)] reads_fields [OF d2(3)]
    by (simp add: decoding_def next_bits_def)
  moreover have "start_block d = (Ret TINF_OK, ?e)"
    using d1(1) d2(1) d(1) reads_fields [OF d1(3)] tb by (simp add: start_block_def)
  ultimately show ?thesis
    using reads_fields [OF d1(3)] reads_fields [OF d2(3)] by (auto simp: same_env_def)
qed

text \<open>
  \<open>inflating d h F tail\<close>: \<open>uzlib_uncompress\<close> has delivered \<open>h\<close> of the data \<open>F\<close> and can be called
  to go on; \<open>tail\<close> are the bits after the stream.
\<close>

definition inflating :: "'c uncomp \<Rightarrow> u8 list \<Rightarrow> u8 list \<Rightarrow> bool list \<Rightarrow> bool" where
  "inflating d h F tail \<longleftrightarrow> (\<exists>k n ts. decoding d h k n ts tail \<and> final_output h k n ts = F) \<or>
     (h = [] \<and> (\<exists>ts. at_start d ts tail \<and> expand ts [] = F))"

lemma inflating_decode:
  assumes "inflating d h F tail" "0 < fuel"
  obtains e k n ts where "uzlib_uncompress fuel d = uncompress_loop fuel False e" "decoding e h k n ts tail"
    "final_output h k n ts = F" "dest e = dest d" "same_env d e"
  using assms(1) unfolding inflating_def
proof (elim disjE exE conjE)
  fix k n ts assume "decoding d h k n ts tail" "final_output h k n ts = F"
  then show thesis by (rule that [rotated]) (simp_all add: uzlib_uncompress_def same_env_def)
next
  fix ts assume h: "h = []" and ts: "at_start d ts tail" "expand ts [] = F"
  from start_fixed [OF ts(1)] obtain e where
    e: "start_block d = (Ret TINF_OK, e)" "decoding e [] 0 0 ts tail" "dest e = dest d" "same_env d e" by auto
  obtain f where f: "fuel = Suc f" using assms(2) by (cases fuel) auto
  show thesis
  proof (rule that [of e 0 0 ts])
    show "uzlib_uncompress fuel d = uncompress_loop fuel False e"
      using e(1,2) ts(1) f by (simp add: uzlib_uncompress_def at_start_def decoding_def)
  qed (use e h ts in \<open>simp_all add: final_output_def\<close>)
qed

lemma inflating_partial:
  assumes "inflating d h F tail" "0 < m" "length h + m \<le> length F" "dest_limit d = length (dest d) + m" "m \<le> fuel"
  shows "\<exists>d'. uzlib_uncompress fuel d = Some (Ret TINF_OK, d') \<and> inflating d' (take (length h + m) F) F tail \<and>
     dest d' = dest d @ take m (drop (length h) F) \<and> same_env d d'"
proof -
  have "0 < fuel" using assms(2,5) by simp
  from inflating_decode [OF assms(1) this] obtain e k n ts where
    e: "uzlib_uncompress fuel d = uncompress_loop fuel False e" "decoding e h k n ts tail"
    "final_output h k n ts = F" "dest e = dest d" "same_env d e" .
  have "length h + m \<le> length (final_output h k n ts)" "dest_limit e = length (dest e) + m"
    using assms(3,4) e by (auto simp: same_env_def)
  from uncompress_partial [OF e(2) assms(2) this assms(5)] e obtain d' k' n' ts' where
    "uzlib_uncompress fuel d = Some (Ret TINF_OK, d')" "decoding d' (take (length h + m) F) k' n' ts' tail"
    "final_output (take (length h + m) F) k' n' ts' = F"
    "dest d' = dest d @ take m (drop (length h) F)" "same_env e d'" by auto
  with same_env_trans [OF e(5)] show ?thesis by (auto simp: inflating_def)
qed

lemma inflating_rest:
  assumes "inflating d h F tail" "length (dest d) + (length F - length h) < dest_limit d"
    "length F - length h < fuel"
  shows "\<exists>d'. uzlib_uncompress fuel d = Some (Ret TINF_DONE, d') \<and> dest d' = dest d @ drop (length h) F \<and>
     next_bits d' tail \<and> bitcount d' < 8 \<and> same_env d d'"
proof -
  have "0 < fuel" using assms(3) by simp
  from inflating_decode [OF assms(1) this] obtain e k n ts where
    e: "uzlib_uncompress fuel d = uncompress_loop fuel False e" "decoding e h k n ts tail"
    "final_output h k n ts = F" "dest e = dest d" "same_env d e" .
  have "length h \<le> length F"
    using final_output_prefix [of h k n ts] e(3) by (metis length_take min.absorb_iff2 min.commute)
  then have "length (final_output h k n ts) = length h + (length F - length h)"
    "length (dest e) + (length F - length h) < dest_limit e"
    using assms(2) e by (auto simp: same_env_def)
  from uncompress_rest [OF e(2) this assms(3)] e show ?thesis
    by (auto dest: same_env_trans [OF e(5)])
qed

lemma inflating_client:
  assumes "inflating d h F tail"
  shows "inflating (d\<lparr>dest_limit := lim\<rparr>) h F tail" "inflating (d\<lparr>checksum := ck\<rparr>) h F tail"
proof -
  have "decoding (d\<lparr>dest_limit := lim\<rparr>) h k n ts tail" "decoding (d\<lparr>checksum := ck\<rparr>) h k n ts tail"
    if "decoding d h k n ts tail" for k n ts
    using that win_client lz_at_client by (auto simp: decoding_def)
  moreover have "at_start (d\<lparr>dest_limit := lim\<rparr>) ts tail" "at_start (d\<lparr>checksum := ck\<rparr>) ts tail"
    if "at_start d ts tail" for ts
    using that win_client by (auto simp: at_start_def)
  ultimately show "inflating (d\<lparr>dest_limit := lim\<rparr>) h F tail" "inflating (d\<lparr>checksum := ck\<rparr>) h F tail"
    using assms unfolding inflating_def by blast+
qed

end

section \<open>The two windows of the code\<close>

text \<open>Without a dictionary the match pointer counts back from the end of the output itself.\<close>

definition flat_window :: "'c uncomp \<Rightarrow> u8 list \<Rightarrow> bool" where
  "flat_window d h \<longleftrightarrow> dict_ring d = None \<and> dest d = h"

definition flat_at :: "'c uncomp \<Rightarrow> nat \<Rightarrow> bool" where
  "flat_at d n \<longleftrightarrow> lzOff d = - int n"

interpretation flat: lz_window flat_window flat_at 32768
proof unfold_locales
  show "\<exists>l. let d' = (TINF_PUT d (h ! (length h - n)))\<lparr>lzOff := l, curlen := curlen d - 1\<rparr>
          in copy_match_byte d = (Ret TINF_OK, d') \<and> flat_window d' (h @ [h ! (length h - n)]) \<and> flat_at d' n"
    if "flat_window d h" "flat_at d n" "0 < n" "n \<le> length h" for d :: "'c uncomp" and h n
  proof (intro exI [of _ "- int n"])
    have "nat (int (length h) - int n) = length h - n" using that(4) by simp
    with that show "let d' = (TINF_PUT d (h ! (length h - n)))\<lparr>lzOff := - int n, curlen := curlen d - 1\<rparr>
        in copy_match_byte d = (Ret TINF_OK, d') \<and> flat_window d' (h @ [h ! (length h - n)]) \<and> flat_at d' n"
      by (cases d) (simp add: flat_window_def flat_at_def copy_match_byte_def TINF_PUT_def Let_def)
  qed
qed (auto simp: flat_window_def flat_at_def reads_fields set_lz_offset_def TINF_PUT_def)

text \<open>
  With a dictionary of \<open>N\<close> bytes the byte \<open>i\<close> of the output is kept at \<open>i mod N\<close>, as long as it is
  among the last \<open>N\<close>.
\<close>

definition ring_window :: "nat \<Rightarrow> 'c uncomp \<Rightarrow> u8 list \<Rightarrow> bool" where
  "ring_window N d h \<longleftrightarrow> 0 < N \<and> dict_size d = N \<and> dict_idx d = length h mod N \<and>
     (\<exists>ring. dict_ring d = Some ring \<and> length ring = N \<and>
        (\<forall>i<length h. length h \<le> i + N \<longrightarrow> ring ! (i mod N) = h ! i))"

definition ring_at :: "nat \<Rightarrow> 'c uncomp \<Rightarrow> nat \<Rightarrow> bool" where
  "ring_at N d n \<longleftrightarrow> lzOff d = (int (dict_idx d) - int n) mod int N"

lemma mod_step: "(int ((x + 1) mod N) - int n) mod int N = ((int (x mod N) - int n) mod int N + 1) mod int N"
  by (simp add: zmod_int mod_diff_left_eq mod_add_left_eq algebra_simps mod_add_right_eq)

lemma mod_succ: "0 < N \<Longrightarrow> (x + 1) mod N = (if x mod N + 1 = N then 0 else x mod N + 1)" for x N :: nat
  by (simp add: mod_Suc)

lemma imod_succ: "0 < N \<Longrightarrow> 0 \<le> y \<Longrightarrow> y < N \<Longrightarrow> (y + 1) mod N = (if y + 1 = N then 0 else y + 1)" for y N :: int
  by auto

lemma ring_put:
  assumes "ring_window N d h"
  shows "ring_window N (TINF_PUT d c) (h @ [c])"
proof -
  from assms obtain ring where r: "dict_ring d = Some ring" "length ring = N" "0 < N" "dict_size d = N"
    "dict_idx d = length h mod N" "\<forall>i<length h. length h \<le> i + N \<longrightarrow> ring ! (i mod N) = h ! i"
    by (auto simp: ring_window_def)
  have "ring[length h mod N := c] ! (i mod N) = (h @ [c]) ! i" if "i < length h + 1" "length h + 1 \<le> i + N" for i
  proof (cases "i = length h")
    case False
    with that have i: "i < length h" "length h - i < N" by auto
    have "i mod N \<noteq> length h mod N"
    proof
      assume "i mod N = length h mod N"
      with i(1) have "N dvd length h - i" by (metis less_imp_le mod_eq_dvd_iff_nat)
      with i show False by (auto dest: dvd_imp_le)
    qed
    with r i that show ?thesis by (simp add: nth_append)
  qed (use r in simp)
  then show ?thesis
    using r by (simp add: ring_window_def TINF_PUT_def Let_def mod_Suc)
qed

lemma ring_offset:
  assumes "0 < N" "n \<le> N"
  shows "(if int (x mod N) - int n < 0 then int (x mod N) - int n + int N else int (x mod N) - int n)
    = (int (x mod N) - int n) mod int N"
proof (cases "int (x mod N) - int n < 0")
  case True
  have "(int (x mod N) - int n) mod int N = (int (x mod N) - int n + int N) mod int N" by simp
  also have "\<dots> = int (x mod N) - int n + int N"
    using True assms by (intro mod_pos_pos_trivial) auto
  finally show ?thesis using True by simp
next
  case False
  have "int (x mod N) < int N" using assms(1) by simp
  with False show ?thesis by simp
qed

interpretation ring: lz_window "ring_window N" "ring_at N" "min N 32768" for N
proof unfold_locales
  show "ring_window N (TINF_PUT d c) (h @ [c])" if "ring_window N d h" for d :: "'c uncomp" and h c
    using that by (rule ring_put)
  show "\<exists>l. set_lz_offset n d = (Ret TINF_OK, d\<lparr>lzOff := l\<rparr>) \<and> ring_window N (d\<lparr>lzOff := l\<rparr>) h \<and>
      ring_at N (d\<lparr>lzOff := l\<rparr>) n"
    if "ring_window N d h" "n \<le> min N 32768" for d :: "'c uncomp" and h n
  proof -
    have N: "0 < N" "dict_size d = N" "dict_idx d = length h mod N" using that(1) by (auto simp: ring_window_def)
    let ?l = "(int (length h mod N) - int n) mod int N"
    let ?o = "int (length h mod N) - int n"
    from that obtain ring where "dict_ring d = Some ring" "n \<le> N" by (auto simp: ring_window_def)
    then have "set_lz_offset n d = (Ret TINF_OK, d\<lparr>lzOff := if ?o < 0 then ?o + int N else ?o\<rparr>)"
      using N by (cases d) (simp add: set_lz_offset_def Let_def)
    then have "set_lz_offset n d = (Ret TINF_OK, d\<lparr>lzOff := ?l\<rparr>)"
      by (simp only: ring_offset [OF N(1) \<open>n \<le> N\<close>])
    with that(1) N show ?thesis by (intro exI [of _ ?l]) (simp add: ring_window_def ring_at_def)
  qed
  show "\<exists>l. let d' = (TINF_PUT d (h ! (length h - n)))\<lparr>lzOff := l, curlen := curlen d - 1\<rparr>
          in copy_match_byte d = (Ret TINF_OK, d') \<and> ring_window N d' (h @ [h ! (length h - n)]) \<and> ring_at N d' n"
    if "ring_window N d h" "ring_at N d n" "0 < n" "n \<le> length h" "n \<le> min N 32768" for d :: "'c uncomp" and h n
  proof -
    let ?l = "lzOff d" and ?l' = "(lzOff d + 1) mod int N" and ?c = "h ! (length h - n)"
    from that(1) obtain ring where r: "dict_ring d = Some ring" "length ring = N" "0 < N" "dict_size d = N"
      "dict_idx d = length h mod N" "\<forall>i<length h. length h \<le> i + N \<longrightarrow> ring ! (i mod N) = h ! i"
      by (auto simp: ring_window_def)
    have l: "?l = (int (length h mod N) - int n) mod int N" using that(2) r by (simp add: ring_at_def)
    have lz: "?l = int ((length h - n) mod N)"
      unfolding l using that(4) by (simp add: zmod_int of_nat_diff mod_diff_left_eq)
    have "ring ! ((length h - n) mod N) = ?c"
      by (rule r(6) [rule_format]) (use that(3-5) in linarith)+
    then have byte: "ring ! nat ?l = ?c" by (simp only: lz nat_int)
    have range: "0 \<le> ?l" "?l < int N" using r(3) l by simp_all
    note wrap = imod_succ [OF _ range]
    have "copy_match_byte d = (Ret TINF_OK, (TINF_PUT d ?c)\<lparr>lzOff := ?l', curlen := curlen d - 1\<rparr>)"
      using r range byte wrap
      by (cases d) (auto simp: copy_match_byte_def TINF_PUT_def Let_def)
    moreover have "ring_window N ((TINF_PUT d ?c)\<lparr>lzOff := ?l', curlen := curlen d - 1\<rparr>) (h @ [?c])"
      using ring_put [OF that(1), of ?c] by (simp add: ring_window_def)
    moreover have "ring_at N ((TINF_PUT d ?c)\<lparr>lzOff := ?l', curlen := curlen d - 1\<rparr>) n"
      using ring_put [OF that(1), of ?c] mod_step [of "length h" N n] l
      by (simp add: ring_window_def ring_at_def)
    ultimately show ?thesis by (auto simp: Let_def)
  qed
qed (auto simp: ring_window_def ring_at_def reads_fields)

text \<open>The decoders that run over the bytes of the source as the code reads them.\<close>

interpretation flat_decoder: lz_decoder supplies flat_window flat_at 32768
  by unfold_locales

interpretation ring_decoder: lz_decoder supplies "ring_window N" "ring_at N" "min N 32768" for N
  by unfold_locales

end
