(* ===== verification/Uzlib_Gzip.thy ===== *)
theory Uzlib_Gzip
  imports Uzlib_Roundtrip
begin

text \<open>
  The containers around a deflate stream: the gzip header (\<open>tinfgzip.c\<close>), the zlib header
  (\<open>tinfzlib.c\<close>), and how their parsers read a byte source.
\<close>

section \<open>Headers\<close>

definition FTEXT :: u8 where "FTEXT = 1"
definition FHCRC :: u8 where "FHCRC = 2"
definition FEXTRA :: u8 where "FEXTRA = 4"
definition FNAME :: u8 where "FNAME = 8"
definition FCOMMENT :: u8 where "FCOMMENT = 16"

primrec tinf_skip_bytes :: "'c uncomp \<Rightarrow> nat \<Rightarrow> 'c uncomp" where
  "tinf_skip_bytes d 0 = d"
| "tinf_skip_bytes d (Suc num) = tinf_skip_bytes (snd (uzlib_get_byte d)) num"

definition tinf_get_uint16 :: "'c uncomp \<Rightarrow> u16 \<times> 'c uncomp" where
  "tinf_get_uint16 d =
     (let (b, d) = uzlib_get_byte d;
          v = (ucast b :: u32);
          (b, d) = uzlib_get_byte d;
          v = push_bit 8 (ucast b) OR v
      in (ucast v, d))"

text \<open>\<open>while (uzlib_get_byte(d));\<close> ends at a zero byte, or at the end of the source.\<close>

partial_function (option) skip_string :: "'c uncomp \<Rightarrow> 'c uncomp option" where
  "skip_string d =
     (let (b, d) = uzlib_get_byte d in if b \<noteq> 0 then skip_string d else Some d)"

text \<open>\<open>None\<close> means that a string of the header never ends, which only a callback source can do.\<close>

definition uzlib_gzip_parse_header :: "'c uncomp \<Rightarrow> (int \<times> 'c uncomp) option" where
  "uzlib_gzip_parse_header d =
     (let (id1, d) = uzlib_get_byte d
      in if id1 \<noteq> 0x1f then Some (TINF_DATA_ERROR, d)
         else let (id2, d) = uzlib_get_byte d
      in if id2 \<noteq> 0x8b then Some (TINF_DATA_ERROR, d)
         else let (cm, d) = uzlib_get_byte d
      in if cm \<noteq> 8 then Some (TINF_DATA_ERROR, d)
         else let (flg, d) = uzlib_get_byte d
      in if flg AND 0xe0 \<noteq> 0 then Some (TINF_DATA_ERROR, d)
         else let d = tinf_skip_bytes d 6;
                  d = (if flg AND FEXTRA \<noteq> 0 then
                         let (xlen, d) = tinf_get_uint16 d in tinf_skip_bytes d (unat xlen)
                       else d)
      in Option.bind (if flg AND FNAME \<noteq> 0 then skip_string d else Some d) (\<lambda>d.
         Option.bind (if flg AND FCOMMENT \<noteq> 0 then skip_string d else Some d) (\<lambda>d.
         let d = (if flg AND FHCRC \<noteq> 0 then snd (tinf_get_uint16 d) else d)
         in Some (TINF_OK, d\<lparr>checksum_type := TINF_CHKSUM_CRC, checksum := NOT 0\<rparr>))))"

definition uzlib_zlib_parse_header :: "'c uncomp \<Rightarrow> int \<times> 'c uncomp" where
  "uzlib_zlib_parse_header d =
     (let (cmf, d) = uzlib_get_byte d;
          (flg, d) = uzlib_get_byte d
      in if (256 * unat cmf + unat flg) mod 31 \<noteq> 0 then (TINF_DATA_ERROR, d)
         else if cmf AND 0x0f \<noteq> 8 then (TINF_DATA_ERROR, d)
         else if drop_bit 4 cmf > 7 then (TINF_DATA_ERROR, d)
         else if flg AND 0x20 \<noteq> 0 then (TINF_DATA_ERROR, d)
         else (int (unat (drop_bit 4 cmf)),
               d\<lparr>checksum_type := TINF_CHKSUM_ADLER, checksum := 1\<rparr>))"

section \<open>Reading bytes\<close>

text \<open>\<open>takes_bytes d d'\<close>: only the byte source has moved.\<close>

definition takes_bytes :: "'c uncomp \<Rightarrow> 'c uncomp \<Rightarrow> bool" where
  "takes_bytes d d' \<longleftrightarrow> d' = d\<lparr>source := source d', cb_state := cb_state d'\<rparr>"

lemma takes_bytes_refl [simp, intro]: "takes_bytes d d"
  by (simp add: takes_bytes_def)

lemma takes_bytes_trans [trans]: "takes_bytes d e \<Longrightarrow> takes_bytes e f \<Longrightarrow> takes_bytes d f"
  by (cases d; cases e; cases f) (simp add: takes_bytes_def)

lemma takes_bytes_reads: "takes_bytes d d' \<Longrightarrow> reads d d' \<and> tag d' = tag d \<and> bitcount d' = bitcount d"
  by (cases d; cases d') (simp add: takes_bytes_def reads_def)

lemma drop_push_byte:
  fixes a :: u8
  assumes "n \<le> 24"
  shows "drop_bit n (push_bit 24 (ucast a :: u32)) = push_bit (24 - n) (ucast a)"
proof (rule bit_word_eqI)
  fix m :: nat
  assume "m < LENGTH(32)"
  then show "bit (drop_bit n (push_bit 24 (ucast a :: u32))) m = bit (push_bit (24 - n) (ucast a :: u32)) m"
    using assms bit_imp_le_length [of a "m + n - 24"]
    by (auto simp: bit_drop_bit_eq bit_push_bit_iff bit_ucast_iff add.commute [of n m])
qed

lemma get_le_shift:
  "drop_bit 8 (drop_bit 8 (drop_bit 8 (drop_bit 8 (0::u32) OR push_bit 24 (ucast a)) OR push_bit 24 (ucast b))
     OR push_bit 24 (ucast c)) OR push_bit 24 (ucast d) = le32 a b c d"
  by (simp only: drop_bit_or drop_bit_of_0 or.left_neutral drop_bit_drop_bit)
    (simp add: drop_push_byte le32_def or.assoc)

lemma uzlib_get_byte_dest: "dest (snd (uzlib_get_byte d)) = dest d"
  by (auto simp: uzlib_get_byte_def Let_def split: list.splits option.splits prod.splits)

lemma get_le_loop_dest: "dest (snd (get_le_loop n v d)) = dest d"
proof (induction n arbitrary: v d)
  case (Suc n)
  obtain b e where e: "uzlib_get_byte d = (b, e)" by force
  then show ?case using Suc uzlib_get_byte_dest [of d] by simp
qed simp

lemma tinf_get_le_uint32_dest: "dest (snd (tinf_get_le_uint32 d)) = dest d"
  by (simp add: tinf_get_le_uint32_def get_le_loop_dest)

lemma four: "(4 :: nat) = Suc (Suc (Suc (Suc 0)))"
  by simp

lemma small_remainder:
  fixes a b p q :: nat
  assumes "p + 8 * a = q + 8 * b" "p < 8" "q < 8"
  shows "p = q \<and> a = b"
  using assms by presburger

text \<open>A header as RFC 1952 lays it out: the fields that the flag byte announces, in order.\<close>

definition gzip_header :: "u8 \<Rightarrow> u8 list \<Rightarrow> u8 list \<Rightarrow> u8 list \<Rightarrow> u8 list \<Rightarrow> u8 list \<Rightarrow> u8 list" where
  "gzip_header flg six extra name comment hcrc =
     [0x1f, 0x8b, 8, flg] @ six @
     (if flg AND FEXTRA \<noteq> 0
      then [word_of_nat (length extra), word_of_nat (length extra div 256)] @ extra else []) @
     (if flg AND FNAME \<noteq> 0 then name @ [0] else []) @
     (if flg AND FCOMMENT \<noteq> 0 then comment @ [0] else []) @
     (if flg AND FHCRC \<noteq> 0 then hcrc else [])"

definition gzip_fields_ok :: "u8 \<Rightarrow> u8 list \<Rightarrow> u8 list \<Rightarrow> u8 list \<Rightarrow> u8 list \<Rightarrow> u8 list \<Rightarrow> bool" where
  "gzip_fields_ok flg six extra name comment hcrc \<longleftrightarrow>
     flg AND 0xe0 = 0 \<and> length six = 6 \<and> length extra < 65536 \<and> 0 \<notin> set name \<and> 0 \<notin> set comment \<and>
     length hcrc = 2"

lemma uint16_value:
  assumes "n < 65536"
  shows "unat (ucast (push_bit 8 (ucast (word_of_nat (n div 256) :: u8)) OR ucast (word_of_nat n :: u8) :: u32) :: u16) = n"
proof -
  have "(ucast (push_bit 8 (ucast (word_of_nat (n div 256) :: u8)) OR ucast (word_of_nat n :: u8) :: u32) :: u16) = word_of_nat n"
  proof (rule bit_word_eqI)
    fix i :: nat
    assume "i < LENGTH(16)"
    then show "bit (ucast (push_bit 8 (ucast (word_of_nat (n div 256) :: u8)) OR ucast (word_of_nat n :: u8) :: u32) :: u16) i
        = bit (word_of_nat n :: u16) i"
      by (auto simp: bit_ucast_iff bit_or_iff bit_push_bit_iff bit_of_nat_iff
          drop_bit_eq_div [of 8 n, simplified, symmetric] bit_drop_bit_eq)
  qed
  with assms show ?thesis by (simp add: unat_of_nat)
qed

context byte_source
begin

lemma get_byte_takes:
  assumes "next_bytes d (b # bs)"
  obtains d' where "uzlib_get_byte d = (b, d')" "next_bytes d' bs" "takes_bytes d d'"
  using uzlib_get_byte_bytes [OF assms] by (auto simp: takes_bytes_def)

lemma next_bytes_update [simp]:
  "next_bytes (d\<lparr>checksum := k\<rparr>) = next_bytes d" "next_bytes (d\<lparr>checksum_type := ct\<rparr>) = next_bytes d"
  "next_bytes (d\<lparr>dest := out\<rparr>) = next_bytes d" "next_bytes (d\<lparr>dest_limit := lim\<rparr>) = next_bytes d"
  by (rule ext; simp add: next_bytes_def)+

lemma skip_bytes:
  "next_bytes d (xs @ rest) \<Longrightarrow> length xs = n \<Longrightarrow>
   \<exists>d'. tinf_skip_bytes d n = d' \<and> next_bytes d' rest \<and> takes_bytes d d'"
proof (induction n arbitrary: xs d)
  case (Suc n)
  then obtain x ys where xs: "xs = x # ys" by (cases xs) auto
  with Suc.prems obtain e where e: "uzlib_get_byte d = (x, e)" "next_bytes e (ys @ rest)" "takes_bytes d e"
    by (auto elim: get_byte_takes)
  with Suc.IH [OF e(2)] Suc.prems xs show ?case by (auto intro: takes_bytes_trans)
qed auto

lemma get_uint16:
  assumes "next_bytes d (a # b # rest)"
  shows "\<exists>d'. tinf_get_uint16 d = (ucast (push_bit 8 (ucast b) OR ucast a :: u32), d') \<and>
    next_bytes d' rest \<and> takes_bytes d d'"
proof -
  from assms obtain e where e: "uzlib_get_byte d = (a, e)" "next_bytes e (b # rest)" "takes_bytes d e"
    by (rule get_byte_takes)
  from e(2) obtain f where f: "uzlib_get_byte e = (b, f)" "next_bytes f rest" "takes_bytes e f"
    by (rule get_byte_takes)
  from e f takes_bytes_trans [OF e(3) f(3)] show ?thesis by (simp add: tinf_get_uint16_def)
qed

lemma skip_string_bytes:
  "next_bytes d (xs @ 0 # rest) \<Longrightarrow> 0 \<notin> set xs \<Longrightarrow>
   \<exists>d'. skip_string d = Some d' \<and> next_bytes d' rest \<and> takes_bytes d d'"
proof (induction xs arbitrary: d)
  case Nil
  then obtain e where "uzlib_get_byte d = (0, e)" "next_bytes e rest" "takes_bytes d e"
    by (auto elim: get_byte_takes)
  then show ?case by (subst skip_string.simps) simp
next
  case (Cons x xs)
  then obtain e where e: "uzlib_get_byte d = (x, e)" "next_bytes e (xs @ 0 # rest)" "takes_bytes d e"
    by (auto elim: get_byte_takes)
  with Cons.IH [OF e(2)] Cons.prems show ?case
    by (subst skip_string.simps) (auto intro: takes_bytes_trans)
qed

lemma get_le_uint32:
  assumes "next_bytes d (le32_bytes x @ rest)"
  shows "\<exists>d'. tinf_get_le_uint32 d = (x, d') \<and> next_bytes d' rest \<and> takes_bytes d d'"
proof -
  let ?b = "\<lambda>k. ucast (drop_bit k x) :: u8"
  have "next_bytes d (?b 0 # ?b 8 # ?b 16 # ?b 24 # rest)"
    using assms by (simp add: le32_bytes_def)
  then obtain d1 where 1: "uzlib_get_byte d = (?b 0, d1)" "next_bytes d1 (?b 8 # ?b 16 # ?b 24 # rest)" "takes_bytes d d1"
    by (rule get_byte_takes)
  from 1(2) obtain d2 where 2: "uzlib_get_byte d1 = (?b 8, d2)" "next_bytes d2 (?b 16 # ?b 24 # rest)" "takes_bytes d1 d2"
    by (rule get_byte_takes)
  from 2(2) obtain d3 where 3: "uzlib_get_byte d2 = (?b 16, d3)" "next_bytes d3 (?b 24 # rest)" "takes_bytes d2 d3"
    by (rule get_byte_takes)
  from 3(2) obtain d4 where 4: "uzlib_get_byte d3 = (?b 24, d4)" "next_bytes d4 rest" "takes_bytes d3 d4"
    by (rule get_byte_takes)
  have "tinf_get_le_uint32 d = (le32 (?b 0) (?b 8) (?b 16) (?b 24), d4)"
    unfolding tinf_get_le_uint32_def get_le_shift [symmetric] four
    by (simp only: get_le_loop.simps 1(1) 2(1) 3(1) 4(1) Let_def prod.case)
  moreover have "le32 (?b 0) (?b 8) (?b 16) (?b 24) = x" using le32_le32_bytes [of x] by simp
  ultimately show ?thesis
    using 4(2) takes_bytes_trans [OF takes_bytes_trans [OF 1(3) 2(3)] takes_bytes_trans [OF 3(3) 4(3)]] by auto
qed

text \<open>Where the stream ends: the padding is in the bit buffer, the bytes after it are next.\<close>

lemma next_bytes_after:
  assumes "next_bits d (pad @ concat (map (lsb_bits 8) (bs :: u8 list)))" "length pad < 8" "bitcount d < 8"
  shows "next_bytes d bs"
proof -
  from assms(1) obtain bytes where b: "next_bytes d bytes"
    "pad @ concat (map (lsb_bits 8) bs) = lsb_bits (bitcount d) (tag d) @ concat (map (lsb_bits 8) bytes)"
    unfolding next_bits_bytes by blast
  from arg_cong [OF b(2), of length] have "length pad + 8 * length bs = bitcount d + 8 * length bytes" by simp
  from small_remainder [OF this assms(2,3)] have l: "length pad = bitcount d" "length bs = length bytes" by auto
  with b(2) have "concat (map (lsb_bits 8) bs) = concat (map (lsb_bits 8) bytes)" by simp
  with l(2) have "bs = bytes" by (intro concat_lsb_bits_inject)
  with b(1) show ?thesis by simp
qed

lemma gzip_header_bytes:
  assumes "gzip_fields_ok flg six extra name comment hcrc"
    and "next_bytes d (gzip_header flg six extra name comment hcrc @ rest)"
  shows "\<exists>d'. uzlib_gzip_parse_header d =
      Some (TINF_OK, d'\<lparr>checksum_type := TINF_CHKSUM_CRC, checksum := NOT 0\<rparr>) \<and>
    next_bytes d' rest \<and> takes_bytes d d'"
proof -
  let ?hc = "(if flg AND FHCRC \<noteq> 0 then hcrc else []) @ rest"
  let ?cm = "(if flg AND FCOMMENT \<noteq> 0 then comment @ [0] else []) @ ?hc"
  let ?nm = "(if flg AND FNAME \<noteq> 0 then name @ [0] else []) @ ?cm"
  let ?ex = "(if flg AND FEXTRA \<noteq> 0
      then [word_of_nat (length extra), word_of_nat (length extra div 256)] @ extra else []) @ ?nm"
  have ok: "flg AND 0xe0 = 0" "length six = 6" "length extra < 65536" "0 \<notin> set name" "0 \<notin> set comment"
    "length hcrc = 2" using assms(1) by (auto simp: gzip_fields_ok_def)
  have "next_bytes d (0x1f # 0x8b # 8 # flg # six @ ?ex)"
    using assms(2) by (simp add: gzip_header_def)
  then obtain d1 where 1: "uzlib_get_byte d = (0x1f, d1)" "next_bytes d1 (0x8b # 8 # flg # six @ ?ex)" "takes_bytes d d1"
    by (rule get_byte_takes)
  from 1(2) obtain d2 where 2: "uzlib_get_byte d1 = (0x8b, d2)" "next_bytes d2 (8 # flg # six @ ?ex)" "takes_bytes d1 d2"
    by (rule get_byte_takes)
  from 2(2) obtain d3 where 3: "uzlib_get_byte d2 = (8, d3)" "next_bytes d3 (flg # six @ ?ex)" "takes_bytes d2 d3"
    by (rule get_byte_takes)
  from 3(2) obtain d4 where 4: "uzlib_get_byte d3 = (flg, d4)" "next_bytes d4 (six @ ?ex)" "takes_bytes d3 d4"
    by (rule get_byte_takes)
  from skip_bytes [OF 4(2) ok(2)] obtain d5 where
    5: "tinf_skip_bytes d4 6 = d5" "next_bytes d5 ?ex" "takes_bytes d4 d5" by blast
  have "\<exists>d6. (if flg AND FEXTRA \<noteq> 0 then let (xlen, d) = tinf_get_uint16 d5 in tinf_skip_bytes d (unat xlen) else d5) = d6
      \<and> next_bytes d6 ?nm \<and> takes_bytes d5 d6"
  proof (cases "flg AND FEXTRA \<noteq> 0")
    case True
    with 5(2) have "next_bytes d5 (word_of_nat (length extra) # word_of_nat (length extra div 256) # extra @ ?nm)" by simp
    from get_uint16 [OF this] obtain e where
      e: "unat (fst (tinf_get_uint16 d5)) = length extra" "snd (tinf_get_uint16 d5) = e"
        "next_bytes e (extra @ ?nm)" "takes_bytes d5 e"
      using uint16_value [OF ok(3)] by (metis fst_conv snd_conv)
    from skip_bytes [OF e(3) refl] e True show ?thesis
      by (auto simp: case_prod_unfold intro: takes_bytes_trans)
  qed (use 5 in auto)
  then obtain d6 where
    6: "(if flg AND FEXTRA \<noteq> 0 then let (xlen, d) = tinf_get_uint16 d5 in tinf_skip_bytes d (unat xlen) else d5) = d6"
      "next_bytes d6 ?nm" "takes_bytes d5 d6" by blast
  obtain d7 where
    7: "(if flg AND FNAME \<noteq> 0 then skip_string d6 else Some d6) = Some d7" "next_bytes d7 ?cm" "takes_bytes d6 d7"
    using skip_string_bytes [of d6 name ?cm] 6(2) ok(4) by (cases "flg AND FNAME \<noteq> 0") auto
  obtain d8 where
    8: "(if flg AND FCOMMENT \<noteq> 0 then skip_string d7 else Some d7) = Some d8" "next_bytes d8 ?hc" "takes_bytes d7 d8"
    using skip_string_bytes [of d7 comment ?hc] 7(2) ok(5) by (cases "flg AND FCOMMENT \<noteq> 0") auto
  obtain a b where hcrc: "hcrc = [a, b]"
    using ok(6) by (metis (no_types) length_0_conv length_Suc_conv numeral_2_eq_2)
  obtain d9 where
    9: "(if flg AND FHCRC \<noteq> 0 then snd (tinf_get_uint16 d8) else d8) = d9" "next_bytes d9 rest" "takes_bytes d8 d9"
    using get_uint16 [of d8 a b rest] 8(2) hcrc by (cases "flg AND FHCRC \<noteq> 0") auto
  have "takes_bytes d d9"
    using 1(3) 2(3) 3(3) 4(3) 5(3) 6(3) 7(3) 8(3) 9(3) by (meson takes_bytes_trans)
  moreover have "uzlib_gzip_parse_header d = Some (TINF_OK, d9\<lparr>checksum_type := TINF_CHKSUM_CRC, checksum := NOT 0\<rparr>)"
    unfolding uzlib_gzip_parse_header_def
    by (simp only: 1(1) 2(1) 3(1) 4(1) 5(1) 6(1) [unfolded Let_def] 7(1) 8(1) 9(1) ok(1) Let_def prod.case bind.bind_lunit
        simp_thms if_True if_False)
  ultimately show ?thesis using 9(2) by blast
qed

end

end
