(* ===== verification/Uzlib_Programs.thy ===== *)
theory Uzlib_Programs
  imports Uzlib_Gzip
begin

text \<open>
  The two command line programs that come with uzlib, \<open>tgzip\<close> and \<open>tgunzip\<close>, and the end-to-end
  round trips: what \<open>tgzip\<close> writes, \<open>tgunzip\<close> restores.
\<close>

section \<open>The programs\<close>

text \<open>The three calls that make a stream: \<open>zlib_start_block\<close>, \<open>uzlib_compress\<close>, \<open>zlib_finish_block\<close>.\<close>

definition deflate_static :: "uzlib_comp \<Rightarrow> u8 list \<Rightarrow> uzlib_comp option" where
  "deflate_static data src =
     Option.bind (zlib_start_block (comp_out data)) (\<lambda>out.
     Option.bind (uzlib_compress (data\<lparr>comp_out := out\<rparr>) src) (\<lambda>data.
     map_option (\<lambda>out. data\<lparr>comp_out := out\<rparr>) (zlib_finish_block (comp_out data))))"

definition tgzip_comp :: uzlib_comp where
  "tgzip_comp =
     \<lparr>comp_out = \<lparr>outbuf = [], outsize = 0, ob_outbits = 0, noutbits = 0, comp_disabled = False\<rparr>,
      hash_table = (\<lambda>_. None), hash_bits = 12, comp_dict_size = 32768\<rparr>"

definition tgzip_header :: "u8 list" where
  "tgzip_header = [0x1f, 0x8b, 0x08, 0x00] @ le32_bytes 0 @ [0x04, 0x03]"

definition tgzip_main :: "u8 list \<Rightarrow> u8 list option" where
  "tgzip_main src =
     map_option (\<lambda>data. tgzip_header @ outbuf (comp_out data) @
         le32_bytes (NOT (uzlib_crc32 src (NOT 0))) @ le32_bytes (of_nat (length src)))
       (deflate_static tgzip_comp src)"

definition OUT_CHUNK_SIZE :: nat where "OUT_CHUNK_SIZE = 1"

text \<open>\<open>while (dlen) { ... }\<close>\<close>

function tgunzip_loop :: "nat \<Rightarrow> nat \<Rightarrow> c_result \<Rightarrow> 'c uncomp \<Rightarrow> (c_result \<times> 'c uncomp) option" where
  "tgunzip_loop fuel dlen res d =
     (if dlen > 0 then
        let chunk_len = (if dlen < OUT_CHUNK_SIZE then dlen else OUT_CHUNK_SIZE);
            d = d\<lparr>dest_limit := length (dest d) + chunk_len\<rparr>
        in case uzlib_uncompress_chksum fuel d of
             None \<Rightarrow> None
           | Some (res, d) \<Rightarrow>
               if res \<noteq> Ret TINF_OK then Some (res, d)
               else tgunzip_loop fuel (dlen - chunk_len) res d
      else Some (res, d))"
  by pat_completeness auto
termination
  by (relation "measure (\<lambda>(fuel, dlen, res, d). dlen)") (auto simp: OUT_CHUNK_SIZE_def)

declare tgunzip_loop.simps [simp del]

text \<open>
  The ways \<open>tgunzip\<close> ends: an error exit, a written file, or (when the stream is shorter than its
  length field says) a file with uninitialised bytes.
\<close>

datatype tgunzip_exit =
    File_too_small
  | Header_error int
  | Decompression_error c_result
  | Uninitialised_output
  | Written "u8 list"

definition tgunzip_main :: "nat \<Rightarrow> 'c uncomp \<Rightarrow> u8 list \<Rightarrow> tgunzip_exit option" where
  "tgunzip_main fuel d src =
     (let len = length src
      in if len < 4 then Some File_too_small
         else
           let dlen = (ucast (src ! (len - 1)) :: u32);
               dlen = 256 * dlen + ucast (src ! (len - 2));
               dlen = 256 * dlen + ucast (src ! (len - 3));
               dlen = 256 * dlen + ucast (src ! (len - 4));
               outlen = dlen;
               dlen = dlen + 1;
               d = uzlib_uncompress_init d None 0;
               d = d\<lparr>source := take (len - 4) src, source_read_cb := None\<rparr>
           in case uzlib_gzip_parse_header d of
                None \<Rightarrow> None
              | Some (res, d) \<Rightarrow>
                  if res \<noteq> TINF_OK then Some (Header_error res)
                  else case tgunzip_loop fuel (unat dlen) (Ret res) (d\<lparr>dest := []\<rparr>) of
                         None \<Rightarrow> None
                       | Some (res, d) \<Rightarrow>
                           if res \<noteq> Ret TINF_DONE then Some (Decompression_error res)
                           else if unat outlen \<le> length (dest d) then Some (Written (take (unat outlen) (dest d)))
                           else Some Uninitialised_output)"


section \<open>From the compressor to the decompressor\<close>

lemma start_block_emits:
  assumes "ob_wf out"
  shows "emits out (zlib_start_block out) block_header"
proof -
  have "emits out (outbits out 1 1) [True]" "emits o' (outbits o' 1 2) [True, False]" if "ob_wf o'" for o'
    using outbits_emits [OF assms, of 1 1] outbits_emits [OF that, of 2 1]
    by (simp_all add: lsb_bits_def upt_rec)
  then have "emits out (zlib_start_block out) ([True] @ [True, False])"
    unfolding zlib_start_block_def using assms by (intro emits_bind) auto
  then show ?thesis by (simp add: block_header_def)
qed

lemma finish_block_emits:
  assumes "ob_wf out"
  shows "emits out (zlib_finish_block out) (eob_bits @ eob_bits)"
  unfolding zlib_finish_block_def eob_bits_def using assms by (intro emits_bind outbits_emits) auto

lemma length_eob_bits [simp]: "length eob_bits = 7"
  by (simp add: eob_bits_def)

lemma valid_tokens_mono: "valid_tokens v ts n \<Longrightarrow> v \<le> w \<Longrightarrow> valid_tokens w ts n"
  by (induction v ts n rule: valid_tokens.induct) auto

definition comp_fresh :: "uzlib_comp \<Rightarrow> bool" where
  "comp_fresh data \<longleftrightarrow> comp_wf data \<and> ob_stream (comp_out data) = []"

lemma whole_bytes:
  assumes "xs @ ys = zs @ us" "length ys < 8" "length us = 7"
  obtains pad where "xs = zs @ pad" "length pad < 8"
proof -
  have "length zs \<le> length xs" using arg_cong [OF assms(1), of length] assms(2,3) by simp
  then have "xs = zs @ take (length xs - length zs) us"
    using arg_cong [OF assms(1), of "take (length xs)"] by simp
  with assms(3) show thesis by (intro that [of "take (length xs - length zs) us"]) auto
qed

lemma deflate_static_bits:
  assumes "comp_fresh data"
  shows "\<exists>data' ts pad. deflate_static data src = Some data' \<and>
    concat (map (lsb_bits 8) (outbuf (comp_out data'))) = (block_header @ stream_bits ts @ eob_bits) @ pad \<and>
    length pad < 8 \<and> valid_tokens (comp_dict_size data) ts 0 \<and> expand ts [] = src"
proof -
  have wf: "comp_wf data" "ob_stream (comp_out data) = []" using assms by (auto simp: comp_fresh_def)
  from wf(1) start_block_emits [of "comp_out data"] obtain o1 where
    o1: "zlib_start_block (comp_out data) = Some o1" "ob_wf o1" "ob_stream o1 = block_header"
      "comp_disabled o1 = comp_disabled (comp_out data)"
    using wf(2) by (auto simp: emits_def comp_wf_def)
  let ?d1 = "data\<lparr>comp_out := o1\<rparr>"
  have "comp_wf ?d1" using wf(1) o1 by (simp add: comp_wf_def)
  from compress_from_emits [OF this, of 0 src] obtain ts d2 where
    d2: "uzlib_compress ?d1 src = Some d2" "ob_wf (comp_out d2)"
      "ob_stream (comp_out d2) = block_header @ stream_bits ts"
      "valid_tokens (comp_dict_size data) ts 0" "expand ts [] = src"
    using o1(3) by (auto simp: uzlib_compress_def emits_def)
  from finish_block_emits [OF d2(2)] d2(3) obtain o3 where
    o3: "zlib_finish_block (comp_out d2) = Some o3" "ob_wf o3"
      "ob_stream o3 = (block_header @ stream_bits ts @ eob_bits) @ eob_bits"
    by (auto simp: emits_def)
  obtain pad where "concat (map (lsb_bits 8) (outbuf o3)) = (block_header @ stream_bits ts @ eob_bits) @ pad"
    "length pad < 8"
    by (rule whole_bytes [OF o3(3) [unfolded ob_stream_def]]) (use o3(2) in \<open>auto simp: ob_wf_def\<close>)
  with o1(1) d2 o3(1) show ?thesis by (auto simp: deflate_static_def)
qed

text \<open>A decompressor after \<open>uzlib_uncompress_init\<close> and the header parser.\<close>

definition uncomp_ready :: "'c uncomp \<Rightarrow> bool" where
  "uncomp_ready d \<longleftrightarrow> btype d = - 1 \<and> curlen d = 0 \<and> bitcount d = 0 \<and> tree_dims (ltree d) \<and> tree_dims (dtree d)"

context lz_decoder
begin

lemma inflating_deflate:
  assumes "comp_fresh data" "deflate_static data src = Some data'" "comp_dict_size data \<le> w"
    and "next_bytes d (outbuf (comp_out data') @ rest)" "uncomp_ready d" "win d []"
  obtains pad where "inflating d [] src (pad @ concat (map (lsb_bits 8) rest))" "length pad < 8"
proof -
  from deflate_static_bits [OF assms(1), of src] assms(2) obtain ts pad where
    s: "concat (map (lsb_bits 8) (outbuf (comp_out data'))) = (block_header @ stream_bits ts @ eob_bits) @ pad"
      "length pad < 8" "valid_tokens (comp_dict_size data) ts 0" "expand ts [] = src" by auto
  have "next_bits d (block_header @ stream_bits ts @ eob_bits @ pad @ concat (map (lsb_bits 8) rest))"
    using assms(4,5) s(1) by (auto simp: next_bits_bytes uncomp_ready_def intro!: exI)
  then have "at_start d ts (pad @ concat (map (lsb_bits 8) rest))"
    using assms(5,6) valid_tokens_mono [OF s(3) assms(3)] by (simp add: at_start_def uncomp_ready_def)
  then show thesis by (intro that [OF _ s(2)]) (use s(4) in \<open>auto simp: inflating_def\<close>)
qed

text \<open>The checksum of the output chunk is folded in; at the end it is compared with the trailer.\<close>

lemma chksum_partial:
  assumes "inflating d h F tail" "0 < m" "length h + m \<le> length F" "dest_limit d = length (dest d) + m" "m \<le> fuel"
    and "checksum_type d = TINF_CHKSUM_CRC"
  obtains d' where "uzlib_uncompress_chksum fuel d = Some (Ret TINF_OK, d')"
    "inflating d' (take (length h + m) F) F tail" "dest d' = dest d @ take m (drop (length h) F)"
    "checksum_type d' = TINF_CHKSUM_CRC" "checksum d' = uzlib_crc32 (take m (drop (length h) F)) (checksum d)"
proof -
  from inflating_partial [OF assms(1-5)] obtain e where
    e: "uzlib_uncompress fuel d = Some (Ret TINF_OK, e)" "inflating e (take (length h + m) F) F tail"
      "dest e = dest d @ take m (drop (length h) F)" "same_env d e" by auto
  show thesis
  proof (rule that [of "e\<lparr>checksum := uzlib_crc32 (take m (drop (length h) F)) (checksum d)\<rparr>"])
    show "uzlib_uncompress_chksum fuel d =
        Some (Ret TINF_OK, e\<lparr>checksum := uzlib_crc32 (take m (drop (length h) F)) (checksum d)\<rparr>)"
      using e assms(6)
      by (simp add: uzlib_uncompress_chksum_def same_env_def Let_def tinf_codes TINF_CHKSUM_CRC_def TINF_CHKSUM_ADLER_def)
  qed (use e assms(6) inflating_client in \<open>auto simp: same_env_def\<close>)
qed

lemma chksum_rest:
  assumes "inflating d h F (pad @ concat (map (lsb_bits 8) (le32_bytes crc @ rest)))" "length pad < 8"
    and "length (dest d) + (length F - length h) < dest_limit d" "length F - length h < fuel"
    and "checksum_type d = TINF_CHKSUM_CRC" "crc = NOT (uzlib_crc32 (drop (length h) F) (checksum d))"
  obtains d' where "uzlib_uncompress_chksum fuel d = Some (Ret TINF_DONE, d')"
    "dest d' = dest d @ drop (length h) F"
proof -
  from inflating_rest [OF assms(1,3,4)] obtain e where
    e: "uzlib_uncompress fuel d = Some (Ret TINF_DONE, e)" "dest e = dest d @ drop (length h) F"
      "next_bits e (pad @ concat (map (lsb_bits 8) (le32_bytes crc @ rest)))" "bitcount e < 8" "same_env d e"
    by auto
  let ?e = "e\<lparr>checksum := uzlib_crc32 (drop (length h) F) (checksum d)\<rparr>"
  from next_bytes_after [OF e(3) assms(2) e(4)] have "next_bytes ?e (le32_bytes crc @ rest)" by simp
  from get_le_uint32 [OF this] obtain f where f: "tinf_get_le_uint32 ?e = (crc, f)" "takes_bytes ?e f" by auto
  obtain g v where g: "tinf_get_le_uint32 f = (v, g)" by force
  have "checksum f = uzlib_crc32 (drop (length h) F) (checksum d)" "dest f = dest e"
    using reads_fields [of ?e f] takes_bytes_reads [OF f(2)] by auto
  moreover have "dest g = dest f"
    using tinf_get_le_uint32_dest [of f] g by simp
  ultimately show thesis
    using e assms(5,6) f(1) g
    by (intro that [of g])
      (simp_all add: uzlib_uncompress_chksum_def same_env_def tinf_codes TINF_CHKSUM_CRC_def TINF_CHKSUM_ADLER_def)
qed

end

section \<open>What tgzip writes\<close>

lemma tgzip_header_gzip:
  "tgzip_header = gzip_header 0 (le32_bytes 0 @ [4, 3]) [] [] [] [0, 0]"
  "gzip_fields_ok 0 (le32_bytes 0 @ [4, 3]) [] [] [] [0, 0]"
  by (simp_all add: tgzip_header_def gzip_header_def gzip_fields_ok_def)

lemma tgzip_comp_fresh: "comp_fresh tgzip_comp"
  by (simp add: comp_fresh_def comp_wf_def tgzip_comp_def ob_wf_def ob_stream_def)

lemma tgzip_main_output:
  obtains data where "deflate_static tgzip_comp src = Some data"
    "tgzip_main src = Some (tgzip_header @ outbuf (comp_out data) @
      le32_bytes (NOT (uzlib_crc32 src (NOT 0))) @ le32_bytes (word_of_nat (length src)))"
  using deflate_static_bits [OF tgzip_comp_fresh, of src] by (auto simp: tgzip_main_def)

section \<open>The size of the output\<close>

text \<open>A literal takes at most 9 bits, a match of three bytes or more at most 31.\<close>

lemma length_token_bits:
  assumes "valid_tokens w (t # ts) n" "w \<le> 32768"
  shows "length (token_bits t) \<le> 11 * (length (expand [t] out) - length out)"
proof (cases t)
  case (Lit c)
  then show ?thesis by (simp add: lit_bits_def)
next
  case (Match dist len)
  with assms have m: "0 < dist" "dist \<le> 32768" "3 \<le> len" "len \<le> 258" by auto
  from m(3,4) obtain k where k: "search_len len = Some k" "k < 29" by (rule search_len_found)
  from m(1,2) obtain j where j: "search_dist dist = Some j" "j < 30" by (rule search_dist_found)
  have "length (lcode_bits k) \<le> 8" "length (dcode_bits j) = 5" by (simp_all add: lcode_bits_def dcode_bits_def)
  moreover have "lextrabits (lencodes ! k) \<le> 5" "dextrabits (distcodes ! j) \<le> 13"
    using lencodes_nth(5) [OF k(2)] distcodes_nth(6) [OF j(2)] by auto
  ultimately have "length (token_bits t) \<le> 31"
    using Match k(1) j(1) by (simp add: len_bits_def distance_bits_def)
  with Match m(3) show ?thesis by simp
qed

lemma length_stream_bits:
  "valid_tokens w ts n \<Longrightarrow> w \<le> 32768 \<Longrightarrow>
   length (stream_bits ts) + 11 * length out \<le> 11 * length (expand ts out)"
proof (induction ts arbitrary: n out)
  case (Cons t ts)
  have t: "length (token_bits t) \<le> 11 * (length (expand [t] out) - length out)"
    using length_token_bits [OF Cons.prems] .
  have "length out \<le> length (expand [t] out)" by (cases t) simp_all
  moreover have "expand (t # ts) out = expand ts (expand [t] out)" by (cases t) simp_all
  moreover have "length (stream_bits ts) + 11 * length (expand [t] out) \<le> 11 * length (expand ts (expand [t] out))"
  proof -
    obtain n' where "valid_tokens w ts n'" using Cons.prems(1) by (cases t) auto
    from Cons.IH [OF this Cons.prems(2)] show ?thesis .
  qed
  ultimately show ?case using t by simp
qed simp

lemma length_deflate_static:
  assumes "deflate_static tgzip_comp src = Some data"
  shows "8 * length (outbuf (comp_out data)) \<le> 11 * length src + 17"
proof -
  from deflate_static_bits [OF tgzip_comp_fresh, of src] assms obtain ts pad where
    b: "concat (map (lsb_bits 8) (outbuf (comp_out data))) = (block_header @ stream_bits ts @ eob_bits) @ pad"
      "length pad < 8" "valid_tokens (comp_dict_size tgzip_comp) ts 0" "expand ts [] = src" by auto
  have "length (stream_bits ts) \<le> 11 * length src"
    using length_stream_bits [OF b(3), of "[]"] b(4) by (simp add: tgzip_comp_def)
  with arg_cong [OF b(1), of length] b(2) show ?thesis by (simp add: block_header_def)
qed

lemma tgzip_main_size:
  assumes "tgzip_main src = Some out"
  shows "8 * length out \<le> 11 * length src + 161"
proof -
  obtain data where "deflate_static tgzip_comp src = Some data"
    "tgzip_main src = Some (tgzip_header @ outbuf (comp_out data) @
      le32_bytes (NOT (uzlib_crc32 src (NOT 0))) @ le32_bytes (word_of_nat (length src)))"
    by (rule tgzip_main_output)
  with length_deflate_static [of src data] assms show ?thesis by (auto simp: tgzip_header_def)
qed

section \<open>tgunzip undoes tgzip\<close>

lemma tgunzip_loop_restores:
  assumes "flat_decoder.inflating d h F (pad @ concat (map (lsb_bits 8) (le32_bytes (NOT (uzlib_crc32 F (NOT 0))) @ rest)))"
    and "length pad < 8" "0 < fuel" "dest d = h" "take (length h) F = h" "length F - length h = n"
    and "checksum_type d = TINF_CHKSUM_CRC" "checksum d = uzlib_crc32 h (NOT 0)"
  shows "\<exists>d'. tgunzip_loop fuel (Suc n) res d = Some (Ret TINF_DONE, d') \<and> dest d' = F"
  using assms
proof (induction n arbitrary: d h res)
  case 0
  let ?d = "d\<lparr>dest_limit := length (dest d) + 1\<rparr>"
  let ?crc = "NOT (uzlib_crc32 F (NOT 0))"
  have F: "F = h" using "0.prems"(5,6) by simp
  have "flat_decoder.inflating ?d h F (pad @ concat (map (lsb_bits 8) (le32_bytes ?crc @ rest)))"
    using flat_decoder.inflating_client(1) [OF "0.prems"(1)] .
  then obtain d' where "uzlib_uncompress_chksum fuel ?d = Some (Ret TINF_DONE, d')"
    "dest d' = dest ?d @ drop (length h) F"
    by (rule flat_decoder.chksum_rest) (use "0.prems" F in \<open>simp_all add: uzlib_crc.upd_Nil\<close>)
  then show ?case
    using "0.prems"(4) F by (subst tgunzip_loop.simps) (simp add: OUT_CHUNK_SIZE_def tinf_codes)
next
  case (Suc n)
  let ?d = "d\<lparr>dest_limit := length (dest d) + 1\<rparr>"
  let ?tail = "pad @ concat (map (lsb_bits 8) (le32_bytes (NOT (uzlib_crc32 F (NOT 0))) @ rest))"
  let ?h = "take (length h + 1) F"
  have len: "length h + 1 \<le> length F" using Suc.prems(6) by simp
  have "flat_decoder.inflating ?d h F ?tail" using flat_decoder.inflating_client(1) [OF Suc.prems(1)] .
  then obtain e where e: "uzlib_uncompress_chksum fuel ?d = Some (Ret TINF_OK, e)" "flat_decoder.inflating e ?h F ?tail"
    "dest e = dest ?d @ take 1 (drop (length h) F)" "checksum_type e = TINF_CHKSUM_CRC"
    "checksum e = uzlib_crc32 (take 1 (drop (length h) F)) (checksum ?d)"
    by (rule flat_decoder.chksum_partial [where m = 1]) (use Suc.prems len in \<open>simp_all add: Suc_le_eq\<close>)
  have h: "?h = h @ take 1 (drop (length h) F)"
    using take_add [of "length h" 1 F] Suc.prems(5) by simp
  have "\<exists>d'. tgunzip_loop fuel (Suc n) (Ret TINF_OK) e = Some (Ret TINF_DONE, d') \<and> dest d' = F"
  proof (rule Suc.IH [OF e(2) Suc.prems(2,3)])
    show "dest e = ?h" using e(3) h Suc.prems(4) by simp
    show "checksum e = uzlib_crc32 ?h (NOT 0)"
      using e(5) Suc.prems(8) by (simp only: h uzlib_crc.upd_append) simp
  qed (use e(4) len Suc.prems(6) in auto)
  with e(1) show ?case
    by (subst tgunzip_loop.simps) (simp add: OUT_CHUNK_SIZE_def)
qed

lemma base_256:
  fixes n :: nat
  assumes "n < 2 ^ 32"
  shows "256 * (256 * (256 * (n div 2 ^ 24 mod 256) + n div 2 ^ 16 mod 256) + n div 2 ^ 8 mod 256) + n mod 256 = n"
proof -
  have "n div 2 ^ 24 < 256" using assms by (simp add: div_less_iff_less_mult)
  moreover have "n div 2 ^ 24 = n div 2 ^ 16 div 256" "n div 2 ^ 16 = n div 2 ^ 8 div 256"
    "n div 2 ^ 8 = n div 256"
    by (simp_all add: div_mult2_eq [symmetric])
  ultimately show ?thesis by (simp only: mod_less mult_div_mod_eq)
qed

lemma unat_byte_at: "unat (ucast (drop_bit k w) :: u8) = unat w div 2 ^ k mod 256" for w :: u32
proof -
  have "unat (ucast (drop_bit k w) :: u8) = unat (drop_bit k w) mod 256"
    by (simp only: unsigned_ucast_eq take_bit_eq_mod) simp
  then show ?thesis by (subst (asm) unat_drop_bit_eq) (simp only: drop_bit_eq_div)
qed

lemma ucast_word_of_nat: "(ucast b :: u32) = word_of_nat (unat b)" for b :: u8
  by simp

lemma uint32_bytes:
  "256 * (256 * (256 * ucast (ucast (drop_bit 24 w) :: u8) + ucast (ucast (drop_bit 16 w) :: u8))
     + ucast (ucast (drop_bit 8 w) :: u8)) + ucast (ucast w :: u8) = w" for w :: u32
proof -
  let ?b = "\<lambda>k. unat (ucast (drop_bit k w) :: u8)"
  have "256 * (256 * (256 * ?b 24 + ?b 16) + ?b 8) + ?b 0 = unat w"
    unfolding unat_byte_at power_0 div_by_1 by (rule base_256) simp
  from arg_cong [OF this, of "word_of_nat :: nat \<Rightarrow> u32"] show ?thesis
    by (simp only: of_nat_add of_nat_mult of_nat_numeral ucast_word_of_nat [symmetric] of_nat_unat ucast_id drop_bit_0 id_apply)
qed


text \<open>A decompressor state as a stack variable may hold it.\<close>

definition some_tree :: tinf_tree where
  "some_tree = \<lparr>table = replicate 16 9, trans = replicate 288 7\<rparr>"

definition some_uncomp :: "unit uncomp" where
  "some_uncomp =
     \<lparr>source = [1], source_read_cb = None, cb_state = (), tag = 3, bitcount = 2, dest = [], dest_limit = 0,
      checksum = 0, checksum_type = 0, eof = True, btype = 2, bfinal = 1, curlen = 4, lzOff = 0,
      dict_ring = None, dict_size = 0, dict_idx = 0, ltree = some_tree, dtree = some_tree\<rparr>"

lemma some_uncomp_dims: "tree_dims (ltree some_uncomp)" "tree_dims (dtree some_uncomp)"
  by (simp_all add: some_uncomp_def some_tree_def tree_dims_def)


end
