(* ===== verification/Eboot.thy ===== *)
theory Eboot
  imports Spi_Flash Eboot_Command Uzlib_Programs
begin

text \<open>
  The eboot boot loader (\<open>eboot.c\<close>): it reads the command block from RTC memory, copies or
  unpacks an update over the application, and loads the application's segments.  The SPI ROM
  functions are the parameter \<open>spi\<close>; what the loader prints is not modelled.
\<close>

section \<open>Loading an application\<close>

record image_header =
  image_magic :: u8
  num_segments :: u8
  flash_mode :: u8
  flash_size_freq :: u8
  image_entry :: u32

record section_header =
  sec_address :: u32
  sec_size :: u32

definition image_header_of :: "u8 list \<Rightarrow> image_header" where
  "image_header_of bs = \<lparr>image_magic = bs ! 0, num_segments = bs ! 1, flash_mode = bs ! 2,
     flash_size_freq = bs ! 3, image_entry = le32_of (drop 4 bs)\<rparr>"

definition section_header_of :: "u8 list \<Rightarrow> section_header" where
  "section_header_of bs = \<lparr>sec_address = le32_of bs, sec_size = le32_of (drop 4 bs)\<rparr>"

type_synonym ram = "u32 \<Rightarrow> u8"

primrec ram_store :: "u8 list \<Rightarrow> u32 \<Rightarrow> ram \<Rightarrow> ram" where
  "ram_store [] a m = m"
| "ram_store (b # bs) a m = ram_store bs (a + 1) (m(a := b))"

definition loadable :: "u32 \<Rightarrow> bool" where
  "loadable address \<longleftrightarrow>
     (let load = False;
          load = (if address < 0x40000000 then True else load);
          load = (if address \<ge> 0x40100000 \<and> address < 0x4010C000 then True else load);
          load = (if address \<ge> 0x60000000 then True else load)
      in load)"

text \<open>The loop over the sections, \<open>n\<close> of them to go; \<open>Some e\<close> is the early \<open>return e\<close>.\<close>

primrec load_sections :: "'f spi \<Rightarrow> nat \<Rightarrow> u32 \<Rightarrow> 'f \<Rightarrow> ram \<Rightarrow> int option \<times> 'f \<times> ram" where
  "load_sections spi 0 pos f m = (None, f, m)"
| "load_sections spi (Suc n) pos f m =
     (let (r, bs, f) = SPIRead spi pos 8 f
      in if r \<noteq> 0 then (Some 2, f, m)
         else
           let header = section_header_of bs;
               pos = pos + 8;
               address = sec_address header
           in if \<not> loadable address then load_sections spi n (pos + sec_size header) f m
              else
                let (r, bs, f) = SPIRead spi pos (sec_size header) f
                in if r \<noteq> 0 then (Some 3, f, m)
                   else load_sections spi n (pos + sec_size header) f (ram_store bs address m))"

text \<open>The error code of a failed load, or the entry point the loader jumps to.\<close>

definition load_app_from_flash_raw :: "'f spi \<Rightarrow> u32 \<Rightarrow> 'f \<Rightarrow> ram \<Rightarrow> (int + u32) \<times> 'f \<times> ram" where
  "load_app_from_flash_raw spi flash_addr f m =
     (let pos = flash_addr + APP_START_OFFSET;
          (r, bs, f) = SPIRead spi pos 8 f
      in if r \<noteq> 0 then (Inl 1, f, m)
         else
           let header = image_header_of bs;
               pos = pos + 8
           in case load_sections spi (unat (num_segments header)) pos f m of
                (Some e, f, m) \<Rightarrow> (Inl e, f, m)
              | (None, f, m) \<Rightarrow> (Inr (image_entry header), f, m))"

section \<open>Copying an update\<close>

definition read_flash_byte :: "'f spi \<Rightarrow> u32 \<Rightarrow> 'f \<Rightarrow> u8 \<times> 'f" where
  "read_flash_byte spi addr f =
     (let (r, buff, f) = SPIRead spi (addr AND NOT 3) 4 f in (buff ! unat (addr AND 3), f))"

text \<open>The callback's own state is the flash and \<open>uzlib_flash_read_cb_addr\<close>.\<close>

definition uzlib_flash_read_cb :: "'f spi \<Rightarrow> 'f \<times> u32 \<Rightarrow> int \<times> u8 list \<times> ('f \<times> u32)" where
  "uzlib_flash_read_cb spi c =
     (let (f, addr) = c;
          (r, buff, f) = SPIRead spi addr 4096 f;
          addr = addr + 4096
      in (int (unat (buff ! 0)), drop 1 buff, (f, addr)))"

definition buffer_size :: int where
  "buffer_size = int (unat FLASH_SECTOR_SIZE)"

text \<open>
  The gzip branch before the loop: the unpacked size from the last four bytes, and the
  decompressor on the ring dictionary \<open>gzip_dict\<close>.
\<close>

definition read_isize :: "'f spi \<Rightarrow> u32 \<Rightarrow> u32 \<Rightarrow> 'f \<Rightarrow> int \<times> 'f" where
  "read_isize spi saddr sz f =
     (let (b0, f) = read_flash_byte spi (saddr + sz - 4) f;
          (b1, f) = read_flash_byte spi (saddr + sz - 3) f;
          (b2, f) = read_flash_byte spi (saddr + sz - 2) f;
          (b3, f) = read_flash_byte spi (saddr + sz - 1) f
      in (sint (le32 b0 b1 b2 b3), f))"

definition start_gzip ::
  "'f spi \<Rightarrow> u32 \<Rightarrow> u8 list \<Rightarrow> ('f \<times> u32) uncomp \<Rightarrow> 'f \<Rightarrow> (int \<times> ('f \<times> u32) uncomp) option" where
  "start_gzip spi src_addr gzip_dict m_uncomp f =
     (let m = m_uncomp\<lparr>source := [], cb_state := (f, src_addr), source_read_cb := Some (uzlib_flash_read_cb spi)\<rparr>;
          m = uzlib_uncompress_init m (Some gzip_dict) (length gzip_dict)
      in uzlib_gzip_parse_header m)"

text \<open>
  One sector into \<open>buffer\<close>: the raw read, or the next piece of the unpacked data followed by ones.
  \<open>Inl\<close> is an early return.  Flash and decompressor are threaded through both branches.
\<close>

definition fill_buffer ::
  "'f spi \<Rightarrow> nat \<Rightarrow> bool \<Rightarrow> int \<Rightarrow> u32 \<Rightarrow> u8 list \<Rightarrow> ('f \<times> u32) uncomp \<Rightarrow> 'f \<Rightarrow>
     ((c_result + u8 list \<times> ('f \<times> u32) uncomp) \<times> 'f) option" where
  "fill_buffer spi fuel gzip left saddr buffer m f =
     (if \<not> gzip then
        let (r, bs, f) = SPIRead spi saddr FLASH_SECTOR_SIZE f
        in Some (if r \<noteq> 0 then Inl (Ret 3) else Inr (bs, m), f)
      else
        let to_read = nat (if left > buffer_size then buffer_size else left);
            m = m\<lparr>dest := [], dest_limit := to_read, cb_state := (f, snd (cb_state m))\<rparr>
        in case uzlib_uncompress fuel m of
             None \<Rightarrow> None
           | Some (res, m) \<Rightarrow>
               let f = fst (cb_state m)
               in case res of
                    Undef \<Rightarrow> Some (Inl Undef, f)
                  | Ret res \<Rightarrow>
                      if res \<noteq> TINF_DONE \<and> res \<noteq> TINF_OK then Some (Inl (Ret 6), f)
                      else
                        let buffer = dest m @ drop (length (dest m)) buffer;
                            buffer = take to_read buffer @ replicate (nat buffer_size - to_read) 0xff
                        in Some (Inr (buffer, m), f))"

text \<open>What is done with the filled buffer; \<open>Some e\<close> is the early \<open>return e\<close>.\<close>

definition put_sector :: "'f spi \<Rightarrow> bool \<Rightarrow> u32 \<Rightarrow> u8 list \<Rightarrow> 'f \<Rightarrow> int option \<times> 'f" where
  "put_sector spi verify daddr buffer f =
     (if verify then
        let (r, buffer2, f) = SPIRead spi daddr FLASH_SECTOR_SIZE f
        in if r \<noteq> 0 then (Some 4, f)
           else if buffer \<noteq> buffer2 then (Some 9, f) else (None, f)
      else
        let (e, skip, f) =
          (if daddr = 0 then
             let (r, buffer2, f) = SPIRead spi daddr FLASH_SECTOR_SIZE f
             in if r \<noteq> 0 then (Some 4, False, f) else (None, buffer2 = buffer, f)
           else (None, False, f))
        in if e \<noteq> None then (e, f)
           else if skip then (None, f)
           else
             let (r, f) = SPIEraseSector spi (daddr div FLASH_SECTOR_SIZE) f
             in if r \<noteq> 0 then (Some 2, f)
                else let (r, f) = SPIWrite spi daddr buffer f
                     in if r \<noteq> 0 then (Some 4, f) else (None, f))"

text \<open>\<open>while (left > 0)\<close>; \<open>left\<close> is the value of the \<open>int32_t\<close>.\<close>

function copy_sectors ::
  "'f spi \<Rightarrow> nat \<Rightarrow> bool \<Rightarrow> bool \<Rightarrow> int \<Rightarrow> u32 \<Rightarrow> u32 \<Rightarrow> u8 list \<Rightarrow> ('f \<times> u32) uncomp \<Rightarrow> 'f \<Rightarrow>
     (c_result \<times> 'f) option" where
  "copy_sectors spi fuel verify gzip left saddr daddr buffer m f =
     (if left > 0 then
        case fill_buffer spi fuel gzip left saddr buffer m f of
          None \<Rightarrow> None
        | Some (Inl e, f) \<Rightarrow> Some (e, f)
        | Some (Inr (buffer, m), f) \<Rightarrow>
            (case put_sector spi verify daddr buffer f of
               (Some e, f) \<Rightarrow> Some (Ret e, f)
             | (None, f) \<Rightarrow>
                 copy_sectors spi fuel verify gzip (left - buffer_size)
                   (saddr + FLASH_SECTOR_SIZE) (daddr + FLASH_SECTOR_SIZE) buffer m f)
      else Some (Ret 0, f))"
  by pat_completeness auto
termination
  by (relation "measure (\<lambda>(spi, fuel, verify, gzip, left, saddr, daddr, buffer, m, f). nat left)")
    (auto simp: buffer_size_def flash_geometry)

declare copy_sectors.simps [simp del]

text \<open>
  \<open>buffer\<close>, \<open>m_uncomp\<close> and \<open>gzip_dict\<close> are the contents of the stack and of the static memory on
  entry.
\<close>

definition copy_raw ::
  "'f spi \<Rightarrow> nat \<Rightarrow> u8 list \<Rightarrow> ('f \<times> u32) uncomp \<Rightarrow> u8 list \<Rightarrow> u32 \<Rightarrow> u32 \<Rightarrow> u32 \<Rightarrow> bool \<Rightarrow> 'f \<Rightarrow>
     (c_result \<times> 'f) option" where
  "copy_raw spi fuel buffer m_uncomp gzip_dict src_addr dst_addr sz verify f =
     (if src_addr AND 0xfff \<noteq> 0 \<or> dst_addr AND 0xfff \<noteq> 0 then Some (Ret 1, f)
      else
        let left = sint ((sz + FLASH_SECTOR_SIZE - 1) AND NOT (FLASH_SECTOR_SIZE - 1));
            saddr = src_addr;
            daddr = dst_addr;
            (b0, f) = read_flash_byte spi saddr f;
            (b1, f) = (if b0 = 0x1f then read_flash_byte spi (saddr + 1) f else (0, f))
        in if b0 = 0x1f \<and> b1 = 0x8b then
             let (left, f) = read_isize spi saddr sz f
             in case start_gzip spi src_addr gzip_dict m_uncomp f of
                  None \<Rightarrow> None
                | Some (res, m) \<Rightarrow>
                    let f = fst (cb_state m)
                    in if res \<noteq> TINF_OK then Some (Ret 5, f)
                       else copy_sectors spi fuel verify True left saddr daddr buffer m f
           else copy_sectors spi fuel verify False left saddr daddr buffer m_uncomp f)"

section \<open>The boot sequence\<close>

definition print_version :: "'f spi \<Rightarrow> u32 \<Rightarrow> 'f \<Rightarrow> int \<times> 'f" where
  "print_version spi flash_addr f =
     (let (r, ver, f) = SPIRead spi (flash_addr + APP_START_OFFSET + 8 + 8) 4 f
      in (if r \<noteq> 0 then 1 else 0, f))"

text \<open>The machine the loader runs on, and the memory it finds uninitialised.\<close>

record 'f machine =
  flash :: 'f
  rtc :: rtc_mem
  memory :: ram
  watchdog :: bool

record 'f leftovers =
  stack_buffer :: "u8 list"
  stack_uncomp :: "('f \<times> u32) uncomp"
  static_dict :: "u8 list"

text \<open>
  How a boot ends: the application is started, the chip is reset, the loader waits for ever in its
  last loop, or a step has no defined meaning in C.
\<close>

datatype boot_end = Started u32 | Software_reset | Idle_forever | Undefined_behaviour

definition eboot_copy ::
  "'f spi \<Rightarrow> nat \<Rightarrow> 'f leftovers \<Rightarrow> eboot_command \<Rightarrow> 'f machine \<Rightarrow>
     (c_result \<times> eboot_command \<times> 'f machine) option" where
  "eboot_copy spi fuel env cmd s =
     (if action cmd = ACTION_COPY_RAW then
        let s = s\<lparr>watchdog := False\<rparr>
        in case copy_raw spi fuel (stack_buffer env) (stack_uncomp env) (static_dict env)
               (args cmd ! 0) (args cmd ! 1) (args cmd ! 2) False (flash s) of
             None \<Rightarrow> None
           | Some (res, f) \<Rightarrow>
               let s = s\<lparr>flash := f, watchdog := True\<rparr>;
                   cmd = (if res = Ret 0 then cmd\<lparr>action := ACTION_LOAD_APP, args := (args cmd)[0 := args cmd ! 1]\<rparr>
                          else cmd)
               in Some (res, cmd, s)
      else Some (Ret 9, cmd, s))"

definition eboot_main :: "'f spi \<Rightarrow> nat \<Rightarrow> 'f leftovers \<Rightarrow> 'f machine \<Rightarrow> (boot_end \<times> 'f machine) option" where
  "eboot_main spi fuel env s =
     (let (_, f) = print_version spi 0 (flash s);
          s = s\<lparr>flash := f\<rparr>;
          (r, cmd) = eboot_command_read (rtc s);
          (clear_cmd, cmd) = (if r = 0 then (True, cmd)
             else (False, cmd\<lparr>action := ACTION_LOAD_APP, args := (args cmd)[0 := 0]\<rparr>))
      in case eboot_copy spi fuel env cmd s of
           None \<Rightarrow> None
         | Some (Undef, cmd, s) \<Rightarrow> Some (Undefined_behaviour, s)
         | Some (Ret res, cmd, s) \<Rightarrow>
             let s = (if clear_cmd then s\<lparr>rtc := eboot_command_clear (rtc s)\<rparr> else s);
                 (started, res, s) =
                   (if action cmd = ACTION_LOAD_APP then
                      case load_app_from_flash_raw spi (args cmd ! 0) (flash s) (memory s) of
                        (Inr entry, f, m) \<Rightarrow> (Some entry, res, s\<lparr>flash := f, memory := m\<rparr>)
                      | (Inl e, f, m) \<Rightarrow> (None, e, s\<lparr>flash := f, memory := m\<rparr>)
                    else (None, res, s))
             in Some (case started of
                        Some entry \<Rightarrow> Started entry
                      | None \<Rightarrow> if res \<noteq> 0 then Software_reset else Idle_forever, s))"

end
