(* ===== verification/Eboot_Load.thy ===== *)
theory Eboot_Load
  imports Eboot
begin

text \<open>
  What the boot loader does with an application image: \<open>load_app_from_flash_raw\<close> is the inverse of
  the image layout, and a boot never runs a command twice.
\<close>

section \<open>The image layout\<close>

definition section_bytes :: "u32 \<times> u8 list \<Rightarrow> u8 list" where
  "section_bytes seg = le32_bytes (fst seg) @ le32_bytes (word_of_nat (length (snd seg))) @ snd seg"

definition app_image :: "u8 \<Rightarrow> u8 \<Rightarrow> u8 \<Rightarrow> u32 \<Rightarrow> (u32 \<times> u8 list) list \<Rightarrow> u8 list" where
  "app_image mgc mode freq entry segs =
     [mgc, word_of_nat (length segs), mode, freq] @ le32_bytes entry @ concat (map section_bytes segs)"

definition seg_wf :: "u32 \<times> u8 list \<Rightarrow> bool" where
  "seg_wf seg \<longleftrightarrow> 4 dvd length (snd seg)"

definition load_segment :: "u32 \<times> u8 list \<Rightarrow> ram \<Rightarrow> ram" where
  "load_segment seg m = (if loadable (fst seg) then ram_store (snd seg) (fst seg) m else m)"

lemma le32_of_append: "le32_of (le32_bytes w @ bs) = w"
  using le32_of_bytes [of w] by (simp add: le32_of_def le32_bytes_def)

lemma header_of_section: "section_header_of (le32_bytes a @ le32_bytes n) = \<lparr>sec_address = a, sec_size = n\<rparr>"
  using le32_of_append [of a "le32_bytes n"] by (simp add: section_header_of_def)

lemma unat_plus: "unat a + k < 4294967296 \<Longrightarrow> unat (a + word_of_nat k) = unat a + k" for a :: u32
  by (simp add: unat_word_ariths unat_of_nat)

context nor_flash
begin

lemma read_held:
  assumes "mem_holds (contents f) (unat a) bs" "length bs = unat n" "4 dvd unat a" "4 dvd length bs"
  obtains f' where "SPIRead spi a n f = (0, bs, f')" "contents f' = contents f"
  using spi_read [of a n f] assms by (auto simp: mem_holds_def)

lemma load_sections_correct:
  "mem_holds (contents f) (unat pos) (concat (map section_bytes segs)) \<Longrightarrow> length (contents f) < 4294967296 \<Longrightarrow>
   4 dvd unat pos \<Longrightarrow> \<forall>s\<in>set segs. seg_wf s \<Longrightarrow>
   \<exists>f'. load_sections spi (length segs) pos f m = (None, f', fold load_segment segs m) \<and> contents f' = contents f"
proof (induction segs arbitrary: pos f m)
  case (Cons seg segs)
  obtain a d where seg: "seg = (a, d)" by force
  let ?n = "word_of_nat (length d) :: u32" and ?rest = "concat (map section_bytes segs)"
  from Cons.prems(1) have h: "mem_holds (contents f) (unat pos) (le32_bytes a @ le32_bytes ?n)"
    "mem_holds (contents f) (unat pos + 8) d" "mem_holds (contents f) (unat pos + 8 + length d) ?rest"
    by (auto simp: section_bytes_def [of "(a, d)"] seg mem_holds_append add.assoc)
  have small: "unat pos + (8 + length d) < 4294967296"
    using mem_holds_bound [OF h(2)] Cons.prems(2) by simp
  have n: "unat ?n = length d" using small by (simp add: unat_of_nat)
  have p8: "unat (pos + 8) = unat pos + 8" using unat_plus [of pos 8] small by simp
  have p: "unat (pos + 8 + ?n) = unat pos + 8 + length d"
    using unat_plus [of pos "8 + length d"] small by (simp add: add.assoc)
  have d4: "4 dvd length d" using Cons.prems(4) by (simp add: seg seg_wf_def)
  have "length (le32_bytes a @ le32_bytes ?n) = unat (8 :: u32)" "4 dvd length (le32_bytes a @ le32_bytes ?n)"
    by simp_all
  from read_held [OF h(1) this(1) Cons.prems(3) this(2)] obtain g where
    g: "SPIRead spi pos 8 f = (0, le32_bytes a @ le32_bytes ?n, g)" "contents g = contents f" .
  have hdr: "section_header_of (le32_bytes a @ le32_bytes ?n) = \<lparr>sec_address = a, sec_size = ?n\<rparr>"
    by (rule header_of_section)
  have next4: "4 dvd unat (pos + 8 + ?n)" using p Cons.prems(3) d4 by simp
  show ?case
  proof (cases "loadable a")
    case False
    have "mem_holds (contents g) (unat (pos + 8 + ?n)) ?rest" using h(3) p g(2) by simp
    from Cons.IH [OF this _ next4] Cons.prems(2,4) g hdr False show ?thesis
      by (simp add: seg load_segment_def)
  next
    case True
    have "mem_holds (contents g) (unat (pos + 8)) d" "length d = unat ?n" "4 dvd unat (pos + 8)"
      using h(2) p8 n g(2) Cons.prems(3) by simp_all
    from this d4 obtain k where k: "SPIRead spi (pos + 8) ?n g = (0, d, k)" "contents k = contents g"
      by (rule read_held)
    have "mem_holds (contents k) (unat (pos + 8 + ?n)) ?rest" using h(3) p g(2) k(2) by simp
    from Cons.IH [OF this _ next4, of "ram_store d a m"] Cons.prems(2,4) g k hdr True show ?thesis
      by (simp add: seg load_segment_def)
  qed
qed simp

lemma load_app_correct:
  assumes "mem_holds (contents f) (unat addr + 4096) (app_image mgc mode freq entry segs)"
    and "length (contents f) < 4294967296" "4 dvd unat addr" "length segs < 256" "\<forall>s\<in>set segs. seg_wf s"
  shows "\<exists>f'. load_app_from_flash_raw spi addr f m = (Inr entry, f', fold load_segment segs m) \<and>
    contents f' = contents f"
proof -
  let ?h = "[mgc, word_of_nat (length segs), mode, freq] @ le32_bytes entry"
  let ?pos = "addr + APP_START_OFFSET"
  have h: "mem_holds (contents f) (unat addr + 4096) ?h"
    "mem_holds (contents f) (unat addr + 4096 + 8) (concat (map section_bytes segs))"
  proof -
    have "app_image mgc mode freq entry segs = ?h @ concat (map section_bytes segs)" by (simp add: app_image_def)
    with assms(1) have "mem_holds (contents f) (unat addr + 4096) (?h @ concat (map section_bytes segs))" by simp
    from iffD1 [OF mem_holds_append this]
    show "mem_holds (contents f) (unat addr + 4096) ?h"
      "mem_holds (contents f) (unat addr + 4096 + 8) (concat (map section_bytes segs))" by simp_all
  qed
  have small: "unat addr + 4104 < 4294967296" using mem_holds_bound [OF h(2)] assms(2) by simp
  have p: "unat ?pos = unat addr + 4096" "unat (?pos + 8) = unat addr + 4104"
    using unat_plus [of addr 4096] unat_plus [of addr 4104] small by (simp_all add: flash_geometry add.assoc)
  have "mem_holds (contents f) (unat ?pos) ?h" "length ?h = unat (8 :: u32)" "4 dvd unat ?pos" "4 dvd length ?h"
    using h(1) p assms(3) by simp_all
  then obtain g where g: "SPIRead spi ?pos 8 f = (0, ?h, g)" "contents g = contents f" by (rule read_held)
  have hdr: "image_entry (image_header_of ?h) = entry" "unat (num_segments (image_header_of ?h)) = length segs"
    using assms(4) by (simp_all add: image_header_of_def unat_of_nat)
  have "mem_holds (contents g) (unat (?pos + 8)) (concat (map section_bytes segs))" "4 dvd unat (?pos + 8)"
    using h(2) p g(2) assms(3) by (simp_all add: add.commute)
  from load_sections_correct [OF this(1) _ this(2) assms(5)] assms(2) g(2) obtain k where
    "load_sections spi (length segs) (?pos + 8) g m = (None, k, fold load_segment segs m)" "contents k = contents f"
    by auto
  with g(1) hdr show ?thesis by (simp add: load_app_from_flash_raw_def)
qed

end

section \<open>The boot sequence\<close>

lemma load_sections_code: "load_sections spi n pos f m = (Some e, f', m') \<Longrightarrow> e = 2 \<or> e = 3"
  by (induction n arbitrary: pos f m) (auto simp: Let_def split: prod.splits if_splits)

lemma load_app_code: "load_app_from_flash_raw spi addr f m = (Inl e, f', m') \<Longrightarrow> e \<in> {1, 2, 3}"
  by (auto simp: load_app_from_flash_raw_def Let_def split: prod.splits if_splits option.splits
      dest: load_sections_code)

lemma eboot_copy_frame:
  assumes "eboot_copy spi fuel env cmd s = Some (res, cmd', s')" "watchdog s"
  shows "rtc s' = rtc s \<and> memory s' = memory s \<and> watchdog s' \<and>
    (res = Ret 0 \<longrightarrow> action cmd' = ACTION_LOAD_APP)"
  using assms by (auto simp: eboot_copy_def Let_def split: if_splits option.splits)


definition idle_machine :: "u8 list \<Rightarrow> u8 list machine" where
  "idle_machine fl = \<lparr>flash = fl, rtc = (\<lambda>_. 0), memory = (\<lambda>_. 0), watchdog = True\<rparr>"

definition some_leftovers :: "'f \<Rightarrow> 'f leftovers" where
  "some_leftovers f =
     \<lparr>stack_buffer = replicate 4096 0x55,
      stack_uncomp =
        \<lparr>source = [1], source_read_cb = None, cb_state = (f, 0), tag = 3, bitcount = 2, dest = [], dest_limit = 0,
         checksum = 0, checksum_type = 0, eof = True, btype = 2, bfinal = 1, curlen = 4, lzOff = 0,
         dict_ring = None, dict_size = 0, dict_idx = 0, ltree = some_tree, dtree = some_tree\<rparr>,
      static_dict = replicate 32768 0xaa\<rparr>"


text \<open>
  Property C16: on any flash that obeys the chip's documentation and holds an application image, the
  loader reaches the image's entry point with exactly the loadable segments (data and instruction
  RAM and the memory-mapped range) stored at their addresses, in order, and the flash unchanged.
\<close>

theorem load_app_loads_image:
  assumes "nor_flash spi contents" and "length (contents f) < 4294967296" and "4 dvd unat addr"
    and "mem_holds (contents f) (unat addr + 4096) (app_image mgc mode freq entry segs)"
    and "length segs < 256" and "\<forall>s\<in>set segs. seg_wf s"
  shows "\<exists>f'. load_app_from_flash_raw spi addr f m = (Inr entry, f', fold load_segment segs m) \<and>
    contents f' = contents f"
  using assms by (intro nor_flash.load_app_correct)

definition sample_segments :: "(u32 \<times> u8 list) list" where
  "sample_segments = [(0x3ffe8000, [1, 2, 3, 4]), (0x40200010, [5, 6, 7, 8]), (0x40100000, [9, 10, 11, 12])]"

definition sample_app :: "u8 list" where
  "sample_app = app_image 0xe9 0 0x40 0x4010f000 sample_segments"

lemma sample_segments_wf: "length sample_segments < 256" "\<forall>s\<in>set sample_segments. seg_wf s"
  unfolding sample_segments_def seg_wf_def by simp_all presburger

lemma length_sample_app: "length sample_app = 44"
  by (simp add: sample_app_def app_image_def sample_segments_def section_bytes_def)

lemma mem_holds_middle: "length xs = a \<Longrightarrow> mem_holds (xs @ bs @ ys) a bs"
  by (auto simp: mem_holds_def mem_read_def)

theorem load_app_loads_image_witness:
  "\<exists>f'. load_app_from_flash_raw list_spi 0 (replicate 4096 0xff @ sample_app) (\<lambda>_. 0) =
      (Inr 0x4010f000, f', ram_store [9, 10, 11, 12] 0x40100000 (ram_store [1, 2, 3, 4] 0x3ffe8000 (\<lambda>_. 0)))"
proof -
  have "mem_holds (replicate 4096 0xff @ sample_app) (unat (0 :: u32) + 4096)
      (app_image 0xe9 0 0x40 0x4010f000 sample_segments)"
    using mem_holds_middle [of "replicate 4096 0xff" 4096 sample_app "[]"] by (simp add: sample_app_def)
  moreover have "length (replicate 4096 0xff @ sample_app) < 4294967296" "4 dvd unat (0 :: u32)"
    using length_sample_app by simp_all
  ultimately obtain f' where "load_app_from_flash_raw list_spi 0 (replicate 4096 0xff @ sample_app) (\<lambda>_. 0) =
      (Inr 0x4010f000, f', fold load_segment sample_segments (\<lambda>_. 0))"
    using load_app_loads_image [OF list_flash.nor_flash_axioms _ _ _ sample_segments_wf] by blast
  moreover have "fold load_segment sample_segments (\<lambda>_. 0) =
      ram_store [9, 10, 11, 12] 0x40100000 (ram_store [1, 2, 3, 4] 0x3ffe8000 (\<lambda>_. 0))"
    by (simp add: sample_segments_def load_segment_def loadable_def del: ram_store.simps)
  ultimately show ?thesis by auto
qed

end
