(* ===== verification/Eboot_Update.thy ===== *)
theory Eboot_Update
  imports Eboot_Load
begin

text \<open>
  Copying an update: \<open>copy_raw\<close> on a flash that obeys \<open>nor_flash\<close> moves a raw image, or unpacks a
  gzip file that it streams out of the same flash, to the destination sectors.
\<close>

section \<open>One sector\<close>

lemma mem_write_write: "length xs = length ys \<Longrightarrow> a + length xs \<le> length m \<Longrightarrow>
   mem_write (mem_write m a xs) a ys = mem_write m a ys"
  by (rule nth_equalityI) (auto simp: nth_mem_write)

lemma unat_align_mask:
  fixes addr :: u32
  assumes "k < 32"
  shows "unat (addr AND NOT (mask k)) = 2 ^ k * (unat addr div 2 ^ k)"
proof -
  have "unat (addr AND NOT (mask k)) = push_bit k (drop_bit k (unat addr))"
  proof (rule bit_eqI)
    fix n
    show "bit (unat (addr AND NOT (mask k))) n = bit (push_bit k (drop_bit k (unat addr))) n"
    proof (cases "n < k")
      case True
      with assms show ?thesis
        by (simp only: bit_unsigned_iff bit_and_iff bit_not_iff bit_mask_iff bit_push_bit_iff) simp
    next
      case False
      then obtain m where m: "n = k + m" using le_Suc_ex by (metis not_less)
      show ?thesis unfolding m
        by (auto simp only: bit_unsigned_iff bit_and_iff bit_not_iff bit_mask_iff bit_push_bit_iff
            bit_drop_bit_eq o_apply add_diff_cancel_left' possible_bit_word dest: bit_imp_le_length)
    qed
  qed
  then show ?thesis by (simp add: push_bit_eq_mult drop_bit_eq_div)
qed

lemma unat_align: "unat (addr AND NOT 3) = 4 * (unat addr div 4)" for addr :: u32
  using unat_align_mask [of 2 addr] by (simp add: mask_eq_exp_minus_1)

lemma sector_round:
  assumes "unat sz + 4095 < 4294967296"
  shows "unat ((sz + FLASH_SECTOR_SIZE - 1) AND NOT (FLASH_SECTOR_SIZE - 1)) = 4096 * ((unat sz + 4095) div 4096)"
proof -
  have "unat (sz + 4095) = unat sz + 4095" using assms by (subst unat_add_u32) simp_all
  moreover have eq: "sz + FLASH_SECTOR_SIZE - 1 = sz + 4095" "FLASH_SECTOR_SIZE - 1 = mask 12"
    by (simp_all add: flash_geometry mask_eq_exp_minus_1)
  ultimately show ?thesis unfolding eq using unat_align_mask [of 12 "sz + 4095"] by simp
qed

lemma sector_aligned: "addr AND 0xfff = 0 \<longleftrightarrow> 4096 dvd unat addr" for addr :: u32
  using and_mask_dvd_nat [of 12 addr] by (simp add: mask_eq_exp_minus_1)

lemma unat_low2: "unat (addr AND 3) = unat addr mod 4" for addr :: u32
proof -
  have "addr AND 3 = take_bit 2 addr" by (simp add: take_bit_eq_mask mask_eq_exp_minus_1)
  then have "unat (addr AND 3) = take_bit 2 (unat addr)" by (simp only: unsigned_take_bit_eq)
  then show ?thesis by (simp add: take_bit_eq_mod)
qed

text \<open>Two areas of the flash that do not overlap.\<close>

definition regions_apart :: "nat \<Rightarrow> nat \<Rightarrow> nat \<Rightarrow> nat \<Rightarrow> bool" where
  "regions_apart a m b n \<longleftrightarrow> a + m \<le> b \<or> b + n \<le> a"

context nor_flash
begin

lemma put_sector_writes:
  assumes "4096 dvd unat daddr" "length buffer = 4096" "unat daddr + 4096 \<le> length (contents f)"
  shows "\<exists>f'. put_sector spi False daddr buffer f = (None, f') \<and>
    contents f' = mem_write (contents f) (unat daddr) buffer"
proof -
  have al: "4 dvd unat daddr" using assms(1) by (rule dvd_trans [rotated]) simp
  have s: "unat (daddr div FLASH_SECTOR_SIZE) = unat daddr div 4096" by (simp add: flash_geometry unat_div)
  have d: "unat daddr div 4096 * 4096 = unat daddr" using assms(1) by simp
  have prog: "\<exists>h g'. SPIEraseSector spi (daddr div FLASH_SECTOR_SIZE) g = (0, h) \<and> SPIWrite spi daddr buffer h = (0, g') \<and>
      contents g' = mem_write (contents f) (unat daddr) buffer" if g: "contents g = contents f" for g
  proof -
    from spi_erase_sector [of "daddr div FLASH_SECTOR_SIZE" g] s d assms(3) g obtain h where
      h: "SPIEraseSector spi (daddr div FLASH_SECTOR_SIZE) g = (0, h)"
        "contents h = mem_write (contents f) (unat daddr) (replicate 4096 0xff)"
      by (auto simp: erased_def)
    have "length (contents h) = length (contents f)" using h(2) assms(3) by simp
    moreover have "mem_read (contents h) (unat daddr) (length buffer) = replicate (length buffer) 0xff"
      using mem_read_write_same [of "unat daddr" "contents f" "replicate 4096 0xff"] assms(2,3) h(2) by simp
    ultimately obtain g' where "SPIWrite spi daddr buffer h = (0, g')"
      "contents g' = mem_write (contents h) (unat daddr) buffer"
      using write_erased [of daddr buffer h] al assms(2,3) by auto
    with h assms(2,3) mem_write_write [of "replicate 4096 0xff" buffer] show ?thesis by auto
  qed
  show ?thesis
  proof (cases "daddr = 0")
    case False
    with prog [of f] show ?thesis by (auto simp: put_sector_def)
  next
    case True
    have n: "unat FLASH_SECTOR_SIZE = 4096" by (simp add: flash_geometry)
    with spi_read [of daddr FLASH_SECTOR_SIZE f] al assms(3) obtain g where
      g: "SPIRead spi daddr FLASH_SECTOR_SIZE f = (0, mem_read (contents f) (unat daddr) 4096, g)"
        "contents g = contents f" by auto
    show ?thesis
    proof (cases "mem_read (contents f) (unat daddr) 4096 = buffer")
      case same: True
      with mem_write_read_id [of "unat daddr" 4096 "contents f"] assms(3) g True show ?thesis
        by (simp add: put_sector_def)
    next
      case False
      with prog [OF g(2)] g(1) True show ?thesis by (auto simp: put_sector_def)
    qed
  qed
qed

lemma read_flash_byte_at:
  assumes "4 dvd length (contents f)" "unat addr < length (contents f)"
  shows "\<exists>f'. read_flash_byte spi addr f = (contents f ! unat addr, f') \<and> contents f' = contents f"
proof -
  let ?a = "addr AND NOT 3" and ?q = "4 * (unat addr div 4)"
  have q: "?q + 4 \<le> length (contents f)"
  proof -
    obtain k where k: "length (contents f) = 4 * k" using assms(1) by (elim dvdE)
    with assms(2) have "unat addr div 4 < k" by (simp add: div_less_iff_less_mult mult.commute)
    with k show ?thesis by simp
  qed
  with spi_read [of ?a 4 f] obtain g where g: "SPIRead spi ?a 4 f = (0, mem_read (contents f) ?q 4, g)"
    "contents g = contents f" unfolding unat_align by auto
  have "mem_read (contents f) ?q 4 ! (unat addr mod 4) = contents f ! unat addr"
    using q nth_mem_read [of "unat addr mod 4" 4 ?q "contents f"] by simp
  with g show ?thesis by (simp add: read_flash_byte_def unat_low2)
qed

text \<open>
  The loop: if the source delivers the sectors \<open>B i\<close>, the destination holds them.  \<open>Q i m f\<close> is what
  the source keeps true of the decompressor and the flash after \<open>i\<close> sectors.
\<close>

definition delivers ::
  "nat \<Rightarrow> bool \<Rightarrow> int \<Rightarrow> u32 \<Rightarrow> nat \<Rightarrow> (nat \<Rightarrow> u8 list) \<Rightarrow> nat \<Rightarrow> (nat \<Rightarrow> ('f \<times> u32) uncomp \<Rightarrow> 'f \<Rightarrow> bool) \<Rightarrow> bool" where
  "delivers fuel gzip left saddr d B k Q \<longleftrightarrow>
     (\<forall>i<k. \<forall>buffer m f. Q i m f \<longrightarrow> length buffer = 4096 \<longrightarrow>
        (\<exists>m' f'. fill_buffer spi fuel gzip (left - 4096 * int i) (saddr + word_of_nat (4096 * i)) buffer m f =
             Some (Inr (B i, m'), f') \<and> contents f' = contents f \<and> length (B i) = 4096 \<and>
           (\<forall>f''. contents f'' = mem_write (contents f') (d + 4096 * i) (B i) \<longrightarrow> Q (i + 1) m' f'')))"

lemma length_sectors: "\<forall>i<k. length (B i) = 4096 \<Longrightarrow> length (concat (map B [0..<k])) = 4096 * k"
  by (induction k) auto

lemma copy_sectors_delivers:
  assumes del: "delivers fuel gzip left saddr (unat daddr) B k Q"
    and len: "left \<le> 4096 * int k" "4096 * int k < left + 4096"
    and dst: "4096 dvd unat daddr" "unat daddr + 4096 * k \<le> length (contents f0)" "length (contents f0) < 2 ^ 32"
  shows "i \<le> k \<Longrightarrow> Q i m f \<Longrightarrow> length buffer = 4096 \<Longrightarrow> \<forall>j<i. length (B j) = 4096 \<Longrightarrow>
    contents f = mem_write (contents f0) (unat daddr) (concat (map B [0..<i])) \<Longrightarrow>
    \<exists>f'. copy_sectors spi fuel False gzip (left - 4096 * int i) (saddr + word_of_nat (4096 * i))
        (daddr + word_of_nat (4096 * i)) buffer m f = Some (Ret 0, f') \<and>
      contents f' = mem_write (contents f0) (unat daddr) (concat (map B [0..<k]))"
proof (induction "k - i" arbitrary: i m f buffer)
  case 0
  then have "i = k" by simp
  with 0 len show ?case by (subst copy_sectors.simps) simp
next
  case (Suc n)
  then have i: "i < k" by simp
  with del Suc.prems(2,3) obtain m' f' where
    fill: "fill_buffer spi fuel gzip (left - 4096 * int i) (saddr + word_of_nat (4096 * i)) buffer m f = Some (Inr (B i, m'), f')"
      "contents f' = contents f" "length (B i) = 4096"
      "\<And>f''. contents f'' = mem_write (contents f') (unat daddr + 4096 * i) (B i) \<Longrightarrow> Q (i + 1) m' f''"
    unfolding delivers_def by blast
  let ?W = "\<lambda>i. mem_write (contents f0) (unat daddr) (concat (map B [0..<i]))"
  have lW: "length (concat (map B [0..<i])) = 4096 * i" using Suc.prems(4) by (rule length_sectors)
  have bound: "unat daddr + 4096 * i + 4096 \<le> length (contents f0)"
  proof -
    have "4096 * (i + 1) \<le> 4096 * k" using i by simp
    with dst(2) show ?thesis by simp
  qed
  have lf: "length (contents f') = length (contents f0)"
    using fill(2) Suc.prems(5) lW bound by simp
  have da: "unat (daddr + word_of_nat (4096 * i)) = unat daddr + 4096 * i"
    using bound dst(3) by (intro unat_plus) simp
  have "\<exists>g. put_sector spi False (daddr + word_of_nat (4096 * i)) (B i) f' = (None, g) \<and>
      contents g = mem_write (contents f') (unat daddr + 4096 * i) (B i)"
    using put_sector_writes [of "daddr + word_of_nat (4096 * i)" "B i" f'] da dst(1) fill(3) bound lf by simp
  then obtain g where g: "put_sector spi False (daddr + word_of_nat (4096 * i)) (B i) f' = (None, g)"
    "contents g = mem_write (contents f') (unat daddr + 4096 * i) (B i)" by blast
  have W: "contents g = ?W (i + 1)"
    using mem_write_append [of "unat daddr" "concat (map B [0..<i])" "B i" "contents f0"] lW bound fill(2,3) g(2)
      Suc.prems(5) by simp
  have st: "left - 4096 * int i - buffer_size = left - 4096 * int (i + 1)"
    "saddr + word_of_nat (4096 * i) + FLASH_SECTOR_SIZE = saddr + word_of_nat (4096 * (i + 1))"
    "daddr + word_of_nat (4096 * i) + FLASH_SECTOR_SIZE = daddr + word_of_nat (4096 * (i + 1))"
    by (simp_all add: buffer_size_def flash_geometry)
  have pos: "left - 4096 * int i > 0" using i len(2) by linarith
  have "\<exists>f'. copy_sectors spi fuel False gzip (left - 4096 * int (i + 1)) (saddr + word_of_nat (4096 * (i + 1)))
        (daddr + word_of_nat (4096 * (i + 1))) (B i) m' g = Some (Ret 0, f') \<and> contents f' = ?W k"
  proof (rule Suc.hyps(1))
    show "n = k - (i + 1)" "i + 1 \<le> k" using Suc.hyps(2) i by auto
    show "Q (i + 1) m' g" using g(2) by (rule fill(4))
    show "\<forall>j<i + 1. length (B j) = 4096" using Suc.prems(4) fill(3) by (auto simp: less_Suc_eq)
  qed (use W fill(3) in auto)
  with pos fill(1) g(1) st show ?case
    by (subst copy_sectors.simps) (simp only: if_True option.case sum.case prod.case)
qed

section \<open>A raw copy\<close>

lemma raw_delivers:
  assumes "4096 dvd unat src" "unat src + 4096 * k \<le> length I" "d + 4096 * k \<le> length I"
    and "regions_apart (unat src) (4096 * k) d (4096 * k)" "length I < 2 ^ 32"
    and B: "B = (\<lambda>i. mem_read I (unat src + 4096 * i) 4096)"
  shows "delivers fuel False left src d B k
    (\<lambda>i m f. contents f = mem_write I d (concat (map B [0..<i])))"
  unfolding delivers_def
proof (intro allI impI)
  fix i buffer and m :: "('f \<times> u32) uncomp" and f
  assume i: "i < k" and f: "contents f = mem_write I d (concat (map B [0..<i]))"
  have ik: "4096 * i + 4096 \<le> 4096 * k" using i by simp
  have lB: "length (B j) = 4096" if "j < k" for j
  proof -
    have "4096 * j + 4096 \<le> 4096 * k" using that by simp
    then show ?thesis using assms(2) by (simp add: B)
  qed
  have lW: "length (concat (map B [0..<i])) = 4096 * i"
    using lB i by (intro length_sectors) auto
  have sa: "unat (src + word_of_nat (4096 * i)) = unat src + 4096 * i"
    using ik assms(2,5) by (intro unat_plus) simp
  have lf: "length (contents f) = length I" using f lW ik assms(3) by simp
  have al: "4 dvd unat (src + word_of_nat (4096 * i))"
    unfolding sa using assms(1) by (intro dvd_add) (auto intro: dvd_trans)
  have "mem_read (contents f) (unat src + 4096 * i) 4096 = B i"
    unfolding f B using ik assms(2-4) lW [unfolded B]
    by (intro mem_read_write_disjoint) (auto simp: regions_apart_def)
  then obtain f' where "SPIRead spi (src + word_of_nat (4096 * i)) FLASH_SECTOR_SIZE f = (0, B i, f')"
    "contents f' = contents f"
    using spi_read [of "src + word_of_nat (4096 * i)" FLASH_SECTOR_SIZE f] al sa ik assms(2) lf
    by (auto simp: flash_geometry)
  moreover have "mem_write (contents f) (d + 4096 * i) (B i) = mem_write I d (concat (map B [0..<i + 1]))"
    unfolding f using mem_write_append [of d "concat (map B [0..<i])" "B i" I] lW lB [OF i] ik assms(3) by simp
  ultimately show "\<exists>m' f'. fill_buffer spi fuel False (left - 4096 * int i) (src + word_of_nat (4096 * i)) buffer m f =
       Some (Inr (B i, m'), f') \<and> contents f' = contents f \<and> length (B i) = 4096 \<and>
     (\<forall>f''. contents f'' = mem_write (contents f') (d + 4096 * i) (B i) \<longrightarrow>
       contents f'' = mem_write I d (concat (map B [0..<i + 1])))"
    using lB [OF i] by (simp add: fill_buffer_def)
qed

lemma concat_sectors: "a + 4096 * k \<le> length I \<Longrightarrow>
  concat (map (\<lambda>i. mem_read I (a + 4096 * i) 4096) [0..<k]) = mem_read I a (4096 * k)"
proof (induction k)
  case (Suc k)
  have "mem_read I a (4096 * k + 4096) = mem_read I a (4096 * k) @ mem_read I (a + 4096 * k) 4096"
    using take_add [of "4096 * k" 4096 "drop a I"] by (simp add: mem_read_def add.commute)
  with Suc show ?case by (simp add: add.commute)
qed (simp add: mem_read_def)

lemma copy_raw_moves:
  assumes "4096 dvd unat src" "4096 dvd unat dst" "4 dvd length (contents f)" "length (contents f) < 2147483648"
    and "unat src + n \<le> length (contents f)" "unat dst + n \<le> length (contents f)" "unat src + 1 < length (contents f)"
    and "regions_apart (unat src) n (unat dst) n"
    and n: "n = 4096 * ((unat sz + 4095) div 4096)"
    and raw: "\<not> (contents f ! unat src = 0x1f \<and> contents f ! (unat src + 1) = 0x8b)"
    and buf: "length buffer = 4096"
  shows "\<exists>f'. copy_raw spi fuel buffer m gzip_dict src dst sz False f = Some (Ret 0, f') \<and>
    contents f' = mem_write (contents f) (unat dst) (mem_read (contents f) (unat src) n)"
proof -
  let ?I = "contents f" and ?k = "(unat sz + 4095) div 4096"
  let ?B = "\<lambda>i. mem_read ?I (unat src + 4096 * i) 4096"
  have sz: "unat sz \<le> n" unfolding n by linarith
  have left: "sint ((sz + FLASH_SECTOR_SIZE - 1) AND NOT (FLASH_SECTOR_SIZE - 1)) = 4096 * int ?k"
    using sector_round [of sz] sz assms(4,5) n by (subst sint_small) simp_all
  obtain f1 where f1: "read_flash_byte spi src f = (?I ! unat src, f1)" "contents f1 = ?I"
    using read_flash_byte_at [of f src] assms(3,7) by auto
  have s1: "unat (src + 1) = unat src + 1" using unat_plus [of src 1] assms(4,7) by simp
  obtain f2 where f2: "read_flash_byte spi (src + 1) f1 = (?I ! (unat src + 1), f2)" "contents f2 = ?I"
    using read_flash_byte_at [of f1 "src + 1"] assms(3,7) s1 f1(2) by auto
  have sectors: "\<exists>f'. copy_sectors spi fuel False False (4096 * int ?k) src dst buffer m g = Some (Ret 0, f') \<and>
      contents f' = mem_write ?I (unat dst) (mem_read ?I (unat src) n)" if g: "contents g = ?I" for g
  proof -
    have del: "delivers fuel False (4096 * int ?k) src (unat dst) ?B ?k
        (\<lambda>i m f. contents f = mem_write ?I (unat dst) (concat (map ?B [0..<i])))"
      using assms n by (intro raw_delivers) simp_all
    have "mem_write ?I (unat dst) [] = ?I" using assms(6) by (intro mem_write_Nil) simp
    with copy_sectors_delivers [where ?f0.0 = f and i = 0 and m = m and f = g and buffer = buffer, OF del] g assms n buf concat_sectors [of "unat src" ?k ?I]
    show ?thesis by simp
  qed
  show ?thesis
    using sectors [OF f1(2)] sectors [OF f2(2)] f1(1) f2(1) raw assms(1,2)
    by (auto simp: copy_raw_def sector_aligned left)
qed

end

section \<open>Properties\<close>

text \<open>
  Property C15: \<open>copy_raw\<close> of an image without the gzip signature returns 0 and leaves the flash as it
  was but for the destination, which holds the source sectors: the size rounded up to whole sectors,
  sector 0 (the boot loader itself) included.
\<close>

theorem copy_raw_copies_sectors:
  assumes "nor_flash spi contents" and "4096 dvd unat src" and "4096 dvd unat dst"
    and "4 dvd length (contents f)" and "length (contents f) < 2147483648"
    and "n = 4096 * ((unat sz + 4095) div 4096)"
    and "unat src + n \<le> length (contents f)" and "unat dst + n \<le> length (contents f)"
    and "unat src + 1 < length (contents f)" and "regions_apart (unat src) n (unat dst) n"
    and "\<not> (contents f ! unat src = 0x1f \<and> contents f ! (unat src + 1) = 0x8b)" and "length buffer = 4096"
  shows "\<exists>f'. copy_raw spi fuel buffer m gzip_dict src dst sz False f = Some (Ret 0, f') \<and>
    contents f' = mem_write (contents f) (unat dst) (mem_read (contents f) (unat src) n)"
  using assms by (intro nor_flash.copy_raw_moves [of spi contents])

theorem copy_raw_copies_sectors_witness:
  "\<exists>f'. copy_raw list_spi 1 (replicate 4096 0) (stack_uncomp (some_leftovers [])) [] 0x2000 0 100 False
      (replicate 0x2000 1 @ replicate 0x1000 7) = Some (Ret 0, f') \<and>
    f' = mem_write (replicate 0x2000 1 @ replicate 0x1000 7) 0 (mem_read (replicate 0x2000 1 @ replicate 0x1000 7) 0x2000 0x1000)"
proof -
  have "(replicate 0x2000 1 @ replicate 0x1000 7) ! 0x2000 = (7 :: u8)" by (simp add: nth_append)
  then show ?thesis
    using copy_raw_copies_sectors [OF list_flash.nor_flash_axioms, of "0x2000" 0
        "replicate 0x2000 1 @ replicate 0x1000 7" "0x1000" 100 "replicate 4096 0" 1 "stack_uncomp (some_leftovers [])" "[]"]
    by (simp add: regions_apart_def)
qed

end
