(* ===== verification/Eboot_Gzip.thy ===== *)
theory Eboot_Gzip
  imports Eboot_Update
begin

text \<open>
  Unpacking an update: the boot loader streams a gzip file out of flash, sector by sector through
  \<open>uzlib_flash_read_cb\<close>, while it writes the unpacked data to other sectors of the same flash.  The
  flash as a byte source and the ring dictionary make an \<open>lz_decoder\<close>.
\<close>

section \<open>The flash as a byte source\<close>

lemma mem_holds_part:
  assumes "mem_holds m a bs" "i + n \<le> length bs"
  shows "mem_read m (a + i) n = take n (drop i bs)"
proof -
  have "take n (drop i bs) = take n (drop i (take (length bs) (drop a m)))"
    using assms(1) by (simp add: mem_holds_def mem_read_def)
  also have "\<dots> = take n (drop (a + i) m)"
    using assms(2) by (simp add: drop_take min_def add.commute)
  finally show ?thesis by (simp add: mem_read_def)
qed

lemma drop_take_rest: "xs \<noteq> [] \<Longrightarrow> 0 < n \<Longrightarrow> drop 1 (take n xs) @ drop n xs = drop 1 xs"
  by (cases xs; cases n) simp_all

lemma ring_fields [simp]:
  "ring_window N (d\<lparr>dest := out\<rparr>) h = ring_window N d h" "ring_window N (d\<lparr>dest_limit := lim\<rparr>) h = ring_window N d h"
  "ring_window N (d\<lparr>cb_state := c\<rparr>) h = ring_window N d h"
  "ring_at N (d\<lparr>dest := out\<rparr>) n = ring_at N d n" "ring_at N (d\<lparr>dest_limit := lim\<rparr>) n = ring_at N d n"
  "ring_at N (d\<lparr>cb_state := c\<rparr>) n = ring_at N d n"
  by (simp_all add: ring_window_def ring_at_def)

context nor_flash
begin

text \<open>
  \<open>flash_yields I base G\<close>: the flash holds \<open>I\<close>, with the whole sectors \<open>G\<close> at \<open>base\<close>; the callback
  has delivered \<open>k\<close> of them, and the bytes to come are in the buffer and in the rest of \<open>G\<close>.
\<close>

definition flash_yields ::
  "u8 list \<Rightarrow> nat \<Rightarrow> u8 list \<Rightarrow> ('f \<times> u32 \<Rightarrow> int \<times> u8 list \<times> 'f \<times> u32) option \<Rightarrow> u8 list \<Rightarrow> 'f \<times> u32 \<Rightarrow> u8 list \<Rightarrow> bool" where
  "flash_yields I base G cb src c bytes \<longleftrightarrow>
     cb = Some (uzlib_flash_read_cb spi) \<and> contents (fst c) = I \<and> mem_holds I base G \<and> length I < 4294967296 \<and>
     4096 dvd base \<and> 4096 dvd length G \<and>
     (\<exists>k rest. unat (snd c) = base + 4096 * k \<and> 4096 * k \<le> length G \<and> src @ drop (4096 * k) G = bytes @ rest)"

lemma flash_callback:
  assumes "flash_yields I base G cb [] c (b # bs)"
  shows "\<exists>read src c'. cb = Some read \<and> read c = (int (unat b), src, c') \<and> flash_yields I base G cb src c' bs"
proof -
  obtain f a where c: "c = (f, a)" by force
  from assms obtain k rest where k: "cb = Some (uzlib_flash_read_cb spi)" "contents f = I" "mem_holds I base G"
    "length I < 4294967296" "4096 dvd base" "4096 dvd length G" "unat a = base + 4096 * k" "4096 * k \<le> length G"
    "drop (4096 * k) G = b # bs @ rest"
    unfolding flash_yields_def c by auto
  have "4096 * k < length G" using arg_cong [OF k(9), of length] by simp
  with k(6) have room: "4096 * k + 4096 \<le> length G" by (auto elim!: dvdE)
  have base: "base + (4096 * k + 4096) \<le> length I" using mem_holds_bound [OF k(3)] room by simp
  have "4 dvd unat a" unfolding k(7) using k(5) by (intro dvd_add) (auto intro: dvd_trans [of 4 4096])
  with spi_read [of a 4096 f] base k(2,7) mem_holds_part [OF k(3) room] obtain g where
    g: "SPIRead spi a 4096 f = (0, take 4096 (drop (4096 * k) G), g)" "contents g = I" by auto
  let ?buf = "take 4096 (b # bs @ rest)"
  have cb: "uzlib_flash_read_cb spi c = (int (unat b), drop 1 ?buf, (g, a + 4096))"
    using g(1) k(9) by (simp add: uzlib_flash_read_cb_def c)
  have a': "unat (a + 4096) = base + 4096 * (k + 1)"
    using unat_plus [of a 4096] k(4,7) base by simp
  have "drop (4096 * (k + 1)) G = drop 4096 (b # bs @ rest)"
    using k(9) by (simp add: add.commute flip: drop_drop)
  then have "drop 1 ?buf @ drop (4096 * (k + 1)) G = bs @ rest"
    using drop_take_rest [of "b # bs @ rest" 4096] by simp
  then have "flash_yields I base G cb (drop 1 ?buf) (g, a + 4096) bs"
    unfolding flash_yields_def using k(1-6) g(2) a' room by (intro conjI exI [of _ "k + 1"] exI [of _ rest]) simp_all
  with cb k(1) show ?thesis by auto
qed

end

sublocale nor_flash \<subseteq> ota: lz_decoder "flash_yields I base G" "ring_window N" "ring_at N" "min N 32768"
  for I base G N
proof unfold_locales
  show "s = b \<and> flash_yields I base G cb src c bs" if "flash_yields I base G cb (s # src) c (b # bs)"
    for cb s src c b bs
    using that by (auto simp: flash_yields_def)
  show "\<exists>read src c'. cb = Some read \<and> read c = (int (unat b), src, c') \<and> flash_yields I base G cb src c' bs"
    if "flash_yields I base G cb [] c (b # bs)" for cb c b bs
    using that by (rule flash_callback)
qed

context nor_flash
begin

lemma ota_contents:
  assumes "ota.inflating I base G N d h F tail"
  shows "contents (fst (cb_state d)) = I" "mem_holds I base G"
proof -
  have "\<exists>X. ota.next_bits I base G d X"
    using assms by (auto simp: ota.inflating_def ota.decoding_def ota.at_start_def)
  then show "contents (fst (cb_state d)) = I" "mem_holds I base G"
    by (auto simp: ota.next_bits_def flash_yields_def)
qed

text \<open>The flash may change outside the source region while the decompressor is suspended.\<close>

lemma ota_transfer:
  assumes "ota.inflating I base G N d h F tail" "mem_holds J base G" "length J = length I" "contents f = J"
  shows "ota.inflating J base G N (d\<lparr>dest := out, dest_limit := lim, cb_state := (f, snd (cb_state d))\<rparr>) h F tail"
proof -
  let ?d = "d\<lparr>dest := out, dest_limit := lim, cb_state := (f, snd (cb_state d))\<rparr>"
  have bits: "ota.next_bits J base G ?d X" if "ota.next_bits I base G d X" for X
    using that assms(2-4) by (auto simp: ota.next_bits_def flash_yields_def)
  have "ota.decoding J base G N ?d h k n ts tail" if "ota.decoding I base G N d h k n ts tail" for k n ts
    using that bits by (auto simp: ota.decoding_def)
  moreover have "ota.at_start J base G N ?d ts tail" if "ota.at_start I base G N d ts tail" for ts
    using that bits by (auto simp: ota.at_start_def)
  ultimately show ?thesis using assms(1) unfolding ota.inflating_def by blast
qed

section \<open>Unpacking sector by sector\<close>

text \<open>Sector \<open>i\<close> of the data \<open>F\<close>, filled up with ones.\<close>

definition sector :: "u8 list \<Rightarrow> nat \<Rightarrow> u8 list" where
  "sector F i = take 4096 (drop (4096 * i) F) @ replicate (4096 - (length F - 4096 * i)) 0xff"

lemma length_sector [simp]: "length (sector F i) = 4096"
  by (simp add: sector_def min_def)

lemma gzip_delivers:
  assumes src: "4096 dvd base" "regions_apart base (length G) d (4096 * k)" "mem_holds I base G"
    and dst: "d + 4096 * k \<le> length I"
    and F: "length F \<le> 4096 * k" "4096 * k < length F + 4096" and fuel: "4096 \<le> fuel"
  shows "delivers fuel True (int (length F)) src d (sector F) k
    (\<lambda>i m f. contents f = mem_write I d (concat (map (sector F) [0..<i])) \<and>
       (\<exists>J. length J = length I \<and> ota.inflating J base G 32768 m (take (4096 * i) F) F tail))"
  unfolding delivers_def
proof (intro allI impI, elim conjE exE)
  fix i and buffer :: "u8 list" and m f J
  assume i: "i < k" and buf: "length buffer = 4096"
    and f: "contents f = mem_write I d (concat (map (sector F) [0..<i]))"
    and J: "length J = length I" "ota.inflating J base G 32768 m (take (4096 * i) F) F tail"
  let ?W = "\<lambda>i. mem_write I d (concat (map (sector F) [0..<i]))"
  have lW: "length (concat (map (sector F) [0..<i])) = 4096 * i" for i by (rule length_sectors) simp
  have ik: "4096 * i + 4096 \<le> 4096 * k" using i by simp
  have lF: "4096 * i < length F" using ik F(2) by simp
  define n where "n = min 4096 (length F - 4096 * i)"
  have n: "0 < n" "n \<le> fuel" "4096 * i + n \<le> length F" using lF fuel by (auto simp: n_def)
  have hold: "mem_holds (?W i) base G"
    using src(2,3) lW [of i] dst ik by (intro mem_holds_write_other) (auto simp: regions_apart_def)
  have lI: "length (?W i) = length J" using J(1) lW [of i] dst ik by simp
  let ?m = "m\<lparr>dest := [], dest_limit := n, cb_state := (f, snd (cb_state m))\<rparr>"
  from ota_transfer [OF J(2) hold lI f] have inf: "ota.inflating (?W i) base G 32768 ?m (take (4096 * i) F) F tail" .
  have "length (take (4096 * i) F) + n \<le> length F" using n(3) by simp
  from ota.inflating_partial [OF inf n(1) this _ n(2)] obtain m' where
    m': "uzlib_uncompress fuel ?m = Some (Ret TINF_OK, m')"
      "ota.inflating (?W i) base G 32768 m' (take (4096 * i + n) F) F tail"
      "dest m' = take n (drop (4096 * i) F)"
    using lF by auto
  have next_h: "take (4096 * i + n) F = take (4096 * (i + 1)) F" by (auto simp: n_def min_def add.commute)
  have cont: "contents (fst (cb_state m')) = contents f" using ota_contents(1) [OF m'(2)] f by simp
  have to_read: "nat (if int (length F) - 4096 * int i > buffer_size then buffer_size
      else int (length F) - 4096 * int i) = n"
    by (auto simp: n_def buffer_size_def flash_geometry)
  have lm: "length (dest m') = n" using m'(3) n(3) by simp
  have "take n (dest m' @ drop (length (dest m')) buffer) @ replicate (nat buffer_size - n) 0xff = sector F i"
    using lm m'(3) lF by (auto simp: sector_def n_def buffer_size_def flash_geometry min_def)
  then have fill: "fill_buffer spi fuel True (int (length F) - 4096 * int i) (src + word_of_nat (4096 * i)) buffer m f
      = Some (Inr (sector F i, m'), fst (cb_state m'))"
    unfolding fill_buffer_def Let_def to_read using m'(1) by (simp add: TINF_OK_def)
  have "mem_write (?W i) (d + 4096 * i) (sector F i) = ?W (i + 1)"
    using mem_write_append [of d "concat (map (sector F) [0..<i])" "sector F i" I] lW [of i] ik dst by simp
  with fill cont f lI J(1) m'(2) next_h
  show "\<exists>m' f'. fill_buffer spi fuel True (int (length F) - 4096 * int i) (src + word_of_nat (4096 * i)) buffer m f =
       Some (Inr (sector F i, m'), f') \<and> contents f' = contents f \<and> length (sector F i) = 4096 \<and>
     (\<forall>f''. contents f'' = mem_write (contents f') (d + 4096 * i) (sector F i) \<longrightarrow>
       contents f'' = ?W (i + 1) \<and>
       (\<exists>J. length J = length I \<and> ota.inflating J base G 32768 m' (take (4096 * (i + 1)) F) F tail))"
    by auto
qed

lemma concat_sector: "length F \<le> 4096 * k \<Longrightarrow> 4096 * k < length F + 4096 \<Longrightarrow>
  concat (map (sector F) [0..<k]) = F @ replicate (4096 * k - length F) 0xff"
proof -
  have full: "concat (map (sector F) [0..<j]) = take (4096 * j) F" if "4096 * j \<le> length F" for j
    using that
  proof (induction j)
    case (Suc j)
    then have "sector F j = take 4096 (drop (4096 * j) F)" by (simp add: sector_def)
    with Suc take_add [of "4096 * j" 4096 F] show ?case by (simp add: add.commute)
  qed simp
  assume k: "length F \<le> 4096 * k" "4096 * k < length F + 4096"
  show ?thesis
  proof (cases k)
    case 0
    with k show ?thesis by simp
  next
    case (Suc j)
    with k have j: "4096 * j \<le> length F" by simp
    from full [OF j] k Suc show ?thesis by (simp add: sector_def add.commute)
  qed
qed

lemma mem_holds_nth: "mem_holds m a bs \<Longrightarrow> i < length bs \<Longrightarrow> m ! (a + i) = bs ! i"
  using nth_mem_read [of i "length bs" a m] by (simp add: mem_holds_def)

lemma read_isize_at:
  assumes "mem_holds (contents f) (unat src) (pre @ le32_bytes w)" "unat sz = length pre + 4"
    and "4 dvd length (contents f)" "length (contents f) < 4294967296"
  shows "\<exists>f'. read_isize spi src sz f = (sint w, f') \<and> contents f' = contents f"
proof -
  let ?gz = "pre @ le32_bytes w" and ?p = "unat src + length pre"
  have room: "?p + 4 \<le> length (contents f)" using mem_holds_bound [OF assms(1)] by simp
  have sum: "unat (src + sz) = ?p + 4"
    using assms(2,4) room by (subst unat_add_u32) simp_all
  have addr: "unat (src + sz - word_of_nat (4 - i)) = ?p + i" if "i < 4" for i
  proof -
    have "unat (word_of_nat (4 - i) :: u32) = 4 - i" by (simp add: unat_of_nat)
    moreover from this have "word_of_nat (4 - i) \<le> src + sz" using sum by (simp add: word_le_nat_alt)
    ultimately show ?thesis using sum that by (simp add: unat_sub)
  qed
  have byte: "\<exists>g'. read_flash_byte spi (src + sz - word_of_nat (4 - i)) g = (le32_bytes w ! i, g') \<and>
      contents g' = contents f" if "i < 4" "contents g = contents f" for i g
  proof -
    have "contents f ! (unat src + (length pre + i)) = ?gz ! (length pre + i)"
      using that(1) by (intro mem_holds_nth [OF assms(1)]) simp
    then have "contents f ! (?p + i) = le32_bytes w ! i" by (simp add: add.assoc)
    with read_flash_byte_at [of g "src + sz - word_of_nat (4 - i)"] addr [OF that(1)] assms(3) room that
    show ?thesis by auto
  qed
  from byte [of 0 f] obtain f0 where f0: "read_flash_byte spi (src + sz - 4) f = (le32_bytes w ! 0, f0)"
    "contents f0 = contents f" by auto
  from byte [of 1 f0] f0(2) obtain f1 where f1: "read_flash_byte spi (src + sz - 3) f0 = (le32_bytes w ! 1, f1)"
    "contents f1 = contents f" by auto
  from byte [of 2 f1] f1(2) obtain f2 where f2: "read_flash_byte spi (src + sz - 2) f1 = (le32_bytes w ! 2, f2)"
    "contents f2 = contents f" by auto
  from byte [of 3 f2] f2(2) obtain f3 where f3: "read_flash_byte spi (src + sz - 1) f2 = (le32_bytes w ! 3, f3)"
    "contents f3 = contents f" by auto
  have "le32 (le32_bytes w ! 0) (le32_bytes w ! 1) (le32_bytes w ! 2) (le32_bytes w ! 3) = w"
    using le32_of_bytes [of w] by (simp add: le32_of_def)
  with f0 f1 f2 f3 show ?thesis by (simp add: read_isize_def)
qed

text \<open>The gzip files that the boot loader unpacks: those that \<open>tgzip\<close> makes.\<close>

lemma start_gzip_inflates:
  assumes gz: "tgzip_main F = Some gz" and hold: "mem_holds (contents f) (unat src) gz"
    and al: "4096 dvd unat src" "4096 dvd length (contents f)" "length (contents f) < 4294967296"
    and dict: "length gzip_dict = 32768" and trees: "tree_dims (ltree m)" "tree_dims (dtree m)"
    and G: "G = mem_read (contents f) (unat src) (4096 * ((length gz + 4095) div 4096))"
  shows "\<exists>m' tail. start_gzip spi src gzip_dict m f = Some (TINF_OK, m') \<and>
    ota.inflating (contents f) (unat src) G 32768 m' [] F tail \<and> mem_holds (contents f) (unat src) G \<and>
    length G = 4096 * ((length gz + 4095) div 4096)"
proof -
  let ?I = "contents f" and ?n = "4096 * ((length gz + 4095) div 4096)"
  obtain data where data: "deflate_static tgzip_comp F = Some data"
    "tgzip_main F = Some (tgzip_header @ outbuf (comp_out data) @
      le32_bytes (NOT (uzlib_crc32 F (NOT 0))) @ le32_bytes (word_of_nat (length F)))"
    by (rule tgzip_main_output)
  let ?rest = "le32_bytes (NOT (uzlib_crc32 F (NOT 0))) @ le32_bytes (word_of_nat (length F))"
  let ?body = "outbuf (comp_out data) @ ?rest"
  have gz': "gz = tgzip_header @ ?body" using gz data(2) by simp
  have room: "unat src + ?n \<le> length ?I"
  proof -
    obtain q k where qk: "unat src = 4096 * q" "length ?I = 4096 * k" using al(1,2) by (auto elim!: dvdE)
    with mem_holds_bound [OF hold] have "length gz + 4095 \<le> 4096 * (k - q) + 4095" "q \<le> k" by simp_all
    from div_le_mono [OF this(1), of 4096] \<open>q \<le> k\<close> qk show ?thesis by simp
  qed
  have holdG: "mem_holds ?I (unat src) G" using room unfolding G by (rule mem_holds_self)
  have "length gz \<le> ?n" by linarith
  then have "take (length gz) G = gz"
    using hold by (simp add: G mem_holds_def mem_read_def min_def)
  then have split: "G = gz @ drop (length gz) G" by (metis append_take_drop_id)
  let ?m = "uzlib_uncompress_init (m\<lparr>source := [], cb_state := (f, src),
      source_read_cb := Some (uzlib_flash_read_cb spi)\<rparr>) (Some gzip_dict) (length gzip_dict)"
  have "flash_yields ?I (unat src) G (Some (uzlib_flash_read_cb spi)) [] (f, src) gz"
    unfolding flash_yields_def using holdG al split room
    by (intro conjI exI [of _ 0] exI [of _ "drop (length gz) G"]) (simp_all add: G)
  then have "ota.next_bytes ?I (unat src) G ?m (gzip_header 0 (le32_bytes 0 @ [4, 3]) [] [] [] [0, 0] @ ?body)"
    by (simp add: ota.next_bytes_def uzlib_uncompress_init_def gz' tgzip_header_gzip(1) [symmetric])
  from ota.gzip_header_bytes [OF tgzip_header_gzip(2) this] obtain e where
    e: "uzlib_gzip_parse_header ?m = Some (TINF_OK, e\<lparr>checksum_type := TINF_CHKSUM_CRC, checksum := NOT 0\<rparr>)"
      "ota.next_bytes ?I (unat src) G e ?body" "takes_bytes ?m e" by blast
  let ?e = "e\<lparr>checksum_type := TINF_CHKSUM_CRC, checksum := NOT 0\<rparr>"
  note E = takes_bytes_reads [OF e(3)]
  have "ota.next_bytes ?I (unat src) G ?e (outbuf (comp_out data) @ ?rest)" using e(2) by simp
  moreover have "uncomp_ready ?e" "ring_window 32768 ?e []"
    using E reads_fields [of ?m e] trees dict
    by (simp_all add: uncomp_ready_def ring_window_def uzlib_uncompress_init_def)
  ultimately obtain pad where
    "ota.inflating ?I (unat src) G 32768 ?e [] F (pad @ concat (map (lsb_bits 8) ?rest))"
    using ota.inflating_deflate [OF tgzip_comp_fresh data(1), where d = ?e and rest = ?rest and N = 32768 and I = ?I and G = G
        and base = "unat src"]
    by (auto simp: tgzip_comp_def)
  with e(1) holdG room show ?thesis by (auto simp: start_gzip_def G)
qed

lemma tgzip_main_shape:
  assumes "tgzip_main F = Some gz"
  obtains pre where "gz = pre @ le32_bytes (word_of_nat (length F))" "gz ! 0 = 0x1f" "gz ! 1 = 0x8b" "18 \<le> length gz"
proof -
  obtain data where "deflate_static tgzip_comp F = Some data"
    and data: "tgzip_main F = Some (tgzip_header @ outbuf (comp_out data) @
      le32_bytes (NOT (uzlib_crc32 F (NOT 0))) @ le32_bytes (word_of_nat (length F)))"
    by (rule tgzip_main_output)
  show thesis
    by (rule that [of "tgzip_header @ outbuf (comp_out data) @ le32_bytes (NOT (uzlib_crc32 F (NOT 0)))"])
      (use assms data in \<open>auto simp: tgzip_header_def\<close>)
qed

lemma copy_raw_unpacks:
  assumes gz: "tgzip_main F = Some gz" and hold: "mem_holds (contents f) (unat src) gz" "unat sz = length gz"
    and al: "4096 dvd unat src" "4096 dvd unat dst" "4096 dvd length (contents f)" "length (contents f) < 2147483648"
    and n: "n = 4096 * ((length F + 4095) div 4096)" "unat dst + n \<le> length (contents f)"
    and apart: "regions_apart (unat src) (4096 * ((length gz + 4095) div 4096)) (unat dst) n"
    and dict: "length gzip_dict = 32768" and trees: "tree_dims (ltree m)" "tree_dims (dtree m)"
    and buf: "length buffer = 4096" and fuel: "4096 \<le> fuel"
  shows "\<exists>f'. copy_raw spi fuel buffer m gzip_dict src dst sz False f = Some (Ret 0, f') \<and>
    contents f' = mem_write (contents f) (unat dst) (F @ replicate (n - length F) 0xff)"
proof -
  let ?I = "contents f" and ?k = "(length F + 4095) div 4096"
  let ?G = "mem_read ?I (unat src) (4096 * ((length gz + 4095) div 4096))"
  from gz obtain pre where shape: "gz = pre @ le32_bytes (word_of_nat (length F))" "gz ! 0 = 0x1f" "gz ! 1 = 0x8b"
    "18 \<le> length gz" by (rule tgzip_main_shape)
  have al4: "4 dvd length ?I" using al(3) by (rule dvd_trans [rotated]) simp
  have bound: "unat src + length gz \<le> length ?I" using mem_holds_bound [OF hold(1)] .
  have lF: "length F \<le> n" "n < length F + 4096" unfolding n by linarith+
  have isz: "sint (word_of_nat (length F) :: u32) = int (length F)"
    using lF(1) n(2) al(4) by (subst sint_small) (simp_all add: unat_of_nat)
  have sig: "?I ! unat src = 0x1f" "?I ! (unat src + 1) = 0x8b"
    using mem_holds_nth [OF hold(1), of 0] mem_holds_nth [OF hold(1), of 1] shape by auto
  obtain f1 where f1: "read_flash_byte spi src f = (0x1f, f1)" "contents f1 = ?I"
    using read_flash_byte_at [of f src] al4 bound shape(4) sig(1) by auto
  have s1: "unat (src + 1) = unat src + 1" using unat_plus [of src 1] al(4) bound shape(4) by simp
  obtain f2 where f2: "read_flash_byte spi (src + 1) f1 = (0x8b, f2)" "contents f2 = ?I"
    using read_flash_byte_at [of f1 "src + 1"] al4 bound shape(4) sig(2) s1 f1(2) by auto
  obtain f3 where f3: "read_isize spi src sz f2 = (int (length F), f3)" "contents f3 = ?I"
    using read_isize_at [of f2 src pre "word_of_nat (length F)" sz] f2(2) hold shape(1) al4 al(4) isz by auto
  from start_gzip_inflates [of F gz f3 src gzip_dict m ?G] gz hold(1) al dict trees f3(2) obtain m' tail where
    st: "start_gzip spi src gzip_dict m f3 = Some (TINF_OK, m')"
      "ota.inflating ?I (unat src) ?G 32768 m' [] F tail" "mem_holds ?I (unat src) ?G"
      "length ?G = 4096 * ((length gz + 4095) div 4096)" by auto
  have cm: "contents (fst (cb_state m')) = ?I" using ota_contents(1) [OF st(2)] .
  let ?Q = "\<lambda>i m f. contents f = mem_write ?I (unat dst) (concat (map (sector F) [0..<i])) \<and>
       (\<exists>J. length J = length ?I \<and> ota.inflating J (unat src) ?G 32768 m (take (4096 * i) F) F tail)"
  have del: "delivers fuel True (int (length F)) src (unat dst) (sector F) ?k ?Q"
  proof (rule gzip_delivers [OF al(1) _ st(3)])
    show "regions_apart (unat src) (length ?G) (unat dst) (4096 * ?k)" using apart n(1) st(4) by simp
  qed (use lF n fuel in simp_all)
  have "mem_write ?I (unat dst) [] = ?I" using n(2) by (intro mem_write_Nil) simp
  with copy_sectors_delivers [where ?f0.0 = f and i = 0 and m = m' and f = "fst (cb_state m')" and buffer = buffer, OF del]
    cm st(2) lF n al buf concat_sector [of F ?k]
  have "\<exists>f'. copy_sectors spi fuel False True (int (length F)) src dst buffer m' (fst (cb_state m')) = Some (Ret 0, f') \<and>
      contents f' = mem_write ?I (unat dst) (F @ replicate (n - length F) 0xff)"
    by auto
  then show ?thesis
    using f1(1) f2(1) f3(1) st(1) al(1,2) by (simp add: copy_raw_def sector_aligned)
qed

text \<open>
  A whole boot with a stored copy command: if the copy leaves the flash \<open>J\<close>, and \<open>J\<close> holds an
  application image behind the destination, then that application is started.
\<close>

lemma eboot_main_copies:
  assumes cmd: "cmd_wf cmd" "action cmd = ACTION_COPY_RAW" "rtc s = snd (eboot_command_write cmd r0)"
    and copy: "\<And>f. contents f = contents (flash s) \<Longrightarrow>
      \<exists>f'. copy_raw spi fuel (stack_buffer env) (stack_uncomp env) (static_dict env)
          (args cmd ! 0) (args cmd ! 1) (args cmd ! 2) False f = Some (Ret 0, f') \<and> contents f' = J"
    and app: "mem_holds J (unat (args cmd ! 1) + 4096) (app_image mgc mode freq entry segs)"
      "length segs < 256" "\<forall>sg\<in>set segs. seg_wf sg" "4 dvd unat (args cmd ! 1)"
    and len: "length J < 4294967296" "0x1014 \<le> length (contents (flash s))"
  shows "\<exists>s'. eboot_main spi fuel env s = Some (Started entry, s') \<and> contents (flash s') = J \<and>
    memory s' = fold load_segment segs (memory s) \<and> rtc s' = eboot_command_clear (rtc s) \<and> watchdog s'"
proof -
  from spi_read [of "0x1010" 4 "flash s"] len(2) obtain bs f where
    v: "SPIRead spi 0x1010 4 (flash s) = (0, bs, f)" "contents f = contents (flash s)" by auto
  have pv: "print_version spi 0 (flash s) = (0, f)"
    using v(1) by (simp add: print_version_def flash_geometry)
  from copy [OF v(2)] obtain g where g: "copy_raw spi fuel (stack_buffer env) (stack_uncomp env) (static_dict env)
      (args cmd ! 0) (args cmd ! 1) (args cmd ! 2) False f = Some (Ret 0, g)" "contents g = J" by auto
  let ?w = "fst (eboot_command_write cmd r0)"
  have rd: "eboot_command_read (rtc s) = (0, ?w)"
    using read_written [OF cmd(1), of r0] write_cmd [OF cmd(1), of r0] cmd(3) by (simp add: prod_eq_iff)
  have w: "action ?w = ACTION_COPY_RAW" "args ?w = args cmd" "length (args cmd) = 29"
    using cmd by (simp_all add: eboot_command_write_def Let_def cmd_wf_def)
  have a0: "(args cmd)[0 := args cmd ! 1] ! 0 = args cmd ! 1" using w(3) by simp
  from load_app_correct [of g "args cmd ! 1" mgc mode freq entry segs "memory s"] app len(1) g(2) obtain h where
    h: "load_app_from_flash_raw spi (args cmd ! 1) g (memory s) = (Inr entry, h, fold load_segment segs (memory s))"
      "contents h = J" by auto
  show ?thesis
    using pv rd w a0 g(1) h by (simp add: eboot_main_def eboot_copy_def ACTION_COPY_RAW_def)
qed

end

end
