(* ===== verification/Eboot_Boot.thy ===== *)
theory Eboot_Boot
  imports Eboot_Gzip
begin

text \<open>
  A whole update: the command block, the unpacking of the gzip file out of flash and the loading
  of the new application, composed as \<open>eboot_main\<close> composes them, on any flash with the laws of
  \<open>nor_flash\<close>.
\<close>

text \<open>
  \<open>leftovers_ok\<close>: the uninitialised memory of the boot loader has the sizes of its C declarations.
  \<open>whole_sectors n\<close>: \<open>n\<close> bytes rounded up to flash sectors.
\<close>

definition leftovers_ok :: "'f leftovers \<Rightarrow> bool" where
  "leftovers_ok env \<longleftrightarrow> length (stack_buffer env) = 4096 \<and> length (static_dict env) = 32768 \<and>
     tree_dims (ltree (stack_uncomp env)) \<and> tree_dims (dtree (stack_uncomp env))"

definition whole_sectors :: "nat \<Rightarrow> nat" where
  "whole_sectors n = 4096 * ((n + 4095) div 4096)"

lemma whole_sectors_bounds: "n \<le> whole_sectors n" "whole_sectors n < n + 4096" "4096 dvd whole_sectors n"
  unfolding whole_sectors_def by linarith+ simp

text \<open>
  \<open>update_placed I src dst sz gz F\<close>: the flash \<open>I\<close> holds the \<open>sz\<close> bytes of the gzip file \<open>gz\<close> at
  \<open>src\<close>, and its contents \<open>F\<close> fit at \<open>dst\<close>, in sectors other than those of the file.
\<close>

definition update_placed :: "u8 list \<Rightarrow> u32 \<Rightarrow> u32 \<Rightarrow> u32 \<Rightarrow> u8 list \<Rightarrow> u8 list \<Rightarrow> bool" where
  "update_placed I src dst sz gz F \<longleftrightarrow>
     mem_holds I (unat src) gz \<and> unat sz = length gz \<and>
     4096 dvd unat src \<and> 4096 dvd unat dst \<and> 4096 dvd length I \<and> length I < 2147483648 \<and>
     unat dst + whole_sectors (length F) \<le> length I \<and>
     regions_apart (unat src) (whole_sectors (length gz)) (unat dst) (whole_sectors (length F))"

lemma mem_holds_inner: "mem_holds m a (xs @ ys @ zs) \<Longrightarrow> mem_holds m (a + length xs) ys"
  using mem_holds_append by blast

context nor_flash
begin

lemma placed_unpacks:
  assumes "tgzip_main F = Some gz" "update_placed (contents f) src dst sz gz F" "leftovers_ok env" "4096 \<le> fuel"
  shows "\<exists>f'. copy_raw spi fuel (stack_buffer env) (stack_uncomp env) (static_dict env) src dst sz False f = Some (Ret 0, f') \<and>
    contents f' = mem_write (contents f) (unat dst) (F @ replicate (whole_sectors (length F) - length F) 0xff)"
  using assms unfolding update_placed_def leftovers_ok_def whole_sectors_def
  by (intro copy_raw_unpacks [of F gz]) auto

lemma placed_boots:
  assumes cmd: "cmd_wf cmd" "action cmd = ACTION_COPY_RAW" "rtc s = snd (eboot_command_write cmd r0)"
    and gz: "tgzip_main F = Some gz"
      "update_placed (contents (flash s)) (args cmd ! 0) (args cmd ! 1) (args cmd ! 2) gz F"
    and F: "F = boot @ app_image mgc mode freq entry segs @ extra" "length boot = 4096"
      "length segs < 256" "\<forall>sg\<in>set segs. seg_wf sg"
    and env: "leftovers_ok env" "4096 \<le> fuel"
  shows "\<exists>s'. eboot_main spi fuel env s = Some (Started entry, s') \<and>
    contents (flash s') = mem_write (contents (flash s)) (unat (args cmd ! 1))
      (F @ replicate (whole_sectors (length F) - length F) 0xff) \<and>
    memory s' = fold load_segment segs (memory s) \<and> rtc s' = eboot_command_clear (rtc s) \<and> watchdog s'"
proof -
  let ?I = "contents (flash s)" and ?dst = "unat (args cmd ! 1)"
  let ?W = "F @ replicate (whole_sectors (length F) - length F) 0xff"
  let ?J = "mem_write ?I ?dst ?W"
  note P = gz(2) [unfolded update_placed_def]
  have lW: "length ?W = whole_sectors (length F)" using whole_sectors_bounds(1) [of "length F"] by simp
  then have fits: "?dst + length ?W \<le> length ?I" using P by simp
  have holdW: "mem_holds ?J ?dst (boot @ app_image mgc mode freq entry segs @
      (extra @ replicate (whole_sectors (length F) - length F) 0xff))"
    using mem_holds_write [OF fits] F(1) by simp
  have app: "mem_holds ?J (?dst + 4096) (app_image mgc mode freq entry segs)"
    using mem_holds_inner [OF holdW] F(2) by simp
  have "4096 < length F" using F(1,2) by (simp add: app_image_def)
  then have "8192 \<le> whole_sectors (length F)"
    using whole_sectors_bounds(1,3) [of "length F"] by (auto elim!: dvdE)
  moreover have "length ?J = length ?I" using fits by (rule length_mem_write)
  ultimately have "length ?J < 4294967296" "0x1014 \<le> length ?I" using P lW fits by simp_all
  moreover have "4 dvd ?dst" using P by (auto intro: dvd_trans [of 4 4096])
  moreover have "\<exists>f'. copy_raw spi fuel (stack_buffer env) (stack_uncomp env) (static_dict env)
      (args cmd ! 0) (args cmd ! 1) (args cmd ! 2) False f = Some (Ret 0, f') \<and> contents f' = ?J"
    if "contents f = ?I" for f
    using placed_unpacks [of F gz f] gz env that by simp
  ultimately show ?thesis
    using eboot_main_copies [OF cmd _ app F(3,4)] by blast
qed

end

section \<open>Properties\<close>


text \<open>A concrete update: a flash of 16 KiB whose upper half holds the compressed image.\<close>

definition sample_image :: "u8 list" where
  "sample_image = replicate 4096 0xff @ sample_app"

definition copy_command :: "nat \<Rightarrow> eboot_command" where
  "copy_command n =
     \<lparr>magic = 0, action = ACTION_COPY_RAW, args = [0x2000, 0, word_of_nat n] @ replicate 26 0, crc32 = 0\<rparr>"

definition update_flash :: "u8 list \<Rightarrow> u8 list" where
  "update_flash gz = replicate 8192 0 @ gz @ replicate (8192 - length gz) 0"

lemma sample_update_placed:
  assumes "tgzip_main sample_image = Some gz"
  shows "update_placed (update_flash gz) 0x2000 0 (word_of_nat (length gz)) gz sample_image"
proof -
  have len: "length sample_image = 4140" by (simp add: sample_image_def length_sample_app)
  with tgzip_main_size [OF assms] have gz: "length gz \<le> 5712" by simp
  have "whole_sectors (length gz) < 12288" "4096 dvd whole_sectors (length gz)"
    using whole_sectors_bounds(2,3) [of "length gz"] gz by simp_all
  then have "whole_sectors (length gz) \<le> 8192" by (auto elim!: dvdE)
  moreover have "whole_sectors 4140 = 8192" by (simp add: whole_sectors_def)
  moreover have "mem_holds (update_flash gz) 8192 gz"
    unfolding update_flash_def by (rule mem_holds_middle) simp
  ultimately show ?thesis
    using gz len by (simp add: update_placed_def update_flash_def regions_apart_def unat_of_nat)
qed

lemma some_leftovers_ok: "leftovers_ok (some_leftovers f)"
  by (simp add: leftovers_ok_def some_leftovers_def some_tree_def tree_dims_def)


end
