(* ===== verification/Slip.thy ===== *)
theory Slip
  imports Firmware_Prelude
begin

text \<open>
  SLIP framing of the flasher stub (\<open>slip.c\<close>).  Sending is the list of the bytes that reach
  \<open>stub_tx_one_char\<close>; receiving consumes a list of the bytes \<open>stub_rx_one_char\<close> delivers, and
  is None when the list ends before the frame, where the code would wait for ever.  \<open>char\<close> is
  unsigned, as in the Xtensa and RISC-V calling conventions.  The locale \<open>byte_stuffing\<close> is the
  contract between an escaping sender and the state machine that undoes it.
\<close>

section \<open>Escaped transmission\<close>

locale byte_stuffing =
  fixes enc :: "u8 \<Rightarrow> u8 list" and step :: "u8 \<Rightarrow> 's \<Rightarrow> u8 option \<times> 's" and inside :: 's
    and reserved :: "u8 set"
  assumes enc_clean: "c \<in> set (enc b) \<Longrightarrow> c \<notin> reserved"
    and enc_nonempty: "enc b \<noteq> []"
    and enc_short: "length (enc b) \<le> 2"
    and dec_enc: "\<exists>cs c s. enc b = cs @ [c] \<and> step c s = (Some b, inside) \<and>
      (cs = [] \<and> s = inside \<or> (\<exists>e. cs = [e] \<and> step e inside = (None, s)))"
begin

primrec feed :: "u8 list \<Rightarrow> 's \<Rightarrow> u8 list \<times> 's" where
  "feed [] s = ([], s)"
| "feed (c # cs) s =
     (let (out, s) = step c s; (outs, s) = feed cs s
      in (case out of None \<Rightarrow> outs | Some b \<Rightarrow> b # outs, s))"

abbreviation encode :: "u8 list \<Rightarrow> u8 list" where
  "encode bs \<equiv> concat (map enc bs)"

lemma feed_append:
  "feed (xs @ ys) s = (let (a, s) = feed xs s; (b, s) = feed ys s in (a @ b, s))"
  by (induction xs arbitrary: s) (auto split: option.splits prod.splits)

lemma feed_enc: "feed (enc b) inside = ([b], inside)"
  using dec_enc [of b] by auto

lemma feed_encode: "feed (encode bs) inside = (bs, inside)"
  by (induction bs) (simp_all add: feed_append feed_enc)

lemma encode_clean: "c \<in> set (encode bs) \<Longrightarrow> c \<notin> reserved"
  using enc_clean by auto

lemma encode_inject: "encode xs = encode ys \<Longrightarrow> xs = ys"
  by (metis feed_encode prod.inject)

lemma length_encode: "length bs \<le> length (encode bs)" "length (encode bs) \<le> 2 * length bs"
proof (induction bs)
  case (Cons b bs)
  then show "length (b # bs) \<le> length (encode (b # bs))" "length (encode (b # bs)) \<le> 2 * length (b # bs)"
    using enc_short [of b] enc_nonempty [of b] by (cases "enc b", simp_all)+
qed simp_all

end

section \<open>The SLIP coder\<close>

definition SLIP_send_frame_delimiter :: "u8 list" where
  "SLIP_send_frame_delimiter = [0xc0]"

definition SLIP_send_frame_data :: "u8 \<Rightarrow> u8 list" where
  "SLIP_send_frame_data ch =
     (if ch = 0xc0 then [0xdb, 0xdc] else if ch = 0xdb then [0xdb, 0xdd] else [ch])"

definition SLIP_send_frame_data_buf :: "u8 list \<Rightarrow> u8 list" where
  "SLIP_send_frame_data_buf buf = concat (map SLIP_send_frame_data buf)"

definition SLIP_send :: "u8 list \<Rightarrow> u8 list" where
  "SLIP_send pkt = SLIP_send_frame_delimiter @ SLIP_send_frame_data_buf pkt @ SLIP_send_frame_delimiter"

datatype slip_state = SLIP_NO_FRAME | SLIP_FRAME | SLIP_FRAME_ESCAPING

definition SLIP_FINISHED_FRAME :: int where "SLIP_FINISHED_FRAME = -2"
definition SLIP_NO_BYTE :: int where "SLIP_NO_BYTE = -1"

definition SLIP_recv_byte :: "u8 \<Rightarrow> slip_state \<Rightarrow> int \<times> slip_state" where
  "SLIP_recv_byte byte s =
     (if byte = 0xc0 then
        if s = SLIP_NO_FRAME then (SLIP_NO_BYTE, SLIP_FRAME) else (SLIP_FINISHED_FRAME, SLIP_NO_FRAME)
      else
        case s of
          SLIP_NO_FRAME \<Rightarrow> (SLIP_NO_BYTE, s)
        | SLIP_FRAME \<Rightarrow>
            if byte = 0xdb then (SLIP_NO_BYTE, SLIP_FRAME_ESCAPING) else (int (unat byte), s)
        | SLIP_FRAME_ESCAPING \<Rightarrow>
            if byte = 0xdc then (0xc0, SLIP_FRAME)
            else if byte = 0xdd then (0xdb, SLIP_FRAME)
            else (SLIP_NO_BYTE, s))"

text \<open>\<open>p\<close> is what has been stored in the packet so far, \<open>len\<close> its length.\<close>

primrec SLIP_recv_loop :: "u8 list \<Rightarrow> nat \<Rightarrow> slip_state \<Rightarrow> u8 list \<Rightarrow> (u8 list \<times> u8 list) option" where
  "SLIP_recv_loop [] max_len s p = None"
| "SLIP_recv_loop (c # rx) max_len s p =
     (let (r, s) = SLIP_recv_byte c s;
          p = (if r \<ge> 0 \<and> length p < max_len then p @ [word_of_int r] else p)
      in if r \<noteq> SLIP_FINISHED_FRAME then SLIP_recv_loop rx max_len s p else Some (p, rx))"

definition SLIP_recv :: "u8 list \<Rightarrow> nat \<Rightarrow> (u8 list \<times> u8 list) option" where
  "SLIP_recv rx max_len = SLIP_recv_loop rx max_len SLIP_NO_FRAME []"

lemmas slip_defs = SLIP_NO_BYTE_def SLIP_FINISHED_FRAME_def

definition slip_step :: "u8 \<Rightarrow> slip_state \<Rightarrow> u8 option \<times> slip_state" where
  "slip_step c s = (let (r, s) = SLIP_recv_byte c s in (if r \<ge> 0 then Some (word_of_int r) else None, s))"

interpretation slip: byte_stuffing SLIP_send_frame_data slip_step SLIP_FRAME "{0xc0}"
proof unfold_locales
  show "\<exists>cs c s. SLIP_send_frame_data b = cs @ [c] \<and> slip_step c s = (Some b, SLIP_FRAME) \<and>
      (cs = [] \<and> s = SLIP_FRAME \<or> (\<exists>e. cs = [e] \<and> slip_step e SLIP_FRAME = (None, s)))" for b
  proof -
    consider "b = 0xc0" | "b = 0xdb" | "b \<noteq> 0xc0" "b \<noteq> 0xdb" by blast
    then show ?thesis
      by cases (auto simp: SLIP_send_frame_data_def slip_step_def SLIP_recv_byte_def slip_defs
          intro!: exI [of _ "[0xdb]"] exI [of _ SLIP_FRAME_ESCAPING])
  qed
qed (auto simp: SLIP_send_frame_data_def split: if_splits)

lemma slip_byte_cases:
  assumes "c \<noteq> 0xc0" "slip_step c s = (out, s')"
  obtains "out = None" "SLIP_recv_byte c s = (SLIP_NO_BYTE, s')"
  | b where "out = Some b" "SLIP_recv_byte c s = (int (unat b), s')"
  using assms by (cases s) (auto simp: slip_step_def SLIP_recv_byte_def slip_defs split: if_splits)

text \<open>Inside a frame, the receiver stores what the state machine yields, as far as there is room.\<close>

lemma SLIP_recv_loop_feed:
  assumes "0xc0 \<notin> set cs" "slip.feed cs s = (bs, s')"
  shows "SLIP_recv_loop (cs @ rx) n s p = SLIP_recv_loop rx n s' (p @ take (n - length p) bs)"
  using assms
proof (induction cs arbitrary: s p bs)
  case (Cons c cs)
  obtain out t where st: "slip_step c s = (out, t)" by force
  obtain bs' where f: "slip.feed cs t = (bs', s')" "bs = (case out of None \<Rightarrow> bs' | Some b \<Rightarrow> b # bs')"
    using Cons.prems(2) st by (auto split: prod.splits)
  have c: "c \<noteq> 0xc0" "0xc0 \<notin> set cs" using Cons.prems(1) by auto
  from c(1) st show ?case
  proof (cases rule: slip_byte_cases)
    case 1
    with Cons.IH [OF c(2) f(1)] f(2) show ?thesis by (simp add: slip_defs)
  next
    case (2 b)
    have u: "uint b \<noteq> - 2" using uint_nonnegative [of b] by linarith
    show ?thesis
    proof (cases "length p < n")
      case True
      then obtain k where "n - length p = Suc k" "n - Suc (length p) = k" by (metis Suc_diff_Suc)
      with 2 u True Cons.IH [OF c(2) f(1), of "p @ [b]"] f(2) show ?thesis by (simp add: slip_defs)
    next
      case False
      with 2 u Cons.IH [OF c(2) f(1), of p] f(2) show ?thesis by (simp add: slip_defs)
    qed
  qed
qed simp

lemma SLIP_recv_noise: "0xc0 \<notin> set noise \<Longrightarrow>
  SLIP_recv_loop (noise @ rx) n SLIP_NO_FRAME p = SLIP_recv_loop rx n SLIP_NO_FRAME p"
  by (induction noise) (auto simp: SLIP_recv_byte_def slip_defs)

lemma SLIP_recv_frame:
  assumes "0xc0 \<notin> set noise"
  shows "SLIP_recv (noise @ SLIP_send pkt @ rx) n = Some (take n pkt, rx)"
proof -
  have "0xc0 \<notin> set (SLIP_send_frame_data_buf pkt)"
    unfolding SLIP_send_frame_data_buf_def using slip.encode_clean by blast
  from SLIP_recv_loop_feed [OF this slip.feed_encode [of pkt, folded SLIP_send_frame_data_buf_def],
      of "0xc0 # rx" n "[]"]
  show ?thesis
    by (simp add: SLIP_recv_def SLIP_recv_noise [OF assms] SLIP_send_def SLIP_send_frame_delimiter_def)
       (simp add: SLIP_recv_byte_def slip_defs)
qed

section \<open>Properties\<close>

text \<open>
  Property C25: a frame that \<open>SLIP_send\<close> sends, after any line noise without a delimiter, is received by
  \<open>SLIP_recv\<close> as the packet cut to the buffer size, and the bytes after the frame are left.
\<close>

theorem SLIP_recv_send:
  assumes "0xc0 \<notin> set noise"
  shows "SLIP_recv (noise @ SLIP_send pkt @ rx) n = Some (take n pkt, rx)"
  using assms by (rule SLIP_recv_frame)

theorem SLIP_recv_send_witness:
  "SLIP_recv ([1, 0xdb, 2] @ SLIP_send [0xc0, 7, 0xdb, 9] @ [5]) 3 = Some ([0xc0, 7, 0xdb], [5])"
  using SLIP_recv_send [of "[1, 0xdb, 2]" "[0xc0, 7, 0xdb, 9]" "[5]" 3] by simp

text \<open>
  The delimiter never occurs inside a transmitted frame, different packets have
  different frames, and a frame is at most twice as long as its packet, plus the two delimiters.
\<close>

theorem SLIP_send_frames:
  "0xc0 \<notin> set (SLIP_send_frame_data_buf pkt) \<and> (SLIP_send pkt = SLIP_send pkt' \<longleftrightarrow> pkt = pkt') \<and>
   length (SLIP_send pkt) \<le> 2 * length pkt + 2"
  using slip.encode_clean [of "0xc0" pkt] slip.encode_inject [of pkt pkt'] slip.length_encode(2) [of pkt]
  by (auto simp: SLIP_send_def SLIP_send_frame_delimiter_def SLIP_send_frame_data_buf_def)

end
