(* ===== verification/Stub_Receive.thy ===== *)
theory Stub_Receive
  imports Slip
begin

text \<open>
  The interrupt side of the flasher stub (\<open>stub_flasher.c\<close>): the receive callback unpacks SLIP
  frames into two alternating buffers and hands a finished frame to the main loop.
\<close>

definition MAX_WRITE_BLOCK :: nat where "MAX_WRITE_BLOCK = 0x4000"

text \<open>The pointer \<open>reading_buf\<close> is one of the two buffers, \<open>command\<close> null or one of them.\<close>

datatype which_buf = Buf_A | Buf_B

record uart_buf =
  buf_a :: "u8 list"
  buf_b :: "u8 list"
  reading_buf :: which_buf
  read :: nat
  slip :: slip_state
  command :: "which_buf option"

definition buf_of :: "which_buf \<Rightarrow> uart_buf \<Rightarrow> u8 list" where
  "buf_of w ub = (case w of Buf_A \<Rightarrow> buf_a ub | Buf_B \<Rightarrow> buf_b ub)"

definition store_byte :: "u8 \<Rightarrow> uart_buf \<Rightarrow> uart_buf" where
  "store_byte b ub =
     (case reading_buf ub of
        Buf_A \<Rightarrow> ub\<lparr>buf_a := (buf_a ub)[read ub := b], read := read ub + 1\<rparr>
      | Buf_B \<Rightarrow> ub\<lparr>buf_b := (buf_b ub)[read ub := b], read := read ub + 1\<rparr>)"

definition stub_handle_rx_byte :: "u8 \<Rightarrow> uart_buf \<Rightarrow> uart_buf" where
  "stub_handle_rx_byte byte ub =
     (let (r, s) = SLIP_recv_byte byte (slip ub);
          ub = ub\<lparr>slip := s\<rparr>;
          (r, ub) =
            (if r \<ge> 0 then
               let ub = store_byte (word_of_int r) ub
               in (if read ub = MAX_WRITE_BLOCK + 64 then SLIP_FINISHED_FRAME else r, ub)
             else (r, ub))
      in if r = SLIP_FINISHED_FRAME then
           (if reading_buf ub = Buf_A
            then ub\<lparr>command := Some Buf_A, reading_buf := Buf_B\<rparr>
            else ub\<lparr>command := Some Buf_B, reading_buf := Buf_A\<rparr>)\<lparr>read := 0\<rparr>
         else ub)"

definition calculate_checksum :: "u8 list \<Rightarrow> u8" where
  "calculate_checksum buf = foldl (XOR) 0xef buf"

section \<open>The buffers are never overrun\<close>

text \<open>
  The invariant of the interrupt handler: the C arrays keep their size, the write position is
  inside, and a finished frame is never in the buffer that is being filled.
\<close>

definition rx_inv :: "uart_buf \<Rightarrow> bool" where
  "rx_inv ub \<longleftrightarrow> length (buf_a ub) = MAX_WRITE_BLOCK + 64 \<and> length (buf_b ub) = MAX_WRITE_BLOCK + 64 \<and>
     read ub < MAX_WRITE_BLOCK + 64 \<and> command ub \<noteq> Some (reading_buf ub)"

lemma rx_inv_slip [simp]: "rx_inv (ub\<lparr>slip := s\<rparr>) = rx_inv ub"
  by (simp add: rx_inv_def)

definition other_buf :: "which_buf \<Rightarrow> which_buf" where
  "other_buf w = (if w = Buf_A then Buf_B else Buf_A)"

lemma store_byte_simps [simp]:
  "reading_buf (store_byte b ub) = reading_buf ub" "read (store_byte b ub) = read ub + 1"
  "slip (store_byte b ub) = slip ub" "command (store_byte b ub) = command ub"
  "length (buf_a (store_byte b ub)) = length (buf_a ub)" "length (buf_b (store_byte b ub)) = length (buf_b ub)"
  "buf_of (reading_buf ub) (store_byte b ub) = (buf_of (reading_buf ub) ub)[read ub := b]"
  "w \<noteq> reading_buf ub \<Longrightarrow> buf_of w (store_byte b ub) = buf_of w ub"
  by (auto simp: store_byte_def buf_of_def split: which_buf.splits)

lemma buf_of_fields [simp]:
  "buf_of w (ub\<lparr>slip := s\<rparr>) = buf_of w ub" "buf_of w (ub\<lparr>command := c\<rparr>) = buf_of w ub"
  "buf_of w (ub\<lparr>reading_buf := r\<rparr>) = buf_of w ub" "buf_of w (ub\<lparr>read := n\<rparr>) = buf_of w ub"
  by (simp_all add: buf_of_def split: which_buf.splits)

text \<open>The handler in terms of the state machine of the SLIP receiver.\<close>

definition finish_frame :: "uart_buf \<Rightarrow> uart_buf" where
  "finish_frame ub = ub\<lparr>command := Some (reading_buf ub), reading_buf := other_buf (reading_buf ub), read := 0\<rparr>"

lemma rx_byte_data:
  assumes "c \<noteq> 0xc0" "slip_step c (slip ub) = (out, s)"
  shows "stub_handle_rx_byte c ub =
    (let ub = ub\<lparr>slip := s\<rparr>
     in case out of None \<Rightarrow> ub
        | Some b \<Rightarrow> if read ub + 1 = MAX_WRITE_BLOCK + 64 then finish_frame (store_byte b ub) else store_byte b ub)"
  using assms
proof (cases rule: slip_byte_cases)
  case 1
  then show ?thesis by (simp add: stub_handle_rx_byte_def slip_defs)
next
  case (2 b)
  have "uint b \<noteq> - 2" using uint_nonnegative [of b] by linarith
  with 2 show ?thesis
    by (cases "reading_buf ub") (simp_all add: stub_handle_rx_byte_def finish_frame_def other_buf_def slip_defs Let_def)
qed

lemma rx_byte_delimiter:
  "stub_handle_rx_byte 0xc0 ub =
     (if slip ub = SLIP_NO_FRAME then ub\<lparr>slip := SLIP_FRAME\<rparr> else finish_frame (ub\<lparr>slip := SLIP_NO_FRAME\<rparr>))"
  by (cases "reading_buf ub")
    (simp_all add: stub_handle_rx_byte_def SLIP_recv_byte_def finish_frame_def other_buf_def slip_defs)

lemma rx_byte_cases:
  obtains s where "stub_handle_rx_byte c ub = ub\<lparr>slip := s\<rparr>"
  | s where "stub_handle_rx_byte c ub = finish_frame (ub\<lparr>slip := s\<rparr>)"
  | b s where "read ub + 1 \<noteq> MAX_WRITE_BLOCK + 64" "stub_handle_rx_byte c ub = store_byte b (ub\<lparr>slip := s\<rparr>)"
  | b s where "read ub + 1 = MAX_WRITE_BLOCK + 64" "stub_handle_rx_byte c ub = finish_frame (store_byte b (ub\<lparr>slip := s\<rparr>))"
proof (cases "c = 0xc0")
  case True
  with rx_byte_delimiter [of ub] that(1,2) show thesis by (auto split: if_splits)
next
  case False
  obtain out s where "slip_step c (slip ub) = (out, s)" by force
  from rx_byte_data [OF False this] that show thesis by (auto simp: Let_def split: option.splits if_splits)
qed

lemma other_buf [simp]: "other_buf w \<noteq> w" "w \<noteq> other_buf w"
  by (cases w; simp add: other_buf_def)+

lemma rx_inv_finish: "length (buf_a ub) = MAX_WRITE_BLOCK + 64 \<Longrightarrow> length (buf_b ub) = MAX_WRITE_BLOCK + 64 \<Longrightarrow>
  rx_inv (finish_frame ub)"
  by (simp add: rx_inv_def finish_frame_def MAX_WRITE_BLOCK_def)

lemma rx_inv_step:
  assumes "rx_inv ub"
  shows "rx_inv (stub_handle_rx_byte c ub)"
proof (cases c ub rule: rx_byte_cases)
  case (1 s)
  with assms show ?thesis by (simp add: rx_inv_def)
next
  case (2 s)
  with assms rx_inv_finish show ?thesis by (simp add: rx_inv_def [of ub])
next
  case (3 b s)
  with assms show ?thesis by (simp add: rx_inv_def)
next
  case (4 b s)
  with assms rx_inv_finish show ?thesis by (simp add: rx_inv_def [of ub])
qed

text \<open>Only the buffer being filled changes, and only at the write position.\<close>

lemma rx_byte_other_buf:
  assumes "w \<noteq> reading_buf ub"
  shows "buf_of w (stub_handle_rx_byte c ub) = buf_of w ub"
proof (cases c ub rule: rx_byte_cases)
  case (1 s)
  then show ?thesis by simp
qed (use assms in \<open>auto simp: finish_frame_def\<close>)

section \<open>Reception of a frame\<close>

lemma store_prefix:
  assumes "take (read ub) (buf_of (reading_buf ub) ub) = p" "read ub < length (buf_of (reading_buf ub) ub)"
  shows "take (read ub + 1) (buf_of (reading_buf ub) (store_byte b ub)) = p @ [b]"
  using assms by (simp add: take_Suc_conv_app_nth)

lemma length_buf_of: "rx_inv ub \<Longrightarrow> length (buf_of w ub) = MAX_WRITE_BLOCK + 64"
  by (cases w) (simp_all add: rx_inv_def buf_of_def)

text \<open>\<open>received ub bs s ub'\<close>: from \<open>ub\<close>, the bytes \<open>bs\<close> were appended to the current buffer.\<close>

definition received :: "uart_buf \<Rightarrow> u8 list \<Rightarrow> slip_state \<Rightarrow> uart_buf \<Rightarrow> bool" where
  "received ub bs s ub' \<longleftrightarrow> rx_inv ub' \<and> slip ub' = s \<and> reading_buf ub' = reading_buf ub \<and>
     command ub' = command ub \<and> read ub' = read ub + length bs \<and>
     take (read ub + length bs) (buf_of (reading_buf ub) ub') = take (read ub) (buf_of (reading_buf ub) ub) @ bs \<and>
     buf_of (other_buf (reading_buf ub)) ub' = buf_of (other_buf (reading_buf ub)) ub"

lemma received_trans:
  "received ub bs s ub' \<Longrightarrow> received ub' bs' s' ub'' \<Longrightarrow> received ub (bs @ bs') s' ub''"
  by (auto simp: received_def add.assoc)

lemma received_byte:
  assumes "rx_inv ub" "c \<noteq> 0xc0" "slip_step c (slip ub) = (out, s)"
    and "bs = (case out of None \<Rightarrow> [] | Some b \<Rightarrow> [b])" "read ub + length bs < MAX_WRITE_BLOCK + 64"
  shows "received ub bs s (stub_handle_rx_byte c ub)"
proof (cases out)
  case None
  with assms rx_byte_data [OF assms(2,3)] show ?thesis by (simp add: received_def rx_inv_def)
next
  case (Some b)
  then have u: "stub_handle_rx_byte c ub = store_byte b (ub\<lparr>slip := s\<rparr>)"
    using rx_byte_data [OF assms(2,3)] assms(4,5) by simp
  have "take (read ub + 1) (buf_of (reading_buf ub) (store_byte b (ub\<lparr>slip := s\<rparr>))) =
      take (read ub) (buf_of (reading_buf ub) ub) @ [b]"
    using store_prefix [of "ub\<lparr>slip := s\<rparr>" _ b] length_buf_of [OF assms(1)] assms(1)
    by (simp add: rx_inv_def)
  with u Some assms rx_inv_step [OF assms(1), of c] show ?thesis
    by (simp add: received_def del: store_byte_simps(7))
qed

lemma rx_data:
  assumes "rx_inv ub" "0xc0 \<notin> set cs" "slip.feed cs (slip ub) = (bs, s)"
    and "read ub + length bs < MAX_WRITE_BLOCK + 64"
  shows "received ub bs s (fold stub_handle_rx_byte cs ub)"
  using assms
proof (induction cs arbitrary: ub bs)
  case (Cons c cs)
  obtain out t where st: "slip_step c (slip ub) = (out, t)" by force
  obtain bs' where f: "slip.feed cs t = (bs', s)" "bs = (case out of None \<Rightarrow> [] | Some b \<Rightarrow> [b]) @ bs'"
    using Cons.prems(3) st by (auto split: prod.splits option.splits)
  have c: "c \<noteq> 0xc0" "0xc0 \<notin> set cs" using Cons.prems(2) by auto
  let ?u = "stub_handle_rx_byte c ub"
  have one: "received ub (case out of None \<Rightarrow> [] | Some b \<Rightarrow> [b]) t ?u"
    using Cons.prems(4) f(2) by (intro received_byte [OF Cons.prems(1) c(1) st]) auto
  then have "received ?u bs' s (fold stub_handle_rx_byte cs ?u)"
    using c(2) f Cons.prems(4) by (intro Cons.IH) (auto simp: received_def)
  with one f(2) show ?case using received_trans by fastforce
qed (simp add: received_def)

section \<open>Properties\<close>

text \<open>
  Property C22: no byte sequence overruns a receive buffer: the arrays keep their size, the write
  position stays inside, and the command waiting for the main loop is never in the buffer that the
  interrupt handler fills.
\<close>

theorem rx_buffers_safe:
  assumes "rx_inv ub"
  shows "rx_inv (fold stub_handle_rx_byte cs ub)"
  using assms by (induction cs arbitrary: ub) (simp_all add: rx_inv_step)

definition rx_start :: uart_buf where
  "rx_start = \<lparr>buf_a = replicate (MAX_WRITE_BLOCK + 64) 0, buf_b = replicate (MAX_WRITE_BLOCK + 64) 0,
     reading_buf = Buf_A, read = 0, slip = SLIP_NO_FRAME, command = None\<rparr>"

lemma rx_inv_start: "rx_inv rx_start"
  by (simp add: rx_inv_def rx_start_def MAX_WRITE_BLOCK_def)

theorem rx_buffers_safe_witness:
  "rx_inv (fold stub_handle_rx_byte (replicate 20000 0xc1) rx_start)"
  by (rule rx_buffers_safe [OF rx_inv_start])

text \<open>
  Property C12: a packet sent as a SLIP frame is handed to the main loop: when the frame ends,
  \<open>command\<close> points to a buffer that starts with the packet, the other buffer is filled next, and the
  buffer with the previous command was not touched until then.
\<close>

theorem rx_delivers_frame:
  assumes "rx_inv ub" and "slip ub = SLIP_NO_FRAME" and "read ub = 0" and "length pkt < MAX_WRITE_BLOCK + 64"
  shows "\<exists>ub'. fold stub_handle_rx_byte (SLIP_send pkt) ub = ub' \<and> rx_inv ub' \<and>
    command ub' = Some (reading_buf ub) \<and> take (length pkt) (buf_of (reading_buf ub) ub') = pkt \<and>
    reading_buf ub' = other_buf (reading_buf ub) \<and>
    buf_of (other_buf (reading_buf ub)) ub' = buf_of (other_buf (reading_buf ub)) ub \<and>
    slip ub' = SLIP_NO_FRAME \<and> read ub' = 0"
proof -
  let ?u = "ub\<lparr>slip := SLIP_FRAME\<rparr>" and ?cs = "SLIP_send_frame_data_buf pkt"
  have inv: "rx_inv ?u" using assms(1) by (simp add: rx_inv_def)
  have clean: "0xc0 \<notin> set ?cs" unfolding SLIP_send_frame_data_buf_def using slip.encode_clean by blast
  have v: "received ?u pkt SLIP_FRAME (fold stub_handle_rx_byte ?cs ?u)"
    using slip.feed_encode [of pkt] assms(3,4)
    by (intro rx_data [OF inv clean]) (simp_all add: SLIP_send_frame_data_buf_def)
  have "fold stub_handle_rx_byte (SLIP_send pkt) ub =
      finish_frame ((fold stub_handle_rx_byte ?cs ?u)\<lparr>slip := SLIP_NO_FRAME\<rparr>)"
    using assms(2) v by (simp add: SLIP_send_def SLIP_send_frame_delimiter_def rx_byte_delimiter received_def)
  moreover have "rx_inv ((fold stub_handle_rx_byte ?cs ?u)\<lparr>slip := SLIP_NO_FRAME\<rparr>)"
    using v by (simp add: received_def)
  ultimately show ?thesis
    using v assms(3) rx_inv_finish [of "(fold stub_handle_rx_byte ?cs ?u)\<lparr>slip := SLIP_NO_FRAME\<rparr>"]
    by (simp add: received_def rx_inv_def [of "fold _ _ _"]) (simp add: finish_frame_def)
qed

theorem rx_delivers_frame_witness:
  "\<exists>ub'. fold stub_handle_rx_byte (SLIP_send [0, 8, 0xc0, 0xdb]) rx_start = ub' \<and>
    command ub' = Some Buf_A \<and> take 4 (buf_of Buf_A ub') = [0, 8, 0xc0, 0xdb] \<and> reading_buf ub' = Buf_B"
proof -
  have "slip rx_start = SLIP_NO_FRAME" "read rx_start = 0" "reading_buf rx_start = Buf_A" "other_buf Buf_A = Buf_B"
    "length [0, 8, 0xc0, 0xdb :: u8] < MAX_WRITE_BLOCK + 64" "length [0, 8, 0xc0, 0xdb :: u8] = 4"
    by (simp_all add: rx_start_def other_buf_def MAX_WRITE_BLOCK_def)
  with rx_delivers_frame [OF rx_inv_start, of "[0, 8, 0xc0, 0xdb]"] show ?thesis by metis
qed

end
