(* ===== verification/Stub_Spi.thy ===== *)
theory Stub_Spi
  imports Spi_Flash
begin

text \<open>
  The flasher stub's register-level access to the SPI flash (\<open>stub_write_flash.c\<close>, ESP8266 build):
  polling the controller, reading the chip's status, enabling and starting an erase.  Registers and
  ROM functions are the parameter \<open>hw\<close>; the locale \<open>flash_host\<close> states what the register
  interface and the chip document: every wait ends, and an erase that was enabled is performed.
\<close>

record 's stub_hw =
  READ_REG :: "u32 \<Rightarrow> 's \<Rightarrow> u32 \<times> 's"
  WRITE_REG :: "u32 \<Rightarrow> u32 \<Rightarrow> 's \<Rightarrow> 's"
  rom_spi :: "'s spi"
  SPIUnlock :: "'s \<Rightarrow> int \<times> 's"

definition SPI_BASE_REG :: u32 where "SPI_BASE_REG = 0x60000200"
definition SPI_CMD_REG :: u32 where "SPI_CMD_REG = SPI_BASE_REG + 0x00"
definition SPI_ADDR_REG :: u32 where "SPI_ADDR_REG = SPI_BASE_REG + 0x04"
definition SPI_RD_STATUS_REG :: u32 where "SPI_RD_STATUS_REG = SPI_BASE_REG + 0x10"
definition SPI_EXT2_REG :: u32 where "SPI_EXT2_REG = SPI_BASE_REG + 0xF8"
definition SPI_FLASH_WREN :: u32 where "SPI_FLASH_WREN = push_bit 30 1"
definition SPI_FLASH_RDSR :: u32 where "SPI_FLASH_RDSR = push_bit 27 1"
definition SPI_FLASH_SE :: u32 where "SPI_FLASH_SE = push_bit 24 1"
definition SPI_FLASH_BE :: u32 where "SPI_FLASH_BE = push_bit 23 1"
definition SPI_ST :: u32 where "SPI_ST = 0x7"
definition STATUS_WIP_BIT :: u32 where "STATUS_WIP_BIT = push_bit 0 1"

lemmas spi_registers = SPI_CMD_REG_def SPI_ADDR_REG_def SPI_RD_STATUS_REG_def SPI_EXT2_REG_def SPI_BASE_REG_def
lemmas spi_commands = SPI_FLASH_WREN_def SPI_FLASH_RDSR_def SPI_FLASH_SE_def SPI_FLASH_BE_def

text \<open>The waiting loops; None is a loop that never ends.\<close>

partial_function (option) spi_wait_ready :: "'s stub_hw \<Rightarrow> 's \<Rightarrow> 's option" where
  "spi_wait_ready hw s =
     (let (v, s) = READ_REG hw SPI_EXT2_REG s
      in if v AND SPI_ST \<noteq> 0 then spi_wait_ready hw s else Some s)"

partial_function (option) wait_command :: "'s stub_hw \<Rightarrow> 's \<Rightarrow> 's option" where
  "wait_command hw s =
     (let (v, s) = READ_REG hw SPI_CMD_REG s
      in if v \<noteq> 0 then wait_command hw s else Some s)"

definition spiflash_is_ready :: "'s stub_hw \<Rightarrow> 's \<Rightarrow> (bool \<times> 's) option" where
  "spiflash_is_ready hw s =
     (case spi_wait_ready hw s of
        None \<Rightarrow> None
      | Some s \<Rightarrow>
          let s = WRITE_REG hw SPI_RD_STATUS_REG 0 s;
              s = WRITE_REG hw SPI_CMD_REG SPI_FLASH_RDSR s
          in case wait_command hw s of
               None \<Rightarrow> None
             | Some s \<Rightarrow>
                 let (status_value, s) = READ_REG hw SPI_RD_STATUS_REG s
                 in Some (status_value AND STATUS_WIP_BIT = 0, s))"

partial_function (option) wait_flash_ready :: "'s stub_hw \<Rightarrow> 's \<Rightarrow> 's option" where
  "wait_flash_ready hw s =
     (case spiflash_is_ready hw s of
        None \<Rightarrow> None
      | Some (ready, s) \<Rightarrow> if \<not> ready then wait_flash_ready hw s else Some s)"

definition spi_write_enable :: "'s stub_hw \<Rightarrow> 's \<Rightarrow> 's option" where
  "spi_write_enable hw s =
     (case wait_flash_ready hw s of
        None \<Rightarrow> None
      | Some s \<Rightarrow> wait_command hw (WRITE_REG hw SPI_CMD_REG SPI_FLASH_WREN s))"

text \<open>\<open>spi_erase hw cmd addr s\<close>: the register writes that start an erase and wait for the command.\<close>

definition spi_erase :: "'s stub_hw \<Rightarrow> u32 \<Rightarrow> u32 \<Rightarrow> 's \<Rightarrow> 's option" where
  "spi_erase hw cmd addr s =
     (case spi_wait_ready hw s of
        None \<Rightarrow> None
      | Some s \<Rightarrow>
          let s = WRITE_REG hw SPI_ADDR_REG (addr AND 0xffffff) s;
              s = WRITE_REG hw SPI_CMD_REG cmd s
          in wait_command hw s)"

section \<open>The documented behaviour of the controller and the chip\<close>

text \<open>
  \<open>pending\<close> is how often the controller may still answer ``busy'', \<open>settling\<close> how many status
  reads will still show a write in progress, \<open>wel\<close> the write-enable latch, \<open>addr_reg\<close> and
  \<open>status\<close> the address and status registers.
\<close>

locale flash_host = nor_flash "rom_spi hw" contents
  for hw :: "'s stub_hw" and contents :: "'s \<Rightarrow> u8 list" +
  fixes pending settling :: "'s \<Rightarrow> nat" and wel :: "'s \<Rightarrow> bool" and addr_reg status :: "'s \<Rightarrow> u32"
  assumes poll: "reg = SPI_EXT2_REG \<or> reg = SPI_CMD_REG \<Longrightarrow> READ_REG hw reg s = (v, s') \<Longrightarrow>
      contents s' = contents s \<and> settling s' = settling s \<and> wel s' = wel s \<and> addr_reg s' = addr_reg s \<and>
      status s' = status s \<and> ((if reg = SPI_EXT2_REG then v AND SPI_ST else v) \<noteq> 0 \<longrightarrow> pending s' < pending s)"
    and clear_status: "contents (WRITE_REG hw SPI_RD_STATUS_REG v s) = contents s"
      "settling (WRITE_REG hw SPI_RD_STATUS_REG v s) = settling s"
      "wel (WRITE_REG hw SPI_RD_STATUS_REG v s) = wel s"
    and read_status: "READ_REG hw SPI_RD_STATUS_REG s = (v, s') \<Longrightarrow>
      v = status s \<and> contents s' = contents s \<and> settling s' = settling s \<and> wel s' = wel s"
    and rdsr: "contents (WRITE_REG hw SPI_CMD_REG SPI_FLASH_RDSR s) = contents s"
      "settling (WRITE_REG hw SPI_CMD_REG SPI_FLASH_RDSR s) = settling s - 1"
      "wel (WRITE_REG hw SPI_CMD_REG SPI_FLASH_RDSR s) = wel s"
      "status (WRITE_REG hw SPI_CMD_REG SPI_FLASH_RDSR s) AND STATUS_WIP_BIT = 0 \<longleftrightarrow> settling s = 0"
    and wren: "contents (WRITE_REG hw SPI_CMD_REG SPI_FLASH_WREN s) = contents s"
      "settling (WRITE_REG hw SPI_CMD_REG SPI_FLASH_WREN s) = settling s"
      "settling s = 0 \<Longrightarrow> wel (WRITE_REG hw SPI_CMD_REG SPI_FLASH_WREN s)"
    and write_addr: "addr_reg (WRITE_REG hw SPI_ADDR_REG a s) = a"
      "contents (WRITE_REG hw SPI_ADDR_REG a s) = contents s"
      "settling (WRITE_REG hw SPI_ADDR_REG a s) = settling s" "wel (WRITE_REG hw SPI_ADDR_REG a s) = wel s"
    and erase_sector: "settling s = 0 \<Longrightarrow> wel s \<Longrightarrow> (k + 1) * 4096 \<le> length (contents s) \<Longrightarrow>
      unat (addr_reg s) = k * 4096 \<Longrightarrow> contents (WRITE_REG hw SPI_CMD_REG SPI_FLASH_SE s) = erased (contents s) k 1"
    and erase_block: "settling s = 0 \<Longrightarrow> wel s \<Longrightarrow> (k + 1) * 65536 \<le> length (contents s) \<Longrightarrow>
      unat (addr_reg s) = k * 65536 \<Longrightarrow> contents (WRITE_REG hw SPI_CMD_REG SPI_FLASH_BE s) = erased (contents s) (16 * k) 16"
    and unlock: "\<exists>s'. SPIUnlock hw s = (0, s') \<and> contents s' = contents s"
begin

abbreviation same :: "'s \<Rightarrow> 's \<Rightarrow> bool" where
  "same s s' \<equiv> contents s' = contents s \<and> settling s' = settling s \<and> wel s' = wel s \<and>
     addr_reg s' = addr_reg s \<and> status s' = status s"

lemma wait_ready_ends: "\<exists>s'. spi_wait_ready hw s = Some s' \<and> same s s'"
proof (induction "pending s" arbitrary: s rule: less_induct)
  case less
  obtain v t where r: "READ_REG hw SPI_EXT2_REG s = (v, t)" by force
  with poll [of SPI_EXT2_REG s v t] less [of t] show ?case
    by (subst spi_wait_ready.simps) auto
qed

lemma wait_command_ends: "\<exists>s'. wait_command hw s = Some s' \<and> same s s'"
proof (induction "pending s" arbitrary: s rule: less_induct)
  case less
  obtain v t where r: "READ_REG hw SPI_CMD_REG s = (v, t)" by force
  moreover have "SPI_CMD_REG \<noteq> SPI_EXT2_REG" by (simp add: spi_registers)
  ultimately show ?case using poll [of SPI_CMD_REG s v t] less [of t]
    by (subst wait_command.simps) auto
qed

lemma is_ready_answers:
  "\<exists>s'. spiflash_is_ready hw s = Some (settling s = 0, s') \<and> contents s' = contents s \<and> wel s' = wel s \<and>
     settling s' = settling s - 1"
proof -
  obtain a where a: "spi_wait_ready hw s = Some a" "same s a" using wait_ready_ends by blast
  let ?b = "WRITE_REG hw SPI_CMD_REG SPI_FLASH_RDSR (WRITE_REG hw SPI_RD_STATUS_REG 0 a)"
  obtain c where c: "wait_command hw ?b = Some c" "same ?b c" using wait_command_ends by blast
  obtain v d where d: "READ_REG hw SPI_RD_STATUS_REG c = (v, d)" by force
  from read_status [OF d] a c d show ?thesis
    by (simp add: spiflash_is_ready_def clear_status rdsr)
qed

lemma wait_flash_ready_ends:
  "\<exists>s'. wait_flash_ready hw s = Some s' \<and> contents s' = contents s \<and> settling s' = 0"
proof (induction "settling s" arbitrary: s rule: less_induct)
  case less
  obtain t where t: "spiflash_is_ready hw s = Some (settling s = 0, t)" "contents t = contents s"
    "settling t = settling s - 1" using is_ready_answers by blast
  with less [of t] show ?case by (subst wait_flash_ready.simps) auto
qed

lemma write_enable_ends:
  "\<exists>s'. spi_write_enable hw s = Some s' \<and> contents s' = contents s \<and> settling s' = 0 \<and> wel s'"
proof -
  obtain a where a: "wait_flash_ready hw s = Some a" "contents a = contents s" "settling a = 0"
    using wait_flash_ready_ends by blast
  obtain b where "wait_command hw (WRITE_REG hw SPI_CMD_REG SPI_FLASH_WREN a) = Some b"
    "same (WRITE_REG hw SPI_CMD_REG SPI_FLASH_WREN a) b" using wait_command_ends by blast
  with a show ?thesis by (simp add: spi_write_enable_def wren)
qed

text \<open>The controller has a 24-bit address register, which holds every address of a flash up to 16 MiB.\<close>

lemma addr_24:
  fixes addr :: u32
  assumes "unat addr < 16777216"
  shows "addr AND 0xffffff = addr"
proof -
  have m: "(0xffffff :: u32) = mask 24" by (simp add: mask_eq_exp_minus_1)
  have "take_bit 24 addr = addr"
    using assms by (simp add: word_unat_eq_iff unsigned_take_bit_eq take_bit_nat_eq_self)
  then show ?thesis unfolding m take_bit_eq_mask .
qed

lemma spi_erase_erases:
  assumes "settling s = 0" "wel s" "unat addr = k * n * 4096" "(k + 1) * n * 4096 \<le> length (contents s)"
    and "length (contents s) \<le> 16777216" and n: "cmd = SPI_FLASH_SE \<and> n = 1 \<or> cmd = SPI_FLASH_BE \<and> n = 16"
  shows "\<exists>s'. spi_erase hw cmd addr s = Some s' \<and> contents s' = erased (contents s) (k * n) n"
proof -
  obtain a where a: "spi_wait_ready hw s = Some a" "same s a" using wait_ready_ends by blast
  let ?b = "WRITE_REG hw SPI_ADDR_REG (addr AND 0xffffff) a"
  have "k * n * 4096 + n * 4096 \<le> length (contents s)" using assms(4) by (simp add: algebra_simps)
  then have "unat addr < 16777216" using assms(3,5) n by auto
  then have b: "addr_reg ?b = addr" "contents ?b = contents s" "settling ?b = 0" "wel ?b"
    using a assms(1,2) by (simp_all add: write_addr addr_24)
  obtain c where c: "wait_command hw (WRITE_REG hw SPI_CMD_REG cmd ?b) = Some c"
    "same (WRITE_REG hw SPI_CMD_REG cmd ?b) c" using wait_command_ends by blast
  have "contents (WRITE_REG hw SPI_CMD_REG cmd ?b) = erased (contents s) (k * n) n"
    using n b assms(3,4) erase_sector [of ?b k] erase_block [of ?b k] by (auto simp: mult.commute)
  with a c show ?thesis by (simp add: spi_erase_def)
qed

end

section \<open>A simulated controller\<close>

text \<open>
  A flash of bytes behind a register file: each command keeps the controller busy for two polls,
  each erase keeps the chip busy for three status reads.  It discharges the laws above.
\<close>

record sim =
  sim_data :: "u8 list"
  sim_busy :: nat
  sim_wip :: nat
  sim_wel :: bool
  sim_addr :: u32
  sim_status :: u32

definition sim_erase :: "nat \<Rightarrow> nat \<Rightarrow> sim \<Rightarrow> sim" where
  "sim_erase s n m = (if sim_wel m \<and> sim_wip m = 0 \<and> (s + n) * 4096 \<le> length (sim_data m)
     then m\<lparr>sim_data := erased (sim_data m) s n, sim_wel := False, sim_wip := 3\<rparr> else m)"

definition sim_command :: "u32 \<Rightarrow> sim \<Rightarrow> sim" where
  "sim_command cmd m =
     (let m = m\<lparr>sim_busy := 2\<rparr>
      in if cmd = SPI_FLASH_RDSR then
           m\<lparr>sim_status := (if sim_wip m = 0 then 0 else STATUS_WIP_BIT), sim_wip := sim_wip m - 1\<rparr>
         else if cmd = SPI_FLASH_WREN then m\<lparr>sim_wel := True\<rparr>
         else if cmd = SPI_FLASH_SE then sim_erase (unat (sim_addr m) div 4096) 1 m
         else if cmd = SPI_FLASH_BE then sim_erase (16 * (unat (sim_addr m) div 65536)) 16 m
         else m)"

definition sim_rom :: "sim spi" where
  "sim_rom = \<lparr>
     SPIRead = (\<lambda>a n m. let (r, bs, f) = SPIRead list_spi a n (sim_data m) in (r, bs, m\<lparr>sim_data := f\<rparr>)),
     SPIEraseSector = (\<lambda>s m. let (r, f) = SPIEraseSector list_spi s (sim_data m) in (r, m\<lparr>sim_data := f\<rparr>)),
     SPIEraseBlock = (\<lambda>b m. let (r, f) = SPIEraseBlock list_spi b (sim_data m) in (r, m\<lparr>sim_data := f\<rparr>)),
     SPIWrite = (\<lambda>a bs m. let (r, f) = SPIWrite list_spi a bs (sim_data m) in (r, m\<lparr>sim_data := f\<rparr>))\<rparr>"

definition sim_hw :: "sim stub_hw" where
  "sim_hw = \<lparr>
     READ_REG = (\<lambda>reg m.
       if reg = SPI_EXT2_REG \<or> reg = SPI_CMD_REG then (if sim_busy m = 0 then 0 else 1, m\<lparr>sim_busy := sim_busy m - 1\<rparr>)
       else if reg = SPI_RD_STATUS_REG then (sim_status m, m) else (0, m)),
     WRITE_REG = (\<lambda>reg v m.
       if reg = SPI_CMD_REG then sim_command v m
       else if reg = SPI_ADDR_REG then m\<lparr>sim_addr := v\<rparr>
       else if reg = SPI_RD_STATUS_REG then m\<lparr>sim_status := v\<rparr> else m),
     rom_spi = sim_rom,
     SPIUnlock = (\<lambda>m. (0, m))\<rparr>"

interpretation sim_flash: nor_flash sim_rom sim_data
proof unfold_locales
  fix m :: sim
  show "\<exists>f'. SPIRead sim_rom a n m = (0, mem_read (sim_data m) (unat a) (unat n), f') \<and> sim_data f' = sim_data m"
    if "4 dvd unat a" "4 dvd unat n" "unat a + unat n \<le> length (sim_data m)" for a n
    using list_flash.spi_read [OF that] by (auto simp: sim_rom_def)
  show "\<exists>f'. SPIEraseSector sim_rom s m = (0, f') \<and> sim_data f' = erased (sim_data m) (unat s) 1"
    if "(unat s + 1) * 4096 \<le> length (sim_data m)" for s
    using list_flash.spi_erase_sector [OF that] by (auto simp: sim_rom_def)
  show "\<exists>f'. SPIEraseBlock sim_rom b m = (0, f') \<and> sim_data f' = erased (sim_data m) (16 * unat b) 16"
    if "(unat b + 1) * 65536 \<le> length (sim_data m)" for b
    using list_flash.spi_erase_block [OF that] by (auto simp: sim_rom_def)
  show "\<exists>f'. SPIWrite sim_rom a bs m = (0, f') \<and>
      sim_data f' = mem_write (sim_data m) (unat a) (map2 (AND) (mem_read (sim_data m) (unat a) (length bs)) bs)"
    if "4 dvd unat a" "4 dvd length bs" "unat a + length bs \<le> length (sim_data m)" for a bs
    using list_flash.spi_write [OF that] by (auto simp: sim_rom_def)
qed

lemma sim_regs_distinct:
  "SPI_EXT2_REG \<noteq> SPI_CMD_REG" "SPI_RD_STATUS_REG \<noteq> SPI_CMD_REG" "SPI_ADDR_REG \<noteq> SPI_CMD_REG"
  "SPI_RD_STATUS_REG \<noteq> SPI_EXT2_REG" "SPI_RD_STATUS_REG \<noteq> SPI_ADDR_REG"
  "SPI_FLASH_WREN \<noteq> SPI_FLASH_RDSR" "SPI_FLASH_SE \<noteq> SPI_FLASH_RDSR" "SPI_FLASH_BE \<noteq> SPI_FLASH_RDSR"
  "SPI_FLASH_SE \<noteq> SPI_FLASH_WREN" "SPI_FLASH_BE \<noteq> SPI_FLASH_WREN" "SPI_FLASH_BE \<noteq> SPI_FLASH_SE"
  by (simp_all add: spi_registers spi_commands)

interpretation sim_host: flash_host sim_hw sim_data sim_busy sim_wip sim_wel sim_addr sim_status
proof -
  note D = sim_regs_distinct sim_regs_distinct [symmetric]
  have rom: "rom_spi sim_hw = sim_rom" by (simp add: sim_hw_def)
  show "flash_host sim_hw sim_data sim_busy sim_wip sim_wel sim_addr sim_status"
    unfolding flash_host_def rom
  proof (intro conjI sim_flash.nor_flash_axioms flash_host_axioms.intro)
    show "sim_status (WRITE_REG sim_hw SPI_CMD_REG SPI_FLASH_RDSR s) AND STATUS_WIP_BIT = 0 \<longleftrightarrow> sim_wip s = 0" for s
      using D by (simp add: sim_hw_def sim_command_def STATUS_WIP_BIT_def)
    show "sim_data (WRITE_REG sim_hw SPI_CMD_REG SPI_FLASH_SE s) = erased (sim_data s) k 1"
      if "sim_wip s = 0" "sim_wel s" "(k + 1) * 4096 \<le> length (sim_data s)" "unat (sim_addr s) = k * 4096" for s k
      using D that by (simp add: sim_hw_def sim_command_def sim_erase_def)
    show "sim_data (WRITE_REG sim_hw SPI_CMD_REG SPI_FLASH_BE s) = erased (sim_data s) (16 * k) 16"
      if "sim_wip s = 0" "sim_wel s" "(k + 1) * 65536 \<le> length (sim_data s)" "unat (sim_addr s) = k * 65536" for s k
      using D that by (simp add: sim_hw_def sim_command_def sim_erase_def)
  qed (use D in \<open>auto simp: sim_hw_def sim_command_def split: if_splits\<close>)
qed

end
