(* ===== verification/Stub_Write_Flash.thy ===== *)
theory Stub_Write_Flash
  imports Stub_Spi
begin

text \<open>
  The flash write session of the flasher stub (\<open>stub_write_flash.c\<close>, ESP8266 build): begin, data
  blocks that are erased just ahead of the write, compressed blocks, end.  The decompressor of
  miniz is the parameter \<open>tinfl\<close>.  None is a wait that never ends.
\<close>

section \<open>Error codes and session state\<close>

definition ESP_OK :: int where "ESP_OK = 0"
definition ESP_BAD_DATA_LEN :: int where "ESP_BAD_DATA_LEN = 0xC0"
definition ESP_BAD_DATA_CHECKSUM :: int where "ESP_BAD_DATA_CHECKSUM = 0xC1"
definition ESP_BAD_BLOCKSIZE :: int where "ESP_BAD_BLOCKSIZE = 0xC2"
definition ESP_FAILED_SPI_OP :: int where "ESP_FAILED_SPI_OP = 0xC4"
definition ESP_FAILED_SPI_UNLOCK :: int where "ESP_FAILED_SPI_UNLOCK = 0xC5"
definition ESP_NOT_IN_FLASH_MODE :: int where "ESP_NOT_IN_FLASH_MODE = 0xC6"
definition ESP_INFLATE_ERROR :: int where "ESP_INFLATE_ERROR = 0xC7"
definition ESP_NOT_ENOUGH_DATA :: int where "ESP_NOT_ENOUGH_DATA = 0xC8"
definition ESP_TOO_MUCH_DATA :: int where "ESP_TOO_MUCH_DATA = 0xC9"
definition ESP_CMD_NOT_IMPLEMENTED :: int where "ESP_CMD_NOT_IMPLEMENTED = 0xFF"

lemmas esp_errors = ESP_OK_def ESP_BAD_DATA_LEN_def ESP_BAD_DATA_CHECKSUM_def ESP_BAD_BLOCKSIZE_def
  ESP_FAILED_SPI_OP_def ESP_FAILED_SPI_UNLOCK_def ESP_NOT_IN_FLASH_MODE_def ESP_INFLATE_ERROR_def
  ESP_NOT_ENOUGH_DATA_def ESP_TOO_MUCH_DATA_def ESP_CMD_NOT_IMPLEMENTED_def

definition SECTORS_PER_BLOCK :: int where
  "SECTORS_PER_BLOCK = int (unat (FLASH_BLOCK_SIZE div FLASH_SECTOR_SIZE))"

text \<open>
  \<open>fs\<close> with the two static variables of \<open>handle_flash_deflated_data\<close>; the sector counters are
  at most \<open>2 ^ 21\<close>, so they are integers.
\<close>

record 'i flash_session =
  in_flash_mode :: bool
  next_write :: u32
  next_erase_sector :: int
  remaining :: u32
  remaining_erase_sector :: int
  last_error :: int
  inflator :: 'i
  remaining_compressed :: u32
  out_buf :: "u8 list"
  next_out :: nat

definition is_in_flash_mode :: "'i flash_session \<Rightarrow> bool" where
  "is_in_flash_mode fs = in_flash_mode fs"

definition get_flash_error :: "'i flash_session \<Rightarrow> int" where
  "get_flash_error fs = last_error fs"

section \<open>The handlers\<close>

definition handle_flash_begin ::
  "'s stub_hw \<Rightarrow> u32 \<Rightarrow> u32 \<Rightarrow> 'i flash_session \<Rightarrow> 's \<Rightarrow> int \<times> 'i flash_session \<times> 's" where
  "handle_flash_begin hw total_size offset fs s =
     (let fs = fs\<lparr>in_flash_mode := True, next_write := offset,
            next_erase_sector := int (unat (offset div FLASH_SECTOR_SIZE)),
            remaining := total_size,
            remaining_erase_sector :=
              int (unat (((offset mod FLASH_SECTOR_SIZE) + total_size + FLASH_SECTOR_SIZE - 1) div FLASH_SECTOR_SIZE)),
            last_error := ESP_OK\<rparr>;
          (r, s) = SPIUnlock hw s
      in (if r \<noteq> 0 then ESP_FAILED_SPI_UNLOCK else ESP_OK, fs, s))"

definition start_next_erase :: "'s stub_hw \<Rightarrow> 'i flash_session \<Rightarrow> 's \<Rightarrow> ('i flash_session \<times> 's) option" where
  "start_next_erase hw fs s =
     (if remaining_erase_sector fs = 0 then Some (fs, s)
      else
        case spiflash_is_ready hw s of
          None \<Rightarrow> None
        | Some (ready, s) \<Rightarrow>
            if \<not> ready then Some (fs, s)
            else
              case spi_write_enable hw s of
                None \<Rightarrow> None
              | Some s \<Rightarrow>
                  let (cmd, sectors_to_erase) =
                        (if remaining_erase_sector fs \<ge> SECTORS_PER_BLOCK \<and> next_erase_sector fs mod SECTORS_PER_BLOCK = 0
                         then (SPI_FLASH_BE, SECTORS_PER_BLOCK) else (SPI_FLASH_SE, 1));
                      addr = word_of_int (next_erase_sector fs) * FLASH_SECTOR_SIZE
                  in case spi_erase hw cmd addr s of
                       None \<Rightarrow> None
                     | Some s \<Rightarrow>
                         Some (fs\<lparr>remaining_erase_sector := remaining_erase_sector fs - sectors_to_erase,
                                 next_erase_sector := next_erase_sector fs + sectors_to_erase\<rparr>, s))"

partial_function (option) erase_ahead ::
  "'s stub_hw \<Rightarrow> int \<Rightarrow> 'i flash_session \<Rightarrow> 's \<Rightarrow> ('i flash_session \<times> 's) option" where
  "erase_ahead hw last_sector fs s =
     (if remaining_erase_sector fs > 0 \<and> next_erase_sector fs \<le> last_sector then
        case start_next_erase hw fs s of
          None \<Rightarrow> None
        | Some (fs, s) \<Rightarrow> erase_ahead hw last_sector fs s
      else Some (fs, s))"

text \<open>\<open>data_buf\<close> is the memory from the pointer on, of which \<open>len\<close> bytes are used.\<close>

definition handle_flash_data ::
  "'s stub_hw \<Rightarrow> u8 list \<Rightarrow> u32 \<Rightarrow> 'i flash_session \<Rightarrow> 's \<Rightarrow> ('i flash_session \<times> 's) option" where
  "handle_flash_data hw data_buf len fs s =
     (let len = (if len > remaining fs then remaining fs else len)
      in if len = 0 then Some (fs, s)
         else
           let last_sector = int (unat ((next_write fs + len) div FLASH_SECTOR_SIZE))
           in case erase_ahead hw last_sector fs s of
                None \<Rightarrow> None
              | Some (fs, s) \<Rightarrow>
                  (case wait_flash_ready hw s of
                     None \<Rightarrow> None
                   | Some s \<Rightarrow>
                       let (r, s) = SPIWrite (rom_spi hw) (next_write fs) (take (unat len) data_buf) s;
                           fs = (if r \<noteq> 0 then fs\<lparr>last_error := ESP_FAILED_SPI_OP\<rparr> else fs)
                       in Some (fs\<lparr>next_write := next_write fs + len, remaining := remaining fs - len\<rparr>, s)))"

definition handle_flash_end :: "'i flash_session \<Rightarrow> int \<times> 'i flash_session" where
  "handle_flash_end fs =
     (if \<not> in_flash_mode fs then (ESP_NOT_IN_FLASH_MODE, fs)
      else if remaining fs > 0 then (ESP_NOT_ENOUGH_DATA, fs)
      else (last_error fs, fs\<lparr>in_flash_mode := False\<rparr>))"

text \<open>The main loop calls \<open>handle_flash_data\<close> once for each data command.\<close>

primrec flash_blocks ::
  "'s stub_hw \<Rightarrow> u8 list list \<Rightarrow> 'i flash_session \<Rightarrow> 's \<Rightarrow> ('i flash_session \<times> 's) option" where
  "flash_blocks hw [] fs s = Some (fs, s)"
| "flash_blocks hw (b # bs) fs s =
     (case handle_flash_data hw b (word_of_nat (length b)) fs s of
        None \<Rightarrow> None
      | Some (fs, s) \<Rightarrow> flash_blocks hw bs fs s)"

section \<open>The invariant of a write session\<close>

text \<open>
  \<open>session I off n W fs s\<close>: of a session that writes \<open>n\<close> bytes at \<open>off\<close> into a flash that held
  \<open>I\<close>, the bytes \<open>W\<close> are written, the sectors below \<open>next_erase_sector\<close> were erased, and nothing
  else was changed.
\<close>

definition sector_end :: "nat \<Rightarrow> nat" where
  "sector_end a = (a + 4095) div 4096"

definition session :: "('s \<Rightarrow> u8 list) \<Rightarrow> u8 list \<Rightarrow> nat \<Rightarrow> nat \<Rightarrow> u8 list \<Rightarrow> 'i flash_session \<Rightarrow> 's \<Rightarrow> bool" where
  "session contents I off n W fs s \<longleftrightarrow>
     off + n \<le> length I \<and> 4096 dvd length I \<and> length I \<le> 16777216 \<and> 4 dvd off \<and> 4 dvd n \<and> 4 dvd length W \<and>
     length W \<le> n \<and> in_flash_mode fs \<and> last_error fs = ESP_OK \<and>
     unat (next_write fs) = off + length W \<and> unat (remaining fs) = n - length W \<and>
     (\<exists>k. next_erase_sector fs = int (off div 4096 + k) \<and>
        remaining_erase_sector fs = int (sector_end (off + n) - (off div 4096 + k)) \<and>
        off div 4096 + k \<le> sector_end (off + n) \<and> (W = [] \<or> off + length W \<le> (off div 4096 + k) * 4096) \<and>
        contents s = mem_write (erased I (off div 4096) k) off W)"

lemma sector_end_le: "a \<le> sector_end a * 4096" "4096 dvd m \<Longrightarrow> a \<le> m \<Longrightarrow> sector_end a * 4096 \<le> m"
  "sector_end a * 4096 < a + 4096"
proof -
  show "a \<le> sector_end a * 4096" unfolding sector_end_def by linarith
  show "sector_end a * 4096 < a + 4096" unfolding sector_end_def by linarith
  show "sector_end a * 4096 \<le> m" if m: "4096 dvd m" "a \<le> m"
  proof -
    obtain q where "m = 4096 * q" using m(1) by (auto elim: dvdE)
    with m(2) div_le_mono [of "a + 4095" "4096 * q + 4095" 4096] show ?thesis
      unfolding sector_end_def by simp
  qed
qed

lemma below_sector: "x div 4096 < q \<Longrightarrow> x \<le> q * 4096" for x q :: nat
  by linarith

lemma sector_end_add: "sector_end (q * 4096 + x) = q + sector_end x"
proof -
  have "q * 4096 + x + 4095 = (x + 4095) + q * 4096" by simp
  then show ?thesis unfolding sector_end_def by (simp only: div_mult_self1)
qed

text \<open>Erasing beyond the written bytes commutes with having written them.\<close>

lemma erase_beyond:
  assumes "W = [] \<or> off + length W \<le> (a + k) * 4096" "(a + k + m) * 4096 \<le> length I" "off \<le> length I"
  shows "erased (mem_write (erased I a k) off W) (a + k) m = mem_write (erased I a (k + m)) off W"
proof (cases "W = []")
  case True
  have "length (erased I a k) = length I" "length (erased I a (k + m)) = length I"
    using assms(2) by (simp_all add: algebra_simps)
  then show ?thesis using True assms by (simp add: erased_add mem_write_def)
next
  case False
  let ?r = "\<lambda>j. replicate (j * 4096) (0xff :: u8)"
  have len: "(a + k) * 4096 + m * 4096 \<le> length I" "a * 4096 + k * 4096 \<le> length I" "off + length W \<le> a * 4096 + k * 4096"
    using assms False by (simp_all add: algebra_simps)
  have le: "length (erased I a j) = length I" if "(a + j) * 4096 \<le> length I" for j
    using that by simp
  have "length (erased I a k) = length I" "length (erased I a (k + m)) = length I"
    using assms(2) by (simp_all add: algebra_simps)
  then have lens: "length (mem_write (erased I a k) off W) = length I" "length (mem_write (erased I a (k + m)) off W) = length I"
    using len by simp_all
  show ?thesis
  proof (rule nth_equalityI)
    show "length (erased (mem_write (erased I a k) off W) (a + k) m) = length (mem_write (erased I a (k + m)) off W)"
      using lens len by (simp add: algebra_simps)
    fix i assume "i < length (erased (mem_write (erased I a k) off W) (a + k) m)"
    have "erased (mem_write (erased I a k) off W) (a + k) m ! i =
        (if (a + k) * 4096 \<le> i \<and> i < (a + k) * 4096 + m * 4096 then 0xff else mem_write (erased I a k) off W ! i)"
      unfolding erased_def [of _ "a + k" m] using lens len by (subst nth_mem_write) auto
    also have "mem_write (erased I a k) off W ! i =
        (if off \<le> i \<and> i < off + length W then W ! (i - off) else erased I a k ! i)"
      using len \<open>length (erased I a k) = length I\<close> by (subst nth_mem_write) auto
    also have "erased I a k ! i = (if a * 4096 \<le> i \<and> i < a * 4096 + k * 4096 then 0xff else I ! i)"
      unfolding erased_def using len by (subst nth_mem_write) auto
    finally have l: "erased (mem_write (erased I a k) off W) (a + k) m ! i =
      (if (a + k) * 4096 \<le> i \<and> i < (a + k) * 4096 + m * 4096 then 0xff else
       if off \<le> i \<and> i < off + length W then W ! (i - off) else
       if a * 4096 \<le> i \<and> i < a * 4096 + k * 4096 then 0xff else I ! i)" .
    have "mem_write (erased I a (k + m)) off W ! i =
        (if off \<le> i \<and> i < off + length W then W ! (i - off) else erased I a (k + m) ! i)"
      using len \<open>length (erased I a (k + m)) = length I\<close> by (subst nth_mem_write) auto
    also have "erased I a (k + m) ! i = (if a * 4096 \<le> i \<and> i < a * 4096 + (k + m) * 4096 then 0xff else I ! i)"
      unfolding erased_def using len by (subst nth_mem_write) (auto simp: algebra_simps)
    finally show "erased (mem_write (erased I a k) off W) (a + k) m ! i = mem_write (erased I a (k + m)) off W ! i"
      unfolding l using len by (simp add: algebra_simps)
  qed
qed

lemma sector_addr:
  assumes "n * 4096 < 4294967296"
  shows "unat (word_of_int (int n) * FLASH_SECTOR_SIZE) = n * 4096"
proof -
  have "word_of_int (int n) * FLASH_SECTOR_SIZE = word_of_nat (n * 4096)" by (simp add: flash_geometry)
  then show ?thesis using assms by (simp only: unat_of_nat) simp
qed

lemma sessionI:
  assumes "off + n \<le> length I" "4096 dvd length I" "length I \<le> 16777216" "4 dvd off" "4 dvd n"
    "4 dvd length W" "length W \<le> n" "in_flash_mode fs" "last_error fs = ESP_OK"
    "unat (next_write fs) = off + length W" "unat (remaining fs) = n - length W"
    "next_erase_sector fs = int (off div 4096 + k)"
    "remaining_erase_sector fs = int (sector_end (off + n) - (off div 4096 + k))"
    "off div 4096 + k \<le> sector_end (off + n)" "W = [] \<or> off + length W \<le> (off div 4096 + k) * 4096"
    "contents s = mem_write (erased I (off div 4096) k) off W"
  shows "session contents I off n W fs s"
  unfolding session_def using assms by blast

context flash_host
begin

lemma next_erase_keeps:
  assumes "session contents I off n W fs s" "remaining_erase_sector fs > 0"
  shows "\<exists>fs' s'. start_next_erase hw fs s = Some (fs', s') \<and> session contents I off n W fs' s' \<and>
    (settling s > 0 \<and> fs' = fs \<and> settling s' < settling s \<or>
     remaining_erase_sector fs' < remaining_erase_sector fs) \<and>
    next_write fs' = next_write fs \<and> remaining fs' = remaining fs"
proof -
  let ?a = "off div 4096" and ?e = "sector_end (off + n)"
  from assms(1) obtain k where k: "next_erase_sector fs = int (?a + k)" "remaining_erase_sector fs = int (?e - (?a + k))"
    "?a + k \<le> ?e" "W = [] \<or> off + length W \<le> (?a + k) * 4096" "contents s = mem_write (erased I ?a k) off W"
    and I: "off + n \<le> length I" "4096 dvd length I" "length I \<le> 16777216" "length W \<le> n"
    by (auto simp: session_def)
  have e: "?e * 4096 \<le> length I" using sector_end_le(2) I by blast
  have kI: "(?a + k) * 4096 \<le> length I" using e k(3) by (meson le_trans mult_le_mono1)
  obtain b where b: "spiflash_is_ready hw s = Some (settling s = 0, b)" "contents b = contents s" "settling b = settling s - 1"
    using is_ready_answers by blast
  show ?thesis
  proof (cases "settling s = 0")
    case False
    with b assms show ?thesis by (auto simp: start_next_erase_def session_def)
  next
    case True
    obtain c where c: "spi_write_enable hw b = Some c" "contents c = contents s" "settling c = 0" "wel c"
      using write_enable_ends [of b] b(2) by auto
    define blk where "blk \<longleftrightarrow> remaining_erase_sector fs \<ge> SECTORS_PER_BLOCK \<and> next_erase_sector fs mod SECTORS_PER_BLOCK = 0"
    define m :: nat where "m = (if blk then 16 else 1)"
    define cmd where "cmd = (if blk then SPI_FLASH_BE else SPI_FLASH_SE)"
    have m: "m \<le> ?e - (?a + k)" using assms(2) k(2) by (auto simp: m_def blk_def SECTORS_PER_BLOCK_def flash_geometry)
    then have mI: "(?a + k + m) * 4096 \<le> length I" using e assms(2) k(2,3) by (intro le_trans [OF mult_le_mono1 e]) simp
    have "m dvd ?a + k"
    proof (cases blk)
      case True
      then have "int (?a + k) mod 16 = 0" by (simp add: blk_def k(1) SECTORS_PER_BLOCK_def flash_geometry)
      then have "(16 :: int) dvd int (?a + k)" by (simp only: dvd_eq_mod_eq_0)
      then have "16 dvd ?a + k" by (metis int_dvd_int_iff of_nat_numeral)
      with True show ?thesis by (simp add: m_def)
    qed (simp add: m_def)
    then obtain q where q: "?a + k = q * m" unfolding dvd_def by (auto simp: mult.commute)
    let ?addr = "word_of_int (next_erase_sector fs) * FLASH_SECTOR_SIZE"
    have "(?a + k) * 4096 < 4294967296" using kI I(3) by simp
    then have addr: "unat ?addr = (?a + k) * 4096" unfolding k(1) by (rule sector_addr)
    have lc: "length (contents c) = length I" unfolding c(2) k(5) using kI I by (simp add: algebra_simps)
    have "(q + 1) * m * 4096 \<le> length (contents c)" using mI unfolding lc q add_mult_distrib by simp
    moreover have "unat ?addr = q * m * 4096" using addr q by simp
    moreover have "length (contents c) \<le> 16777216" using lc I(3) by simp
    moreover have "cmd = SPI_FLASH_SE \<and> m = 1 \<or> cmd = SPI_FLASH_BE \<and> m = 16" by (simp add: m_def cmd_def)
    ultimately obtain d where d: "spi_erase hw cmd ?addr c = Some d" "contents d = erased (contents c) (q * m) m"
      using spi_erase_erases [OF c(3,4), of ?addr q m cmd] by blast
    have "erased (contents s) (?a + k) m = mem_write (erased I ?a (k + m)) off W"
      unfolding k(5) using erase_beyond [OF k(4) mI] I by simp
    then have cd: "contents d = mem_write (erased I ?a (k + m)) off W" using d(2) c(2) q by simp
    let ?fs = "fs\<lparr>remaining_erase_sector := remaining_erase_sector fs - int m, next_erase_sector := next_erase_sector fs + int m\<rparr>"
    have st: "start_next_erase hw fs s = Some (?fs, d)"
      using assms(2) True b(1) c(1) d(1)
      by (cases blk) (simp_all add: start_next_erase_def m_def cmd_def flip: blk_def, simp_all add: SECTORS_PER_BLOCK_def flash_geometry)
    have "session contents I off n W ?fs d"
      using assms(1) k m cd
      by (auto simp: session_def algebra_simps intro!: exI [of _ "k + m"])
    with st m k(2) show ?thesis by (auto simp: m_def)
  qed
qed

lemma erase_ahead_ends:
  assumes "session contents I off n W fs s"
  shows "\<exists>fs' s'. erase_ahead hw last_sector fs s = Some (fs', s') \<and> session contents I off n W fs' s' \<and>
    (remaining_erase_sector fs' = 0 \<or> last_sector < next_erase_sector fs') \<and>
    next_write fs' = next_write fs \<and> remaining fs' = remaining fs"
  using assms
proof (induction "(nat (remaining_erase_sector fs), settling s)" arbitrary: fs s
    rule: wf_induct_rule [OF wf_lex_prod [OF wf_less_than wf_less_than]])
  case 1
  have nonneg: "remaining_erase_sector fs \<ge> 0" using 1(2) by (auto simp: session_def)
  show ?case
  proof (cases "remaining_erase_sector fs > 0 \<and> next_erase_sector fs \<le> last_sector")
    case True
    with next_erase_keeps [OF 1(2)] obtain fs' s' where
      st: "start_next_erase hw fs s = Some (fs', s')" "session contents I off n W fs' s'"
        "settling s > 0 \<and> fs' = fs \<and> settling s' < settling s \<or> remaining_erase_sector fs' < remaining_erase_sector fs"
        "next_write fs' = next_write fs" "remaining fs' = remaining fs" by blast
    have "((nat (remaining_erase_sector fs'), settling s'), (nat (remaining_erase_sector fs), settling s))
        \<in> less_than <*lex*> less_than"
      using st(3) True by auto
    from 1(1) [OF this st(2)] st True show ?thesis by (subst erase_ahead.simps) auto
  next
    case False
    with nonneg 1(2) show ?thesis by (subst erase_ahead.simps) auto
  qed
qed

lemma flash_data_keeps:
  assumes "session contents I off n W fs s" "4 dvd length bs" "length bs < 4294967296"
  shows "\<exists>fs' s'. handle_flash_data hw bs (word_of_nat (length bs)) fs s = Some (fs', s') \<and>
    session contents I off n (W @ take (n - length W) bs) fs' s'"
proof -
  define L where "L = min (length bs) (n - length W)"
  let ?bs = "take (n - length W) bs"
  from assms(1) have I: "off + n \<le> length I" "4096 dvd length I" "length I \<le> 16777216" "length W \<le> n"
    "4 dvd off" "4 dvd n" "4 dvd length W" and fs: "unat (next_write fs) = off + length W" "unat (remaining fs) = n - length W"
    by (auto simp: session_def)
  define len where "len = (if word_of_nat (length bs) > remaining fs then remaining fs else word_of_nat (length bs))"
  have len: "unat len = L"
    using assms(3) fs(2) by (auto simp: len_def L_def word_less_nat_alt unat_of_nat)
  have lb: "length ?bs = L" by (simp add: L_def)
  have LW: "length W + L \<le> n" using I(4) by (simp add: L_def)
  show ?thesis
  proof (cases "L = 0")
    case True
    then have "len = 0" using len by (simp add: unat_eq_zero)
    moreover have "W @ ?bs = W" using True lb by (simp only: length_0_conv append_Nil2)
    then have "session contents I off n (W @ ?bs) fs s" using assms(1) by (simp only:)
    ultimately show ?thesis by (simp add: handle_flash_data_def flip: len_def)
  next
    case False
    then have "len \<noteq> 0" using len by (metis unat_0)
    have L4: "4 dvd L" using assms(2) I(6,7) by (auto simp: L_def min_def)
    let ?last = "int (unat ((next_write fs + len) div FLASH_SECTOR_SIZE))"
    have nw: "unat (next_write fs + len) = off + length W + L"
      using fs(1) len I(1,3) LW by (subst unat_add_u32) simp_all
    obtain fs1 s1 where e: "erase_ahead hw ?last fs s = Some (fs1, s1)" "session contents I off n W fs1 s1"
      "remaining_erase_sector fs1 = 0 \<or> ?last < next_erase_sector fs1"
      "next_write fs1 = next_write fs" "remaining fs1 = remaining fs"
      using erase_ahead_ends [OF assms(1)] by blast
    let ?a = "off div 4096" and ?e = "sector_end (off + n)"
    from e(2) obtain k where k: "next_erase_sector fs1 = int (?a + k)" "remaining_erase_sector fs1 = int (?e - (?a + k))"
      "?a + k \<le> ?e" "W = [] \<or> off + length W \<le> (?a + k) * 4096" "contents s1 = mem_write (erased I ?a k) off W"
      by (auto simp: session_def)
    have cover: "off + length W + L \<le> (?a + k) * 4096"
    proof (cases "remaining_erase_sector fs1 = 0")
      case True
      then have "?a + k = ?e" using k(2,3) by simp
      with sector_end_le(1) [of "off + n"] LW show ?thesis by simp
    next
      case False
      then have "(off + length W + L) div 4096 < ?a + k"
        using e(3) k(1) nw by (simp add: flash_geometry unat_div)
      then show ?thesis by (rule below_sector)
    qed
    have kI: "(?a + k) * 4096 \<le> length I"
      using mult_le_mono1 [OF k(3), of 4096] sector_end_le(2) [OF I(2,1)] by linarith
    obtain s2 where s2: "wait_flash_ready hw s1 = Some s2" "contents s2 = contents s1"
      using wait_flash_ready_ends by blast
    have lE: "length (erased I ?a k) = length I" using kI by simp
    have lc: "length (contents s2) = length I" using s2(2) k(5) lE I by simp
    have blank: "mem_read (contents s2) (off + length W) L = replicate L 0xff"
    proof (rule nth_equalityI)
      show len1: "length (mem_read (contents s2) (off + length W) L) = length (replicate L (0xff :: u8))"
        using lc I LW by simp
      fix i assume "i < length (mem_read (contents s2) (off + length W) L)"
      with len1 have i: "i < L" by simp
      have "?a * 4096 \<le> off" by simp
      have inI: "off + length W + L \<le> length I" using I(1) LW by linarith
      have "mem_read (contents s2) (off + length W) L ! i = contents s2 ! (off + length W + i)"
        using i inI lc by (simp add: nth_mem_read)
      also have "\<dots> = erased I ?a k ! (off + length W + i)"
        unfolding s2(2) k(5) using I lE by (subst nth_mem_write) auto
      also have "\<dots> = 0xff"
        unfolding erased_def using kI cover i \<open>?a * 4096 \<le> off\<close>
        by (subst nth_mem_write) (auto simp: algebra_simps)
      finally show "mem_read (contents s2) (off + length W) L ! i = replicate L 0xff ! i" using i by simp
    qed
    have tk: "take (unat len) bs = ?bs" unfolding len by (simp add: L_def min_def)
    obtain s3 where s3: "SPIWrite (rom_spi hw) (next_write fs) ?bs s2 = (0, s3)"
      "contents s3 = mem_write (contents s2) (off + length W) ?bs"
    proof (rule write_erased [of "next_write fs" ?bs s2])
      show "4 dvd unat (next_write fs)" using fs(1) I by simp
      show "4 dvd length ?bs" using L4 lb by simp
      show "unat (next_write fs) + length ?bs \<le> length (contents s2)" using fs(1) lc I(1) LW lb by linarith
      show "mem_read (contents s2) (unat (next_write fs)) (length ?bs) = replicate (length ?bs) 0xff"
        using blank fs(1) lb by simp
    qed (use fs(1) that in auto)
    have "contents s3 = mem_write (erased I ?a k) off (W @ ?bs)"
      unfolding s3(2) s2(2) k(5) using lE I(1) LW lb by (intro mem_write_append) linarith
    then have conts: "contents s3 = mem_write (erased I ?a k) off (W @ ?bs)" .
    let ?f = "fs1\<lparr>next_write := next_write fs1 + len, remaining := remaining fs1 - len\<rparr>"
    have lWb: "length (W @ ?bs) = length W + L" using lb by (simp only: length_append)
    have "len \<le> remaining fs" using len fs(2) LW by (simp add: word_le_nat_alt)
    then have rem: "unat (remaining ?f) = n - length (W @ ?bs)"
      unfolding lWb using e(5) len fs(2) by (simp add: unat_sub)
    have nxt: "unat (next_write ?f) = off + length (W @ ?bs)" unfolding lWb using e(4) nw by simp
    have nes: "next_erase_sector ?f = int (?a + k)" "remaining_erase_sector ?f = int (?e - (?a + k))"
      unfolding k(1,2) [symmetric] by simp_all
    have mode: "in_flash_mode ?f" "last_error ?f = ESP_OK" using e(2) by (simp_all add: session_def)
    have "4 dvd length (W @ ?bs)" "length (W @ ?bs) \<le> n" unfolding lWb using LW L4 I(7) by simp_all
    moreover have "W @ ?bs = [] \<or> off + length (W @ ?bs) \<le> (?a + k) * 4096" unfolding lWb using cover by linarith
    ultimately have "session contents I off n (W @ ?bs) ?f s3"
      using conts by (intro sessionI [OF I(1-3,5,6) _ _ mode nxt rem nes k(3)])
    moreover have "handle_flash_data hw bs (word_of_nat (length bs)) fs s =
        Some (fs1\<lparr>next_write := next_write fs1 + len, remaining := remaining fs1 - len\<rparr>, s3)"
      using e(1,4) s2(1) s3(1) tk \<open>len \<noteq> 0\<close> by (simp add: handle_flash_data_def flip: len_def)
    ultimately show ?thesis by blast
  qed
qed

lemma flash_begin_session:
  assumes "unat offset + unat total_size \<le> length (contents s)" "4096 dvd length (contents s)"
    "length (contents s) \<le> 16777216" "4 dvd unat offset" "4 dvd unat total_size"
  shows "\<exists>fs' s'. handle_flash_begin hw total_size offset fs s = (ESP_OK, fs', s') \<and>
    session contents (contents s) (unat offset) (unat total_size) [] fs' s'"
proof -
  let ?I = "contents s" and ?a = "unat offset div 4096" and ?n = "unat total_size"
  obtain s' where s': "SPIUnlock hw s = (0, s')" "contents s' = ?I" using unlock by blast
  have "unat offset mod 4096 < 4096" by simp
  then have small: "unat offset mod 4096 + ?n + 4096 < 4294967296" using assms(1,3) by linarith
  have m: "unat (offset mod FLASH_SECTOR_SIZE) = unat offset mod 4096" by (simp add: unat_mod flash_geometry)
  have "unat (offset mod FLASH_SECTOR_SIZE + total_size) = unat offset mod 4096 + ?n"
    using small m by (subst unat_add_u32) simp_all
  then have "unat (offset mod FLASH_SECTOR_SIZE + total_size + 4095) = unat offset mod 4096 + ?n + 4095"
    using small by (subst unat_add_u32) simp_all
  moreover have "offset mod FLASH_SECTOR_SIZE + total_size + FLASH_SECTOR_SIZE - 1 = offset mod FLASH_SECTOR_SIZE + total_size + 4095"
    by (simp add: flash_geometry)
  ultimately have cnt: "unat ((offset mod FLASH_SECTOR_SIZE + total_size + FLASH_SECTOR_SIZE - 1) div FLASH_SECTOR_SIZE) =
      (unat offset mod 4096 + ?n + 4095) div 4096"
    by (simp only: unat_div) (simp add: flash_geometry)
  have "unat offset + ?n = ?a * 4096 + (unat offset mod 4096 + ?n)" by simp
  then have "sector_end (unat offset + ?n) = ?a + (unat offset mod 4096 + ?n + 4095) div 4096"
    using sector_end_add [of ?a "unat offset mod 4096 + ?n"] by (simp only: sector_end_def)
  moreover have "?a * 4096 \<le> length ?I" using assms(1) by (meson add_leE div_times_less_eq_dividend le_trans)
  ultimately show ?thesis
    using s' cnt assms by (auto simp: handle_flash_begin_def session_def unat_div flash_geometry mem_write_Nil intro!: exI [of _ 0])
qed

lemma flash_blocks_keep:
  assumes "session contents I off n W fs s" "\<forall>b\<in>set blocks. 4 dvd length b \<and> length b < 4294967296"
  shows "\<exists>fs' s'. flash_blocks hw blocks fs s = Some (fs', s') \<and>
    session contents I off n (W @ take (n - length W) (concat blocks)) fs' s'"
  using assms
proof (induction blocks arbitrary: W fs s)
  case (Cons b bs)
  let ?V = "W @ take (n - length W) b"
  obtain fs1 s1 where 1: "handle_flash_data hw b (word_of_nat (length b)) fs s = Some (fs1, s1)"
    "session contents I off n ?V fs1 s1"
    using flash_data_keeps [OF Cons.prems(1), of b] Cons.prems(2) by auto
  have "?V @ take (n - length ?V) (concat bs) = W @ take (n - length W) (concat (b # bs))" by (simp add: min_def)
  with Cons.IH [OF 1(2)] Cons.prems(2) 1(1) show ?case by simp
qed simp

lemma session_complete:
  assumes "session contents I off n W fs s" "length W = n" "0 < n"
  shows "contents s = mem_write (erased I (off div 4096) (sector_end (off + n) - off div 4096)) off W"
proof -
  from assms obtain k where k: "off div 4096 + k \<le> sector_end (off + n)" "off + n \<le> (off div 4096 + k) * 4096"
    "contents s = mem_write (erased I (off div 4096) k) off W"
    by (auto simp: session_def)
  define j where "j = off div 4096 + k"
  have "sector_end (off + n) * 4096 < off + n + 4096" by (rule sector_end_le(3))
  with k(2) have "sector_end (off + n) \<le> j" unfolding j_def [symmetric] by linarith
  then have "sector_end (off + n) \<le> off div 4096 + k" unfolding j_def .
  with k(1) have "k = sector_end (off + n) - off div 4096" by linarith
  with k(3) show ?thesis by simp
qed

lemma session_end:
  assumes "session contents I off n W fs s"
  shows "handle_flash_end fs = (if length W = n then (ESP_OK, fs\<lparr>in_flash_mode := False\<rparr>) else (ESP_NOT_ENOUGH_DATA, fs))"
proof -
  have "remaining fs > 0 \<longleftrightarrow> length W \<noteq> n"
    using assms by (auto simp: session_def word_less_nat_alt)
  with assms show ?thesis by (simp add: handle_flash_end_def session_def)
qed

end

section \<open>Properties\<close>

text \<open>
  Property C20: a write session.  On any controller and chip that behave as documented, beginning a
  write of \<open>total_size\<close> bytes at \<open>offset\<close> and passing data blocks of together at least that length
  never waits for ever, reports success at the end, and leaves exactly this in the flash: the first
  \<open>total_size\<close> bytes of the data at \<open>offset\<close>, ones in the rest of the sectors they touch, and every other
  byte as it was.
\<close>

theorem flash_session_writes:
  assumes "flash_host hw contents pending settling wel addr_reg status"
    and "unat offset + unat total_size \<le> length (contents s)" and "4096 dvd length (contents s)"
    and "length (contents s) \<le> 16777216" and "4 dvd unat offset" and "4 dvd unat total_size" and "0 < unat total_size"
    and "\<forall>b\<in>set blocks. 4 dvd length b \<and> length b < 4294967296" and "unat total_size \<le> length (concat blocks)"
  shows "\<exists>fs1 s1 fs2 s2. handle_flash_begin hw total_size offset fs s = (ESP_OK, fs1, s1) \<and>
    flash_blocks hw blocks fs1 s1 = Some (fs2, s2) \<and>
    handle_flash_end fs2 = (ESP_OK, fs2\<lparr>in_flash_mode := False\<rparr>) \<and>
    contents s2 = mem_write (erased (contents s) (unat offset div 4096)
        (sector_end (unat offset + unat total_size) - unat offset div 4096)) (unat offset) (take (unat total_size) (concat blocks))"
proof -
  let ?I = "contents s" and ?off = "unat offset" and ?n = "unat total_size"
  note H = assms(1)
  obtain fs1 s1 where b: "handle_flash_begin hw total_size offset fs s = (ESP_OK, fs1, s1)"
    "session contents ?I ?off ?n [] fs1 s1"
    using flash_host.flash_begin_session [OF H assms(2-6)] by blast
  obtain fs2 s2 where d: "flash_blocks hw blocks fs1 s1 = Some (fs2, s2)"
    "session contents ?I ?off ?n (take ?n (concat blocks)) fs2 s2"
    using flash_host.flash_blocks_keep [OF H b(2) assms(8)] by auto
  have "length (take ?n (concat blocks)) = ?n" using assms(9) by simp
  with flash_host.session_complete [OF H d(2) _ assms(7)] flash_host.session_end [OF H d(2)] b(1) d(1)
  show ?thesis by auto
qed

definition sim_start :: sim where
  "sim_start = \<lparr>sim_data = replicate 0x30000 0x5a, sim_busy = 7, sim_wip = 1, sim_wel = False, sim_addr = 9, sim_status = 1\<rparr>"

definition some_session :: "unit flash_session" where
  "some_session = \<lparr>in_flash_mode = False, next_write = 5, next_erase_sector = 3, remaining = 8, remaining_erase_sector = 1,
     last_error = ESP_INFLATE_ERROR, inflator = (), remaining_compressed = 0, out_buf = replicate 32768 0, next_out = 0\<rparr>"

theorem flash_session_writes_witness:
  "\<exists>fs1 s1 fs2 s2. handle_flash_begin sim_hw 0x11000 0xF008 some_session sim_start = (ESP_OK, fs1, s1) \<and>
    flash_blocks sim_hw [replicate 0x10000 1, replicate 0x4000 2] fs1 s1 = Some (fs2, s2) \<and>
    fst (handle_flash_end fs2) = ESP_OK \<and> length (sim_data s2) = 0x30000"
proof -
  have "sector_end 0x20008 = 0x21" by (simp add: sector_end_def)
  with flash_session_writes [OF sim_host.flash_host_axioms, of "0xF008" "0x11000" sim_start
      "[replicate 0x10000 1, replicate 0x4000 2]" some_session]
  show ?thesis by (auto simp: sim_start_def)
qed

text \<open>
  Property C28: a session that received less data than announced cannot be ended: after any number of
  data blocks, \<open>handle_flash_end\<close> reports success exactly when their total length has reached the
  announced size, and otherwise asks for more data and leaves the session open.
\<close>

theorem flash_session_incomplete:
  assumes "flash_host hw contents pending settling wel addr_reg status"
    and "unat offset + unat total_size \<le> length (contents s)" and "4096 dvd length (contents s)"
    and "length (contents s) \<le> 16777216" and "4 dvd unat offset" and "4 dvd unat total_size"
    and "\<forall>b\<in>set blocks. 4 dvd length b \<and> length b < 4294967296"
    and "handle_flash_begin hw total_size offset fs s = (r, fs1, s1)"
    and "flash_blocks hw blocks fs1 s1 = Some (fs2, s2)"
  shows "handle_flash_end fs2 =
    (if unat total_size \<le> length (concat blocks) then (ESP_OK, fs2\<lparr>in_flash_mode := False\<rparr>) else (ESP_NOT_ENOUGH_DATA, fs2))"
proof -
  let ?n = "unat total_size"
  note H = assms(1)
  have b: "session contents (contents s) (unat offset) ?n [] fs1 s1"
    using flash_host.flash_begin_session [OF H assms(2-6), of fs] assms(8) by auto
  have d: "session contents (contents s) (unat offset) ?n (take ?n (concat blocks)) fs2 s2"
    using flash_host.flash_blocks_keep [OF H b assms(7)] assms(9) by auto
  show ?thesis using flash_host.session_end [OF H d] by auto
qed

theorem flash_session_incomplete_witness:
  "\<exists>fs1 s1 fs2 s2. handle_flash_begin sim_hw 0x100 0x1000 some_session sim_start = (ESP_OK, fs1, s1) \<and>
    flash_blocks sim_hw [replicate 0x80 1] fs1 s1 = Some (fs2, s2) \<and> handle_flash_end fs2 = (ESP_NOT_ENOUGH_DATA, fs2)"
proof -
  obtain fs1 s1 where b: "handle_flash_begin sim_hw 0x100 0x1000 some_session sim_start = (ESP_OK, fs1, s1)"
    "session sim_data (sim_data sim_start) 0x1000 0x100 [] fs1 s1"
    using sim_host.flash_begin_session [of "0x1000" "0x100" sim_start some_session] by (auto simp: sim_start_def)
  obtain fs2 s2 where d: "flash_blocks sim_hw [replicate 0x80 1] fs1 s1 = Some (fs2, s2)"
    using sim_host.flash_blocks_keep [OF b(2), of "[replicate 0x80 1]"] by auto
  from flash_session_incomplete [OF sim_host.flash_host_axioms _ _ _ _ _ _ b(1) d] b(1) d
  show ?thesis by (auto simp: sim_start_def)
qed

end
