(* ===== verification/Stub_Commands.thy ===== *)
theory Stub_Commands
  imports Slip Stub_Write_Flash
begin

text \<open>
  The command handlers of the flasher stub (\<open>stub_commands.c\<close>, ESP8266 build): erasing a region,
  streaming the flash to the host, its MD5 digest, and loading code into RAM.  The ROM's MD5
  functions are the parameter \<open>md5\<close>.  None is a wait that never ends.
\<close>

record 'c md5_lib =
  MD5Init :: 'c
  MD5Update :: "'c \<Rightarrow> u8 list \<Rightarrow> 'c"
  MD5Final :: "'c \<Rightarrow> u8 list"

text \<open>The serial line: what was sent, what will be received, and whether reception is by interrupt.\<close>

record serial =
  tx :: "u8 list"
  rx :: "u8 list"
  rx_async :: bool

definition send :: "u8 list \<Rightarrow> serial \<Rightarrow> serial" where
  "send bs io = io\<lparr>tx := tx io @ bs\<rparr>"

lemma send_simps [simp]:
  "tx (send bs io) = tx io @ bs" "rx (send bs io) = rx io" "rx_async (send bs io) = rx_async io"
  by (simp_all add: send_def)

section \<open>Erasing a region\<close>

text \<open>Each loop returns the code of an early return, or the remaining address and length.\<close>

partial_function (option) erase_to_block ::
  "'s stub_hw \<Rightarrow> u32 \<Rightarrow> u32 \<Rightarrow> 's \<Rightarrow> ((int + u32 \<times> u32) \<times> 's) option" where
  "erase_to_block hw addr len s =
     (if len > 0 \<and> addr mod FLASH_BLOCK_SIZE \<noteq> 0 then
        let (r, s) = SPIEraseSector (rom_spi hw) (addr div FLASH_SECTOR_SIZE) s
        in if r \<noteq> 0 then Some (Inl 0x35, s)
           else erase_to_block hw (addr + FLASH_SECTOR_SIZE) (len - FLASH_SECTOR_SIZE) s
      else Some (Inr (addr, len), s))"

partial_function (option) erase_whole_blocks ::
  "'s stub_hw \<Rightarrow> u32 \<Rightarrow> u32 \<Rightarrow> 's \<Rightarrow> ((int + u32 \<times> u32) \<times> 's) option" where
  "erase_whole_blocks hw addr len s =
     (if len > FLASH_BLOCK_SIZE then
        let (r, s) = SPIEraseBlock (rom_spi hw) (addr div FLASH_BLOCK_SIZE) s
        in if r \<noteq> 0 then Some (Inl 0x36, s)
           else erase_whole_blocks hw (addr + FLASH_BLOCK_SIZE) (len - FLASH_BLOCK_SIZE) s
      else Some (Inr (addr, len), s))"

partial_function (option) erase_rest :: "'s stub_hw \<Rightarrow> u32 \<Rightarrow> u32 \<Rightarrow> 's \<Rightarrow> (int \<times> 's) option" where
  "erase_rest hw addr len s =
     (if len > 0 then
        let (r, s) = SPIEraseSector (rom_spi hw) (addr div FLASH_SECTOR_SIZE) s
        in if r \<noteq> 0 then Some (0x37, s)
           else erase_rest hw (addr + FLASH_SECTOR_SIZE) (len - FLASH_SECTOR_SIZE) s
      else Some (0, s))"

definition handle_flash_erase :: "'s stub_hw \<Rightarrow> u32 \<Rightarrow> u32 \<Rightarrow> 's \<Rightarrow> (int \<times> 's) option" where
  "handle_flash_erase hw addr len s =
     (if addr mod FLASH_SECTOR_SIZE \<noteq> 0 then Some (0x32, s)
      else if len mod FLASH_SECTOR_SIZE \<noteq> 0 then Some (0x33, s)
      else
        let (r, s) = SPIUnlock hw s
        in if r \<noteq> 0 then Some (0x34, s)
           else
             case erase_to_block hw addr len s of
               None \<Rightarrow> None
             | Some (Inl e, s) \<Rightarrow> Some (e, s)
             | Some (Inr (addr, len), s) \<Rightarrow>
                 (case erase_whole_blocks hw addr len s of
                    None \<Rightarrow> None
                  | Some (Inl e, s) \<Rightarrow> Some (e, s)
                  | Some (Inr (addr, len), s) \<Rightarrow> erase_rest hw addr len s))"

section \<open>Reading the flash\<close>

text \<open>The inner loop sends blocks while the window is open; a failed read leaves it.\<close>

partial_function (option) send_window ::
  "'s stub_hw \<Rightarrow> 'c md5_lib \<Rightarrow> u32 \<Rightarrow> u32 \<Rightarrow> u32 \<Rightarrow> u32 \<Rightarrow> u32 \<Rightarrow> u32 \<Rightarrow> 'c \<Rightarrow> 's \<Rightarrow> serial \<Rightarrow>
     (u32 \<times> u32 \<times> 'c \<times> 's \<times> serial) option" where
  "send_window hw md5 len block_size max_in_flight num_acked addr num_sent ctx s io =
     (if num_sent < len \<and> num_sent - num_acked < max_in_flight then
        let n = len - num_sent;
            n = (if n > block_size then block_size else n);
            (r, buf, s) = SPIRead (rom_spi hw) addr n s
        in if r \<noteq> 0 then Some (addr, num_sent, ctx, s, io)
           else send_window hw md5 len block_size max_in_flight num_acked (addr + n) (num_sent + n)
                  (MD5Update md5 ctx buf) s (send (SLIP_send buf) io)
      else Some (addr, num_sent, ctx, s, io))"

partial_function (option) read_loop ::
  "'s stub_hw \<Rightarrow> 'c md5_lib \<Rightarrow> u32 \<Rightarrow> u32 \<Rightarrow> u32 \<Rightarrow> u32 \<Rightarrow> u32 \<Rightarrow> u32 \<Rightarrow> 'c \<Rightarrow> 's \<Rightarrow> serial \<Rightarrow>
     ('c \<times> 's \<times> serial) option" where
  "read_loop hw md5 len block_size max_in_flight num_acked addr num_sent ctx s io =
     (if num_acked < len \<and> num_acked \<le> num_sent then
        case send_window hw md5 len block_size max_in_flight num_acked addr num_sent ctx s io of
          None \<Rightarrow> None
        | Some (addr, num_sent, ctx, s, io) \<Rightarrow>
            (case SLIP_recv (rx io) 4 of
               None \<Rightarrow> None
             | Some (p, rest) \<Rightarrow>
                 let io = io\<lparr>rx := rest\<rparr>
                 in if length p \<noteq> 4 then Some (ctx, s, io)
                    else read_loop hw md5 len block_size max_in_flight (le32_of p) addr num_sent ctx s io)
      else Some (ctx, s, io))"

definition handle_flash_read ::
  "'s stub_hw \<Rightarrow> 'c md5_lib \<Rightarrow> u32 \<Rightarrow> u32 \<Rightarrow> u32 \<Rightarrow> u32 \<Rightarrow> 's \<Rightarrow> serial \<Rightarrow> ('s \<times> serial) option" where
  "handle_flash_read hw md5 addr len block_size max_in_flight s io =
     (let io = io\<lparr>rx_async := False\<rparr>
      in if block_size > FLASH_SECTOR_SIZE then Some (s, io)
         else
           case read_loop hw md5 len block_size max_in_flight 0 addr 0 (MD5Init md5) s io of
             None \<Rightarrow> None
           | Some (ctx, s, io) \<Rightarrow>
               let io = send (SLIP_send (MD5Final md5 ctx)) io
               in Some (s, io\<lparr>rx_async := True\<rparr>))"

function md5_loop :: "'s stub_hw \<Rightarrow> 'c md5_lib \<Rightarrow> u32 \<Rightarrow> u32 \<Rightarrow> 'c \<Rightarrow> 's \<Rightarrow> (int + 'c) \<times> 's" where
  "md5_loop hw md5 addr len ctx s =
     (if len > 0 then
        let n = (if len > FLASH_SECTOR_SIZE then FLASH_SECTOR_SIZE else len);
            (r, buf, s) = SPIRead (rom_spi hw) addr n s
        in if r \<noteq> 0 then (Inl 0x63, s)
           else md5_loop hw md5 (addr + n) (len - n) (MD5Update md5 ctx buf) s
      else (Inr ctx, s))"
  by pat_completeness auto
termination
proof (relation "measure (\<lambda>(hw, md5, addr, len, ctx, s). unat len)", goal_cases)
  case (2 hw md5 addr len ctx s n)
  then have "0 < n" "n \<le> len" by (auto simp: flash_geometry word_less_nat_alt word_le_nat_alt)
  then show ?case by (simp add: unat_sub word_less_nat_alt word_le_nat_alt)
qed simp

declare md5_loop.simps [simp del]

definition handle_flash_get_md5sum ::
  "'s stub_hw \<Rightarrow> 'c md5_lib \<Rightarrow> u32 \<Rightarrow> u32 \<Rightarrow> 's \<Rightarrow> serial \<Rightarrow> int \<times> 's \<times> serial" where
  "handle_flash_get_md5sum hw md5 addr len s io =
     (case md5_loop hw md5 addr len (MD5Init md5) s of
        (Inl e, s) \<Rightarrow> (e, s, io)
      | (Inr ctx, s) \<Rightarrow> (0, s, send (SLIP_send_frame_data_buf (MD5Final md5 ctx)) io))"

section \<open>Loading code into RAM\<close>

text \<open>RAM is a function from the address of a word to its value; the null pointer is 0.\<close>

record mem_session =
  mem_offset :: u32
  mem_remaining :: u32
  words :: "u32 \<Rightarrow> u32"

definition handle_mem_begin :: "u32 \<Rightarrow> u32 \<Rightarrow> mem_session \<Rightarrow> int \<times> mem_session" where
  "handle_mem_begin sz offset m = (ESP_OK, m\<lparr>mem_offset := offset, mem_remaining := sz\<rparr>)"

fun store_words :: "u8 list \<Rightarrow> mem_session \<Rightarrow> mem_session" where
  "store_words (a # b # c # d # bs) m =
     store_words bs (m\<lparr>words := (words m)(mem_offset m := le32 a b c d), mem_offset := mem_offset m + 4,
       mem_remaining := mem_remaining m - 4\<rparr>)"
| "store_words _ m = m"

text \<open>\<open>data\<close> is the memory from the pointer on, of which \<open>len\<close> bytes are used.\<close>

definition handle_mem_data :: "u8 list \<Rightarrow> u32 \<Rightarrow> mem_session \<Rightarrow> int \<times> mem_session" where
  "handle_mem_data data len m =
     (if mem_offset m = 0 \<and> len > 0 then (ESP_NOT_IN_FLASH_MODE, m)
      else if len > mem_remaining m then (ESP_TOO_MUCH_DATA, m)
      else if len mod 4 \<noteq> 0 then (ESP_BAD_DATA_LEN, m)
      else (ESP_OK, store_words (take (unat len) data) m))"

definition handle_mem_finish :: "mem_session \<Rightarrow> int \<times> mem_session" where
  "handle_mem_finish m =
     (let res = (if mem_remaining m > 0 then ESP_NOT_ENOUGH_DATA else ESP_OK)
      in (res, m\<lparr>mem_remaining := 0, mem_offset := 0\<rparr>))"

section \<open>What the handlers rely on and produce\<close>

text \<open>The digest of a stream does not depend on how it is split.\<close>

definition md5_streams :: "'c md5_lib \<Rightarrow> bool" where
  "md5_streams md5 \<longleftrightarrow> (\<forall>c xs ys. MD5Update md5 (MD5Update md5 c xs) ys = MD5Update md5 c (xs @ ys)) \<and>
     (\<forall>c. MD5Update md5 c [] = c)"

text \<open>Block \<open>i\<close> of the data \<open>D\<close>, in blocks of \<open>b\<close> bytes.\<close>

definition data_block :: "nat \<Rightarrow> u8 list \<Rightarrow> nat \<Rightarrow> u8 list" where
  "data_block b D i = take b (drop (b * i) D)"

section \<open>The erased region\<close>

text \<open>\<open>erase_progress contents I a n addr len s\<close>: of the \<open>n\<close> bytes at \<open>a\<close>, those below \<open>addr\<close> are erased.\<close>

definition erase_progress :: "('s \<Rightarrow> u8 list) \<Rightarrow> u8 list \<Rightarrow> nat \<Rightarrow> nat \<Rightarrow> u32 \<Rightarrow> u32 \<Rightarrow> 's \<Rightarrow> bool" where
  "erase_progress contents I a n addr len s \<longleftrightarrow> a + n \<le> length I \<and> length I < 4294967296 \<and> 4096 dvd a \<and> 4096 dvd n \<and>
     (\<exists>k. unat addr = a + 4096 * k \<and> unat len + 4096 * k = n \<and> contents s = erased I (a div 4096) k)"

lemma erase_progress_sub:
  assumes "erase_progress contents I a n addr len s" "m * 4096 \<le> unat len" "unat w = m * 4096"
    and "contents s' = erased (contents s) (unat addr div 4096) m"
  shows "erase_progress contents I a n (addr + w) (len - w) s'"
proof -
  from assms(1) obtain k where I: "a + n \<le> length I" "length I < 4294967296" "4096 dvd a" "4096 dvd n"
    and k: "unat addr = a + 4096 * k" "unat len + 4096 * k = n" "contents s = erased I (a div 4096) k"
    by (auto simp: erase_progress_def)
  obtain q where q: "a = 4096 * q" using I(3) by auto
  have sub: "unat (len - w) = unat len - m * 4096" using assms(2,3) by (simp add: unat_sub word_le_nat_alt)
  have add: "unat (addr + w) = a + 4096 * (k + m)"
    using k(1,2) assms(2,3) I by (subst unat_add_u32) simp_all
  have "(q + k + m) * 4096 \<le> length I" using I(1) k(2) q assms(2) by simp
  then have "contents s' = erased I (a div 4096) (k + m)"
    unfolding assms(4) k(3) using k(1) q erased_add [of q k m I] by simp
  with add sub I k(2) assms(2) show ?thesis
    unfolding erase_progress_def by (intro conjI exI [of _ "k + m"]) simp_all
qed

lemma erase_progress_bounds:
  assumes "erase_progress contents I a n addr len s" "len > 0"
  shows "4096 \<le> unat len" "unat addr + unat len \<le> length (contents s)" "4096 dvd unat addr" "4096 dvd unat len"
proof -
  from assms(1) obtain k where I: "a + n \<le> length I" "4096 dvd a" "4096 dvd n"
    and k: "unat addr = a + 4096 * k" "unat len + 4096 * k = n" "contents s = erased I (a div 4096) k"
    by (auto simp: erase_progress_def)
  show d: "4096 dvd unat len" using I(3) k(2) by (metis dvd_add_left_iff dvd_triv_left)
  show "4096 dvd unat addr" using I(2) k(1) by simp
  have "0 < unat len" using assms(2) by (simp add: word_less_nat_alt)
  with d show "4096 \<le> unat len" by (rule dvd_imp_le)
  obtain q where q: "a = 4096 * q" using I(2) by auto
  have "length (contents s) = length I" unfolding k(3) using I(1) k(2) q by simp
  with I(1) k show "unat addr + unat len \<le> length (contents s)" by simp
qed

lemma sector_words: "unat FLASH_SECTOR_SIZE = 1 * 4096" "unat FLASH_BLOCK_SIZE = 16 * 4096"
  by (simp_all add: flash_geometry)

context flash_host
begin

lemma erase_sector_progress:
  assumes "erase_progress contents I a n addr len s" "len > 0"
  shows "\<exists>s'. SPIEraseSector (rom_spi hw) (addr div FLASH_SECTOR_SIZE) s = (0, s') \<and>
    erase_progress contents I a n (addr + FLASH_SECTOR_SIZE) (len - FLASH_SECTOR_SIZE) s'"
proof -
  note b = erase_progress_bounds [OF assms]
  have u: "unat (addr div FLASH_SECTOR_SIZE) = unat addr div 4096" by (simp add: unat_div flash_geometry)
  obtain q where q: "unat addr = 4096 * q" using b(3) by auto
  have "(unat (addr div FLASH_SECTOR_SIZE) + 1) * 4096 \<le> length (contents s)" using b(1,2) q u by simp
  from spi_erase_sector [OF this] u obtain s' where
    s': "SPIEraseSector (rom_spi hw) (addr div FLASH_SECTOR_SIZE) s = (0, s')"
      "contents s' = erased (contents s) (unat addr div 4096) 1" by auto
  from erase_progress_sub [OF assms(1) _ sector_words(1) s'(2)] b(1) s'(1) show ?thesis by simp
qed

lemma erase_block_progress:
  assumes "erase_progress contents I a n addr len s" "len > FLASH_BLOCK_SIZE" "65536 dvd unat addr"
  shows "\<exists>s'. SPIEraseBlock (rom_spi hw) (addr div FLASH_BLOCK_SIZE) s = (0, s') \<and>
    erase_progress contents I a n (addr + FLASH_BLOCK_SIZE) (len - FLASH_BLOCK_SIZE) s'"
proof -
  have "len > 0" using assms(2) by (simp add: flash_geometry word_less_nat_alt)
  note b = erase_progress_bounds [OF assms(1) this]
  have l: "16 * 4096 \<le> unat len" using assms(2) by (simp add: flash_geometry word_less_nat_alt)
  have u: "unat (addr div FLASH_BLOCK_SIZE) = unat addr div 65536" by (simp add: unat_div flash_geometry)
  obtain q where q: "unat addr = 65536 * q" using assms(3) by auto
  have "(unat (addr div FLASH_BLOCK_SIZE) + 1) * 65536 \<le> length (contents s)" using b(2) l q u by simp
  from spi_erase_block [OF this] u q obtain s' where
    s': "SPIEraseBlock (rom_spi hw) (addr div FLASH_BLOCK_SIZE) s = (0, s')"
      "contents s' = erased (contents s) (unat addr div 4096) 16" by auto
  from erase_progress_sub [OF assms(1) l sector_words(2) s'(2)] s'(1) show ?thesis by simp
qed

lemma erase_to_block_ends:
  assumes "erase_progress contents I a n addr len s"
  shows "\<exists>addr' len' s'. erase_to_block hw addr len s = Some (Inr (addr', len'), s') \<and>
    erase_progress contents I a n addr' len' s' \<and> (len' = 0 \<or> 65536 dvd unat addr')"
  using assms
proof (induction "unat len" arbitrary: addr len s rule: less_induct)
  case less
  have m: "addr mod FLASH_BLOCK_SIZE = 0 \<longleftrightarrow> 65536 dvd unat addr"
    by (simp add: word_unat_eq_iff unat_mod flash_geometry dvd_eq_mod_eq_0)
  show ?case
  proof (cases "len > 0 \<and> addr mod FLASH_BLOCK_SIZE \<noteq> 0")
    case True
    from erase_sector_progress [OF less.prems] True obtain s' where
      s': "SPIEraseSector (rom_spi hw) (addr div FLASH_SECTOR_SIZE) s = (0, s')"
        "erase_progress contents I a n (addr + FLASH_SECTOR_SIZE) (len - FLASH_SECTOR_SIZE) s'" by blast
    have "unat (len - FLASH_SECTOR_SIZE) < unat len"
      using erase_progress_bounds(1) [OF less.prems] True by (simp add: unat_sub word_le_nat_alt flash_geometry)
    from less.hyps [OF this s'(2)] s'(1) True show ?thesis by (subst erase_to_block.simps) simp
  next
    case False
    with less.prems m show ?thesis by (subst erase_to_block.simps) (auto simp: word_gt_0)
  qed
qed

lemma erase_whole_blocks_ends:
  assumes "erase_progress contents I a n addr len s" "len = 0 \<or> 65536 dvd unat addr"
  shows "\<exists>addr' len' s'. erase_whole_blocks hw addr len s = Some (Inr (addr', len'), s') \<and>
    erase_progress contents I a n addr' len' s'"
  using assms
proof (induction "unat len" arbitrary: addr len s rule: less_induct)
  case less
  show ?case
  proof (cases "len > FLASH_BLOCK_SIZE")
    case True
    then have al: "65536 dvd unat addr" using less.prems(2) by (auto simp: flash_geometry)
    from erase_block_progress [OF less.prems(1) True al] obtain s' where
      s': "SPIEraseBlock (rom_spi hw) (addr div FLASH_BLOCK_SIZE) s = (0, s')"
        "erase_progress contents I a n (addr + FLASH_BLOCK_SIZE) (len - FLASH_BLOCK_SIZE) s'" by blast
    have dec: "unat (len - FLASH_BLOCK_SIZE) < unat len" 
      using True by (simp add: unat_sub word_le_nat_alt word_less_nat_alt flash_geometry)
    have "65536 dvd unat (addr + FLASH_BLOCK_SIZE)"
    proof -
      have "len > 0" using True by (simp add: flash_geometry word_less_nat_alt)
      from erase_progress_bounds(2) [OF less.prems(1) this] less.prems(1) True
      have "unat addr + 65536 < 4294967296"
        by (auto simp: erase_progress_def word_less_nat_alt flash_geometry)
      then have "unat (addr + FLASH_BLOCK_SIZE) = unat addr + 65536"
        by (subst unat_add_u32) (simp_all add: flash_geometry)
      with al show ?thesis by simp
    qed
    with less.hyps [OF dec s'(2)] s'(1) True show ?thesis by (subst erase_whole_blocks.simps) simp
  next
    case False
    with less.prems show ?thesis by (subst erase_whole_blocks.simps) auto
  qed
qed

lemma erase_rest_ends:
  assumes "erase_progress contents I a n addr len s"
  shows "\<exists>s'. erase_rest hw addr len s = Some (0, s') \<and> contents s' = erased I (a div 4096) (n div 4096)"
  using assms
proof (induction "unat len" arbitrary: addr len s rule: less_induct)
  case less
  show ?case
  proof (cases "len > 0")
    case True
    from erase_sector_progress [OF less.prems True] obtain s' where
      s': "SPIEraseSector (rom_spi hw) (addr div FLASH_SECTOR_SIZE) s = (0, s')"
        "erase_progress contents I a n (addr + FLASH_SECTOR_SIZE) (len - FLASH_SECTOR_SIZE) s'" by blast
    have "unat (len - FLASH_SECTOR_SIZE) < unat len"
      using erase_progress_bounds(1) [OF less.prems True] by (simp add: unat_sub word_le_nat_alt flash_geometry)
    from less.hyps [OF this s'(2)] s'(1) True show ?thesis by (subst erase_rest.simps) simp
  next
    case False
    then have "len = 0" by (simp add: word_gt_0)
    with less.prems show ?thesis by (subst erase_rest.simps) (auto simp: erase_progress_def)
  qed
qed

lemma flash_erase_erases:
  assumes "4096 dvd unat addr" "4096 dvd unat len" "unat addr + unat len \<le> length (contents s)"
    "length (contents s) < 4294967296"
  shows "\<exists>s'. handle_flash_erase hw addr len s = Some (0, s') \<and>
    contents s' = erased (contents s) (unat addr div 4096) (unat len div 4096)"
proof -
  have m: "w mod FLASH_SECTOR_SIZE = 0 \<longleftrightarrow> 4096 dvd unat w" for w
    by (simp add: word_unat_eq_iff unat_mod flash_geometry dvd_eq_mod_eq_0)
  obtain s1 where s1: "SPIUnlock hw s = (0, s1)" "contents s1 = contents s" using unlock by blast
  have "unat addr div 4096 * 4096 \<le> length (contents s)" using assms(3) by (meson add_leE div_times_less_eq_dividend le_trans)
  then have "erase_progress contents (contents s) (unat addr) (unat len) addr len s1"
    using assms s1(2) by (simp add: erase_progress_def exI [of _ 0])
  from erase_to_block_ends [OF this] obtain a2 l2 s2 where 2: "erase_to_block hw addr len s1 = Some (Inr (a2, l2), s2)"
    "erase_progress contents (contents s) (unat addr) (unat len) a2 l2 s2" "l2 = 0 \<or> 65536 dvd unat a2" by blast
  from erase_whole_blocks_ends [OF 2(2,3)] obtain a3 l3 s3 where
    3: "erase_whole_blocks hw a2 l2 s2 = Some (Inr (a3, l3), s3)"
      "erase_progress contents (contents s) (unat addr) (unat len) a3 l3 s3" by blast
  from erase_rest_ends [OF 3(2)] 2(1) 3(1) s1(1) m assms(1,2) show ?thesis
    by (auto simp: handle_flash_erase_def)
qed

section \<open>The digest of a region\<close>

lemma rom_read:
  assumes "contents s = I" "4 dvd unat addr" "4 dvd unat n" "unat addr + unat n \<le> length I"
  obtains s' where "SPIRead (rom_spi hw) addr n s = (0, mem_read I (unat addr) (unat n), s')" "contents s' = I"
  using spi_read [OF assms(2,3), of s] assms(1,4) by auto

lemma md5_loop_digests:
  assumes "md5_streams md5" "4 dvd unat addr" "4 dvd unat len" "unat addr + unat len \<le> length I"
    "length I < 4294967296" "contents s = I"
  shows "\<exists>s'. md5_loop hw md5 addr len ctx s = (Inr (MD5Update md5 ctx (mem_read I (unat addr) (unat len))), s') \<and>
    contents s' = I"
  using assms(2-)
proof (induction "unat len" arbitrary: addr len ctx s rule: less_induct)
  case less
  show ?case
  proof (cases "len > 0")
    case True
    define n where "n = (if len > FLASH_SECTOR_SIZE then FLASH_SECTOR_SIZE else len)"
    have n: "0 < unat n" "unat n \<le> unat len" "4 dvd unat n"
      using True less.prems(2) by (auto simp: n_def flash_geometry word_less_nat_alt)
    have "unat addr + unat n \<le> length I" using n(2) less.prems(3) by simp
    from rom_read [OF less.prems(5,1) n(3) this] obtain t where
      t: "SPIRead (rom_spi hw) addr n s = (0, mem_read I (unat addr) (unat n), t)" "contents t = I" by blast
    have addr: "unat (addr + n) = unat addr + unat n" using n(2) less.prems(3,4) by (intro unat_add_u32) simp
    have len: "unat (len - n) = unat len - unat n" using n(2) by (simp add: unat_sub word_le_nat_alt)
    have "unat (len - n) < unat len" "4 dvd unat (addr + n)" "4 dvd unat (len - n)"
      "unat (addr + n) + unat (len - n) \<le> length I"
      using n less.prems unfolding addr len by simp_all
    from less.hyps [OF this less.prems(4) t(2), of "MD5Update md5 ctx (mem_read I (unat addr) (unat n))"] obtain s' where
      "md5_loop hw md5 (addr + n) (len - n) (MD5Update md5 ctx (mem_read I (unat addr) (unat n))) t =
        (Inr (MD5Update md5 (MD5Update md5 ctx (mem_read I (unat addr) (unat n))) (mem_read I (unat addr + unat n) (unat len - unat n))), s')"
      "contents s' = I" unfolding addr len by blast
    moreover have "mem_read I (unat addr) (unat n) @ mem_read I (unat addr + unat n) (unat len - unat n) = mem_read I (unat addr) (unat len)"
      using n(2) take_add [of "unat n" "unat len - unat n" "drop (unat addr) I"] by (simp add: mem_read_def add.commute)
    ultimately show ?thesis
      using assms(1) True t(1) by (subst md5_loop.simps) (simp add: md5_streams_def flip: n_def)
  next
    case False
    then have "len = 0" by (simp add: word_gt_0)
    with less.prems(5) assms(1) show ?thesis
      by (subst md5_loop.simps) (simp add: md5_streams_def mem_read_def)
  qed
qed

section \<open>The read protocol\<close>

lemma send_window_sends:
  assumes "md5_streams md5" "D = mem_read I a (length D)" "a + length D \<le> length I" "length I < 4294967296"
    "4 dvd a" "4 dvd length D" "4 dvd unat b" "0 < unat b" "unat len = length D"
    and "unat acked \<le> unat sent" "unat sent = min (unat b * j) (length D)" "unat addr = a + unat sent" "contents s = I"
    and "j = 0 \<or> unat b * (j - 1) < length D"
  shows "\<exists>j' addr' sent' s' io'. send_window hw md5 len b window acked addr sent (MD5Update md5 c (take (unat sent) D)) s io =
      Some (addr', sent', MD5Update md5 c (take (unat sent') D), s', io') \<and> j \<le> j' \<and>
    (j' = 0 \<or> unat b * (j' - 1) < length D) \<and>
    unat sent' = min (unat b * j') (length D) \<and> unat addr' = a + unat sent' \<and> contents s' = I \<and>
    (unat sent' = length D \<or> unat window \<le> unat sent' - unat acked) \<and>
    io' = send (concat (map (\<lambda>i. SLIP_send (data_block (unat b) D i)) [j..<j'])) io"
  using assms(10-)
proof (induction "length D - unat sent" arbitrary: sent addr s io j rule: less_induct)
  case less
  have sub: "unat (sent - acked) = unat sent - unat acked" using less.prems(1) by (simp add: unat_sub word_le_nat_alt)
  show ?case
  proof (cases "sent < len \<and> sent - acked < window")
    case True
    then have lt: "unat sent < length D" using assms(9) by (simp add: word_less_nat_alt)
    then have sj: "unat sent = unat b * j" using less.prems(2) by (simp add: min_def split: if_splits)
    define n where "n = (if len - sent > b then b else len - sent)"
    have ls: "unat (len - sent) = length D - unat sent" using True assms(9) by (simp add: unat_sub word_le_nat_alt word_less_nat_alt)
    have n: "unat n = min (unat b) (length D - unat sent)" by (auto simp: n_def ls word_less_nat_alt)
    have n4: "4 dvd unat n" using assms(6,7) sj lt unfolding n by (auto simp: min_def)
    have npos: "0 < unat n" "unat sent + unat n \<le> length D" using n lt assms(8) by simp_all
    have blk: "mem_read I (unat addr) (unat n) = data_block (unat b) D j"
    proof -
      have "data_block (unat b) D j = take (unat b) (drop (unat sent) D)" using sj by (simp add: data_block_def)
      also have "\<dots> = take (unat n) (drop (unat sent) D)" using n by (simp add: min_def)
      also have "drop (unat sent) D = take (length D - unat sent) (drop (a + unat sent) I)"
        using assms(2) by (metis add.commute drop_drop drop_take mem_read_def)
      finally show ?thesis using less.prems(3) npos(2) by (simp add: mem_read_def min_def)
    qed
    have "4 dvd unat addr" using less.prems(3) sj assms(5,7) by simp
    moreover have "unat addr + unat n \<le> length I" using less.prems(3) npos(2) assms(3) by simp
    ultimately obtain t where t: "SPIRead (rom_spi hw) addr n s = (0, data_block (unat b) D j, t)" "contents t = I"
      using rom_read [OF less.prems(4) _ n4] blk by metis
    have sent: "unat (sent + n) = unat sent + unat n" using npos(2) assms(3,4) by (intro unat_add_u32) simp
    have addr: "unat (addr + n) = a + unat (sent + n)"
      using less.prems(3) npos(2) assms(3,4) sent by (subst unat_add_u32) simp_all
    have sent': "unat (sent + n) = min (unat b * Suc j) (length D)" using sent n sj lt by simp
    have "data_block (unat b) D j = take (unat n) (drop (unat sent) D)"
      using sj n by (simp add: data_block_def min_def)
    then have ctx: "MD5Update md5 (MD5Update md5 c (take (unat sent) D)) (data_block (unat b) D j) =
        MD5Update md5 c (take (unat (sent + n)) D)"
      using assms(1) sent by (simp add: md5_streams_def take_add)
    have dec: "length D - unat (sent + n) < length D - unat sent" using npos sent by simp
    have "unat acked \<le> unat (sent + n)" using less.prems(1) sent by simp
    have jN: "Suc j = 0 \<or> unat b * (Suc j - 1) < length D" using sj lt by simp
    from less.hyps [OF dec \<open>unat acked \<le> unat (sent + n)\<close> sent' addr t(2) jN, of "send (SLIP_send (data_block (unat b) D j)) io"]
    obtain j' addr' sent'' s' io' where r: "send_window hw md5 len b window acked (addr + n) (sent + n)
        (MD5Update md5 c (take (unat (sent + n)) D)) t (send (SLIP_send (data_block (unat b) D j)) io) =
        Some (addr', sent'', MD5Update md5 c (take (unat sent'') D), s', io')"
      "Suc j \<le> j'" "j' = 0 \<or> unat b * (j' - 1) < length D" "unat sent'' = min (unat b * j') (length D)" "unat addr' = a + unat sent''" "contents s' = I"
      "unat sent'' = length D \<or> unat window \<le> unat sent'' - unat acked"
      "io' = send (concat (map (\<lambda>i. SLIP_send (data_block (unat b) D i)) [Suc j..<j'])) (send (SLIP_send (data_block (unat b) D j)) io)"
      by blast
    have "io' = send (concat (map (\<lambda>i. SLIP_send (data_block (unat b) D i)) [j..<j'])) io"
      using r(2,8) by (simp add: send_def upt_conv_Cons)
    moreover have "send_window hw md5 len b window acked addr sent (MD5Update md5 c (take (unat sent) D)) s io =
        Some (addr', sent'', MD5Update md5 c (take (unat sent'') D), s', io')"
      using t(1) True ctx r(1) by (subst send_window.simps) (simp add: Let_def flip: n_def)
    moreover have "j \<le> j'" using r(2) by simp
    ultimately show ?thesis using r(3-7) by blast
  next
    case False
    then have "unat sent = length D \<or> unat window \<le> unat sent - unat acked"
      using less.prems(2) assms(9) sub by (auto simp: word_less_nat_alt not_less)
    moreover have "send_window hw md5 len b window acked addr sent (MD5Update md5 c (take (unat sent) D)) s io =
        Some (addr, sent, MD5Update md5 c (take (unat sent) D), s, io)"
      using False by (subst send_window.simps) auto
    moreover have "io = send (concat (map (\<lambda>i. SLIP_send (data_block (unat b) D i)) [j..<j])) io" by (simp add: send_def)
    ultimately show ?thesis using less.prems(2-5) by blast
  qed
qed

end

lemma div_round_up:
  fixes n b :: nat
  assumes "0 < b"
  shows "n \<le> b * ((n + b - 1) div b)" "(n + b - 1) div b = 0 \<or> b * ((n + b - 1) div b - 1) < n"
proof -
  define q where "q = (n + b - 1) div b"
  have m: "b * q + (n + b - 1) mod b = n + b - 1" "(n + b - 1) mod b < b" using assms by (simp_all add: q_def)
  then show "n \<le> b * ((n + b - 1) div b)" unfolding q_def [symmetric] by linarith
  have "b * (q - 1) < n" if "q \<noteq> 0"
    using that m assms by (cases q) auto
  then show "(n + b - 1) div b = 0 \<or> b * ((n + b - 1) div b - 1) < n" unfolding q_def [symmetric] by blast
qed

text \<open>A host that acknowledges every block with the number of bytes it has received so far.\<close>

definition acks :: "nat \<Rightarrow> nat \<Rightarrow> nat \<Rightarrow> nat \<Rightarrow> u8 list" where
  "acks b n i k = concat (map (\<lambda>i. SLIP_send (le32_bytes (word_of_nat (min (b * (i + 1)) n)))) [i..<k])"

lemma acks_first:
  assumes "i < k" "rx io = acks b n i k @ rest" "n < 4294967296"
  shows "SLIP_recv (rx io) 4 = Some (le32_bytes (word_of_nat (min (b * (i + 1)) n)), acks b n (i + 1) k @ rest)"
    "unat (word_of_nat (min (b * (i + 1)) n) :: u32) = min (b * (i + 1)) n"
proof -
  show "unat (word_of_nat (min (b * (i + 1)) n) :: u32) = min (b * (i + 1)) n"
    using assms(3) by (simp add: unat_of_nat min_def)
  have "acks b n i k = SLIP_send (le32_bytes (word_of_nat (min (b * (i + 1)) n))) @ acks b n (i + 1) k"
    using assms(1) by (simp add: acks_def upt_conv_Cons)
  with assms(2) SLIP_recv_frame [of "[]" "le32_bytes (word_of_nat (min (b * (i + 1)) n))" "acks b n (i + 1) k @ rest" 4]
  show "SLIP_recv (rx io) 4 = Some (le32_bytes (word_of_nat (min (b * (i + 1)) n)), acks b n (i + 1) k @ rest)"
    by simp
qed

context flash_host
begin

lemma read_loop_sends:
  assumes "md5_streams md5" "D = mem_read I a (length D)" "a + length D \<le> length I" "length I < 4294967296"
    "4 dvd a" "4 dvd length D" "4 dvd unat b" "0 < unat b" "unat len = length D" "0 < unat window"
    and "length D \<le> unat b * k" "k = 0 \<or> unat b * (k - 1) < length D"
    and "k' \<le> k" "rx io = acks (unat b) (length D) k' k @ rest"
    and "unat acked = min (unat b * k') (length D)" "unat sent = min (unat b * j) (length D)" "k' \<le> j"
    and "unat addr = a + unat sent" "contents s = I" "j = 0 \<or> unat b * (j - 1) < length D"
  shows "\<exists>s' io'. read_loop hw md5 len b window acked addr sent (MD5Update md5 c (take (unat sent) D)) s io =
      Some (MD5Update md5 c D, s', io') \<and> contents s' = I \<and> rx io' = rest \<and> j \<le> k \<and>
    tx io' = tx io @ concat (map (\<lambda>i. SLIP_send (data_block (unat b) D i)) [j..<k]) \<and> rx_async io' = rx_async io"
  using assms(13-)
proof (induction "k - k'" arbitrary: k' io acked sent j addr s)
  case 0
  then have kk: "k' = k" by simp
  with 0 assms(11) have "unat acked = length D" by simp
  moreover have "length D \<le> unat b * j" using assms(11) 0 kk by (meson le_trans mult_le_mono2)
  ultimately have sent: "unat sent = length D" "\<not> acked < len" using 0 assms(9) by (simp_all add: word_less_nat_alt)
  have "rx io = rest" using 0 kk by (simp add: acks_def)
  moreover have "read_loop hw md5 len b window acked addr sent (MD5Update md5 c (take (unat sent) D)) s io = Some (MD5Update md5 c D, s, io)"
    using sent by (subst read_loop.simps) simp
  moreover have "j = k"
  proof (rule antisym)
    show "k \<le> j" using 0 kk by simp
    show "j \<le> k"
    proof (rule ccontr)
      assume "\<not> j \<le> k"
      then have "unat b * k \<le> unat b * (j - 1)" "j \<noteq> 0" by (auto intro: mult_le_mono2)
      with 0(9) assms(11) show False by linarith
    qed
  qed
  ultimately show ?case using 0 by simp
next
  case (Suc m)
  then have lt: "k' < k" "m = k - (k' + 1)" by simp_all
  then have "unat b * k' \<le> unat b * (k - 1)" by (intro mult_le_mono2) simp
  then have kN: "unat b * k' < length D" using assms(12) lt(1) by linarith
  then have acked: "unat acked = unat b * k'" using Suc.prems(3) by simp
  have "unat b * k' \<le> unat b * j" using Suc.prems(5) by (rule mult_le_mono2)
  then have as: "unat acked \<le> unat sent" using acked Suc.prems(4) kN by simp
  from send_window_sends [OF assms(1-9) as Suc.prems(4,6,7,8), of window c io] obtain j' addr' sent' s' io' where
    w: "send_window hw md5 len b window acked addr sent (MD5Update md5 c (take (unat sent) D)) s io =
      Some (addr', sent', MD5Update md5 c (take (unat sent') D), s', io')" "j \<le> j'" "j' = 0 \<or> unat b * (j' - 1) < length D"
    "unat sent' = min (unat b * j') (length D)" "unat addr' = a + unat sent'" "contents s' = I"
    "unat sent' = length D \<or> unat window \<le> unat sent' - unat acked"
    "io' = send (concat (map (\<lambda>i. SLIP_send (data_block (unat b) D i)) [j..<j'])) io" by blast
  have j': "k' + 1 \<le> j'"
  proof (rule ccontr)
    assume "\<not> k' + 1 \<le> j'"
    then have "j' = k'" using w(2) Suc.prems(5) by simp
    with w(4) kN have "unat sent' = unat b * k'" by simp
    with w(7) kN acked assms(10) show False by simp
  qed
  have N32: "length D < 4294967296" using assms(3,4) by simp
  have rxio: "rx io' = acks (unat b) (length D) k' k @ rest" using w(8) Suc.prems(2) by simp
  note a = acks_first [OF lt(1) rxio N32]
  let ?acked = "word_of_nat (min (unat b * (k' + 1)) (length D)) :: u32"
  let ?io = "io'\<lparr>rx := acks (unat b) (length D) (k' + 1) k @ rest\<rparr>"
  have "rx ?io = acks (unat b) (length D) (k' + 1) k @ rest" by simp
  from Suc.hyps(1) [OF lt(2) _ this a(2) w(4) j' w(5,6,3)] lt(1) obtain s'' io'' where
    r: "read_loop hw md5 len b window ?acked addr' sent' (MD5Update md5 c (take (unat sent') D)) s' ?io =
      Some (MD5Update md5 c D, s'', io'')" "contents s'' = I" "rx io'' = rest" "j' \<le> k"
    "tx io'' = tx ?io @ concat (map (\<lambda>i. SLIP_send (data_block (unat b) D i)) [j'..<k])" "rx_async io'' = rx_async ?io"
    by auto
  have "acked < len" using acked kN assms(9) by (simp add: word_less_nat_alt)
  moreover have "acked \<le> sent" using as by (simp add: word_le_nat_alt)
  ultimately have "read_loop hw md5 len b window acked addr sent (MD5Update md5 c (take (unat sent) D)) s io =
      Some (MD5Update md5 c D, s'', io'')"
    using w(1) a(1) r(1) by (subst read_loop.simps) (simp add: Let_def)
  moreover have "tx io'' = tx io @ concat (map (\<lambda>i. SLIP_send (data_block (unat b) D i)) [j..<k])"
    using r(4,5) w(2,8) upt_add_eq_append [of j j' "k - j'"] by simp
  moreover have "rx_async io'' = rx_async io" using r(6) w(8) by simp
  moreover have "j \<le> k" using r(4) w(2) by simp
  ultimately show ?case using r(2,3) by (intro exI conjI)
qed

lemma flash_read_sends:
  assumes "md5_streams md5" "unat addr + unat len \<le> length (contents s)" "length (contents s) < 4294967296"
    "4 dvd unat addr" "4 dvd unat len" "4 dvd unat b" "0 < unat b" "unat b \<le> 4096" "0 < unat window"
    and k: "k = (unat len + unat b - 1) div unat b" and "rx io = acks (unat b) (unat len) 0 k @ rest"
    and D: "D = mem_read (contents s) (unat addr) (unat len)"
  shows "\<exists>s' io'. handle_flash_read hw md5 addr len b window s io = Some (s', io') \<and> contents s' = contents s \<and>
    rx io' = rest \<and> rx_async io' \<and>
    tx io' = tx io @ concat (map (\<lambda>i. SLIP_send (data_block (unat b) D i)) [0..<k]) @
      SLIP_send (MD5Final md5 (MD5Update md5 (MD5Init md5) D))"
proof -
  let ?I = "contents s" and ?io = "io\<lparr>rx_async := False\<rparr>"
  have lD: "length D = unat len" using assms(2) by (simp add: D)
  have k1: "unat len \<le> unat b * k" "k = 0 \<or> unat b * (k - 1) < unat len"
    using div_round_up [of "unat b" "unat len"] assms(7) unfolding k by blast+
  have "D = mem_read ?I (unat addr) (length D)" using D lD by simp
  from read_loop_sends [OF assms(1) this _ assms(3,4) _ assms(6,7) lD [symmetric] assms(9), of k 0 ?io rest 0 0 0 addr s "MD5Init md5"]
    assms(1,2,5,11) lD k1
  obtain s' io' where r: "read_loop hw md5 len b window 0 addr 0 (MD5Init md5) s ?io = Some (MD5Update md5 (MD5Init md5) D, s', io')"
    "contents s' = ?I" "rx io' = rest" "tx io' = tx io @ concat (map (\<lambda>i. SLIP_send (data_block (unat b) D i)) [0..<k])"
    by (auto simp: md5_streams_def)
  have "\<not> b > FLASH_SECTOR_SIZE" using assms(8) by (simp add: flash_geometry word_less_nat_alt)
  with r show ?thesis by (simp add: handle_flash_read_def)
qed

end

section \<open>Loading words\<close>

text \<open>Memory after the words \<open>ws\<close> were stored from address \<open>a\<close> on.\<close>

primrec write_words :: "u32 list \<Rightarrow> u32 \<Rightarrow> (u32 \<Rightarrow> u32) \<Rightarrow> u32 \<Rightarrow> u32" where
  "write_words [] a mem = mem"
| "write_words (w # ws) a mem = write_words ws (a + 4) (mem(a := w))"

lemma write_words_append: "write_words (xs @ ys) a mem = write_words ys (a + 4 * word_of_nat (length xs)) (write_words xs a mem)"
  by (induction xs arbitrary: a mem) (simp_all add: algebra_simps)

abbreviation word_bytes :: "u32 list \<Rightarrow> u8 list" where
  "word_bytes ws \<equiv> concat (map le32_bytes ws)"

lemma length_word_bytes: "length (word_bytes ws) = 4 * length ws"
  by (induction ws) simp_all

lemma store_word_bytes:
  "store_words (word_bytes ws) m = m\<lparr>words := write_words ws (mem_offset m) (words m),
     mem_offset := mem_offset m + 4 * word_of_nat (length ws), mem_remaining := mem_remaining m - 4 * word_of_nat (length ws)\<rparr>"
proof (induction ws arbitrary: m)
  case (Cons w ws)
  have "store_words (word_bytes (w # ws)) m = store_words (word_bytes ws)
      (m\<lparr>words := (words m)(mem_offset m := w), mem_offset := mem_offset m + 4, mem_remaining := mem_remaining m - 4\<rparr>)"
    by (simp add: le32_bytes_def le32_le32_bytes)
  then show ?case unfolding Cons.IH by (simp add: algebra_simps)
qed simp

text \<open>The main loop calls \<open>handle_mem_data\<close> once for each data command; \<open>Inl\<close> is its first error.\<close>

primrec mem_blocks :: "u8 list list \<Rightarrow> mem_session \<Rightarrow> int \<times> mem_session" where
  "mem_blocks [] m = (ESP_OK, m)"
| "mem_blocks (b # bs) m =
     (let (e, m) = handle_mem_data b (word_of_nat (length b)) m
      in if e \<noteq> ESP_OK then (e, m) else mem_blocks bs m)"

lemma mem_data_stores:
  assumes "unat (mem_offset m) + 4 * length ws < 4294967296" "mem_offset m \<noteq> 0" "4 * length ws \<le> unat (mem_remaining m)"
  shows "handle_mem_data (word_bytes ws) (word_of_nat (4 * length ws)) m =
    (ESP_OK, m\<lparr>words := write_words ws (mem_offset m) (words m),
     mem_offset := mem_offset m + 4 * word_of_nat (length ws), mem_remaining := mem_remaining m - 4 * word_of_nat (length ws)\<rparr>)"
proof -
  define n where "n = 4 * length ws"
  have "n < 4294967296" using assms(1) by (simp add: n_def)
  then have n: "unat (word_of_nat n :: u32) = n" by (simp add: unat_of_nat)
  have "(word_of_nat n :: u32) mod 4 = 0" by (simp add: word_unat_eq_iff unat_mod n) (simp add: n_def)
  moreover have "\<not> word_of_nat n > mem_remaining m" using assms(3) n by (simp add: word_less_nat_alt n_def)
  moreover have "take (unat (word_of_nat n :: u32)) (word_bytes ws) = word_bytes ws"
    unfolding n by (simp add: n_def length_word_bytes)
  ultimately show ?thesis
    unfolding n_def [symmetric] using assms(2) by (simp add: handle_mem_data_def store_word_bytes)
qed

lemma mem_blocks_store:
  assumes "unat (mem_offset m) + 4 * length (concat wss) < 4294967296" "mem_offset m \<noteq> 0"
    "4 * length (concat wss) \<le> unat (mem_remaining m)"
  shows "mem_blocks (map word_bytes wss) m =
    (ESP_OK, m\<lparr>words := write_words (concat wss) (mem_offset m) (words m),
     mem_offset := mem_offset m + 4 * word_of_nat (length (concat wss)),
     mem_remaining := mem_remaining m - 4 * word_of_nat (length (concat wss))\<rparr>)"
  using assms
proof (induction wss arbitrary: m)
  case (Cons ws wss)
  let ?m = "m\<lparr>words := write_words ws (mem_offset m) (words m),
     mem_offset := mem_offset m + 4 * word_of_nat (length ws), mem_remaining := mem_remaining m - 4 * word_of_nat (length ws)\<rparr>"
  have n: "unat (4 * word_of_nat (length ws) :: u32) = 4 * length ws"
  proof -
    have "(4 * word_of_nat (length ws) :: u32) = word_of_nat (4 * length ws)" by simp
    then show ?thesis using Cons.prems(1) by (simp only: unat_of_nat) simp
  qed
  have one: "handle_mem_data (word_bytes ws) (word_of_nat (4 * length ws)) m = (ESP_OK, ?m)"
    using Cons.prems by (intro mem_data_stores) simp_all
  have off: "unat (mem_offset ?m) = unat (mem_offset m) + 4 * length ws"
    using Cons.prems(1) n by (simp add: unat_add_u32)
  have "4 * word_of_nat (length ws) \<le> mem_remaining m" using n Cons.prems(3) by (simp add: word_le_nat_alt)
  then have rem: "unat (mem_remaining ?m) = unat (mem_remaining m) - 4 * length ws" using n by (simp add: unat_sub)
  have "0 < unat (mem_offset m)" using Cons.prems(2) by (simp add: unat_gt_0)
  with off have "mem_offset ?m \<noteq> 0" by (metis add_gr_0 less_not_refl unat_0)
  with Cons.IH [of ?m] Cons.prems off rem one
  show ?case by (simp add: length_word_bytes ESP_OK_def write_words_append algebra_simps)
qed (simp add: ESP_OK_def)

section \<open>Properties\<close>

text \<open>
  \<open>handle_flash_erase\<close> on a sector-aligned region inside the flash ends, reports success,
  and sets exactly the bytes of the region to ones.
\<close>

theorem handle_flash_erase_erases:
  assumes "flash_host hw contents pending settling wel addr_reg status"
    and "4096 dvd unat addr" and "4096 dvd unat len" and "unat addr + unat len \<le> length (contents s)"
    and "length (contents s) < 4294967296"
  shows "\<exists>s'. handle_flash_erase hw addr len s = Some (0, s') \<and>
    contents s' = erased (contents s) (unat addr div 4096) (unat len div 4096)"
  using assms(2-) by (rule flash_host.flash_erase_erases [OF assms(1)])

text \<open>
  Property C26: reading the flash with a host that acknowledges each block ends.  The bytes on the line
  are the region in blocks of the requested size, each a SLIP frame, in order and without a gap, then
  the frame with the digest of the whole region; every acknowledgement is consumed and nothing more,
  and reception by interrupt is on again.
\<close>

theorem handle_flash_read_protocol:
  assumes "flash_host hw contents pending settling wel addr_reg status" and "md5_streams md5"
    and "unat addr + unat len \<le> length (contents s)" and "length (contents s) < 4294967296"
    and "4 dvd unat addr" and "4 dvd unat len" and "4 dvd unat b" and "0 < unat b" and "unat b \<le> 4096"
    and "0 < unat window" and "k = (unat len + unat b - 1) div unat b" and "rx io = acks (unat b) (unat len) 0 k @ rest"
    and "D = mem_read (contents s) (unat addr) (unat len)"
  shows "\<exists>s' io'. handle_flash_read hw md5 addr len b window s io = Some (s', io') \<and> contents s' = contents s \<and>
    rx io' = rest \<and> rx_async io' \<and>
    tx io' = tx io @ concat (map (\<lambda>i. SLIP_send (data_block (unat b) D i)) [0..<k]) @
      SLIP_send (MD5Final md5 (MD5Update md5 (MD5Init md5) D))"
  using assms(2-) by (rule flash_host.flash_read_sends [OF assms(1)])

text \<open>A digest that only collects the bytes, to run the protocol.\<close>

definition collect_md5 :: "u8 list md5_lib" where
  "collect_md5 = \<lparr>MD5Init = [], MD5Update = (@), MD5Final = take 16\<rparr>"

lemma length_sim_start: "length (sim_data sim_start) = 0x30000"
  by (simp add: sim_start_def)

theorem handle_flash_read_protocol_witness:
  "\<exists>s' io'. handle_flash_read sim_hw collect_md5 0x1000 12 8 2 sim_start
      \<lparr>tx = [], rx = acks 8 12 0 2 @ [7], rx_async = True\<rparr> = Some (s', io') \<and>
    rx io' = [7] \<and>
    tx io' = SLIP_send (replicate 8 0x5a) @ SLIP_send (replicate 4 0x5a) @ SLIP_send (replicate 12 0x5a)"
proof -
  have md5: "md5_streams collect_md5" by (simp add: md5_streams_def collect_md5_def)
  have D: "mem_read (sim_data sim_start) 0x1000 12 = replicate 12 0x5a"
    by (simp add: sim_start_def mem_read_def)
  have b: "data_block 8 (replicate 12 (0x5a :: u8)) 0 = replicate 8 0x5a" "data_block 8 (replicate 12 (0x5a :: u8)) 1 = replicate 4 0x5a"
    by (simp_all add: data_block_def)
  have N: "unat (0x1000 :: u32) = 0x1000" "unat (12 :: u32) = 12" "unat (8 :: u32) = 8" "unat (2 :: u32) = 2" by simp_all
  let ?D = "mem_read (sim_data sim_start) 0x1000 12" and ?io = "\<lparr>tx = [], rx = acks 8 12 0 2 @ [7], rx_async = True\<rparr>"
  have "\<exists>s' io'. handle_flash_read sim_hw collect_md5 0x1000 12 8 2 sim_start ?io = Some (s', io') \<and>
    sim_data s' = sim_data sim_start \<and> rx io' = [7] \<and> rx_async io' \<and>
    tx io' = tx ?io @ concat (map (\<lambda>i. SLIP_send (data_block 8 ?D i)) [0..<2]) @
      SLIP_send (MD5Final collect_md5 (MD5Update collect_md5 (MD5Init collect_md5) ?D))"
    by (rule handle_flash_read_protocol [OF sim_host.flash_host_axioms md5, of "0x1000" 12 sim_start 8 2 2 ?io "[7]" ?D,
          unfolded N length_sim_start]) simp_all
  moreover have "MD5Final collect_md5 (MD5Update collect_md5 (MD5Init collect_md5) ?D) = replicate 12 0x5a"
    unfolding D by (simp add: collect_md5_def)
  moreover have "concat (map (\<lambda>i. SLIP_send (data_block 8 ?D i)) [0..<2]) = SLIP_send (replicate 8 0x5a) @ SLIP_send (replicate 4 0x5a)"
    unfolding D by (simp add: upt_conv_Cons b [simplified])
  ultimately show ?thesis by auto
qed



text \<open>
  The digest command sends the digest of the whole region in one frame body, although
  it reads the flash in sectors.
\<close>

theorem handle_flash_get_md5sum_digests:
  assumes "flash_host hw contents pending settling wel addr_reg status" and "md5_streams md5"
    and "4 dvd unat addr" and "4 dvd unat len" and "unat addr + unat len \<le> length (contents s)"
    and "length (contents s) < 4294967296"
  shows "\<exists>s'. handle_flash_get_md5sum hw md5 addr len s io = (0, s',
      send (SLIP_send_frame_data_buf (MD5Final md5 (MD5Update md5 (MD5Init md5) (mem_read (contents s) (unat addr) (unat len))))) io) \<and>
    contents s' = contents s"
  using flash_host.md5_loop_digests [OF assms refl, of "MD5Init md5"] by (auto simp: handle_flash_get_md5sum_def)

theorem handle_flash_get_md5sum_digests_witness:
  "\<exists>s'. handle_flash_get_md5sum sim_hw collect_md5 0 0x2004 sim_start \<lparr>tx = [], rx = [], rx_async = True\<rparr> = (0, s',
      send (SLIP_send_frame_data_buf (replicate 16 0x5a)) \<lparr>tx = [], rx = [], rx_async = True\<rparr>)"
proof -
  have md5: "md5_streams collect_md5" by (simp add: md5_streams_def collect_md5_def)
  have "MD5Final collect_md5 (MD5Update collect_md5 (MD5Init collect_md5) (mem_read (sim_data sim_start) 0 0x2004)) = replicate 16 0x5a"
    by (simp add: collect_md5_def mem_read_def sim_start_def min_def)
  with handle_flash_get_md5sum_digests [OF sim_host.flash_host_axioms md5, of 0 "0x2004" sim_start "\<lparr>tx = [], rx = [], rx_async = True\<rparr>"]
  show ?thesis by (auto simp: sim_start_def)
qed

text \<open>
  Property C27: loading code into RAM.  After \<open>handle_mem_begin\<close> with the total size, blocks of whole
  words and \<open>handle_mem_finish\<close>, every step has reported success, the words stand at consecutive
  addresses from the given one on, and no other word has changed.
\<close>

theorem mem_session_stores:
  assumes "unat offset + 4 * length (concat wss) < 4294967296" and "offset \<noteq> 0"
    and "unat sz = 4 * length (concat wss)"
  shows "\<exists>m1 m2. handle_mem_begin sz offset m = (ESP_OK, m1) \<and> mem_blocks (map word_bytes wss) m1 = (ESP_OK, m2) \<and>
    fst (handle_mem_finish m2) = ESP_OK \<and> words (snd (handle_mem_finish m2)) = write_words (concat wss) offset (words m)"
proof -
  let ?m = "m\<lparr>mem_offset := offset, mem_remaining := sz\<rparr>"
  have "4 * word_of_nat (length (concat wss)) = sz"
    using assms(3) by (metis of_nat_mult of_nat_numeral of_nat_unat ucast_id)
  with mem_blocks_store [of ?m wss] assms show ?thesis
    by (simp add: handle_mem_begin_def handle_mem_finish_def)
qed

theorem mem_session_stores_witness:
  "\<exists>m1 m2. handle_mem_begin 12 0x40100000 \<lparr>mem_offset = 0, mem_remaining = 0, words = (\<lambda>_. 0)\<rparr> = (ESP_OK, m1) \<and>
    mem_blocks [word_bytes [1, 2], word_bytes [3]] m1 = (ESP_OK, m2) \<and>
    words (snd (handle_mem_finish m2)) 0x40100008 = 3"
proof -
  let ?m = "\<lparr>mem_offset = 0, mem_remaining = 0, words = (\<lambda>_. 0)\<rparr>"
  obtain m1 m2 where "handle_mem_begin 12 0x40100000 ?m = (ESP_OK, m1)" "mem_blocks (map word_bytes [[1, 2], [3]]) m1 = (ESP_OK, m2)"
    "words (snd (handle_mem_finish m2)) = write_words (concat [[1, 2], [3]]) 0x40100000 (\<lambda>_. 0)"
    using mem_session_stores [of "0x40100000" "[[1, 2], [3]]" 12 ?m] by auto
  moreover have "write_words (concat [[1, 2], [3]]) 0x40100000 (\<lambda>_. 0) 0x40100008 = 3" by simp
  moreover have "map word_bytes [[1, 2], [3]] = [word_bytes [1, 2], word_bytes [3]]" by (simp only: list.map)
  ultimately show ?thesis by metis
qed

end
