(* ===== verification/Stub_Deflate.thy ===== *)
theory Stub_Deflate
  imports Stub_Write_Flash
begin

text \<open>
  Compressed uploads of the flasher stub (\<open>handle_flash_deflated_begin\<close> and
  \<open>handle_flash_deflated_data\<close>).  The inflator of miniz is the parameter \<open>lib\<close>, with the
  contract of \<open>tinfl_decompress\<close> that \<open>miniz.h\<close> documents as the definition \<open>inflates\<close>.
\<close>

definition TINFL_FLAG_PARSE_ZLIB_HEADER :: u32 where "TINFL_FLAG_PARSE_ZLIB_HEADER = 1"
definition TINFL_FLAG_HAS_MORE_INPUT :: u32 where "TINFL_FLAG_HAS_MORE_INPUT = 2"
definition TINFL_STATUS_DONE :: int where "TINFL_STATUS_DONE = 0"
definition TINFL_STATUS_NEEDS_MORE_INPUT :: int where "TINFL_STATUS_NEEDS_MORE_INPUT = 1"
definition TINFL_STATUS_HAS_MORE_OUTPUT :: int where "TINFL_STATUS_HAS_MORE_OUTPUT = 2"

lemmas tinfl_defs = TINFL_FLAG_PARSE_ZLIB_HEADER_def TINFL_FLAG_HAS_MORE_INPUT_def
  TINFL_STATUS_DONE_def TINFL_STATUS_NEEDS_MORE_INPUT_def TINFL_STATUS_HAS_MORE_OUTPUT_def

text \<open>
  \<open>tinfl_decompress lib i input out pos space flags\<close> is the status, the new state, the number of
  input bytes used, the output buffer and the number of bytes written to it from \<open>pos\<close> on.
\<close>

record 'i inflate_lib =
  tinfl_init :: "'i \<Rightarrow> 'i"
  tinfl_decompress :: "'i \<Rightarrow> u8 list \<Rightarrow> u8 list \<Rightarrow> nat \<Rightarrow> nat \<Rightarrow> u32 \<Rightarrow> int \<times> 'i \<times> nat \<times> u8 list \<times> nat"

definition handle_flash_deflated_begin ::
  "'s stub_hw \<Rightarrow> 'i inflate_lib \<Rightarrow> u32 \<Rightarrow> u32 \<Rightarrow> u32 \<Rightarrow> 'i flash_session \<Rightarrow> 's \<Rightarrow> int \<times> 'i flash_session \<times> 's" where
  "handle_flash_deflated_begin hw lib uncompressed_size compressed_size offset fs s =
     (let (err, fs, s) = handle_flash_begin hw uncompressed_size offset fs s;
          fs = fs\<lparr>inflator := tinfl_init lib (inflator fs), remaining_compressed := compressed_size\<rparr>
      in (err, fs, s))"

partial_function (option) deflated_loop ::
  "'s stub_hw \<Rightarrow> 'i inflate_lib \<Rightarrow> u8 list \<Rightarrow> u32 \<Rightarrow> int \<Rightarrow> 'i flash_session \<Rightarrow> 's \<Rightarrow> (int \<times> 'i flash_session \<times> 's) option" where
  "deflated_loop hw lib data_buf len status fs s =
     (if len > 0 \<and> remaining fs > 0 \<and> status > TINFL_STATUS_DONE then
        let in_bytes = len;
            out_bytes = length (out_buf fs) - next_out fs;
            flags = TINFL_FLAG_PARSE_ZLIB_HEADER;
            flags = (if remaining_compressed fs > len then flags OR TINFL_FLAG_HAS_MORE_INPUT else flags)
        in case start_next_erase hw fs s of
             None \<Rightarrow> None
           | Some (fs, s) \<Rightarrow>
               let (status, inf, in_bytes, buf, out_bytes) =
                     tinfl_decompress lib (inflator fs) (take (unat in_bytes) data_buf) (out_buf fs) (next_out fs) out_bytes flags;
                   fs = fs\<lparr>inflator := inf, out_buf := buf,
                     remaining_compressed := remaining_compressed fs - word_of_nat in_bytes,
                     next_out := next_out fs + out_bytes\<rparr>;
                   len = len - word_of_nat in_bytes;
                   data_buf = drop in_bytes data_buf;
                   bytes_in_out_buf = next_out fs
               in if status \<le> TINFL_STATUS_DONE \<or> bytes_in_out_buf = length (out_buf fs) then
                    case handle_flash_data hw (out_buf fs) (word_of_nat bytes_in_out_buf) fs s of
                      None \<Rightarrow> None
                    | Some (fs, s) \<Rightarrow> deflated_loop hw lib data_buf len status (fs\<lparr>next_out := 0\<rparr>) s
                  else deflated_loop hw lib data_buf len status fs s
      else Some (status, fs, s))"

definition handle_flash_deflated_data ::
  "'s stub_hw \<Rightarrow> 'i inflate_lib \<Rightarrow> u8 list \<Rightarrow> u32 \<Rightarrow> 'i flash_session \<Rightarrow> 's \<Rightarrow> ('i flash_session \<times> 's) option" where
  "handle_flash_deflated_data hw lib data_buf len fs s =
     (case deflated_loop hw lib data_buf len TINFL_STATUS_NEEDS_MORE_INPUT fs s of
        None \<Rightarrow> None
      | Some (status, fs, s) \<Rightarrow>
          let fs = (if status < TINFL_STATUS_DONE then fs\<lparr>last_error := ESP_INFLATE_ERROR\<rparr> else fs);
              fs = (if status = TINFL_STATUS_DONE \<and> remaining fs > 0 then fs\<lparr>last_error := ESP_NOT_ENOUGH_DATA\<rparr> else fs);
              fs = (if status \<noteq> TINFL_STATUS_DONE \<and> remaining fs = 0 then fs\<lparr>last_error := ESP_TOO_MUCH_DATA\<rparr> else fs)
          in Some (fs, s))"

primrec deflated_blocks ::
  "'s stub_hw \<Rightarrow> 'i inflate_lib \<Rightarrow> u8 list list \<Rightarrow> 'i flash_session \<Rightarrow> 's \<Rightarrow> ('i flash_session \<times> 's) option" where
  "deflated_blocks hw lib [] fs s = Some (fs, s)"
| "deflated_blocks hw lib (b # bs) fs s =
     (case handle_flash_deflated_data hw lib b (word_of_nat (length b)) fs s of
        None \<Rightarrow> None
      | Some (fs, s) \<Rightarrow> deflated_blocks hw lib bs fs s)"

section \<open>The contract of the inflator\<close>

text \<open>
  \<open>R i z d\<close>: in state \<open>i\<close> the bytes \<open>z\<close> are still to come and \<open>d\<close> is still to be produced.  A call
  uses a prefix of its input and writes a prefix of the output; it stops when all is done, when it
  has used the input and there is more to come, or when the output buffer is full.  While output is
  pending, so is input: the end-of-block code and the 32 bits of the checksum do not fit into the
  30 bits that the inflator reads ahead.
\<close>

definition inflates :: "'i inflate_lib \<Rightarrow> ('i \<Rightarrow> u8 list \<Rightarrow> u8 list \<Rightarrow> bool) \<Rightarrow> bool" where
  "inflates lib R \<longleftrightarrow>
     (\<forall>i d. R i [] d \<longrightarrow> d = []) \<and>
     (\<forall>i inp z d buf pos flags.
       R i (inp @ z) d \<and> inp \<noteq> [] \<and> pos < length buf \<and> (z \<noteq> [] \<longleftrightarrow> flags AND TINFL_FLAG_HAS_MORE_INPUT \<noteq> 0) \<longrightarrow>
       (\<exists>st i' k m. tinfl_decompress lib i inp buf pos (length buf - pos) flags =
            (st, i', k, mem_write buf pos (take m d), m) \<and>
          k \<le> length inp \<and> m \<le> length d \<and> pos + m \<le> length buf \<and> R i' (drop k inp @ z) (drop m d) \<and>
          (st = TINFL_STATUS_DONE \<and> m = length d \<and> k = length inp \<and> z = [] \<or>
           st = TINFL_STATUS_NEEDS_MORE_INPUT \<and> k = length inp \<and> z \<noteq> [] \<and> pos + m < length buf \<or>
           st = TINFL_STATUS_HAS_MORE_OUTPUT \<and> pos + m = length buf)))"

text \<open>The state between two calls: \<open>W\<close> written, then the bytes in the buffer, then \<open>d\<close> to come.\<close>

definition inflating_at ::
  "('i \<Rightarrow> u8 list \<Rightarrow> u8 list \<Rightarrow> bool) \<Rightarrow> ('s \<Rightarrow> u8 list) \<Rightarrow> u8 list \<Rightarrow> nat \<Rightarrow> u8 list \<Rightarrow> u8 list \<Rightarrow> u8 list \<Rightarrow> u8 list \<Rightarrow>
     'i flash_session \<Rightarrow> 's \<Rightarrow> bool" where
  "inflating_at R contents I off F z W d fs s \<longleftrightarrow>
     session contents I off (length F) W fs s \<and> R (inflator fs) z d \<and> 32768 dvd length W \<and>
     F = W @ take (next_out fs) (out_buf fs) @ d \<and>
     length (out_buf fs) = 32768 \<and> next_out fs < 32768 \<and> unat (remaining_compressed fs) = length z"

lemma session_fields [simp]:
  "session contents I off n W (fs\<lparr>inflator := i\<rparr>) s = session contents I off n W fs s"
  "session contents I off n W (fs\<lparr>out_buf := b\<rparr>) s = session contents I off n W fs s"
  "session contents I off n W (fs\<lparr>next_out := p\<rparr>) s = session contents I off n W fs s"
  "session contents I off n W (fs\<lparr>remaining_compressed := c\<rparr>) s = session contents I off n W fs s"
  by (simp_all add: session_def)

text \<open>The write path leaves the decompressor's part of the session alone.\<close>

definition same_inflator :: "'i flash_session \<Rightarrow> 'i flash_session \<Rightarrow> bool" where
  "same_inflator fs fs' \<longleftrightarrow> inflator fs' = inflator fs \<and> out_buf fs' = out_buf fs \<and> next_out fs' = next_out fs \<and>
     remaining_compressed fs' = remaining_compressed fs"

lemma next_erase_same: "start_next_erase hw fs s = Some (fs', s') \<Longrightarrow> same_inflator fs fs'"
  by (auto simp: start_next_erase_def same_inflator_def Let_def split: if_splits option.splits)

lemma erase_ahead_same:
  assumes "erase_ahead hw last_sector fs s = Some r"
  shows "same_inflator fs (fst r)"
  using assms
proof (rule erase_ahead.raw_induct [where P = "\<lambda>hw last_sector fs s r. same_inflator fs (fst r)", rotated])
  fix rec :: "'s stub_hw \<Rightarrow> int \<Rightarrow> 'i flash_session \<Rightarrow> 's \<Rightarrow> ('i flash_session \<times> 's) option"
    and hw :: "'s stub_hw" and last_sector fs s y
  assume ih: "\<And>hw l fs s r. rec hw l fs s = Some r \<Longrightarrow> same_inflator fs (fst r)"
    and y: "(if remaining_erase_sector fs > 0 \<and> next_erase_sector fs \<le> last_sector
       then case start_next_erase hw fs s of None \<Rightarrow> None | Some (fs, s) \<Rightarrow> rec hw last_sector fs s
       else Some (fs, s)) = Some y"
  show "same_inflator fs (fst y)"
  proof (cases "remaining_erase_sector fs > 0 \<and> next_erase_sector fs \<le> last_sector")
    case True
    with y obtain fs1 s1 where st: "start_next_erase hw fs s = Some (fs1, s1)" "rec hw last_sector fs1 s1 = Some y"
      by (auto split: option.splits)
    from next_erase_same [OF st(1)] ih [OF st(2)] show ?thesis by (simp add: same_inflator_def)
  next
    case False
    with y show ?thesis by (auto simp: same_inflator_def)
  qed
qed

lemma flash_data_same: "handle_flash_data hw data len fs s = Some (fs', s') \<Longrightarrow> same_inflator fs fs'"
  using erase_ahead_same
  by (fastforce simp: handle_flash_data_def Let_def same_inflator_def split: if_splits option.splits prod.splits)

context flash_host
begin

lemma next_erase_session:
  assumes "session contents I off n W fs s"
  shows "\<exists>fs' s'. start_next_erase hw fs s = Some (fs', s') \<and> session contents I off n W fs' s' \<and>
    same_inflator fs fs' \<and> remaining fs' = remaining fs"
proof (cases "remaining_erase_sector fs = 0")
  case True
  with assms show ?thesis by (simp add: start_next_erase_def same_inflator_def)
next
  case False
  moreover have "remaining_erase_sector fs \<ge> 0" using assms by (auto simp: session_def)
  ultimately have "remaining_erase_sector fs > 0" by simp
  from next_erase_keeps [OF assms this] show ?thesis using next_erase_same by fast
qed

lemma session_words: "session contents I off n W fs s \<Longrightarrow> 4 dvd n \<and> 4 dvd length W"
  by (simp add: session_def)

lemma session_remaining: "session contents I off n W fs s \<Longrightarrow> remaining fs > 0 \<longleftrightarrow> length W < n"
  by (auto simp: session_def word_less_nat_alt)

lemma deflated_loop_step:
  assumes "len > 0" "remaining fs > 0" "st0 > TINFL_STATUS_DONE" "start_next_erase hw fs s = Some (fs1, s1)"
    and "flags = (if remaining_compressed fs > len then TINFL_FLAG_PARSE_ZLIB_HEADER OR TINFL_FLAG_HAS_MORE_INPUT
      else TINFL_FLAG_PARSE_ZLIB_HEADER)"
    and "tinfl_decompress lib (inflator fs1) (take (unat len) data) (out_buf fs1) (next_out fs1)
      (length (out_buf fs) - next_out fs) flags = (st, i', k, buf', m)"
    and "fs2 = fs1\<lparr>inflator := i', out_buf := buf', remaining_compressed := remaining_compressed fs1 - word_of_nat k,
        next_out := next_out fs1 + m\<rparr>"
  shows "deflated_loop hw lib data len st0 fs s =
    (if st \<le> TINFL_STATUS_DONE \<or> next_out fs1 + m = length buf' then
       case handle_flash_data hw buf' (word_of_nat (next_out fs1 + m)) fs2 s1 of
         None \<Rightarrow> None
       | Some (fs, s) \<Rightarrow> deflated_loop hw lib (drop k data) (len - word_of_nat k) st (fs\<lparr>next_out := 0\<rparr>) s
     else deflated_loop hw lib (drop k data) (len - word_of_nat k) st fs2 s1)"
  using assms by (subst deflated_loop.simps) (simp add: Let_def)

text \<open>One call of the inflator, after which the produced bytes stand behind those in the buffer.\<close>

lemma inflate_call:
  assumes "inflates lib R" "R i (inp @ z) d" "inp \<noteq> []" "pos < length buf"
    "flags = (if z \<noteq> [] then TINFL_FLAG_PARSE_ZLIB_HEADER OR TINFL_FLAG_HAS_MORE_INPUT else TINFL_FLAG_PARSE_ZLIB_HEADER)"
  obtains st i' k m buf' where
    "tinfl_decompress lib i inp buf pos (length buf - pos) flags = (st, i', k, buf', m)"
    "k \<le> length inp" "m \<le> length d" "pos + m \<le> length buf" "R i' (drop k inp @ z) (drop m d)" "length buf' = length buf"
    "take (pos + m) buf' = take pos buf @ take m d"
    "st = TINFL_STATUS_DONE \<and> m = length d \<and> k = length inp \<and> z = [] \<or>
     st = TINFL_STATUS_NEEDS_MORE_INPUT \<and> k = length inp \<and> z \<noteq> [] \<and> pos + m < length buf \<or>
     st = TINFL_STATUS_HAS_MORE_OUTPUT \<and> pos + m = length buf"
proof -
  have "(TINFL_FLAG_PARSE_ZLIB_HEADER OR TINFL_FLAG_HAS_MORE_INPUT) AND TINFL_FLAG_HAS_MORE_INPUT \<noteq> 0"
    "TINFL_FLAG_PARSE_ZLIB_HEADER AND TINFL_FLAG_HAS_MORE_INPUT = 0"
    by (simp_all add: tinfl_defs)
  then have "z \<noteq> [] \<longleftrightarrow> flags AND TINFL_FLAG_HAS_MORE_INPUT \<noteq> 0" using assms(5) by simp
  with assms(1-4) obtain st i' k m where
    c: "tinfl_decompress lib i inp buf pos (length buf - pos) flags = (st, i', k, mem_write buf pos (take m d), m)"
      "k \<le> length inp" "m \<le> length d" "pos + m \<le> length buf" "R i' (drop k inp @ z) (drop m d)"
      "st = TINFL_STATUS_DONE \<and> m = length d \<and> k = length inp \<and> z = [] \<or>
       st = TINFL_STATUS_NEEDS_MORE_INPUT \<and> k = length inp \<and> z \<noteq> [] \<and> pos + m < length buf \<or>
       st = TINFL_STATUS_HAS_MORE_OUTPUT \<and> pos + m = length buf"
    unfolding inflates_def by blast
  have "take (pos + m) (mem_write buf pos (take m d)) = take pos buf @ take m d"
    using c(3,4) by (simp add: mem_write_def)
  with c that show thesis by simp
qed

lemma handle_flash_data_take:
  "handle_flash_data hw (take (unat len) data) len fs s = handle_flash_data hw data len fs s"
proof -
  have "take (unat (if len > remaining fs then remaining fs else len)) (take (unat len) data) =
      take (unat (if len > remaining fs then remaining fs else len)) data"
    by (auto simp: min_def word_less_nat_alt)
  then show ?thesis unfolding handle_flash_data_def Let_def by (simp only:)
qed

lemma flush_keeps:
  assumes "session contents I off n W fs s" "take p buf = bs" "p \<le> length buf" "4 dvd p" "p < 4294967296"
    "length W + p \<le> n"
  shows "\<exists>fs' s'. handle_flash_data hw buf (word_of_nat p) fs s = Some (fs', s') \<and>
    session contents I off n (W @ bs) fs' s' \<and> same_inflator fs fs'"
proof -
  have p: "unat (word_of_nat p :: u32) = p" "length bs = p" using assms(2,3,5) by (auto simp: unat_of_nat)
  with handle_flash_data_take [of "word_of_nat p" buf fs s]
  have eq: "handle_flash_data hw buf (word_of_nat p) fs s = handle_flash_data hw bs (word_of_nat (length bs)) fs s"
    using assms(2) by simp
  have "take (n - length W) bs = bs" using assms(6) p(2) by simp
  with flash_data_keeps [OF assms(1), of bs] p(2) assms(4,5) flash_data_same eq show ?thesis by auto
qed

lemma word_of_nat_minus: "k \<le> n \<Longrightarrow> (word_of_nat n - word_of_nat k :: u32) = word_of_nat (n - k)"
  by (simp add: of_nat_diff)

lemma deflated_loop_keeps:
  assumes "inflates lib R" "inflating_at R contents I off F (data @ z) W d fs s"
    and "\<not> 32768 dvd length F" "length (data @ z) < 4294967296" "st0 > TINFL_STATUS_DONE" "data @ z \<noteq> []"
  shows "\<exists>st fs' s'. deflated_loop hw lib data (word_of_nat (length data)) st0 fs s = Some (st, fs', s') \<and>
    (st > TINFL_STATUS_DONE \<and> z \<noteq> [] \<and> (\<exists>W d. inflating_at R contents I off F z W d fs' s') \<or>
     st = TINFL_STATUS_DONE \<and> z = [] \<and> session contents I off (length F) F fs' s')"
  using assms(2,4-6)
proof (induction "length d" arbitrary: data W d fs s st0 rule: less_induct)
  case less
  note A = less.prems(1) [unfolded inflating_at_def]
  let ?n = "length F" and ?pos = "next_out fs"
  from A have lo: "length (out_buf fs) = 32768" "?pos < 32768"
    and rcfs: "unat (remaining_compressed fs) = length (data @ z)" and W32: "32768 dvd length W" by blast+
  show ?case
  proof (cases "data = []")
    case True
    with less.prems show ?thesis by (subst deflated_loop.simps) auto
  next
    case False
    have "0 < length data" "length data < 4294967296" using False less.prems(2) by simp_all
    then have len: "(word_of_nat (length data) :: u32) > 0" "unat (word_of_nat (length data) :: u32) = length data"
      by (simp_all add: word_less_nat_alt unat_of_nat)
    have "length W \<noteq> ?n" using A assms(3) by auto
    moreover have "length W \<le> ?n" using A by (metis le_add1 length_append)
    ultimately have rem: "remaining fs > 0" using session_remaining [OF conjunct1 [OF A]] by simp
    obtain fs1 s1 where e: "start_next_erase hw fs s = Some (fs1, s1)" "session contents I off ?n W fs1 s1"
      "same_inflator fs fs1" using next_erase_session A by blast
    note same = e(3) [unfolded same_inflator_def]
    define flags where "flags = (if remaining_compressed fs > word_of_nat (length data)
        then TINFL_FLAG_PARSE_ZLIB_HEADER OR TINFL_FLAG_HAS_MORE_INPUT else TINFL_FLAG_PARSE_ZLIB_HEADER)"
    have "remaining_compressed fs > word_of_nat (length data) \<longleftrightarrow> z \<noteq> []"
      using rcfs len(2) by (simp add: word_less_nat_alt)
    then have flags: "flags = (if z \<noteq> [] then TINFL_FLAG_PARSE_ZLIB_HEADER OR TINFL_FLAG_HAS_MORE_INPUT else TINFL_FLAG_PARSE_ZLIB_HEADER)"
      by (simp add: flags_def)
    have call: "R (inflator fs) (data @ z) d" "?pos < length (out_buf fs)" using A lo by simp_all
    obtain st i' k m buf' where
      c: "tinfl_decompress lib (inflator fs) data (out_buf fs) ?pos (length (out_buf fs) - ?pos) flags = (st, i', k, buf', m)"
      "k \<le> length data" "m \<le> length d" "?pos + m \<le> length (out_buf fs)" "R i' (drop k data @ z) (drop m d)"
      "length buf' = length (out_buf fs)" "take (?pos + m) buf' = take ?pos (out_buf fs) @ take m d"
      "st = TINFL_STATUS_DONE \<and> m = length d \<and> k = length data \<and> z = [] \<or>
       st = TINFL_STATUS_NEEDS_MORE_INPUT \<and> k = length data \<and> z \<noteq> [] \<and> ?pos + m < length (out_buf fs) \<or>
       st = TINFL_STATUS_HAS_MORE_OUTPUT \<and> ?pos + m = length (out_buf fs)"
      by (rule inflate_call [OF assms(1) call(1) False call(2) flags]) (rule that)
    let ?p = "?pos + m"
    let ?fs2 = "fs1\<lparr>inflator := i', out_buf := buf', remaining_compressed := remaining_compressed fs1 - word_of_nat k,
        next_out := next_out fs1 + m\<rparr>"
    have s2: "session contents I off ?n W ?fs2 s1" using e(2) by simp
    have "k < 4294967296" using c(2) less.prems(2) by simp
    then have kz: "unat (word_of_nat k :: u32) = k" by (simp add: unat_of_nat)
    have "word_of_nat k \<le> remaining_compressed fs" unfolding word_le_nat_alt kz rcfs using c(2) by simp
    from unat_sub [OF this] have "unat (remaining_compressed fs - word_of_nat k) = length (data @ z) - k"
      unfolding kz rcfs .
    then have rc: "unat (remaining_compressed ?fs2) = length (drop k data @ z)" using same c(2) by simp
    have F: "F = W @ take ?p buf' @ drop m d" using A c(7) by simp
    have p: "?p \<le> 32768" "length (take ?p buf') = ?p" using lo c(4,6) by simp_all
    have lF: "length W + ?p + (length d - m) = ?n" using arg_cong [OF F, of length] p(2) by simp
    have c1: "tinfl_decompress lib (inflator fs1) (take (unat (word_of_nat (length data) :: u32)) data) (out_buf fs1)
        (next_out fs1) (length (out_buf fs) - next_out fs) flags = (st, i', k, buf', m)"
      using c(1) same len(2) by simp
    have step: "deflated_loop hw lib data (word_of_nat (length data)) st0 fs s =
        (if st \<le> TINFL_STATUS_DONE \<or> ?p = length buf' then
           case handle_flash_data hw buf' (word_of_nat ?p) ?fs2 s1 of
             None \<Rightarrow> None
           | Some (fs, s) \<Rightarrow> deflated_loop hw lib (drop k data) (word_of_nat (length (drop k data))) st (fs\<lparr>next_out := 0\<rparr>) s
         else deflated_loop hw lib (drop k data) (word_of_nat (length (drop k data))) st ?fs2 s1)"
      using deflated_loop_step [OF len(1) rem less.prems(3) e(1) flags_def c1 refl] same
      by (simp only: word_of_nat_minus [OF c(2)] length_drop)
    have flush: "\<exists>fs3 s3. handle_flash_data hw buf' (word_of_nat ?p) ?fs2 s1 = Some (fs3, s3) \<and>
        session contents I off ?n (W @ take ?p buf') fs3 s3 \<and> same_inflator ?fs2 fs3" if "4 dvd ?p"
      using that p lF by (intro flush_keeps [OF s2]) simp_all
    from c(8) show ?thesis
    proof (elim disjE conjE)
      assume st: "st = TINFL_STATUS_DONE" "m = length d" "k = length data" "z = []"
      then have WF: "W @ take ?p buf' = F" "length W + ?p = ?n" using F lF by simp_all
      have "4 dvd ?n" "4 dvd length W" using session_words [OF conjunct1 [OF A]] by blast+
      then have "4 dvd ?p" using WF(2) by (metis dvd_add_right_iff)
      from flush [OF this] WF obtain fs3 s3 where
        "handle_flash_data hw buf' (word_of_nat ?p) ?fs2 s1 = Some (fs3, s3)" "session contents I off ?n F fs3 s3" by auto
      moreover have "deflated_loop hw lib [] 0 st (fs3\<lparr>next_out := 0\<rparr>) s3 = Some (st, fs3\<lparr>next_out := 0\<rparr>, s3)"
        by (subst deflated_loop.simps) simp
      ultimately show ?thesis using step st by simp
    next
      assume st: "st = TINFL_STATUS_NEEDS_MORE_INPUT" "k = length data" "z \<noteq> []" "?p < length (out_buf fs)"
      then have "deflated_loop hw lib data (word_of_nat (length data)) st0 fs s =
          deflated_loop hw lib [] 0 st ?fs2 s1"
        using step c(6) by (simp add: tinfl_defs)
      also have "\<dots> = Some (st, ?fs2, s1)" by (subst deflated_loop.simps) simp
      finally have "deflated_loop hw lib data (word_of_nat (length data)) st0 fs s = Some (st, ?fs2, s1)" .
      moreover have "inflating_at R contents I off F z W (drop m d) ?fs2 s1"
        unfolding inflating_at_def using W32 lo s2 c(5,6) st rc F same by simp
      ultimately show ?thesis using st by (auto simp: tinfl_defs)
    next
      assume st: "st = TINFL_STATUS_HAS_MORE_OUTPUT" "?p = length (out_buf fs)"
      then have p32: "?p = 32768" "0 < m" using lo by simp_all
      from flush p32 obtain fs3 s3 where
        f3: "handle_flash_data hw buf' (word_of_nat ?p) ?fs2 s1 = Some (fs3, s3)"
          "session contents I off ?n (W @ take ?p buf') fs3 s3" "same_inflator ?fs2 fs3" by auto
      have at: "inflating_at R contents I off F (drop k data @ z) (W @ take ?p buf') (drop m d) (fs3\<lparr>next_out := 0\<rparr>) s3"
        unfolding inflating_at_def using W32 lo f3 c(5,6) rc F p p32 by (simp add: same_inflator_def)
      have more: "drop k data @ z \<noteq> []"
      proof
        assume "drop k data @ z = []"
        with c(5) have "R i' [] (drop m d)" by (simp only:)
        with conjunct1 [OF assms(1) [unfolded inflates_def]] have "drop m d = []" by blast
        with lF p32(1) have "length W + 32768 = ?n" by simp
        with W32 assms(3) show False by (metis dvd_add dvd_refl)
      qed
      have "length (drop m d) < length d" using p32(2) c(3) by simp
      from less.hyps [OF this at _ _ more, of st] less.prems(2) st(1) c(2)
      show ?thesis using step st c(6) f3(1) by (auto simp: tinfl_defs)
    qed
  qed
qed

lemma inflating_remaining:
  assumes "inflating_at R contents I off F z W d fs s" "\<not> 32768 dvd length F"
  shows "remaining fs > 0"
proof -
  have "length F = length W + length (take (next_out fs) (out_buf fs) @ d)" "32768 dvd length W"
    and ss: "session contents I off (length F) W fs s"
    using assms(1) unfolding inflating_at_def by (metis length_append, blast, blast)
  with assms(2) have "length W < length F" by (cases "take (next_out fs) (out_buf fs) @ d = []") auto
  with session_remaining [OF ss] show ?thesis by simp
qed

lemma deflated_data_keeps:
  assumes "inflates lib R" "inflating_at R contents I off F (data @ z) W d fs s"
    and "\<not> 32768 dvd length F" "length (data @ z) < 4294967296" "data @ z \<noteq> []"
  shows "\<exists>fs' s'. handle_flash_deflated_data hw lib data (word_of_nat (length data)) fs s = Some (fs', s') \<and>
    (if z = [] then session contents I off (length F) F fs' s'
     else \<exists>W d. inflating_at R contents I off F z W d fs' s')"
proof -
  have start: "TINFL_STATUS_NEEDS_MORE_INPUT > TINFL_STATUS_DONE" by (simp add: tinfl_defs)
  from deflated_loop_keeps [OF assms(1-4) start assms(5)] obtain st fs' s' where
    r: "deflated_loop hw lib data (word_of_nat (length data)) TINFL_STATUS_NEEDS_MORE_INPUT fs s = Some (st, fs', s')"
    and c: "st > TINFL_STATUS_DONE \<and> z \<noteq> [] \<and> (\<exists>W d. inflating_at R contents I off F z W d fs' s') \<or>
     st = TINFL_STATUS_DONE \<and> z = [] \<and> session contents I off (length F) F fs' s'" by blast
  have "st > TINFL_STATUS_DONE \<and> remaining fs' > 0 \<or> st = TINFL_STATUS_DONE \<and> \<not> remaining fs' > 0"
    using c inflating_remaining [OF _ assms(3)] session_remaining [of I off "length F" F fs' s'] by blast
  with r have "handle_flash_deflated_data hw lib data (word_of_nat (length data)) fs s = Some (fs', s')"
    by (auto simp: handle_flash_deflated_data_def)
  with c show ?thesis by auto
qed

lemma deflated_blocks_keep:
  assumes "inflates lib R" "inflating_at R contents I off F (concat blocks) W d fs s"
    and "\<not> 32768 dvd length F" "length (concat blocks) < 4294967296" "[] \<notin> set blocks" "blocks \<noteq> []"
  shows "\<exists>fs' s'. deflated_blocks hw lib blocks fs s = Some (fs', s') \<and> session contents I off (length F) F fs' s'"
  using assms(2,4-6)
proof (induction blocks arbitrary: W d fs s)
  case (Cons b bs)
  have "inflating_at R contents I off F (b @ concat bs) W d fs s" using Cons.prems(1) by simp
  from deflated_data_keeps [OF assms(1) this assms(3)] Cons.prems obtain fs1 s1 where
    b: "handle_flash_deflated_data hw lib b (word_of_nat (length b)) fs s = Some (fs1, s1)"
      "if concat bs = [] then session contents I off (length F) F fs1 s1
       else \<exists>W d. inflating_at R contents I off F (concat bs) W d fs1 s1" by auto
  show ?case
  proof (cases "bs = []")
    case False
    then have "concat bs \<noteq> []" using Cons.prems(3) by (cases bs) auto
    from b(2) [unfolded if_not_P [OF this]]
    obtain W d where "inflating_at R contents I off F (concat bs) W d fs1 s1" by blast
    from Cons.IH [OF this _ _ False] Cons.prems(2,3) b(1) show ?thesis by simp
  qed (use b in simp)
qed simp

end

section \<open>Properties\<close>


text \<open>An inflator for data that is its own compressed form.\<close>

definition copy_lib :: "unit inflate_lib" where
  "copy_lib = \<lparr>tinfl_init = (\<lambda>i. i),
     tinfl_decompress = (\<lambda>i inp buf pos space flags.
       let k = min (length inp) space
       in (if pos + k = length buf \<and> (k < length inp \<or> flags AND TINFL_FLAG_HAS_MORE_INPUT \<noteq> 0) then TINFL_STATUS_HAS_MORE_OUTPUT
           else if flags AND TINFL_FLAG_HAS_MORE_INPUT \<noteq> 0 then TINFL_STATUS_NEEDS_MORE_INPUT else TINFL_STATUS_DONE,
           i, k, mem_write buf pos (take k inp), k))\<rparr>"

lemma copy_lib_inflates: "inflates copy_lib (\<lambda>i z d. z = d)"
  unfolding inflates_def
proof (intro conjI allI impI, simp, elim conjE)
  fix i :: unit and inp z d buf :: "u8 list" and pos flags
  assume "inp @ z = d" "inp \<noteq> []" "pos < length buf" "z \<noteq> [] \<longleftrightarrow> flags AND TINFL_FLAG_HAS_MORE_INPUT \<noteq> 0"
  then show "\<exists>st i' k m. tinfl_decompress copy_lib i inp buf pos (length buf - pos) flags = (st, i', k, mem_write buf pos (take m d), m) \<and>
      k \<le> length inp \<and> m \<le> length d \<and> pos + m \<le> length buf \<and> drop k inp @ z = drop m d \<and>
      (st = TINFL_STATUS_DONE \<and> m = length d \<and> k = length inp \<and> z = [] \<or>
       st = TINFL_STATUS_NEEDS_MORE_INPUT \<and> k = length inp \<and> z \<noteq> [] \<and> pos + m < length buf \<or>
       st = TINFL_STATUS_HAS_MORE_OUTPUT \<and> pos + m = length buf)"
    by (cases "length inp \<le> length buf - pos") (auto simp: copy_lib_def Let_def min_def)
qed



end
