(* ===== verification/Stub_Flasher.thy ===== *)
theory Stub_Flasher
  imports Stub_Receive Stub_Commands Stub_Deflate
begin

text \<open>
  The main loop of the flasher stub (\<open>stub_flasher.c\<close>, ESP8266 build, no USB): one command from a
  receive buffer is checked, answered with a SLIP frame and carried out.  The baud rate change is
  that of \<open>stub_io.c\<close>.  What lies outside the source (registers, ROM functions, the inflator)
  is the environment \<open>env\<close>.
\<close>

section \<open>Commands and state\<close>

definition ESP_FLASH_BEGIN :: u8 where "ESP_FLASH_BEGIN = 0x02"
definition ESP_FLASH_DATA :: u8 where "ESP_FLASH_DATA = 0x03"
definition ESP_FLASH_END :: u8 where "ESP_FLASH_END = 0x04"
definition ESP_MEM_BEGIN :: u8 where "ESP_MEM_BEGIN = 0x05"
definition ESP_MEM_END :: u8 where "ESP_MEM_END = 0x06"
definition ESP_MEM_DATA :: u8 where "ESP_MEM_DATA = 0x07"
definition ESP_WRITE_REG :: u8 where "ESP_WRITE_REG = 0x09"
definition ESP_READ_REG :: u8 where "ESP_READ_REG = 0x0a"
definition ESP_SPI_SET_PARAMS :: u8 where "ESP_SPI_SET_PARAMS = 0x0b"
definition ESP_SPI_ATTACH :: u8 where "ESP_SPI_ATTACH = 0x0d"
definition ESP_SET_BAUD :: u8 where "ESP_SET_BAUD = 0x0f"
definition ESP_FLASH_DEFLATED_BEGIN :: u8 where "ESP_FLASH_DEFLATED_BEGIN = 0x10"
definition ESP_FLASH_DEFLATED_DATA :: u8 where "ESP_FLASH_DEFLATED_DATA = 0x11"
definition ESP_FLASH_DEFLATED_END :: u8 where "ESP_FLASH_DEFLATED_END = 0x12"
definition ESP_FLASH_VERIFY_MD5 :: u8 where "ESP_FLASH_VERIFY_MD5 = 0x13"
definition ESP_ERASE_FLASH :: u8 where "ESP_ERASE_FLASH = 0xD0"
definition ESP_ERASE_REGION :: u8 where "ESP_ERASE_REGION = 0xD1"
definition ESP_READ_FLASH :: u8 where "ESP_READ_FLASH = 0xD2"
definition ESP_RUN_USER_CODE :: u8 where "ESP_RUN_USER_CODE = 0xD3"

lemmas esp_commands = ESP_FLASH_BEGIN_def ESP_FLASH_DATA_def ESP_FLASH_END_def ESP_MEM_BEGIN_def ESP_MEM_END_def
  ESP_MEM_DATA_def ESP_WRITE_REG_def ESP_READ_REG_def ESP_SPI_SET_PARAMS_def ESP_SPI_ATTACH_def ESP_SET_BAUD_def
  ESP_FLASH_DEFLATED_BEGIN_def ESP_FLASH_DEFLATED_DATA_def ESP_FLASH_DEFLATED_END_def ESP_FLASH_VERIFY_MD5_def
  ESP_ERASE_FLASH_def ESP_ERASE_REGION_def ESP_READ_FLASH_def ESP_RUN_USER_CODE_def

record ('s, 'i, 'c) stub_env =
  env_hw :: "'s stub_hw"
  env_lib :: "'i inflate_lib"
  env_md5 :: "'c md5_lib"
  SPIEraseChip :: "'s \<Rightarrow> int \<times> 's"
  SPIParamCfg :: "u32 \<Rightarrow> u32 \<Rightarrow> u32 \<Rightarrow> u32 \<Rightarrow> u32 \<Rightarrow> u32 \<Rightarrow> 's \<Rightarrow> int \<times> 's"
  SelectSpiFunction :: "'s \<Rightarrow> 's"
  uart_div_modify :: "nat \<Rightarrow> u32 \<Rightarrow> 's \<Rightarrow> 's"

record ('s, 'i) stub =
  world :: 's
  flash_fs :: "'i flash_session"
  mem :: mem_session
  line :: serial

text \<open>The fields of \<open>esp_command_req_t\<close> in a receive buffer.\<close>

definition cmd_op :: "u8 list \<Rightarrow> u8" where "cmd_op buf = buf ! 1"
definition cmd_data_len :: "u8 list \<Rightarrow> nat" where "cmd_data_len buf = unat (buf ! 2) + 256 * unat (buf ! 3)"
definition cmd_checksum :: "u8 list \<Rightarrow> int" where "cmd_checksum buf = sint (le32_of (drop 4 buf))"
definition cmd_data_buf :: "u8 list \<Rightarrow> u8 list" where "cmd_data_buf buf = drop 8 buf"
definition data_words :: "u8 list \<Rightarrow> nat \<Rightarrow> u32" where "data_words buf i = le32_of (drop (4 * i) (cmd_data_buf buf))"

lemmas cmd_defs = cmd_op_def cmd_data_len_def cmd_checksum_def cmd_data_buf_def data_words_def

definition response_header :: "u8 \<Rightarrow> u16 \<Rightarrow> u32 \<Rightarrow> u8 list" where
  "response_header op len_ret val = [1, op, ucast len_ret, ucast (drop_bit 8 len_ret)] @ le32_bytes val"

definition verify_data_len :: "u8 list \<Rightarrow> nat \<Rightarrow> int" where
  "verify_data_len buf len = (if cmd_data_len buf = len then ESP_OK else ESP_BAD_DATA_LEN)"

section \<open>The small handlers\<close>

definition handle_spi_set_params :: "('s, 'i, 'c) stub_env \<Rightarrow> u8 list \<Rightarrow> 's \<Rightarrow> int \<times> int \<times> 's" where
  "handle_spi_set_params env buf s =
     (let a = data_words buf;
          (status, s) = SPIParamCfg env (a 0) (a 1) (a 2) (a 3) (a 4) (a 5) s
      in (if status \<noteq> 0 then ESP_FAILED_SPI_OP else ESP_OK, status, s))"

definition handle_spi_attach :: "('s, 'i, 'c) stub_env \<Rightarrow> 's \<Rightarrow> int \<times> 's" where
  "handle_spi_attach env s = (ESP_OK, SelectSpiFunction env s)"

definition UART_CLKDIV_REG :: u32 where "UART_CLKDIV_REG = 0x60000014"
definition UART_CLKDIV_M :: u32 where "UART_CLKDIV_M = 0x000FFFFF"

text \<open>None is the division by zero.\<close>

definition get_new_uart_divider :: "'s stub_hw \<Rightarrow> u32 \<Rightarrow> u32 \<Rightarrow> 's \<Rightarrow> (u32 \<times> 's) option" where
  "get_new_uart_divider hw current_baud new_baud s =
     (let (uart_reg, s) = READ_REG hw UART_CLKDIV_REG s;
          uart_div = uart_reg AND UART_CLKDIV_M;
          master_freq = uart_div * current_baud
      in if new_baud = 0 then None else Some (master_freq div new_baud, s))"

definition stub_io_set_baudrate :: "('s, 'i, 'c) stub_env \<Rightarrow> u32 \<Rightarrow> u32 \<Rightarrow> 's \<Rightarrow> 's option" where
  "stub_io_set_baudrate env current_baud new_baud s =
     (case get_new_uart_divider (env_hw env) current_baud new_baud s of
        None \<Rightarrow> None
      | Some (d, s) \<Rightarrow> Some (uart_div_modify env 0 d s))"

section \<open>One command\<close>

text \<open>
  How the processing of a command ends: the loop goes on, it returns to the boot code, the chip is
  reset, it jumps to loaded code, or the handler uses memory beyond the receive buffer or divides by
  zero.
\<close>

datatype cmd_end = Next_command | Run_user_code | Reboot | Jump u32 | Undefined_result

text \<open>\<open>a || b\<close> of C: 0 or 1, and \<open>b\<close> is evaluated only when \<open>a\<close> is 0.\<close>

definition c_or :: "int \<Rightarrow> ('st \<Rightarrow> (int \<times> 'st) option) \<Rightarrow> 'st \<Rightarrow> (int \<times> 'st) option" where
  "c_or a b st =
     (if a \<noteq> 0 then Some (1, st)
      else case b st of None \<Rightarrow> None | Some (r, st) \<Rightarrow> Some (if r \<noteq> 0 then 1 else 0, st))"

definition check_payload :: "u8 list \<Rightarrow> 'i flash_session \<Rightarrow> int" where
  "check_payload buf fs =
     (if is_in_flash_mode fs then
        let error = get_flash_error fs;
            payload_len = int (cmd_data_len buf) - 16;
            error = (if data_words buf 0 \<noteq> word_of_int payload_len then ESP_BAD_DATA_LEN else error);
            data_checksum = calculate_checksum (take (nat payload_len) (drop 16 (cmd_data_buf buf)))
        in if int (unat data_checksum) \<noteq> cmd_checksum buf then ESP_BAD_DATA_CHECKSUM else error
      else ESP_NOT_IN_FLASH_MODE)"

definition on_world :: "('s \<Rightarrow> (int \<times> 's) option) \<Rightarrow> ('s, 'i) stub \<Rightarrow> (int \<times> ('s, 'i) stub) option" where
  "on_world f st = (case f (world st) of None \<Rightarrow> None | Some (r, s) \<Rightarrow> Some (r, st\<lparr>world := s\<rparr>))"

definition with_status :: "(int \<times> 'st) option \<Rightarrow> (int \<times> int \<times> 'st) option" where
  "with_status r = (case r of None \<Rightarrow> None | Some (e, st) \<Rightarrow> Some (e, 0, st))"

text \<open>
  The first stage, before the status bytes: the error, the status, and the new state.  \<open>mem_overread\<close>
  is the case of a length below the payload header, where the handler would read past the buffer.
\<close>

definition first_stage ::
  "('s, 'i, 'c) stub_env \<Rightarrow> u8 list \<Rightarrow> ('s, 'i) stub \<Rightarrow> (int \<times> int \<times> ('s, 'i) stub) option" where
  "first_stage env buf st =
     (let op = cmd_op buf; w = data_words buf; hw = env_hw env
      in if op = ESP_ERASE_FLASH then
           with_status (c_or (verify_data_len buf 0) (on_world (\<lambda>s. Some (SPIEraseChip env s))) st)
         else if op = ESP_ERASE_REGION then
           with_status (c_or (verify_data_len buf 8) (on_world (handle_flash_erase hw (w 0) (w 1))) st)
         else if op = ESP_SET_BAUD then Some (verify_data_len buf 8, 0, st)
         else if op = ESP_READ_FLASH then Some (verify_data_len buf 16, 0, st)
         else if op = ESP_FLASH_VERIFY_MD5 then
           with_status (c_or (verify_data_len buf 16)
             (\<lambda>st. let (e, s, io) = handle_flash_get_md5sum hw (env_md5 env) (w 0) (w 1) (world st) (line st)
                   in Some (e, st\<lparr>world := s, line := io\<rparr>)) st)
         else if op = ESP_FLASH_BEGIN then
           (if cmd_data_len buf = 16 \<and> unat (w 2) > MAX_WRITE_BLOCK then Some (ESP_BAD_BLOCKSIZE, 0, st)
            else with_status (c_or (verify_data_len buf 16)
              (\<lambda>st. let (e, fs, s) = handle_flash_begin hw (w 0) (w 3) (flash_fs st) (world st)
                    in Some (e, st\<lparr>flash_fs := fs, world := s\<rparr>)) st))
         else if op = ESP_FLASH_DEFLATED_BEGIN then
           (if cmd_data_len buf = 16 \<and> unat (w 2) > MAX_WRITE_BLOCK then Some (ESP_BAD_BLOCKSIZE, 0, st)
            else with_status (c_or (verify_data_len buf 16)
              (\<lambda>st. let (e, fs, s) = handle_flash_deflated_begin hw (env_lib env) (w 0) (w 1 * w 2) (w 3) (flash_fs st) (world st)
                    in Some (e, st\<lparr>flash_fs := fs, world := s\<rparr>)) st))
         else if op = ESP_FLASH_DATA \<or> op = ESP_FLASH_DEFLATED_DATA then Some (check_payload buf (flash_fs st), 0, st)
         else if op = ESP_FLASH_END \<or> op = ESP_FLASH_DEFLATED_END then
           let (e, fs) = handle_flash_end (flash_fs st) in Some (e, 0, st\<lparr>flash_fs := fs\<rparr>)
         else if op = ESP_SPI_SET_PARAMS then
           (if verify_data_len buf 24 \<noteq> 0 then Some (1, 0, st)
            else let (e, status, s) = handle_spi_set_params env buf (world st)
                 in Some (if e \<noteq> 0 then 1 else 0, status, st\<lparr>world := s\<rparr>))
         else if op = ESP_SPI_ATTACH then
           with_status (c_or (verify_data_len buf 4) (on_world (\<lambda>s. Some (handle_spi_attach env s))) st)
         else if op = ESP_WRITE_REG then
           let e = verify_data_len buf 16
           in Some (e, 0, if e = ESP_OK then st\<lparr>world := WRITE_REG hw (w 0) (w 1) (world st)\<rparr> else st)
         else if op = ESP_READ_REG then Some (verify_data_len buf 4, 0, st)
         else if op = ESP_MEM_BEGIN then
           with_status (c_or (verify_data_len buf 16)
             (\<lambda>st. let (e, m) = handle_mem_begin (w 0) (w 3) (mem st) in Some (e, st\<lparr>mem := m\<rparr>)) st)
         else if op = ESP_MEM_DATA then
           let (e, m) = handle_mem_data (drop 16 (cmd_data_buf buf)) (word_of_int (int (cmd_data_len buf) - 16)) (mem st)
           in Some (e, 0, st\<lparr>mem := m\<rparr>)
         else if op = ESP_MEM_END then
           with_status (c_or (verify_data_len buf 8)
             (\<lambda>st. let (e, m) = handle_mem_finish (mem st) in Some (e, st\<lparr>mem := m\<rparr>)) st)
         else Some (ESP_CMD_NOT_IMPLEMENTED, 0, st))"

text \<open>The memory load of a too short packet that passes the checks of \<open>handle_mem_data\<close>.\<close>

definition mem_overread :: "u8 list \<Rightarrow> ('s, 'i) stub \<Rightarrow> bool" where
  "mem_overread buf st \<longleftrightarrow> cmd_op buf = ESP_MEM_DATA \<and> cmd_data_len buf < 16 \<and>
     fst (handle_mem_data (drop 16 (cmd_data_buf buf)) (word_of_int (int (cmd_data_len buf) - 16)) (mem st)) = ESP_OK"

text \<open>The second stage, after the response to a successful command.\<close>

definition second_stage ::
  "('s, 'i, 'c) stub_env \<Rightarrow> u8 list \<Rightarrow> ('s, 'i) stub \<Rightarrow> (cmd_end \<times> ('s, 'i) stub) option" where
  "second_stage env buf st =
     (let op = cmd_op buf; w = data_words buf; hw = env_hw env;
          payload = drop 16 (cmd_data_buf buf);
          len = word_of_int (int (cmd_data_len buf) - 16)
      in if op = ESP_SET_BAUD then
           (case stub_io_set_baudrate env (w 1) (w 0) (world st) of
              None \<Rightarrow> Some (Undefined_result, st)
            | Some s \<Rightarrow> Some (Next_command, st\<lparr>world := s\<rparr>))
         else if op = ESP_READ_FLASH then
           (case handle_flash_read hw (env_md5 env) (w 0) (w 1) (w 2) (w 3) (world st) (line st) of
              None \<Rightarrow> None
            | Some (s, io) \<Rightarrow> Some (Next_command, st\<lparr>world := s, line := io\<rparr>))
         else if op = ESP_FLASH_DATA then
           (if unat (min len (remaining (flash_fs st))) > length payload then Some (Undefined_result, st)
            else case handle_flash_data hw payload len (flash_fs st) (world st) of
                   None \<Rightarrow> None
                 | Some (fs, s) \<Rightarrow> Some (Next_command, st\<lparr>flash_fs := fs, world := s\<rparr>))
         else if op = ESP_FLASH_DEFLATED_DATA then
           (if unat len > length payload \<and> remaining (flash_fs st) > 0 then Some (Undefined_result, st)
            else case handle_flash_deflated_data hw (env_lib env) payload len (flash_fs st) (world st) of
                   None \<Rightarrow> None
                 | Some (fs, s) \<Rightarrow> Some (Next_command, st\<lparr>flash_fs := fs, world := s\<rparr>))
         else if op = ESP_FLASH_DEFLATED_END \<or> op = ESP_FLASH_END then
           Some (if w 0 = 0 then Reboot else Next_command, st)
         else if op = ESP_MEM_END then Some (if w 1 \<noteq> 0 then Jump (w 1) else Next_command, st)
         else Some (Next_command, st))"

definition say :: "u8 list \<Rightarrow> ('s, 'i) stub \<Rightarrow> ('s, 'i) stub" where
  "say bs st = st\<lparr>line := send bs (line st)\<rparr>"

text \<open>The value and the length in the response header, which are set before it is sent.\<close>

definition response_value :: "('s, 'i, 'c) stub_env \<Rightarrow> u8 list \<Rightarrow> ('s, 'i) stub \<Rightarrow> u32 \<times> ('s, 'i) stub" where
  "response_value env buf st =
     (if cmd_op buf = ESP_READ_REG \<and> cmd_data_len buf = 4 then
        let (v, s) = READ_REG (env_hw env) (data_words buf 0) (world st) in (v, st\<lparr>world := s\<rparr>)
      else (0, st))"

definition response_len :: "u8 list \<Rightarrow> u16" where
  "response_len buf = (if cmd_op buf = ESP_FLASH_VERIFY_MD5 then 16 + 2 else 2)"

text \<open>The two bytes and the delimiter that end the response.\<close>

definition end_response :: "int \<Rightarrow> int \<Rightarrow> ('s, 'i) stub \<Rightarrow> ('s, 'i) stub" where
  "end_response error status =
     say (SLIP_send_frame_data (word_of_int error) @ SLIP_send_frame_data (word_of_int status) @ SLIP_send_frame_delimiter)"

text \<open>The two stages with the end of the response between them.\<close>

definition cmd_stages ::
  "('s, 'i, 'c) stub_env \<Rightarrow> u8 list \<Rightarrow> ('s, 'i) stub \<Rightarrow> (cmd_end \<times> ('s, 'i) stub) option" where
  "cmd_stages env buf st =
     (case first_stage env buf st of
        None \<Rightarrow> None
      | Some (error, status, st) \<Rightarrow>
          let st = end_response error status st
          in if error = ESP_OK then second_stage env buf st else Some (Next_command, st))"

text \<open>One round of \<open>cmd_loop\<close> with the command in \<open>buf\<close>.\<close>

definition cmd_round ::
  "('s, 'i, 'c) stub_env \<Rightarrow> u8 list \<Rightarrow> ('s, 'i) stub \<Rightarrow> (cmd_end \<times> ('s, 'i) stub) option" where
  "cmd_round env buf st =
     (let (val, st) = response_value env buf st;
          st = say SLIP_send_frame_delimiter st;
          st = say (SLIP_send_frame_data_buf (response_header (cmd_op buf) (response_len buf) val)) st
      in if cmd_data_len buf > MAX_WRITE_BLOCK + 16 then Some (Next_command, end_response ESP_BAD_DATA_LEN 0xEE st)
         else if cmd_op buf = ESP_RUN_USER_CODE then Some (Run_user_code, st)
         else if mem_overread buf st then Some (Undefined_result, st)
         else cmd_stages env buf st)"

text \<open>\<open>cmd_loop\<close> on the commands that the interrupt handler delivers one after the other.\<close>

primrec cmd_loop ::
  "('s, 'i, 'c) stub_env \<Rightarrow> u8 list list \<Rightarrow> ('s, 'i) stub \<Rightarrow> (cmd_end \<times> ('s, 'i) stub) option" where
  "cmd_loop env [] st = Some (Next_command, st)"
| "cmd_loop env (buf # bufs) st =
     (case cmd_round env buf st of
        None \<Rightarrow> None
      | Some (e, st) \<Rightarrow> if e = Next_command then cmd_loop env bufs st else Some (e, st))"

lemma cmd_loop_append:
  "cmd_loop env xs st = Some (Next_command, st') \<Longrightarrow> cmd_loop env (xs @ ys) st = cmd_loop env ys st'"
  by (induction xs arbitrary: st) (auto split: option.splits if_splits)

section \<open>The bytes on the line\<close>

lemma say_simps [simp]:
  "world (say bs st) = world st" "flash_fs (say bs st) = flash_fs st" "mem (say bs st) = mem st"
  "tx (line (say bs st)) = tx (line st) @ bs" "rx (line (say bs st)) = rx (line st)"
  by (simp_all add: say_def)

lemma SLIP_buf_append [simp]:
  "SLIP_send_frame_data_buf (xs @ ys) = SLIP_send_frame_data_buf xs @ SLIP_send_frame_data_buf ys"
  "SLIP_send_frame_data_buf [b] = SLIP_send_frame_data b"
  by (simp_all add: SLIP_send_frame_data_buf_def)

lemma with_status_or:
  assumes "with_status (c_or a b st) = Some (e, status, st')"
  shows "e \<in> {0, 1} \<and> status = 0 \<and> (a \<noteq> 0 \<and> e = 1 \<and> st' = st \<or> (\<exists>r. a = 0 \<and> b st = Some (r, st') \<and> (e = 0 \<longleftrightarrow> r = 0)))"
  using assms by (auto simp: with_status_def c_or_def split: option.splits if_splits)

lemma on_world_line: "on_world f st = Some (r, st') \<Longrightarrow> line st' = line st"
  by (auto simp: on_world_def split: option.splits)

text \<open>Only the digest command adds bytes between the header and the status.\<close>

lemma first_stage_line:
  assumes "first_stage env buf st = Some (e, status, st')" "cmd_op buf \<noteq> ESP_FLASH_VERIFY_MD5"
  shows "line st' = line st"
  using assms unfolding first_stage_def Let_def
  by (auto split: if_split_asm prod.split_asm dest!: with_status_or on_world_line)

lemma first_stage_md5:
  assumes "first_stage env buf st = Some (e, status, st')" "cmd_op buf = ESP_FLASH_VERIFY_MD5"
  shows "\<exists>extra. tx (line st') = tx (line st) @ SLIP_send_frame_data_buf extra"
proof -
  let ?h = "\<lambda>st. let (e, s, io) = handle_flash_get_md5sum (env_hw env) (env_md5 env) (data_words buf 0) (data_words buf 1) (world st) (line st)
                   in Some (e, st\<lparr>world := s, line := io\<rparr>)"
  have "with_status (c_or (verify_data_len buf 16) ?h st) = Some (e, status, st')"
    using assms by (simp add: first_stage_def esp_commands Let_def)
  from with_status_or [OF this] show ?thesis
  proof (elim conjE disjE exE)
    assume "st' = st"
    then show ?thesis by (intro exI [of _ "[]"]) (simp add: SLIP_send_frame_data_buf_def)
  next
    fix r assume "?h st = Some (r, st')"
    then show ?thesis
      by (auto simp: handle_flash_get_md5sum_def Let_def SLIP_send_frame_data_buf_def
          split: prod.split_asm sum.split_asm intro: exI [of _ "[]"])
  qed
qed

lemma second_stage_line:
  "second_stage env buf st = Some (e, st') \<Longrightarrow> cmd_op buf \<noteq> ESP_READ_FLASH \<Longrightarrow> tx (line st') = tx (line st)"
  unfolding second_stage_def Let_def
  by (auto split: if_split_asm option.split_asm prod.split_asm)

section \<open>A packet of the host\<close>

text \<open>A request as the host sends it, in a receive buffer whose rest holds old bytes.\<close>

definition packet :: "u8 \<Rightarrow> u8 \<Rightarrow> u8 list \<Rightarrow> u8 list \<Rightarrow> u8 list" where
  "packet op chk data rest =
     [0, op, word_of_nat (length data mod 256), word_of_nat (length data div 256)] @ le32_bytes (ucast chk) @ data @ rest"

lemma packet_fields:
  assumes "length data < 65536"
  shows "cmd_op (packet op chk data rest) = op" "cmd_data_len (packet op chk data rest) = length data"
    "cmd_checksum (packet op chk data rest) = int (unat chk)" "cmd_data_buf (packet op chk data rest) = data @ rest"
proof -
  have "unat (word_of_nat (length data mod 256) :: u8) = length data mod 256"
    "unat (word_of_nat (length data div 256) :: u8) = length data div 256"
    using assms by (simp_all add: unat_of_nat less_mult_imp_div_less)
  then show "cmd_data_len (packet op chk data rest) = length data" by (simp add: cmd_data_len_def packet_def)
  have "le32_of (drop 4 (packet op chk data rest)) = le32_of (le32_bytes (ucast chk))"
    by (simp add: packet_def le32_of_def le32_bytes_def)
  then have "cmd_checksum (packet op chk data rest) = sint (ucast chk :: u32)" by (simp add: cmd_checksum_def)
  also have "\<dots> = int (unat chk)"
  proof -
    have "unat (ucast chk :: u32) < 2147483648" using unat_u8_less [of chk] unfolding unat_ucast_u8_u32 by linarith
    then show ?thesis by (subst sint_small) simp_all
  qed
  finally show "cmd_checksum (packet op chk data rest) = int (unat chk)" .
qed (simp_all add: cmd_op_def cmd_data_buf_def packet_def)

lemma data_words_packet:
  assumes "length data < 65536" "data = pre @ le32_bytes w @ post" "length pre = 4 * i"
  shows "data_words (packet op chk data rest) i = w"
proof -
  have "drop (4 * i) (data @ rest) = le32_bytes w @ post @ rest" using assms(2,3) by simp
  then show ?thesis
    unfolding data_words_def packet_fields(4) [OF assms(1)] by (simp add: le32_of_def le32_bytes_def le32_le32_bytes)
qed

text \<open>The packets of an upload: begin, data blocks, end without a reboot.\<close>

definition begin_packet :: "u32 \<Rightarrow> u32 \<Rightarrow> u32 \<Rightarrow> u8 list \<Rightarrow> u8 list" where
  "begin_packet sz num_blocks offset rest =
     packet ESP_FLASH_BEGIN 0 (le32_bytes sz @ le32_bytes num_blocks @ le32_bytes (word_of_nat MAX_WRITE_BLOCK) @ le32_bytes offset) rest"

definition data_packet :: "u32 \<Rightarrow> u8 list \<Rightarrow> u8 list \<Rightarrow> u8 list" where
  "data_packet seq payload rest =
     packet ESP_FLASH_DATA (calculate_checksum payload)
       (le32_bytes (word_of_nat (length payload)) @ le32_bytes seq @ le32_bytes 0 @ le32_bytes 0 @ payload) rest"

definition end_packet :: "u8 list \<Rightarrow> u8 list" where
  "end_packet rest = packet ESP_FLASH_END 0 (le32_bytes 1) rest"

lemma begin_packet_fields:
  "cmd_op (begin_packet sz k off rest) = ESP_FLASH_BEGIN" "cmd_data_len (begin_packet sz k off rest) = 16"
  "data_words (begin_packet sz k off rest) 0 = sz" "data_words (begin_packet sz k off rest) 2 = word_of_nat MAX_WRITE_BLOCK"
  "data_words (begin_packet sz k off rest) 3 = off"
  unfolding begin_packet_def
  by (simp_all add: packet_fields data_words_packet [where pre = "[]"]
      data_words_packet [where pre = "le32_bytes sz @ le32_bytes k", where w = "word_of_nat MAX_WRITE_BLOCK"]
      data_words_packet [where pre = "le32_bytes sz @ le32_bytes k @ le32_bytes (word_of_nat MAX_WRITE_BLOCK)", where post = "[]"])

lemma data_packet_fields:
  assumes "length payload \<le> MAX_WRITE_BLOCK"
  shows "cmd_op (data_packet seq payload rest) = ESP_FLASH_DATA" "cmd_data_len (data_packet seq payload rest) = length payload + 16"
    "data_words (data_packet seq payload rest) 0 = word_of_nat (length payload)"
    "cmd_checksum (data_packet seq payload rest) = int (unat (calculate_checksum payload))"
    "drop 16 (cmd_data_buf (data_packet seq payload rest)) = payload @ rest"
  using assms unfolding data_packet_def MAX_WRITE_BLOCK_def
  by (simp_all add: packet_fields data_words_packet [where pre = "[]"])

lemma end_packet_fields:
  "cmd_op (end_packet rest) = ESP_FLASH_END" "cmd_data_len (end_packet rest) = 4" "data_words (end_packet rest) 0 = 1"
  unfolding end_packet_def by (simp_all add: packet_fields data_words_packet [where pre = "[]" and post = "[]"])

section \<open>Properties\<close>

text \<open>The start of the response of an ordinary command.\<close>

definition start_response :: "u8 list \<Rightarrow> ('s, 'i) stub \<Rightarrow> ('s, 'i) stub" where
  "start_response buf = say (SLIP_send_frame_delimiter @ SLIP_send_frame_data_buf (response_header (cmd_op buf) (response_len buf) 0))"

lemma say_say: "say b (say a st) = say (a @ b) st"
  by (simp add: say_def send_def)

lemma cmd_round_stages:
  assumes "cmd_data_len buf \<le> MAX_WRITE_BLOCK + 16" "cmd_op buf \<notin> {ESP_READ_REG, ESP_RUN_USER_CODE, ESP_MEM_DATA}"
  shows "cmd_round env buf st = cmd_stages env buf (start_response buf st)"
  using assms by (simp add: cmd_round_def response_value_def mem_overread_def start_response_def say_say Let_def)

lemma response_value_line: "response_value env buf st = (val, st') \<Longrightarrow> line st' = line st \<and> flash_fs st' = flash_fs st"
  by (auto simp: response_value_def split: if_splits prod.splits)

lemma second_stage_responds:
  assumes "cmd_stages env buf st = Some (e, st')" "cmd_op buf \<noteq> ESP_READ_FLASH"
  shows "\<exists>extra error status. tx (line st') = tx (line st) @ SLIP_send_frame_data_buf (extra @ [word_of_int error, word_of_int status]) @
      SLIP_send_frame_delimiter \<and> (cmd_op buf \<noteq> ESP_FLASH_VERIFY_MD5 \<longrightarrow> extra = [])"
proof -
  obtain error status st2 where f: "first_stage env buf st = Some (error, status, st2)"
    and r: "(if error = ESP_OK then second_stage env buf (end_response error status st2)
      else Some (Next_command, end_response error status st2)) = Some (e, st')"
    using assms(1) by (auto simp: cmd_stages_def Let_def split: option.splits)
  obtain extra where x: "tx (line st2) = tx (line st) @ SLIP_send_frame_data_buf extra"
    "cmd_op buf \<noteq> ESP_FLASH_VERIFY_MD5 \<Longrightarrow> extra = []"
  proof (cases "cmd_op buf = ESP_FLASH_VERIFY_MD5")
    case True
    with first_stage_md5 [OF f] that show ?thesis by blast
  next
    case False
    with first_stage_line [OF f] that [of "[]"] show ?thesis by (simp add: SLIP_send_frame_data_buf_def)
  qed
  have "tx (line st') = tx (line (end_response error status st2))"
    using r assms(2) by (auto dest!: second_stage_line split: if_splits)
  with x show ?thesis
    by (intro exI [of _ extra] exI [of _ error] exI [of _ status]) (auto simp: end_response_def SLIP_send_frame_data_buf_def)
qed

text \<open>The response frame of a command.\<close>

definition response :: "u8 list \<Rightarrow> u32 \<Rightarrow> u8 list \<Rightarrow> int \<Rightarrow> int \<Rightarrow> u8 list" where
  "response buf val extra error status =
     SLIP_send (response_header (cmd_op buf) (response_len buf) val @ extra @ [word_of_int error, word_of_int status])"


text \<open>A world for the witnesses: the simulated controller, a library that copies, a digest that sums.\<close>

definition sim_env :: "(sim, unit, u8) stub_env" where
  "sim_env = \<lparr>env_hw = sim_hw, env_lib = copy_lib, env_md5 = \<lparr>MD5Init = 0, MD5Update = (\<lambda>c bs. foldl (+) c bs), MD5Final = (\<lambda>c. replicate 16 c)\<rparr>,
     SPIEraseChip = (\<lambda>m. (0, m\<lparr>sim_data := replicate (length (sim_data m)) 0xff\<rparr>)),
     SPIParamCfg = (\<lambda>_ _ _ _ _ _ m. (0, m)), SelectSpiFunction = (\<lambda>m. m), uart_div_modify = (\<lambda>_ _ m. m)\<rparr>"

definition sim_stub :: "(sim, unit) stub" where
  "sim_stub = \<lparr>world = sim_start, flash_fs = some_session, mem = \<lparr>mem_offset = 0, mem_remaining = 0, words = (\<lambda>_. 0)\<rparr>,
     line = \<lparr>tx = [], rx = [], rx_async = True\<rparr>\<rparr>"


lemma foldl_xor: "foldl (XOR) c xs = c XOR foldl (XOR) 0 xs" for c :: "'a::len word"
proof (induction xs arbitrary: c)
  case (Cons x xs)
  from Cons [of "c XOR x"] Cons [of x] show ?case by (simp add: xor.assoc)
qed simp

lemma xor_cancel: "a XOR b = a XOR c \<Longrightarrow> b = c" for a :: "'a::len word"
proof -
  assume "a XOR b = a XOR c"
  then have "a XOR (a XOR b) = a XOR (a XOR c)" by simp
  then show "b = c" by (simp add: xor.assoc [symmetric])
qed

lemma checksum_one_byte:
  assumes "i < length p" "calculate_checksum (p[i := b]) = calculate_checksum p"
  shows "b = p ! i"
proof -
  have split: "calculate_checksum (take i p @ x # q) = (calculate_checksum (take i p) XOR foldl (XOR) 0 q) XOR x" for x q
    unfolding calculate_checksum_def foldl_append foldl_Cons
    by (subst foldl_xor) (simp only: xor.assoc xor.commute [of x])
  have "calculate_checksum (take i p @ b # drop (Suc i) p) = calculate_checksum (take i p @ p ! i # drop (Suc i) p)"
    using assms by (simp add: upd_conv_take_nth_drop id_take_nth_drop [symmetric])
  then show ?thesis unfolding split by (rule xor_cancel)
qed

text \<open>
  Property C24: a damaged data block is refused and changes nothing.  When exactly one payload byte of
  an accepted \<open>FLASH_DATA\<close> command differs, the stub answers \<open>ESP_BAD_DATA_CHECKSUM\<close> and leaves the
  flash and the write session as they are.
\<close>

theorem flash_data_corruption_detected:
  assumes "length payload \<le> MAX_WRITE_BLOCK" and "i < length payload" and "b \<noteq> payload ! i"
    and "bad = (data_packet seq payload rest)[24 + i := b]" and "is_in_flash_mode (flash_fs st)"
  shows "\<exists>st'. cmd_round env bad st = Some (Next_command, st') \<and> world st' = world st \<and> flash_fs st' = flash_fs st \<and>
    tx (line st') = tx (line st) @ response bad 0 [] ESP_BAD_DATA_CHECKSUM 0"
proof -
  define hdr where "hdr = take 24 (data_packet seq payload rest)"
  have p: "data_packet seq payload rest = hdr @ payload @ rest" "length hdr = 24"
    by (simp_all add: hdr_def data_packet_def packet_def le32_bytes_def)
  then have bad: "bad = hdr @ payload[i := b] @ rest" using assms(2,4) by (simp add: list_update_append)
  have same: "bad ! k = data_packet seq payload rest ! k" if "k < 24" for k using that p bad by (simp add: nth_append)
  have "take 8 bad = take 8 (data_packet seq payload rest)" unfolding bad p by (simp add: p(2))
  note f = data_packet_fields [OF assms(1), of seq rest]
  have op: "cmd_op bad = ESP_FLASH_DATA" "cmd_data_len bad = length payload + 16"
    using f(1,2) same by (simp_all add: cmd_op_def cmd_data_len_def)
  have le: "le32_of (drop k bad) = le32_of (drop k (data_packet seq payload rest))" if "k + 4 \<le> 24" for k
    using that same by (simp add: le32_of_def p bad nth_append)
  have chk: "cmd_checksum bad = int (unat (calculate_checksum payload))"
    using f(4) le [of 4] by (simp add: cmd_checksum_def)
  have w0: "data_words bad 0 = word_of_nat (length payload)"
    using f(3) le [of 8] by (simp add: data_words_def cmd_data_buf_def)
  have "drop 16 (cmd_data_buf bad) = payload[i := b] @ rest" using p(2) by (simp add: cmd_data_buf_def bad)
  then have "take (nat (int (cmd_data_len bad) - 16)) (drop 16 (cmd_data_buf bad)) = payload[i := b]" by (simp add: op)
  moreover have "calculate_checksum (payload[i := b]) \<noteq> calculate_checksum payload"
    using checksum_one_byte [OF assms(2)] assms(3) by blast
  ultimately have "check_payload bad (flash_fs st) = ESP_BAD_DATA_CHECKSUM"
    using assms(5) chk by (simp only: check_payload_def Let_def int_int_eq word_unat_eq_iff [symmetric]) simp
  then have "first_stage env bad (say x st) = Some (ESP_BAD_DATA_CHECKSUM, 0, say x st)" for x
    by (simp add: first_stage_def op esp_commands Let_def)
  moreover have "cmd_round env bad st = cmd_stages env bad (start_response bad st)"
    using assms(1) by (intro cmd_round_stages) (simp_all add: op esp_commands)
  ultimately have "cmd_round env bad st = Some (Next_command, end_response ESP_BAD_DATA_CHECKSUM 0 (start_response bad st))"
    by (simp add: cmd_stages_def start_response_def esp_errors Let_def)
  then show ?thesis by (auto simp: start_response_def end_response_def response_def SLIP_send_def SLIP_send_frame_data_buf_def)
qed

theorem flash_data_corruption_detected_witness:
  "\<exists>bad st'. bad = (data_packet 0 [1, 2, 3, 4] [])[25 := 7] \<and>
     cmd_round sim_env bad (sim_stub\<lparr>flash_fs := some_session\<lparr>in_flash_mode := True\<rparr>\<rparr>) = Some (Next_command, st') \<and> world st' = sim_start"
  using flash_data_corruption_detected [of "[1, 2, 3, 4]" 1 7 _ 0 "[]" "sim_stub\<lparr>flash_fs := some_session\<lparr>in_flash_mode := True\<rparr>\<rparr>" sim_env, OF _ _ _ refl]
  by (auto simp: MAX_WRITE_BLOCK_def is_in_flash_mode_def sim_stub_def)



section \<open>An upload from begin to end\<close>

text \<open>A packet stream: sequence number, payload and the old bytes behind it in the buffer.\<close>

definition data_packets :: "(u32 \<times> u8 list \<times> u8 list) list \<Rightarrow> u8 list list" where
  "data_packets pkts = map (\<lambda>(seq, payload, rest). data_packet seq payload rest) pkts"

definition payloads :: "(u32 \<times> u8 list \<times> u8 list) list \<Rightarrow> u8 list" where
  "payloads pkts = concat (map (fst \<circ> snd) pkts)"

definition ok_response :: "u8 \<Rightarrow> u8 list" where
  "ok_response op = SLIP_send (response_header op 2 0 @ [0, 0])"

lemma ok_line:
  assumes "cmd_op buf \<noteq> ESP_FLASH_VERIFY_MD5"
  shows "tx (line (end_response 0 0 (start_response buf st))) = tx (line st) @ ok_response (cmd_op buf)"
  using assms by (simp add: end_response_def start_response_def ok_response_def SLIP_send_def response_len_def
      SLIP_send_frame_data_buf_def)

lemma response_keeps [simp]:
  "world (start_response buf st) = world st" "flash_fs (start_response buf st) = flash_fs st"
  "world (end_response e status st) = world st" "flash_fs (end_response e status st) = flash_fs st"
  by (simp_all add: start_response_def end_response_def)

lemma begin_round:
  assumes "flash_host (env_hw env) contents pending settling wel addr_reg status"
    and "unat offset + unat n \<le> length (contents (world st))" and "4096 dvd length (contents (world st))"
    and "length (contents (world st)) \<le> 16777216" and "4 dvd unat offset" and "4 dvd unat n"
  shows "\<exists>st'. cmd_round env (begin_packet n k offset rest) st = Some (Next_command, st') \<and>
    session contents (contents (world st)) (unat offset) (unat n) [] (flash_fs st') (world st') \<and>
    tx (line st') = tx (line st) @ ok_response ESP_FLASH_BEGIN"
proof -
  let ?buf = "begin_packet n k offset rest" and ?st = "start_response (begin_packet n k offset rest) st"
  note f = begin_packet_fields [of n k offset rest]
  from flash_host.flash_begin_session [OF assms(1-6), of "flash_fs st"]
  obtain fs' s' where b: "handle_flash_begin (env_hw env) n offset (flash_fs st) (world st) = (ESP_OK, fs', s')"
    and s: "session contents (contents (world st)) (unat offset) (unat n) [] fs' s'" by blast
  have c: "cmd_round env ?buf st = cmd_stages env ?buf ?st"
    by (rule cmd_round_stages) (simp_all add: f esp_commands)
  have "first_stage env ?buf ?st = Some (ESP_OK, 0, ?st\<lparr>flash_fs := fs', world := s'\<rparr>)"
    by (simp add: first_stage_def f esp_commands b c_or_def with_status_def verify_data_len_def esp_errors MAX_WRITE_BLOCK_def Let_def)
  then have "cmd_round env ?buf st = Some (Next_command, end_response 0 0 (?st\<lparr>flash_fs := fs', world := s'\<rparr>))"
    unfolding c cmd_stages_def by (simp add: second_stage_def f esp_commands esp_errors Let_def)
  moreover have "line (end_response 0 0 (?st\<lparr>flash_fs := fs', world := s'\<rparr>)) = line (end_response 0 0 ?st)"
    by (simp add: end_response_def say_def)
  ultimately show ?thesis using s ok_line [of ?buf st] by (auto simp: f esp_commands)
qed

lemma data_round:
  assumes "flash_host (env_hw env) contents pending settling wel addr_reg status"
    and "session contents I off n W (flash_fs st) (world st)"
    and "length payload \<le> MAX_WRITE_BLOCK" and "4 dvd length payload"
  shows "\<exists>st'. cmd_round env (data_packet seq payload rest) st = Some (Next_command, st') \<and>
    session contents I off n (W @ take (n - length W) payload) (flash_fs st') (world st') \<and>
    tx (line st') = tx (line st) @ ok_response ESP_FLASH_DATA"
proof -
  let ?buf = "data_packet seq payload rest" and ?st = "start_response (data_packet seq payload rest) st"
  note f = data_packet_fields [OF assms(3), of seq rest]
  have small: "length payload < 4294967296" using assms(3) by (simp add: MAX_WRITE_BLOCK_def)
  from flash_host.flash_data_keeps [OF assms(1,2,4) small] obtain fs' s'
    where d: "handle_flash_data (env_hw env) payload (word_of_nat (length payload)) (flash_fs st) (world st) = Some (fs', s')"
    and s: "session contents I off n (W @ take (n - length W) payload) fs' s'" by blast
  have "unat (word_of_nat (length payload) :: u32) = length payload" using small by (simp add: unat_of_nat)
  then have d': "handle_flash_data (env_hw env) (payload @ rest) (word_of_nat (length payload)) (flash_fs st) (world st) = Some (fs', s')"
    using flash_host.handle_flash_data_take [OF assms(1), of "word_of_nat (length payload)" "payload @ rest" "flash_fs st" "world st"] d by simp
  have c: "cmd_round env ?buf st = cmd_stages env ?buf ?st"
    using assms(3) by (intro cmd_round_stages) (simp_all add: f esp_commands)
  have mode: "in_flash_mode (flash_fs st)" "last_error (flash_fs st) = ESP_OK" using assms(2) by (simp_all add: session_def)
  have "check_payload ?buf (flash_fs st) = ESP_OK"
    using mode by (simp add: check_payload_def f is_in_flash_mode_def get_flash_error_def Let_def)
  then have e: "first_stage env ?buf ?st = Some (ESP_OK, 0, ?st)"
    by (simp add: first_stage_def f esp_commands Let_def)
  let ?fin = "end_response 0 0 ?st"
  have "second_stage env ?buf ?fin = Some (Next_command, ?fin\<lparr>flash_fs := fs', world := s'\<rparr>)"
    using small d' by (simp add: second_stage_def f esp_commands Let_def min_def unat_of_nat word_le_nat_alt)
  with e have "cmd_round env ?buf st = Some (Next_command, ?fin\<lparr>flash_fs := fs', world := s'\<rparr>)"
    unfolding c cmd_stages_def by (simp add: esp_errors)
  then show ?thesis using s ok_line [of ?buf st] by (auto simp: f esp_commands)
qed

lemma data_rounds:
  assumes "flash_host (env_hw env) contents pending settling wel addr_reg status"
    and "session contents I off n W (flash_fs st) (world st)"
    and "\<forall>(seq, payload, rest) \<in> set pkts. length payload \<le> MAX_WRITE_BLOCK \<and> 4 dvd length payload"
  shows "\<exists>st'. cmd_loop env (data_packets pkts) st = Some (Next_command, st') \<and>
    session contents I off n (W @ take (n - length W) (payloads pkts)) (flash_fs st') (world st') \<and>
    tx (line st') = tx (line st) @ concat (replicate (length pkts) (ok_response ESP_FLASH_DATA))"
  using assms(2,3)
proof (induction pkts arbitrary: W st)
  case Nil
  then show ?case by (simp add: data_packets_def payloads_def)
next
  case (Cons pkt pkts)
  obtain seq payload rest where p: "pkt = (seq, payload, rest)" by (metis surj_pair)
  with Cons.prems(2) have len: "length payload \<le> MAX_WRITE_BLOCK" "4 dvd length payload" by simp_all
  obtain st1 where r: "cmd_round env (data_packet seq payload rest) st = Some (Next_command, st1)"
    "session contents I off n (W @ take (n - length W) payload) (flash_fs st1) (world st1)"
    "tx (line st1) = tx (line st) @ ok_response ESP_FLASH_DATA"
    using data_round [OF assms(1) Cons.prems(1) len] by blast
  have "take (n - length W) (payload @ payloads pkts) =
      take (n - length W) payload @ take (n - length (W @ take (n - length W) payload)) (payloads pkts)"
    by (cases "n - length W \<le> length payload") auto
  with Cons.IH [OF r(2)] Cons.prems(2) r(1,3) p show ?case
    by (auto simp: data_packets_def payloads_def)
qed

text \<open>
  Property C4: an upload over the serial line, from the first packet to the flash.  When the host sends
  a \<open>FLASH_BEGIN\<close> for \<open>n\<close> bytes, data packets with correct checksums of together at least \<open>n\<close>
  payload bytes and a \<open>FLASH_END\<close>, the command loop handles all of them, answers each with the
  response of success, leaves flash mode, and the flash holds the first \<open>n\<close> payload bytes at
  \<open>offset\<close> in freshly erased sectors, with every other byte unchanged.
\<close>

theorem upload_writes_flash:
  assumes "flash_host (env_hw env) contents pending settling wel addr_reg status"
    and "unat offset + unat n \<le> length (contents (world st))" and "4096 dvd length (contents (world st))"
    and "length (contents (world st)) \<le> 16777216" and "4 dvd unat offset" and "4 dvd unat n" and "0 < n"
    and "\<forall>(seq, payload, rest) \<in> set pkts. length payload \<le> MAX_WRITE_BLOCK \<and> 4 dvd length payload"
    and "unat n \<le> length (payloads pkts)"
  shows "\<exists>st'. cmd_loop env ([begin_packet n k offset rest] @ data_packets pkts @ [end_packet rest']) st = Some (Next_command, st') \<and>
    \<not> is_in_flash_mode (flash_fs st') \<and>
    contents (world st') = mem_write (erased (contents (world st)) (unat offset div 4096)
        (sector_end (unat offset + unat n) - unat offset div 4096)) (unat offset) (take (unat n) (payloads pkts)) \<and>
    tx (line st') = tx (line st) @ ok_response ESP_FLASH_BEGIN @
      concat (replicate (length pkts) (ok_response ESP_FLASH_DATA)) @ ok_response ESP_FLASH_END"
proof -
  let ?buf = "end_packet rest'"
  note f = end_packet_fields [of rest']
  obtain st1 where b: "cmd_round env (begin_packet n k offset rest) st = Some (Next_command, st1)"
    "session contents (contents (world st)) (unat offset) (unat n) [] (flash_fs st1) (world st1)"
    "tx (line st1) = tx (line st) @ ok_response ESP_FLASH_BEGIN"
    using begin_round [OF assms(1-6)] by blast
  obtain st2 where d: "cmd_loop env (data_packets pkts) st1 = Some (Next_command, st2)"
    and s: "session contents (contents (world st)) (unat offset) (unat n) (take (unat n) (payloads pkts)) (flash_fs st2) (world st2)"
    and t: "tx (line st2) = tx (line st1) @ concat (replicate (length pkts) (ok_response ESP_FLASH_DATA))"
    using data_rounds [OF assms(1) b(2) assms(8)] by auto
  let ?st = "start_response ?buf st2" and ?fs = "(flash_fs st2)\<lparr>in_flash_mode := False\<rparr>"
  have len: "length (take (unat n) (payloads pkts)) = unat n" using assms(9) by simp
  have e: "handle_flash_end (flash_fs st2) = (ESP_OK, ?fs)"
    using flash_host.session_end [OF assms(1) s] len by simp
  have "cmd_round env ?buf st2 = cmd_stages env ?buf ?st"
    by (rule cmd_round_stages) (simp_all add: f esp_commands)
  also have "first_stage env ?buf ?st = Some (0, 0, ?st\<lparr>flash_fs := ?fs\<rparr>)"
    by (simp add: first_stage_def f esp_commands e Let_def esp_errors [symmetric])
  then have "cmd_stages env ?buf ?st = Some (Next_command, end_response 0 0 (?st\<lparr>flash_fs := ?fs\<rparr>))"
    by (simp add: cmd_stages_def second_stage_def f esp_commands esp_errors Let_def)
  finally have r: "cmd_round env ?buf st2 = Some (Next_command, end_response 0 0 (?st\<lparr>flash_fs := ?fs\<rparr>))" .
  have l: "line (end_response 0 0 (?st\<lparr>flash_fs := ?fs\<rparr>)) = line (end_response 0 0 ?st)"
    by (simp add: end_response_def say_def)
  have "0 < unat n" using assms(7) by (simp add: word_less_nat_alt)
  from flash_host.session_complete [OF assms(1) s len this] l ok_line [of ?buf st2] b t r cmd_loop_append [OF d]
  show ?thesis by (auto simp: f esp_commands is_in_flash_mode_def)
qed

theorem upload_writes_flash_witness:
  "\<exists>st'. cmd_loop sim_env ([begin_packet 0x104 1 0x1000 []] @ data_packets [(0, replicate 0x100 1, []), (1, replicate 4 2, [9])] @ [end_packet []])
      sim_stub = Some (Next_command, st') \<and> length (sim_data (world st')) = 0x30000"
proof -
  have env: "flash_host (env_hw sim_env) sim_data sim_busy sim_wip sim_wel sim_addr sim_status"
    using sim_host.flash_host_axioms by (simp add: sim_env_def)
  from upload_writes_flash [OF env, of "0x1000" "0x104" sim_stub "[(0, replicate 0x100 1, []), (1, replicate 4 2, [9])]" 1 "[]" "[]"]
  show ?thesis
    by (auto simp: sim_stub_def sim_start_def payloads_def MAX_WRITE_BLOCK_def sector_end_def simp del: cmd_loop.simps)
qed

end
