(* ===== verification/Lfs_Util.thy ===== *)
theory Lfs_Util
  imports Checksums
begin

text \<open>
  The integer helpers and the checksum of littlefs (\<open>lfs_util.h\<close>, \<open>lfs_util.c\<close>).  The build uses
  the compiler's bit-counting functions; the portable bodies that the header also has are modelled
  beside them and proved equal.
\<close>

section \<open>Minimum, maximum, alignment\<close>

definition lfs_max :: "u32 \<Rightarrow> u32 \<Rightarrow> u32" where
  "lfs_max a b = (if a > b then a else b)"

definition lfs_min :: "u32 \<Rightarrow> u32 \<Rightarrow> u32" where
  "lfs_min a b = (if a < b then a else b)"

definition lfs_aligndown :: "u32 \<Rightarrow> u32 \<Rightarrow> u32" where
  "lfs_aligndown a alignment = a - (a mod alignment)"

definition lfs_alignup :: "u32 \<Rightarrow> u32 \<Rightarrow> u32" where
  "lfs_alignup a alignment = lfs_aligndown (a + alignment - 1) alignment"

text \<open>The distance of two sequence numbers, as a signed number.\<close>

definition lfs_scmp :: "u32 \<Rightarrow> u32 \<Rightarrow> int" where
  "lfs_scmp a b = sint (a - b)"

lemma unat_lfs_min [simp]: "unat (lfs_min a b) = min (unat a) (unat b)"
  by (auto simp: lfs_min_def word_less_nat_alt)

lemma unat_lfs_max [simp]: "unat (lfs_max a b) = max (unat a) (unat b)"
  by (auto simp: lfs_max_def word_less_nat_alt)

lemma unat_lfs_aligndown: "unat (lfs_aligndown a n) = unat a - unat a mod unat n"
  by (simp add: lfs_aligndown_def unat_sub word_le_nat_alt unat_mod)

lemma aligndown_dvd: "unat n dvd unat (lfs_aligndown a n)"
  by (simp add: unat_lfs_aligndown)

lemma unat_lfs_alignup:
  assumes "unat a + unat n \<le> 4294967295" "0 < unat n"
  shows "unat (lfs_alignup a n) = (unat a + unat n - 1) div unat n * unat n"
proof -
  have "unat (a + n - 1) = unat a + unat n - 1"
    using assms by (subst unat_sub) (auto simp: word_le_nat_alt unat_add_u32)
  then show ?thesis by (simp add: lfs_alignup_def unat_lfs_aligndown minus_mod_eq_div_mult)
qed

section \<open>Counting bits\<close>

text \<open>The compiler's functions; those that count zeros are used on numbers other than 0 only.\<close>

definition builtin_clz :: "u32 \<Rightarrow> u32" where
  "builtin_clz w = word_of_nat (length (takeWhile Not (rev (lsb_bits 32 w))))"

definition builtin_ctz :: "u32 \<Rightarrow> u32" where
  "builtin_ctz w = word_of_nat (length (takeWhile Not (lsb_bits 32 w)))"

definition builtin_popcount :: "u32 \<Rightarrow> u32" where
  "builtin_popcount w = word_of_nat (length (filter id (lsb_bits 32 w)))"

definition lfs_npw2 :: "u32 \<Rightarrow> u32" where
  "lfs_npw2 a = 32 - builtin_clz (a - 1)"

definition lfs_ctz :: "u32 \<Rightarrow> u32" where
  "lfs_ctz a = builtin_ctz a"

definition lfs_popc :: "u32 \<Rightarrow> u32" where
  "lfs_popc a = builtin_popcount a"

text \<open>The portable bodies.\<close>

definition lfs_npw2_portable :: "u32 \<Rightarrow> u32" where
  "lfs_npw2_portable a =
     (let a = a - 1;
          s = push_bit 4 (of_bool (a > 0xffff)); a = drop_bit (unat s) a; r = s;
          s = push_bit 3 (of_bool (a > 0xff)); a = drop_bit (unat s) a; r = r OR s;
          s = push_bit 2 (of_bool (a > 0xf)); a = drop_bit (unat s) a; r = r OR s;
          s = push_bit 1 (of_bool (a > 0x3)); a = drop_bit (unat s) a; r = r OR s
      in (r OR drop_bit 1 a) + 1)"

definition lfs_ctz_portable :: "u32 \<Rightarrow> u32" where
  "lfs_ctz_portable a = lfs_npw2_portable ((a AND - a) + 1) - 1"

definition lfs_popc_portable :: "u32 \<Rightarrow> u32" where
  "lfs_popc_portable a =
     (let a = a - (drop_bit 1 a AND 0x55555555);
          a = (a AND 0x33333333) + (drop_bit 2 a AND 0x33333333)
      in drop_bit 24 (((a + drop_bit 4 a) AND 0xf0f0f0f) * 0x1010101))"

section \<open>The checksum\<close>

definition lfs_crc_step :: "u8 \<Rightarrow> u32 \<Rightarrow> u32" where
  "lfs_crc_step b crc =
     (let crc = drop_bit 4 crc XOR tinf_crc32tab ! unat ((crc XOR ucast b) AND 0xf)
      in drop_bit 4 crc XOR tinf_crc32tab ! unat ((crc XOR drop_bit 4 (ucast b)) AND 0xf))"

fun lfs_crc :: "u32 \<Rightarrow> u8 list \<Rightarrow> u32" where
  "lfs_crc crc [] = crc"
| "lfs_crc crc (b # buffer) = lfs_crc (lfs_crc_step b crc) buffer"

lemma lfs_crc_step: "lfs_crc_step b crc = crc32_nibble (crc32_nibble (crc XOR ucast b))"
proof -
  define d :: u32 where "d = ucast b"
  define c where "c = drop_bit 4 crc XOR tinf_crc32tab ! unat ((crc XOR d) AND 0xf)"
  have z: "drop_bit 4 (drop_bit 4 d) = 0"
    unfolding d_def by (rule bit_word_eqI) (auto simp: bit_simps dest: bit_imp_le_length)
  have "crc32_nibble (crc XOR d) = c XOR drop_bit 4 d"
    by (simp add: crc32_nibble_def c_def drop_bit_xor ac_simps)
  moreover have "crc32_nibble (c XOR drop_bit 4 d) = drop_bit 4 c XOR tinf_crc32tab ! unat ((c XOR drop_bit 4 d) AND 0xf)"
    unfolding crc32_nibble_def drop_bit_xor z by (simp add: ac_simps)
  ultimately show ?thesis by (simp add: lfs_crc_step_def c_def d_def Let_def)
qed

lemma lfs_crc_append: "lfs_crc crc (xs @ ys) = lfs_crc (lfs_crc crc xs) ys"
  by (induction crc xs rule: lfs_crc.induct) simp_all

lemma lfs_crc_uzlib: "lfs_crc crc buffer = uzlib_crc32 buffer crc"
  by (induction crc buffer rule: lfs_crc.induct) (simp_all add: lfs_crc_step)

section \<open>Ones, trailing zeros and the length in bits\<close>

text \<open>The same counts on natural numbers, by recursion.\<close>

fun ones :: "nat \<Rightarrow> nat" where
  "ones n = (if n = 0 then 0 else n mod 2 + ones (n div 2))"

fun zeros :: "nat \<Rightarrow> nat" where
  "zeros n = (if n = 0 \<or> odd n then 0 else Suc (zeros (n div 2)))"

declare ones.simps [simp del] zeros.simps [simp del]

lemma ones_simps [simp]: "ones 0 = 0" "ones (Suc 0) = 1" "ones (2 * n) = ones n" "ones (Suc (2 * n)) = Suc (ones n)"
  by (subst ones.simps; simp add: ones.simps [of 0])+

lemma zeros_simps [simp]: "zeros 0 = 0" "0 < n \<Longrightarrow> zeros (2 * n) = Suc (zeros n)" "zeros (Suc (2 * n)) = 0"
  by (subst zeros.simps; simp)+

lemma ones_Suc: "ones (Suc n) + zeros (Suc n) = Suc (ones n)"
proof (induction n rule: less_induct)
  case (less n)
  show ?case
  proof (cases "even n")
    case True
    then obtain m where "n = 2 * m" by blast
    then show ?thesis by simp
  next
    case False
    then obtain m where m: "n = Suc (2 * m)" by (metis oddE Suc_eq_plus1)
    then have s: "Suc n = 2 * Suc m" by simp
    have "zeros (2 * Suc m) = Suc (zeros (Suc m))" by (rule zeros_simps) simp
    with less.IH [of m] m s show ?thesis by (simp only: ones_simps) linarith
  qed
qed

lemma ones_le: "n < 2 ^ k \<Longrightarrow> ones n \<le> k"
proof (induction k arbitrary: n)
  case (Suc k)
  then have "n div 2 < 2 ^ k" by simp
  from Suc.IH [OF this] show ?case by (subst ones.simps) auto
qed simp

lemma power_zeros_dvd: "2 ^ zeros n dvd n"
proof (induction n rule: zeros.induct)
  case (1 n)
  show ?case
  proof (cases "n = 0 \<or> odd n")
    case True
    then show ?thesis by (subst zeros.simps) simp
  next
    case False
    then obtain m where m: "n = 2 * m" by blast
    with False 1 have "2 ^ zeros m dvd m" "zeros n = Suc (zeros m)" by auto
    with m show ?thesis by simp
  qed
qed

lemma zeros_greatest: "2 ^ k dvd n \<Longrightarrow> 0 < n \<Longrightarrow> k \<le> zeros n"
proof (induction k arbitrary: n)
  case (Suc k)
  then obtain m where m: "n = 2 * m" by (metis dvd_def power_Suc mult.assoc)
  with Suc.prems have "2 ^ k dvd m" "0 < m" by simp_all
  with Suc.IH [of m] m show ?case by simp
qed simp

lemma unat_drop: "unat (drop_bit n w) = unat w div 2 ^ n" for w :: u32
  by (subst unat_drop_bit_eq) (simp only: drop_bit_eq_div)

lemma unat_drop_1: "unat (drop_bit 1 w) = unat w div 2" for w :: u32
  using unat_drop [of 1 w] by simp

lemma lsb_bits_Suc_nat:
  "lsb_bits (Suc n) (w :: u32) = odd (unat w) # lsb_bits n (drop_bit 1 w)"
proof -
  have "bit (unat w) 0 = bit w 0" by (simp add: bit_unsigned_iff)
  then show ?thesis by (simp only: lsb_bits_Suc bit_0)
qed

lemma ones_bits: "length (filter id (lsb_bits n w)) = ones (unat w mod 2 ^ n)" for w :: u32
proof (induction n arbitrary: w)
  case (Suc n)
  have d: "unat (drop_bit 1 w) = unat w div 2" by (rule unat_drop_1)
  have "unat w mod 2 ^ Suc n = 2 * (unat w div 2 mod 2 ^ n) + unat w mod 2"
    by (simp add: mod_mult2_eq)
  then have "ones (unat w mod 2 ^ Suc n) = ones (unat w div 2 mod 2 ^ n) + unat w mod 2"
    by (cases "even (unat w)") (auto simp: odd_iff_mod_2_eq_one even_iff_mod_2_eq_zero)
  with Suc [of "drop_bit 1 w"] d show ?case
    by (auto simp: lsb_bits_Suc_nat odd_iff_mod_2_eq_one even_iff_mod_2_eq_zero)
qed simp

lemma unat_lfs_popc: "unat (lfs_popc w) = ones (unat w)"
proof -
  have "ones (unat w) \<le> 32" using ones_le [of "unat w" 32] by simp
  then show ?thesis by (simp add: lfs_popc_def builtin_popcount_def ones_bits unat_of_nat)
qed

lemma zeros_bits: "0 < unat w mod 2 ^ n \<Longrightarrow> length (takeWhile Not (lsb_bits n w)) = zeros (unat w)" for w :: u32
proof (induction n arbitrary: w)
  case (Suc n)
  have d: "unat (drop_bit 1 w) = unat w div 2" by (rule unat_drop_1)
  show ?case
  proof (cases "even (unat w)")
    case True
    then obtain m where m: "unat w = 2 * m" by blast
    with Suc.prems have "0 < m mod 2 ^ n" by simp
    with Suc.IH [of "drop_bit 1 w"] d m show ?thesis by (cases "m = 0") (auto simp: lsb_bits_Suc_nat)
  next
    case False
    then show ?thesis by (subst zeros.simps) (simp add: lsb_bits_Suc_nat)
  qed
qed simp

lemma unat_lfs_ctz:
  assumes "w \<noteq> 0"
  shows "unat (lfs_ctz w) = zeros (unat w)"
proof -
  have pos: "0 < unat w" using assms by (simp add: unat_gt_0)
  have "2 ^ zeros (unat w) \<le> unat w" using power_zeros_dvd [of "unat w"] pos by (rule dvd_imp_le)
  also have "\<dots> < 2 ^ 32" using unat_u32_less [of w] by simp
  finally have "zeros (unat w) < 32" by (rule power_less_imp_less_exp [rotated]) simp
  with zeros_bits [of w 32] pos show ?thesis by (simp add: lfs_ctz_def builtin_ctz_def unat_of_nat)
qed

text \<open>\<open>bit_len x r\<close>: \<open>r\<close> is the number of binary digits of \<open>x\<close>.\<close>

definition bit_len :: "nat \<Rightarrow> nat \<Rightarrow> bool" where
  "bit_len x r \<longleftrightarrow> (\<forall>k. x < 2 ^ k \<longleftrightarrow> r \<le> k)"

lemma bit_len_unique: "bit_len x r \<Longrightarrow> bit_len x s \<Longrightarrow> r = s"
  by (meson bit_len_def order_antisym order_refl)

lemma bit_lenI: "x < 2 ^ r \<Longrightarrow> 2 ^ r \<le> 2 * x \<Longrightarrow> bit_len x r"
proof (unfold bit_len_def, intro allI iffI)
  fix k
  assume a: "x < 2 ^ r" "2 ^ r \<le> 2 * x" and k: "x < 2 ^ k"
  show "r \<le> k"
  proof (rule ccontr)
    assume "\<not> r \<le> k"
    then have "(2 :: nat) ^ Suc k \<le> 2 ^ r" by (intro power_increasing) auto
    with a k show False by simp
  qed
next
  fix k
  assume "x < 2 ^ r" "r \<le> k"
  moreover have "(2 :: nat) ^ r \<le> 2 ^ k" using \<open>r \<le> k\<close> by (intro power_increasing) auto
  ultimately show "x < 2 ^ k" by linarith
qed

lemma bit_len_0 [simp]: "bit_len 0 0"
  by (simp add: bit_len_def)

lemma lsb_bits_Suc_last: "lsb_bits (Suc n) w = lsb_bits n w @ [bit w n]"
  by (simp add: lsb_bits_def)

lemma clz_bits:
  "unat w < 2 ^ n \<Longrightarrow> length (takeWhile Not (rev (lsb_bits n w))) \<le> n \<and>
    bit_len (unat w) (n - length (takeWhile Not (rev (lsb_bits n w))))" for w :: u32
proof (induction n)
  case (Suc n)
  have b: "bit w n \<longleftrightarrow> odd (unat w div 2 ^ n)"
  proof -
    have "bit (unat w) n = bit w n" by (simp add: bit_unsigned_iff)
    then show ?thesis by (simp only: bit_iff_odd [of "unat w"])
  qed
  show ?case
  proof (cases "unat w < 2 ^ n")
    case True
    then have "\<not> bit w n" using b by simp
    with Suc.IH [OF True] show ?thesis by (auto simp: lsb_bits_Suc_last Suc_diff_le)
  next
    case False
    with Suc.prems have "1 \<le> unat w div 2 ^ n" "unat w div 2 ^ n < 2"
      by (simp_all add: div_less_iff_less_mult div_greater_zero_iff Suc_le_eq)
    then have "unat w div 2 ^ n = 1" by linarith
    then have "bit w n" using b by simp
    with False Suc.prems show ?thesis by (auto simp: lsb_bits_Suc_last intro!: bit_lenI)
  qed
qed simp

lemma lfs_npw2_bit_len: "bit_len (unat (a - 1)) (unat (lfs_npw2 a))"
proof -
  define c where "c = length (takeWhile Not (rev (lsb_bits 32 (a - 1))))"
  have "c \<le> 32" "bit_len (unat (a - 1)) (32 - c)"
    using clz_bits [of "a - 1" 32] by (simp_all add: c_def)
  moreover have "unat (lfs_npw2 a) = 32 - c"
    using \<open>c \<le> 32\<close> by (simp add: lfs_npw2_def builtin_clz_def c_def [symmetric] unat_sub word_le_nat_alt unat_of_nat)
  ultimately show ?thesis by simp
qed

text \<open>One step of the portable search: \<open>m\<close> bits are skipped when the number has more.\<close>

lemma npw2_step:
  fixes a b :: u32
  assumes "unat a < 2 ^ (2 * m)" "s = (if unat a \<ge> 2 ^ m then m else 0)" "b = drop_bit s a"
  shows "unat b < 2 ^ m" "unat b = 0 \<longleftrightarrow> unat a = 0" "bit_len (unat b) r \<Longrightarrow> unat a \<noteq> 0 \<Longrightarrow> bit_len (unat a) (r + s)"
proof -
  have b: "unat b = unat a div 2 ^ s" unfolding assms(3) by (rule unat_drop)
  have "(2 :: nat) ^ (2 * m) = 2 ^ m * 2 ^ m" by (simp add: power_add mult_2)
  then show "unat b < 2 ^ m" using assms(1,2) b by (auto simp: div_less_iff_less_mult)
  show z: "unat b = 0 \<longleftrightarrow> unat a = 0"
    unfolding b using assms(2) by (auto simp: div_eq_0_iff not_less intro: less_le_trans [of 0 "2 ^ m"])
  assume l: "bit_len (unat b) r" and "unat a \<noteq> 0"
  then have r: "0 < r" using z unfolding bit_len_def by (metis gr0I le_numeral_extra(3) less_one power_0)
  have "unat a < 2 ^ k \<longleftrightarrow> r + s \<le> k" for k
  proof (cases "s \<le> k")
    case True
    then have "(2 :: nat) ^ k = 2 ^ (k - s) * 2 ^ s" by (simp add: power_add [symmetric])
    then have "unat a < 2 ^ k \<longleftrightarrow> unat b < 2 ^ (k - s)" by (simp add: b div_less_iff_less_mult)
    then show ?thesis using l True unfolding bit_len_def by (auto simp: le_diff_conv2)
  next
    case False
    then have "(2 :: nat) ^ k \<le> 2 ^ m" using assms(2) by (auto intro!: power_increasing split: if_splits)
    have "2 ^ m \<le> unat a" "s = m" using False assms(2) by (auto split: if_splits)
    with False \<open>2 ^ k \<le> 2 ^ m\<close> show ?thesis by linarith
  qed
  then show "bit_len (unat a) (r + s)" by (simp add: bit_len_def)
qed

text \<open>The portable body.  The counts of the four steps have different bits.\<close>

lemma of_bool_greater: "of_bool (a > b) = (if unat b < unat a then 1 else 0 :: u32)" for a b :: u32
  by (simp add: word_less_nat_alt)

lemma lfs_npw2_portable_bit_len:
  assumes "1 < a"
  shows "bit_len (unat (a - 1)) (unat (lfs_npw2_portable a))"
proof -
  define a0 where "a0 = a - 1"
  have nz: "unat a0 \<noteq> 0" using assms by (simp add: a0_def unat_sub word_le_nat_alt word_less_nat_alt)
  define s1 where "s1 = (if unat a0 \<ge> 2 ^ 16 then 16 else 0 :: nat)"
  define a1 where "a1 = drop_bit s1 a0"
  define s2 where "s2 = (if unat a1 \<ge> 2 ^ 8 then 8 else 0 :: nat)"
  define a2 where "a2 = drop_bit s2 a1"
  define s3 where "s3 = (if unat a2 \<ge> 2 ^ 4 then 4 else 0 :: nat)"
  define a3 where "a3 = drop_bit s3 a2"
  define s4 where "s4 = (if unat a3 \<ge> 2 ^ 2 then 2 else 0 :: nat)"
  define a4 where "a4 = drop_bit s4 a3"
  have "unat a0 < 2 ^ (2 * 16)" by simp
  note st1 = npw2_step [OF this s1_def a1_def]
  have "unat a1 < 2 ^ (2 * 8)" using st1(1) by simp
  note st2 = npw2_step [OF this s2_def a2_def]
  have "unat a2 < 2 ^ (2 * 4)" using st2(1) by simp
  note st3 = npw2_step [OF this s3_def a3_def]
  have "unat a3 < 2 ^ (2 * 2)" using st3(1) by simp
  note st4 = npw2_step [OF this s4_def a4_def]
  define r where "r = (if unat a4 = 1 then 1 else 2 :: nat)"
  have "unat a4 < 4" "unat a4 \<noteq> 0" using st1(2) st2(2) st3(2) st4(1,2) nz by simp_all
  then have "unat a4 = 1 \<or> unat a4 = 2 \<or> unat a4 = 3" by linarith
  then have a4: "bit_len (unat a4) r" "a4 \<in> {1, 2, 3}"
    by (auto simp: r_def intro!: bit_lenI simp: word_unat_eq_iff)
  have "bit_len (unat a0) (r + s4 + s3 + s2 + s1)"
    using st1(2,3) st2(2,3) st3(2,3) st4(2,3) a4(1) nz by simp
  moreover have "unat (lfs_npw2_portable a) = r + s4 + s3 + s2 + s1"
  proof -
    have w: "push_bit 4 (of_bool (a0 > 0xffff)) = (word_of_nat s1 :: u32)" "push_bit 3 (of_bool (a1 > 0xff)) = (word_of_nat s2 :: u32)"
      "push_bit 2 (of_bool (a2 > 0xf)) = (word_of_nat s3 :: u32)" "push_bit 1 (of_bool (a3 > 0x3)) = (word_of_nat s4 :: u32)"
      by (auto simp: s1_def s2_def s3_def s4_def word_less_nat_alt)
    have s: "s1 \<in> {0, 16}" "s2 \<in> {0, 8}" "s3 \<in> {0, 4}" "s4 \<in> {0, 2}"
      by (simp_all add: s1_def s2_def s3_def s4_def)
    then have u: "unat (word_of_nat s1 :: u32) = s1" "unat (word_of_nat s2 :: u32) = s2" "unat (word_of_nat s3 :: u32) = s3"
      "unat (word_of_nat s4 :: u32) = s4" by (auto simp: unat_of_nat)
    have "lfs_npw2_portable a = (word_of_nat s1 OR word_of_nat s2 OR word_of_nat s3 OR word_of_nat s4 OR drop_bit 1 a4) + 1"
      unfolding lfs_npw2_portable_def Let_def a0_def [symmetric] w u a1_def [symmetric] a2_def [symmetric] a3_def [symmetric]
        a4_def [symmetric] by (simp only: or.assoc)
    then show ?thesis using s a4(2) by (auto simp: r_def)
  qed
  ultimately show ?thesis by (simp add: a0_def)
qed

lemma odd_and_neg: "(1 + 2 * m) AND - (1 + 2 * m) = 1" for m :: u32
proof -
  have "- (1 + 2 * m) = 1 + 2 * NOT m" by (simp add: not_eq_complement algebra_simps)
  moreover have "(1 + 2 * m) AND (1 + 2 * NOT m) = 1"
  proof (rule bit_word_eqI)
    fix n assume "n < LENGTH(32)"
    then show "bit ((1 + 2 * m) AND (1 + 2 * NOT m)) n \<longleftrightarrow> bit (1 :: u32) n"
      unfolding bit_and_iff by (cases n) (auto simp: even_bit_succ_iff bit_double_iff bit_not_iff bit_1_iff bit_0)
  qed
  ultimately show ?thesis by (simp only:)
qed

lemma lowest_bit:
  fixes a :: u32
  assumes "a \<noteq> 0"
  shows "unat (a AND - a) = 2 ^ zeros (unat a)"
proof -
  define z where "z = zeros (unat a)"
  have pos: "0 < unat a" using assms by (simp add: unat_gt_0)
  obtain q where q: "unat a = 2 ^ z * q" using power_zeros_dvd [of "unat a"] by (auto simp: z_def)
  have "odd q"
  proof
    assume "even q"
    then have "2 ^ Suc z dvd unat a" using q by auto
    then show False using zeros_greatest [of "Suc z" "unat a"] pos by (simp add: z_def)
  qed
  then obtain m where m: "q = 1 + 2 * m" by (metis oddE add.commute)
  have "2 ^ z \<le> unat a" using q m by simp
  also have "\<dots> < 2 ^ 32" using unat_u32_less [of a] by simp
  finally have z: "z < 32" by (rule power_less_imp_less_exp [rotated]) simp
  have "a = word_of_nat (unat a)" by simp
  also have "\<dots> = push_bit z (1 + 2 * word_of_nat m)" unfolding q m by (simp add: push_bit_eq_mult algebra_simps)
  finally have a: "a = push_bit z (1 + 2 * word_of_nat m)" .
  have "- a = push_bit z (- (1 + 2 * word_of_nat m))"
    unfolding a push_bit_eq_mult by (rule minus_mult_left)
  then have "a AND - a = push_bit z ((1 + 2 * word_of_nat m) AND - (1 + 2 * word_of_nat m))"
    unfolding push_bit_and using a by (simp only:)
  then have "a AND - a = 2 ^ z" unfolding odd_and_neg by (simp add: push_bit_of_1)
  then have "a AND - a = word_of_nat (2 ^ z)" by simp
  moreover have "(2 :: nat) ^ z < 2 ^ 32" using z by (intro power_strict_increasing) auto
  ultimately show ?thesis by (simp add: z_def [symmetric] unat_of_nat del: of_nat_power)
qed

lemma lfs_ctz_portable: 
  assumes "a \<noteq> 0"
  shows "lfs_ctz_portable a = lfs_ctz a"
proof -
  define b where "b = (a AND - a) + 1"
  have pos: "0 < unat a" using assms by (simp add: unat_gt_0)
  have "2 ^ zeros (unat a) \<le> unat a" using power_zeros_dvd [of "unat a"] pos by (rule dvd_imp_le)
  moreover have "(4294967295 :: nat) \<noteq> 2 ^ zeros (unat a)"
  proof
    assume e: "(4294967295 :: nat) = 2 ^ zeros (unat a)"
    show False
    proof (cases "zeros (unat a)")
      case (Suc k)
      with e have "4294967295 = 2 * (2 :: nat) ^ k" by simp
      then show False by presburger
    qed (use e in simp)
  qed
  moreover have "unat a \<le> 4294967295" using unat_u32_less [of a] by linarith
  ultimately have small: "2 ^ zeros (unat a) < (4294967295 :: nat)" by linarith
  then have b: "unat b = 2 ^ zeros (unat a) + 1"
    unfolding b_def by (subst unat_add_u32) (simp_all add: lowest_bit assms)
  then have "1 < b" by (simp add: word_less_nat_alt)
  have "bit_len (2 ^ zeros (unat a)) (Suc (zeros (unat a)))" by (intro bit_lenI) auto
  moreover have "unat (b - 1) = 2 ^ zeros (unat a)" using b by (subst unat_sub) (simp_all add: word_le_nat_alt)
  ultimately have "unat (lfs_npw2_portable b) = Suc (zeros (unat a))"
    using lfs_npw2_portable_bit_len [OF \<open>1 < b\<close>] bit_len_unique by metis
  then have "unat (lfs_npw2_portable b - 1) = zeros (unat a)" by (subst unat_sub) (simp_all add: word_le_nat_alt)
  then show ?thesis
    unfolding lfs_ctz_portable_def b_def [symmetric] word_unat_eq_iff unat_lfs_ctz [OF assms] .
qed

text \<open>Masks act digit by digit.\<close>

definition digits :: "nat \<Rightarrow> nat list \<Rightarrow> nat" where
  "digits k ds = foldr (\<lambda>d n. d + 2 ^ k * n) ds 0"

lemma and_digit:
  fixes x y p q :: nat
  assumes "x < 2 ^ k" "y < 2 ^ k"
  shows "(x + 2 ^ k * p) AND (y + 2 ^ k * q) = (x AND y) + 2 ^ k * (p AND q)"
proof -
  have t: "take_bit k (x + 2 ^ k * p) = x" "take_bit k (y + 2 ^ k * q) = y"
    using assms by (simp_all add: take_bit_eq_mod)
  have d: "drop_bit k (x + 2 ^ k * p) = p" "drop_bit k (y + 2 ^ k * q) = q"
    using assms by (simp_all add: drop_bit_eq_div)
  show ?thesis
    using bits_ident [of k "(x + 2 ^ k * p) AND (y + 2 ^ k * q)"] unfolding take_bit_and drop_bit_and t d
    by (simp add: push_bit_eq_mult mult.commute)
qed

lemma and_digits:
  "list_all2 (\<lambda>d e. d < 2 ^ k \<and> e < 2 ^ k) ds es \<Longrightarrow> digits k ds AND digits k es = digits k (map2 (AND) ds es)"
  by (induction ds es rule: list_all2_induct) (simp_all add: digits_def and_digit)

lemma bits_digits: "unat w mod 2 ^ n = digits 1 (map (\<lambda>i. of_bool (bit w i)) [0..<n])" for w :: u32
proof -
  have "lsb_bits n w = lsb_bits n w \<Longrightarrow> unat w mod 2 ^ n = digits 1 (map of_bool (lsb_bits n w))"
  proof (induction n arbitrary: w)
    case (Suc n)
    have "unat w mod 2 ^ Suc n = unat w mod 2 + 2 * (unat w div 2 mod 2 ^ n)"
      by (simp add: mod_mult2_eq)
    with Suc.IH [of "drop_bit 1 w"] unat_drop_1 [of w] show ?case
      by (simp add: lsb_bits_Suc_nat digits_def odd_iff_mod_2_eq_one)
  qed (simp add: digits_def)
  then show ?thesis by (simp add: lsb_bits_def comp_def)
qed

lemma upt_32: "[0..<32] = [0, 1, 2, 3, 4, 5, 6, 7, 8, 9, 10, 11, 12, 13, 14, 15, 16, 17, 18, 19, 20, 21, 22, 23, 24, 25, 26, 27, 28, 29, 30, 31]"
  by (simp add: upt_rec)

lemma and_small: "(x :: nat) \<le> 1 \<Longrightarrow> x AND 1 = x" "x \<le> 2 \<Longrightarrow> x AND 3 = x" "x \<le> 8 \<Longrightarrow> x AND 15 = x"
proof -
  show "x \<le> 1 \<Longrightarrow> x AND 1 = x" using and_nat_def take_bit_nat_eq_self [of x 1] by (simp add: take_bit_eq_mask mask_eq_exp_minus_1)
  show "x \<le> 2 \<Longrightarrow> x AND 3 = x" using take_bit_nat_eq_self [of x 2] by (simp add: take_bit_eq_mask mask_eq_exp_minus_1)
  show "x \<le> 8 \<Longrightarrow> x AND 15 = x" using take_bit_nat_eq_self [of x 4] by (simp add: take_bit_eq_mask mask_eq_exp_minus_1)
qed

lemma unat_and: "unat (a AND b) = unat a AND unat b" for a b :: u32
  by (simp add: unsigned_and_eq)

lemma digits_div: "d < 2 ^ k \<Longrightarrow> digits k (d # ds) div 2 ^ k = digits k ds"
  by (simp add: digits_def)

text \<open>The steps of the portable population count: sums of 2, of 4, of 8 bits, and of the bytes.\<close>

lemma popc_pairs:
  assumes "\<forall>b\<in>set [b0, b1, b2, b3, b4, b5, b6, b7, b8, b9, b10, b11, b12, b13, b14, b15, b16, b17, b18, b19, b20, b21, b22, b23, b24, b25, b26, b27, b28, b29, b30, b31]. b \<le> 1" and n: "n = digits 1 [b0, b1, b2, b3, b4, b5, b6, b7, b8, b9, b10, b11, b12, b13, b14, b15, b16, b17, b18, b19, b20, b21, b22, b23, b24, b25, b26, b27, b28, b29, b30, b31]"
  shows "n - ((n div 2) AND 0x55555555) = digits 2 [b0 + b1, b2 + b3, b4 + b5, b6 + b7, b8 + b9, b10 + b11, b12 + b13, b14 + b15, b16 + b17, b18 + b19, b20 + b21, b22 + b23, b24 + b25, b26 + b27, b28 + b29, b30 + b31]"
proof -
  let ?t = "[b1, b2, b3, b4, b5, b6, b7, b8, b9, b10, b11, b12, b13, b14, b15, b16, b17, b18, b19, b20, b21, b22, b23, b24, b25, b26, b27, b28, b29, b30, b31]" and ?e = "[1, 0, 1, 0, 1, 0, 1, 0, 1, 0, 1, 0, 1, 0, 1, 0, 1, 0, 1, 0, 1, 0, 1, 0, 1, 0, 1, 0, 1, 0, 1]"
  have h: "n div 2 = digits 1 ?t" unfolding n using assms(1) digits_div [of b0 1 ?t] by simp
  have m: "(0x55555555 :: nat) = digits 1 ?e" by (simp add: digits_def)
  have "digits 1 ?t AND digits 1 ?e = digits 1 (map2 (AND) ?t ?e)"
    using assms(1) by (intro and_digits) simp
  also have "map2 (AND) ?t ?e = [b1, 0, b3, 0, b5, 0, b7, 0, b9, 0, b11, 0, b13, 0, b15, 0, b17, 0, b19, 0, b21, 0, b23, 0, b25, 0, b27, 0, b29, 0, b31]"
    using assms(1) by (simp add: and_small(1) [simplified])
  finally show ?thesis unfolding h m by (simp add: n digits_def)
qed

lemma popc_fours:
  assumes "\<forall>c\<in>set [c0, c1, c2, c3, c4, c5, c6, c7, c8, c9, c10, c11, c12, c13, c14, c15]. c \<le> 2" and n: "n = digits 2 [c0, c1, c2, c3, c4, c5, c6, c7, c8, c9, c10, c11, c12, c13, c14, c15]"
  shows "(n AND 0x33333333) + ((n div 4) AND 0x33333333) = digits 4 [c0 + c1, c2 + c3, c4 + c5, c6 + c7, c8 + c9, c10 + c11, c12 + c13, c14 + c15]"
proof -
  let ?t = "[c1, c2, c3, c4, c5, c6, c7, c8, c9, c10, c11, c12, c13, c14, c15]" and ?e = "[3, 0, 3, 0, 3, 0, 3, 0, 3, 0, 3, 0, 3, 0, 3, 0]" and ?e' = "[3, 0, 3, 0, 3, 0, 3, 0, 3, 0, 3, 0, 3, 0, 3]"
  have h: "n div 4 = digits 2 ?t" unfolding n using assms(1) digits_div [of c0 2 ?t] by simp
  have m: "(0x33333333 :: nat) = digits 2 ?e" "(0x33333333 :: nat) = digits 2 ?e'" by (simp_all add: digits_def)
  have "n AND 0x33333333 = digits 2 (map2 (AND) [c0, c1, c2, c3, c4, c5, c6, c7, c8, c9, c10, c11, c12, c13, c14, c15] ?e)"
    unfolding n m(1) using assms(1) by (intro and_digits) simp
  also have "map2 (AND) [c0, c1, c2, c3, c4, c5, c6, c7, c8, c9, c10, c11, c12, c13, c14, c15] ?e = [c0, 0, c2, 0, c4, 0, c6, 0, c8, 0, c10, 0, c12, 0, c14, 0]"
    using assms(1) by (simp add: and_small(2))
  finally have 1: "n AND 0x33333333 = digits 2 [c0, 0, c2, 0, c4, 0, c6, 0, c8, 0, c10, 0, c12, 0, c14, 0]" .
  have "(n div 4) AND 0x33333333 = digits 2 (map2 (AND) ?t ?e')"
    unfolding h m(2) using assms(1) by (intro and_digits) simp
  also have "map2 (AND) ?t ?e' = [c1, 0, c3, 0, c5, 0, c7, 0, c9, 0, c11, 0, c13, 0, c15]"
    using assms(1) by (simp add: and_small(2))
  finally show ?thesis unfolding 1 by (simp add: digits_def)
qed

lemma popc_eights:
  assumes "\<forall>e\<in>set [e0, e1, e2, e3, e4, e5, e6, e7]. e \<le> 4" and n: "n = digits 4 [e0, e1, e2, e3, e4, e5, e6, e7]"
  shows "(n + n div 16) AND 0xf0f0f0f = digits 8 [e0 + e1, e2 + e3, e4 + e5, e6 + e7]"
proof -
  let ?s = "[e0 + e1, e1 + e2, e2 + e3, e3 + e4, e4 + e5, e5 + e6, e6 + e7, e7]" and ?e = "[15, 0, 15, 0, 15, 0, 15, 0]"
  have "n div 16 = digits 4 [e1, e2, e3, e4, e5, e6, e7]"
    unfolding n using assms(1) digits_div [of e0 4 "[e1, e2, e3, e4, e5, e6, e7]"] by simp
  then have h: "n + n div 16 = digits 4 ?s" unfolding n by (simp add: digits_def)
  have m: "(0xf0f0f0f :: nat) = digits 4 ?e" by (simp add: digits_def)
  have "digits 4 ?s AND digits 4 ?e = digits 4 (map2 (AND) ?s ?e)"
    using assms(1) by (intro and_digits) simp
  also have "map2 (AND) ?s ?e = [e0 + e1, 0, e2 + e3, 0, e4 + e5, 0, e6 + e7, 0]"
    using assms(1) by (simp add: and_small(3))
  finally show ?thesis unfolding h m by (simp add: digits_def)
qed

lemma popc_bytes:
  assumes "\<forall>f\<in>set [f0, f1, f2, f3]. f \<le> 8" and n: "n = digits 8 [f0, f1, f2, f3]"
  shows "(n * 0x1010101 mod 4294967296) div 16777216 = f0 + f1 + f2 + f3"
proof -
  have "n * 0x1010101 = f0 + 256 * (f0 + f1) + 65536 * (f0 + f1 + f2) + 16777216 * (f0 + f1 + f2 + f3) +
      4294967296 * (f1 + f2 + f3 + 256 * (f2 + f3) + 65536 * f3)"
    unfolding n by (simp add: digits_def)
  then have "n * 0x1010101 mod 4294967296 =
      f0 + 256 * (f0 + f1) + 65536 * (f0 + f1 + f2) + 16777216 * (f0 + f1 + f2 + f3)"
    using assms(1) by (simp only: mod_mult_self2) simp
  with assms(1) show ?thesis by simp
qed


lemma unat_sub_le: "unat b \<le> unat a \<Longrightarrow> unat (a - b) = unat a - unat b" for a b :: u32
  by (simp add: unat_sub word_le_nat_alt)

lemma Suc_index: "unat i < unat n \<Longrightarrow> unat (i + 1) = Suc (unat i)" for i n :: u32
proof -
  assume "unat i < unat n"
  with unat_u32_less [of n] have "unat i + unat (1 :: u32) < 4294967296" by (simp only: unat_1)
  then have "unat (i + 1) = unat i + unat (1 :: u32)" by (rule unat_add_u32)
  then show ?thesis by simp
qed

lemma index_closer: "i < n \<Longrightarrow> unat (n - (i + 1)) < unat (n - i)" for i n :: u32
proof -
  assume "i < n"
  then have lt: "unat i < unat n" by (simp add: word_less_nat_alt)
  then have "unat (n - (i + 1)) = unat n - unat (i + 1)" "unat (n - i) = unat n - unat i"
    using Suc_index [OF lt] by (simp_all add: unat_sub_le)
  with lt Suc_index [OF lt] show ?thesis by simp
qed

lemma unat_mult_u32: "unat (a * b) = unat a * unat b mod 4294967296" for a b :: u32
  by (simp add: unat_word_ariths)

lemma nat_and_le: "m AND n \<le> m" for m n :: nat
proof -
  have "int (m AND n) \<le> int m" by (simp add: of_nat_and_eq)
  then show ?thesis by simp
qed

lemma upt_16: "[0..<16] = [0, 1, 2, 3, 4, 5, 6, 7, 8, 9, 10, 11, 12, 13, 14, 15]" and upt_8: "[0..<8] = [0, 1, 2, 3, 4, 5, 6, 7]"
  by (simp_all add: upt_rec)

lemma word_of_unat: "unat w = n \<Longrightarrow> w = word_of_nat n"
  by auto

lemma length_filter_id: "length (filter id bs) = sum_list (map of_bool bs)"
  by (induction bs) simp_all

lemma lfs_popc_portable: "lfs_popc_portable w = lfs_popc w"
proof -
  define b where "b i = (of_bool (bit w i) :: nat)" for i
  define c where "c i = b (2 * i) + b (2 * i + 1)" for i
  define e where "e i = c (2 * i) + c (2 * i + 1)" for i
  define f where "f i = e (2 * i) + e (2 * i + 1)" for i
  have le: "b i \<le> 1" "c i \<le> 2" "e i \<le> 4" "f i \<le> 8" for i
    by (simp_all add: b_def c_def e_def f_def of_bool_def)
  have w: "unat w = digits 1 (map b [0..<32])" using bits_digits [of w 32] by (simp add: b_def [abs_def])
  define a1 where "a1 = w - (drop_bit 1 w AND 0x55555555)"
  define a2 where "a2 = (a1 AND 0x33333333) + (drop_bit 2 a1 AND 0x33333333)"
  define a3 where "a3 = (a2 + drop_bit 4 a2) AND 0xf0f0f0f"
  have "unat (drop_bit 1 w AND 0x55555555) \<le> unat w"
  proof -
    have "unat (drop_bit 1 w AND 0x55555555) \<le> unat w div 2" unfolding unat_and unat_drop_1 by (rule nat_and_le)
    then show ?thesis by linarith
  qed
  then have "unat a1 = unat w - ((unat w div 2) AND 0x55555555)"
    unfolding a1_def by (simp only: unat_sub_le) (simp only: unat_and unat_drop_1, simp)
  also have "\<dots> = digits 2 (map c [0..<16])"
    using popc_pairs [OF _ w [unfolded upt_32 list.map]] le(1) by (simp add: upt_16 c_def)
  finally have a1: "unat a1 = digits 2 (map c [0..<16])" .
  have d2: "unat (drop_bit 2 a1) = unat a1 div 4" using unat_drop [of 2 a1] by simp
  have "unat a2 = (unat a1 AND 0x33333333) + ((unat a1 div 4) AND 0x33333333)"
    unfolding a2_def
  proof (subst unat_add_u32)
    have "(unat a1 AND 0x33333333) \<le> 0x33333333" "((unat a1 div 4) AND 0x33333333) \<le> 0x33333333"
      using nat_and_le [of "0x33333333"] by (simp_all add: and.commute)
    then show "unat (a1 AND 0x33333333) + unat (drop_bit 2 a1 AND 0x33333333) < 4294967296"
      unfolding unat_and d2 by simp
  qed (simp add: unat_and d2)
  also have "\<dots> = digits 4 (map e [0..<8])"
  proof -
    have "unat a1 = digits 2 [c 0, c 1, c 2, c 3, c 4, c 5, c 6, c 7, c 8, c 9, c 10, c 11, c 12, c 13, c 14, c 15]"
      unfolding a1 upt_16 by simp
    from popc_fours [OF _ this] le(2) show ?thesis by (simp add: upt_8 e_def)
  qed
  finally have a2: "unat a2 = digits 4 (map e [0..<8])" .
  have a2': "unat a2 = digits 4 [e 0, e 1, e 2, e 3, e 4, e 5, e 6, e 7]"
    unfolding a2 upt_8 by simp
  have small: "unat a2 \<le> 0x44444444"
    unfolding a2' digits_def using le(3) [of 0] le(3) [of 1] le(3) [of 2] le(3) [of 3] le(3) [of 4] le(3) [of 5] le(3) [of 6] le(3) [of 7] by simp
  have "unat a3 = (unat a2 + unat a2 div 16) AND 0xf0f0f0f"
    using small unat_drop [of 4 a2] unfolding a3_def unat_and by (subst unat_add_u32) simp_all
  also have "\<dots> = digits 8 [f 0, f 1, f 2, f 3]"
    using popc_eights [OF _ a2'] le(3) by (simp add: f_def)
  finally have a3: "unat a3 = digits 8 [f 0, f 1, f 2, f 3]" .
  have "unat (drop_bit 24 (a3 * 0x1010101)) = (unat a3 * 0x1010101 mod 4294967296) div 16777216"
    using unat_drop [of 24 "a3 * 0x1010101"] by (simp add: unat_mult_u32)
  also have "\<dots> = f 0 + f 1 + f 2 + f 3"
    by (rule popc_bytes [OF _ a3]) (use le(4) in simp)
  also have "\<dots> = length (filter id (lsb_bits 32 w))"
    unfolding lsb_bits_def upt_32 length_filter_id by (simp add: f_def e_def c_def b_def)
  finally have "lfs_popc_portable w = word_of_nat (length (filter id (lsb_bits 32 w)))"
    unfolding lfs_popc_portable_def Let_def a1_def [symmetric] a2_def [symmetric] a3_def [symmetric]
    by (rule word_of_unat)
  then show ?thesis by (simp add: lfs_popc_def builtin_popcount_def)
qed

section \<open>Properties\<close>

text \<open>
  The portable bodies of the three bit-counting helpers compute what the compiler's
  functions compute: the population count always, the trailing zeros of every number but 0, and the
  rounded logarithm of every number above 1.
\<close>

theorem lfs_bit_counts_portable:
  "lfs_popc_portable w = lfs_popc w \<and> (w \<noteq> 0 \<longrightarrow> lfs_ctz_portable w = lfs_ctz w) \<and>
   (1 < w \<longrightarrow> lfs_npw2_portable w = lfs_npw2 w)"
proof (intro conjI impI)
  assume "1 < w"
  then have "bit_len (unat (w - 1)) (unat (lfs_npw2_portable w))" by (rule lfs_npw2_portable_bit_len)
  with lfs_npw2_bit_len [of w] show "lfs_npw2_portable w = lfs_npw2 w"
    using bit_len_unique by (simp add: word_unat_eq_iff)
qed (simp_all add: lfs_popc_portable lfs_ctz_portable)

text \<open>
  \<open>lfs_npw2\<close> rounds up: for every number above 1 it is the smallest exponent of a power
  of two that is not below the number.
\<close>

theorem lfs_npw2_least:
  assumes "1 < a"
  shows "unat a \<le> 2 ^ k \<longleftrightarrow> unat (lfs_npw2 a) \<le> k"
proof -
  have "unat (a - 1) = unat a - 1" using assms by (subst unat_sub) (auto simp: word_le_nat_alt word_less_nat_alt)
  moreover have "0 < unat a" using assms by (simp add: word_less_nat_alt)
  ultimately have "unat a \<le> 2 ^ k \<longleftrightarrow> unat (a - 1) < 2 ^ k" by auto
  then show ?thesis using lfs_npw2_bit_len [of a] by (simp add: bit_len_def)
qed

text \<open>
  The checksum of littlefs, two table lookups per byte, is the bitwise reflected CRC-32
  without initial and final inversion, for every running value.
\<close>

theorem lfs_crc_bitwise:
  "lfs_crc crc buffer = fold (\<lambda>b c. (crc32_shift ^^ 8) (c XOR ucast b)) buffer crc"
  by (induction crc buffer rule: lfs_crc.induct) (simp_all add: lfs_crc_step uzlib_crc32_byte_step)

end
