(* ===== verification/Lfs_Bd.thy ===== *)
theory Lfs_Bd
  imports Lfs_Util
begin

text \<open>
  The caching block device layer of littlefs (\<open>lfs_bd_read\<close> to \<open>lfs_bd_erase\<close> of \<open>lfs.c\<close>).  The
  device operations are function pointers of \<open>struct lfs_config\<close>; they act on a device state.  None
  is a call that does not return: a failed assertion, or a loop that makes no progress.
\<close>

section \<open>Configuration and caches\<close>

definition LFS_BLOCK_NULL :: u32 where "LFS_BLOCK_NULL = - 1"
definition LFS_BLOCK_INLINE :: u32 where "LFS_BLOCK_INLINE = - 2"
definition LFS_ERR_CORRUPT :: int where "LFS_ERR_CORRUPT = -84"
definition LFS_CMP_EQ :: int where "LFS_CMP_EQ = 0"
definition LFS_CMP_LT :: int where "LFS_CMP_LT = 1"
definition LFS_CMP_GT :: int where "LFS_CMP_GT = 2"

record 'd lfs_config =
  bd_read :: "u32 \<Rightarrow> u32 \<Rightarrow> u32 \<Rightarrow> 'd \<Rightarrow> (int \<times> u8 list \<times> 'd) option"
  bd_prog :: "u32 \<Rightarrow> u32 \<Rightarrow> u8 list \<Rightarrow> 'd \<Rightarrow> (int \<times> 'd) option"
  bd_erase :: "u32 \<Rightarrow> 'd \<Rightarrow> (int \<times> 'd) option"
  bd_sync :: "'d \<Rightarrow> (int \<times> 'd) option"
  read_size :: u32
  prog_size :: u32
  block_size :: u32
  block_count :: u32
  cache_size :: u32
  lookahead_size :: u32
  metadata_max :: u32

record lfs_cache =
  cache_block :: u32
  cache_off :: u32
  cache_len :: u32
  cache_buffer :: "u8 list"

definition lfs_cache_drop :: "lfs_cache \<Rightarrow> lfs_cache" where
  "lfs_cache_drop rcache = rcache\<lparr>cache_block := LFS_BLOCK_NULL\<rparr>"

definition lfs_cache_zero :: "'d lfs_config \<Rightarrow> lfs_cache \<Rightarrow> lfs_cache" where
  "lfs_cache_zero cfg pcache =
     pcache\<lparr>cache_buffer := mem_write (cache_buffer pcache) 0 (replicate (unat (cache_size cfg)) 0xff),
       cache_block := LFS_BLOCK_NULL\<rparr>"

section \<open>Reading\<close>

text \<open>The cache holds bytes of the block at or after the offset.\<close>

definition cache_ahead :: "u32 \<Rightarrow> u32 \<Rightarrow> lfs_cache \<Rightarrow> bool" where
  "cache_ahead block off c \<longleftrightarrow> block = cache_block c \<and> off < cache_off c + cache_len c"

definition cache_copy :: "u32 \<Rightarrow> u32 \<Rightarrow> lfs_cache \<Rightarrow> u8 list" where
  "cache_copy off n c = take (unat n) (drop (unat (off - cache_off c)) (cache_buffer c))"

partial_function (option) bd_read_loop ::
  "'d lfs_config \<Rightarrow> lfs_cache option \<Rightarrow> u32 \<Rightarrow> u32 \<Rightarrow> u32 \<Rightarrow> u32 \<Rightarrow> u8 list \<Rightarrow> lfs_cache \<Rightarrow> 'd \<Rightarrow>
     (int \<times> u8 list \<times> lfs_cache \<times> 'd) option" where
  "bd_read_loop cfg pcache hint block off sz data rcache d =
     (if sz > 0 then
        let in_p = (case pcache of None \<Rightarrow> False | Some p \<Rightarrow> cache_ahead block off p);
            p = (case pcache of None \<Rightarrow> rcache | Some p \<Rightarrow> p)
        in if in_p \<and> off \<ge> cache_off p then
             let diff = lfs_min sz (cache_len p - (off - cache_off p))
             in bd_read_loop cfg pcache hint block (off + diff) (sz - diff) (data @ cache_copy off diff p) rcache d
           else
             let diff = (if in_p then lfs_min sz (cache_off p - off) else sz);
                 in_r = cache_ahead block off rcache
             in if in_r \<and> off \<ge> cache_off rcache then
                  let diff = lfs_min diff (cache_len rcache - (off - cache_off rcache))
                  in bd_read_loop cfg pcache hint block (off + diff) (sz - diff) (data @ cache_copy off diff rcache) rcache d
                else
                  let diff = (if in_r then lfs_min diff (cache_off rcache - off) else diff)
                  in if sz \<ge> hint \<and> off mod read_size cfg = 0 \<and> sz \<ge> read_size cfg then
                       let diff = lfs_aligndown diff (read_size cfg)
                       in case bd_read cfg block off diff d of
                            None \<Rightarrow> None
                          | Some (err, bytes, d) \<Rightarrow>
                              if err \<noteq> 0 then Some (err, data, rcache, d)
                              else bd_read_loop cfg pcache hint block (off + diff) (sz - diff) (data @ bytes) rcache d
                     else if block \<ge> block_count cfg then None
                     else
                       let start = lfs_aligndown off (read_size cfg);
                           len = lfs_min (lfs_min (lfs_alignup (off + hint) (read_size cfg)) (block_size cfg) - start)
                             (cache_size cfg)
                       in case bd_read cfg block start len d of
                            None \<Rightarrow> None
                          | Some (err, bytes, d) \<Rightarrow>
                              let rcache = rcache\<lparr>cache_block := block, cache_off := start, cache_len := len,
                                    cache_buffer := mem_write (cache_buffer rcache) 0 bytes\<rparr>
                              in if err > 0 then None
                                 else if err \<noteq> 0 then Some (err, data, rcache, d)
                                 else bd_read_loop cfg pcache hint block off sz data rcache d
      else Some (0, data, rcache, d))"

definition lfs_bd_read ::
  "'d lfs_config \<Rightarrow> lfs_cache option \<Rightarrow> lfs_cache \<Rightarrow> u32 \<Rightarrow> u32 \<Rightarrow> u32 \<Rightarrow> u32 \<Rightarrow> 'd \<Rightarrow>
     (int \<times> u8 list \<times> lfs_cache \<times> 'd) option" where
  "lfs_bd_read cfg pcache rcache hint block off sz d =
     (if block \<ge> block_count cfg \<or> off + sz > block_size cfg then Some (LFS_ERR_CORRUPT, [], rcache, d)
      else bd_read_loop cfg pcache hint block off sz [] rcache d)"

section \<open>Comparing, flushing, programming\<close>

text \<open>The sign of the first difference.\<close>

fun memcmp :: "u8 list \<Rightarrow> u8 list \<Rightarrow> int" where
  "memcmp (x # xs) (y # ys) = (if x = y then memcmp xs ys else if x < y then -1 else 1)"
| "memcmp _ _ = 0"

partial_function (option) bd_cmp_loop ::
  "'d lfs_config \<Rightarrow> lfs_cache option \<Rightarrow> u32 \<Rightarrow> u32 \<Rightarrow> u32 \<Rightarrow> u8 list \<Rightarrow> u32 \<Rightarrow> u32 \<Rightarrow> lfs_cache \<Rightarrow> 'd \<Rightarrow>
     (int \<times> lfs_cache \<times> 'd) option" where
  "bd_cmp_loop cfg pcache hint block off data sz i rcache d =
     (if i < sz then
        let diff = lfs_min (sz - i) 8
        in case lfs_bd_read cfg pcache rcache (hint - i) block (off + i) diff d of
             None \<Rightarrow> None
           | Some (err, dat, rcache, d) \<Rightarrow>
               if err \<noteq> 0 then Some (err, rcache, d)
               else
                 let res = memcmp dat (take (unat diff) (drop (unat i) data))
                 in if res \<noteq> 0 then Some (if res < 0 then LFS_CMP_LT else LFS_CMP_GT, rcache, d)
                    else bd_cmp_loop cfg pcache hint block off data sz (i + diff) rcache d
      else Some (LFS_CMP_EQ, rcache, d))"

definition lfs_bd_cmp ::
  "'d lfs_config \<Rightarrow> lfs_cache option \<Rightarrow> lfs_cache \<Rightarrow> u32 \<Rightarrow> u32 \<Rightarrow> u32 \<Rightarrow> u8 list \<Rightarrow> u32 \<Rightarrow> 'd \<Rightarrow>
     (int \<times> lfs_cache \<times> 'd) option" where
  "lfs_bd_cmp cfg pcache rcache hint block off data sz d =
     bd_cmp_loop cfg pcache hint block off data sz 0 rcache d"

definition lfs_bd_flush ::
  "'d lfs_config \<Rightarrow> lfs_cache \<Rightarrow> lfs_cache \<Rightarrow> bool \<Rightarrow> 'd \<Rightarrow> (int \<times> lfs_cache \<times> lfs_cache \<times> 'd) option" where
  "lfs_bd_flush cfg pcache rcache validate d =
     (if cache_block pcache \<noteq> LFS_BLOCK_NULL \<and> cache_block pcache \<noteq> LFS_BLOCK_INLINE then
        if cache_block pcache \<ge> block_count cfg then None
        else
          let diff = lfs_alignup (cache_len pcache) (prog_size cfg)
          in case bd_prog cfg (cache_block pcache) (cache_off pcache) (take (unat diff) (cache_buffer pcache)) d of
               None \<Rightarrow> None
             | Some (err, d) \<Rightarrow>
                 if err > 0 then None
                 else if err \<noteq> 0 then Some (err, pcache, rcache, d)
                 else if validate then
                   case lfs_bd_cmp cfg None (lfs_cache_drop rcache) diff (cache_block pcache) (cache_off pcache)
                          (cache_buffer pcache) diff d of
                     None \<Rightarrow> None
                   | Some (res, rcache, d) \<Rightarrow>
                       if res < 0 then Some (res, pcache, rcache, d)
                       else if res \<noteq> LFS_CMP_EQ then Some (LFS_ERR_CORRUPT, pcache, rcache, d)
                       else Some (0, lfs_cache_zero cfg pcache, rcache, d)
                 else Some (0, lfs_cache_zero cfg pcache, rcache, d)
      else Some (0, pcache, rcache, d))"

definition lfs_bd_sync ::
  "'d lfs_config \<Rightarrow> lfs_cache \<Rightarrow> lfs_cache \<Rightarrow> bool \<Rightarrow> 'd \<Rightarrow> (int \<times> lfs_cache \<times> lfs_cache \<times> 'd) option" where
  "lfs_bd_sync cfg pcache rcache validate d =
     (case lfs_bd_flush cfg pcache (lfs_cache_drop rcache) validate d of
        None \<Rightarrow> None
      | Some (err, pcache, rcache, d) \<Rightarrow>
          if err \<noteq> 0 then Some (err, pcache, rcache, d)
          else
            case bd_sync cfg d of
              None \<Rightarrow> None
            | Some (err, d) \<Rightarrow> if err > 0 then None else Some (err, pcache, rcache, d))"

partial_function (option) bd_prog_loop ::
  "'d lfs_config \<Rightarrow> bool \<Rightarrow> u32 \<Rightarrow> u32 \<Rightarrow> u8 list \<Rightarrow> u32 \<Rightarrow> lfs_cache \<Rightarrow> lfs_cache \<Rightarrow> 'd \<Rightarrow>
     (int \<times> lfs_cache \<times> lfs_cache \<times> 'd) option" where
  "bd_prog_loop cfg validate block off data sz pcache rcache d =
     (if sz > 0 then
        if block = cache_block pcache \<and> off \<ge> cache_off pcache \<and> off < cache_off pcache + cache_size cfg then
          let diff = lfs_min sz (cache_size cfg - (off - cache_off pcache));
              pcache = pcache\<lparr>cache_buffer :=
                mem_write (cache_buffer pcache) (unat (off - cache_off pcache)) (take (unat diff) data)\<rparr>;
              data = drop (unat diff) data;
              off = off + diff;
              sz = sz - diff;
              pcache = pcache\<lparr>cache_len := lfs_max (cache_len pcache) (off - cache_off pcache)\<rparr>
          in if cache_len pcache = cache_size cfg then
               case lfs_bd_flush cfg pcache rcache validate d of
                 None \<Rightarrow> None
               | Some (err, pcache, rcache, d) \<Rightarrow>
                   if err \<noteq> 0 then Some (err, pcache, rcache, d)
                   else bd_prog_loop cfg validate block off data sz pcache rcache d
             else bd_prog_loop cfg validate block off data sz pcache rcache d
        else if cache_block pcache \<noteq> LFS_BLOCK_NULL then None
        else bd_prog_loop cfg validate block off data sz
               (pcache\<lparr>cache_block := block, cache_off := lfs_aligndown off (prog_size cfg), cache_len := 0\<rparr>) rcache d
      else Some (0, pcache, rcache, d))"

definition lfs_bd_prog ::
  "'d lfs_config \<Rightarrow> lfs_cache \<Rightarrow> lfs_cache \<Rightarrow> bool \<Rightarrow> u32 \<Rightarrow> u32 \<Rightarrow> u8 list \<Rightarrow> 'd \<Rightarrow>
     (int \<times> lfs_cache \<times> lfs_cache \<times> 'd) option" where
  "lfs_bd_prog cfg pcache rcache validate block off data d =
     (let sz = word_of_nat (length data)
      in if \<not> (block = LFS_BLOCK_INLINE \<or> block < block_count cfg) \<or> \<not> (off + sz \<le> block_size cfg) then None
         else bd_prog_loop cfg validate block off data sz pcache rcache d)"

definition lfs_bd_erase :: "'d lfs_config \<Rightarrow> u32 \<Rightarrow> 'd \<Rightarrow> (int \<times> 'd) option" where
  "lfs_bd_erase cfg block d =
     (if block \<ge> block_count cfg then None
      else case bd_erase cfg block d of None \<Rightarrow> None | Some (err, d) \<Rightarrow> if err > 0 then None else Some (err, d))"

section \<open>What a device promises\<close>

lemma block_markers: "unat LFS_BLOCK_NULL = 4294967295" "unat LFS_BLOCK_INLINE = 4294967294"
proof -
  have v: "LFS_BLOCK_NULL = 4294967295" "LFS_BLOCK_INLINE = 4294967294"
    by (simp_all add: LFS_BLOCK_NULL_def LFS_BLOCK_INLINE_def)
  show "unat LFS_BLOCK_NULL = 4294967295" "unat LFS_BLOCK_INLINE = 4294967294" unfolding v by simp_all
qed

text \<open>
  \<open>contents d b\<close> are the bytes of block \<open>b\<close>, \<open>ready d b i\<close> says that byte \<open>i\<close> of it may be programmed,
  which an erase makes true and a program makes false.  The sizes are those \<open>lfs_init\<close> asserts.
\<close>

locale block_device =
  fixes cfg :: "'d lfs_config" and ok :: "'d \<Rightarrow> bool" and contents :: "'d \<Rightarrow> nat \<Rightarrow> u8 list"
    and ready :: "'d \<Rightarrow> nat \<Rightarrow> nat \<Rightarrow> bool"
  assumes sizes: "0 < unat (read_size cfg)" "0 < unat (prog_size cfg)"
      "unat (read_size cfg) dvd unat (cache_size cfg)" "unat (prog_size cfg) dvd unat (cache_size cfg)"
      "unat (cache_size cfg) dvd unat (block_size cfg)" "0 < unat (cache_size cfg)" "0 < unat (block_size cfg)"
      "unat (block_size cfg) \<le> 1073741824" "block_count cfg \<le> LFS_BLOCK_INLINE"
    and block_length: "ok d \<Longrightarrow> k < unat (block_count cfg) \<Longrightarrow> length (contents d k) = unat (block_size cfg)"
    and dev_read: "ok d \<Longrightarrow> b < block_count cfg \<Longrightarrow> unat (read_size cfg) dvd unat a \<Longrightarrow> unat (read_size cfg) dvd unat n \<Longrightarrow>
      unat a + unat n \<le> unat (block_size cfg) \<Longrightarrow>
      \<exists>d'. bd_read cfg b a n d = Some (0, mem_read (contents d (unat b)) (unat a) (unat n), d') \<and>
        ok d' \<and> contents d' = contents d \<and> ready d' = ready d"
    and dev_prog: "ok d \<Longrightarrow> b < block_count cfg \<Longrightarrow> unat (prog_size cfg) dvd unat a \<Longrightarrow> unat (prog_size cfg) dvd length bs \<Longrightarrow>
      unat a + length bs \<le> unat (block_size cfg) \<Longrightarrow> (\<And>i. unat a \<le> i \<Longrightarrow> i < unat a + length bs \<Longrightarrow> ready d (unat b) i) \<Longrightarrow>
      \<exists>d'. bd_prog cfg b a bs d = Some (0, d') \<and> ok d' \<and>
        contents d' = (contents d)(unat b := mem_write (contents d (unat b)) (unat a) bs) \<and>
        (\<forall>c i. ready d c i \<longrightarrow> c \<noteq> unat b \<or> i < unat a \<or> unat a + length bs \<le> i \<longrightarrow> ready d' c i)"
    and dev_erase: "ok d \<Longrightarrow> b < block_count cfg \<Longrightarrow>
      \<exists>d'. bd_erase cfg b d = Some (0, d') \<and> ok d' \<and> (\<forall>c. c \<noteq> unat b \<longrightarrow> contents d' c = contents d c) \<and>
        (\<forall>c i. ready d' c i \<longleftrightarrow> (if c = unat b then i < unat (block_size cfg) else ready d c i))"
    and dev_sync: "ok d \<Longrightarrow> \<exists>d'. bd_sync cfg d = Some (0, d') \<and> ok d' \<and> contents d' = contents d \<and> ready d' = ready d"
begin

abbreviation "rs \<equiv> unat (read_size cfg)"
abbreviation "ps \<equiv> unat (prog_size cfg)"
abbreviation "cs \<equiv> unat (cache_size cfg)"
abbreviation "bs \<equiv> unat (block_size cfg)"

abbreviation same :: "'d \<Rightarrow> 'd \<Rightarrow> bool" where
  "same d d' \<equiv> ok d' \<and> contents d' = contents d \<and> ready d' = ready d"

lemma cs_le: "cs \<le> bs" "rs \<le> cs" "ps \<le> cs" "rs dvd bs" "ps dvd bs"
  using sizes by (auto intro: dvd_imp_le dvd_trans)

lemma not_null: "(b :: u32) < block_count cfg \<Longrightarrow> b \<noteq> LFS_BLOCK_NULL \<and> b \<noteq> LFS_BLOCK_INLINE"
  using sizes(9) by (auto simp: block_markers word_le_nat_alt word_less_nat_alt)

end

text \<open>A cache whose block is valid lies in the block; its start is aligned for reading.\<close>

definition cache_wf :: "'d lfs_config \<Rightarrow> lfs_cache \<Rightarrow> bool" where
  "cache_wf cfg c \<longleftrightarrow> length (cache_buffer c) = unat (cache_size cfg) \<and>
     (cache_block c < block_count cfg \<longrightarrow> unat (cache_off c) + unat (cache_len c) \<le> unat (block_size cfg) \<and>
        cache_len c \<le> cache_size cfg \<and> unat (read_size cfg) dvd unat (cache_off c))"

definition cache_covers :: "lfs_cache \<Rightarrow> nat \<Rightarrow> nat \<Rightarrow> bool" where
  "cache_covers c b i \<longleftrightarrow> unat (cache_block c) = b \<and> unat (cache_off c) \<le> i \<and> i < unat (cache_off c) + unat (cache_len c)"

text \<open>A read cache agrees with the device, except that it may hold old bytes of a block in \<open>X\<close>.\<close>

definition coherent_but :: "u32 set \<Rightarrow> 'd lfs_config \<Rightarrow> (nat \<Rightarrow> u8 list) \<Rightarrow> lfs_cache \<Rightarrow> bool" where
  "coherent_but X cfg mem c \<longleftrightarrow> cache_wf cfg c \<and>
     (cache_block c < block_count cfg \<longrightarrow> cache_block c \<notin> X \<longrightarrow>
        take (unat (cache_len c)) (cache_buffer c) = mem_read (mem (unat (cache_block c))) (unat (cache_off c)) (unat (cache_len c)))"

abbreviation coherent :: "'d lfs_config \<Rightarrow> (nat \<Rightarrow> u8 list) \<Rightarrow> lfs_cache \<Rightarrow> bool" where
  "coherent \<equiv> coherent_but {}"

lemma empty_notin: "b \<notin> {}"
  by simp

lemma coherent_but: "coherent cfg mem c \<Longrightarrow> coherent_but X cfg mem c"
  by (simp add: coherent_but_def)

text \<open>What the file system sees: the device under the bytes that wait in the program cache.\<close>

definition view :: "lfs_cache option \<Rightarrow> (nat \<Rightarrow> u8 list) \<Rightarrow> nat \<Rightarrow> nat \<Rightarrow> u8" where
  "view pc mem b i =
     (case pc of
        Some p \<Rightarrow> if cache_covers p b i then cache_buffer p ! (i - unat (cache_off p)) else mem b ! i
      | None \<Rightarrow> mem b ! i)"

definition pcache_wf :: "'d lfs_config \<Rightarrow> lfs_cache option \<Rightarrow> bool" where
  "pcache_wf cfg pc \<longleftrightarrow> (case pc of None \<Rightarrow> True | Some p \<Rightarrow> cache_wf cfg p)"

lemma map_view_take:
  assumes "n \<le> k" "\<And>i. i < n \<Longrightarrow> v (a + i) = xs ! (j + i)" "j + n \<le> length xs"
  shows "map v [a..<a + k] = take n (drop j xs) @ map v [a + n..<a + k]"
proof (rule nth_equalityI)
  fix i assume i: "i < length (map v [a..<a + k])"
  show "map v [a..<a + k] ! i = (take n (drop j xs) @ map v [a + n..<a + k]) ! i"
    using assms i by (cases "i < n") (auto simp: nth_append)
qed (use assms in simp)

context block_device
begin

lemma ahead_nat:
  assumes "cache_wf cfg c" "b < block_count cfg"
  shows "cache_ahead b a c \<longleftrightarrow> b = cache_block c \<and> unat a < unat (cache_off c) + unat (cache_len c)"
proof (cases "b = cache_block c")
  case True
  with assms have "unat (cache_off c) + unat (cache_len c) \<le> bs" by (simp add: cache_wf_def)
  then have "unat (cache_off c + cache_len c) = unat (cache_off c) + unat (cache_len c)"
    using sizes(8) by (intro unat_add_u32) simp
  then show ?thesis by (simp add: cache_ahead_def word_less_nat_alt)
qed (simp add: cache_ahead_def)

lemma cache_copy_bytes:
  assumes "cache_wf cfg c" "cache_block c = b" "b < block_count cfg" "cache_off c \<le> a"
    and "unat a + n \<le> unat (cache_off c) + unat (cache_len c)" "unat w = n"
  shows "cache_copy a w c = map (\<lambda>i. cache_buffer c ! (i - unat (cache_off c))) [unat a..<unat a + n]"
proof (rule nth_equalityI)
  have o: "unat (a - cache_off c) = unat a - unat (cache_off c)" using assms(4) by (simp add: unat_sub)
  have "unat a - unat (cache_off c) + n \<le> length (cache_buffer c)"
    using assms by (auto simp: cache_wf_def word_le_nat_alt)
  then show "length (cache_copy a w c) = length (map (\<lambda>i. cache_buffer c ! (i - unat (cache_off c))) [unat a..<unat a + n])"
    by (simp add: cache_copy_def o assms(6))
  fix i assume "i < length (cache_copy a w c)"
  then show "cache_copy a w c ! i = map (\<lambda>i. cache_buffer c ! (i - unat (cache_off c))) [unat a..<unat a + n] ! i"
    using assms(4,6) by (auto simp: cache_copy_def o word_le_nat_alt)
qed

lemma coherent_bytes:
  assumes "coherent_but X cfg mem c" "cache_covers c (unat b) i" "b < block_count cfg" "b \<notin> X"
    "unat (cache_off c) + unat (cache_len c) \<le> length (mem (unat b))"
  shows "cache_buffer c ! (i - unat (cache_off c)) = mem (unat b) ! i"
proof -
  let ?o = "unat (cache_off c)" and ?l = "unat (cache_len c)"
  have c: "cache_block c = b" "?o \<le> i" "i < ?o + ?l"
    using assms(2) by (auto simp: cache_covers_def word_unat_eq_iff)
  then have t: "take ?l (cache_buffer c) = mem_read (mem (unat b)) ?o ?l" using assms(1,3,4) by (auto simp: coherent_but_def)
  have l: "i - ?o < ?l" using c by linarith
  have "cache_buffer c ! (i - ?o) = take ?l (cache_buffer c) ! (i - ?o)" using l by (rule nth_take [symmetric])
  also have "\<dots> = mem (unat b) ! (?o + (i - ?o))" unfolding t by (rule nth_mem_read [OF l assms(5)])
  also have "?o + (i - ?o) = i" using c(2) by (rule le_add_diff_inverse)
  finally show ?thesis .
qed

lemma view_beyond_p:
  assumes "pcache_wf cfg pc" "b < block_count cfg" "\<not> (case pc of None \<Rightarrow> False | Some p \<Rightarrow> cache_ahead b a p \<and> cache_off p \<le> a)"
    and "unat a \<le> i" "\<And>p. pc = Some p \<Longrightarrow> cache_ahead b a p \<Longrightarrow> i < unat (cache_off p)"
  shows "view pc mem (unat b) i = mem (unat b) ! i"
proof (cases pc)
  case (Some p)
  have wf: "cache_wf cfg p" using assms(1) Some by (simp add: pcache_wf_def)
  show ?thesis
  proof (cases "cache_ahead b a p")
    case True
    with assms(5) [OF Some] show ?thesis by (simp add: view_def Some cache_covers_def)
  next
    case False
    then have "b \<noteq> cache_block p \<or> unat (cache_off p) + unat (cache_len p) \<le> unat a"
      using ahead_nat [OF wf assms(2)] by auto
    then have "\<not> cache_covers p (unat b) i"
    proof
      assume "b \<noteq> cache_block p"
      then show ?thesis by (simp add: cache_covers_def word_unat_eq_iff)
    next
      assume "unat (cache_off p) + unat (cache_len p) \<le> unat a"
      then have "unat (cache_off p) + unat (cache_len p) \<le> i" using assms(4) by (rule le_trans)
      then show ?thesis by (simp add: cache_covers_def)
    qed
    then show ?thesis by (simp add: view_def Some)
  qed
qed (simp add: view_def)

end


context block_device
begin

text \<open>After loading, the read cache holds the byte at the offset.\<close>

lemma load_covers:
  assumes "unat a < bs" "0 < unat hint" "unat hint \<le> bs"
    and "start = lfs_aligndown a (read_size cfg)"
    and "len = lfs_min (lfs_min (lfs_alignup (a + hint) (read_size cfg)) (block_size cfg) - start) (cache_size cfg)"
  shows "rs dvd unat start" "rs dvd unat len" "unat start \<le> unat a" "unat a < unat start + unat len"
    "unat start + unat len \<le> bs" "len \<le> cache_size cfg"
proof -
  have st: "unat start = unat a - unat a mod rs" unfolding assms(4) by (rule unat_lfs_aligndown)
  show d: "rs dvd unat start" unfolding st by simp
  show le: "unat start \<le> unat a" unfolding st by simp
  have near: "unat a < unat start + rs" unfolding st using sizes(1) mod_less_divisor [of rs "unat a"] by linarith
  define up where "up = (unat a + unat hint + rs - 1) div rs * rs"
  have "unat (a + hint) = unat a + unat hint" using assms(1,3) sizes(8) by (intro unat_add_u32) simp
  then have up: "unat (lfs_alignup (a + hint) (read_size cfg)) = up"
    using assms(1,3) sizes(1,8) cs_le by (subst unat_lfs_alignup) (simp_all add: up_def)
  have "unat a + unat hint \<le> up"
  proof -
    have "unat a + unat hint + rs - 1 < up + rs" 
      using dividend_less_div_times [OF sizes(1), of "unat a + unat hint + rs - 1"] unfolding up_def by (simp only: add.commute)
    then show ?thesis using sizes(1) by linarith
  qed
  define m where "m = min up bs"
  have m: "rs dvd m" "unat a < m" "m \<le> bs"
    using \<open>unat a + unat hint \<le> up\<close> assms(1,2) cs_le(4) by (auto simp: m_def min_def up_def)
  have "unat (lfs_min (lfs_alignup (a + hint) (read_size cfg)) (block_size cfg) - start) = m - unat start"
    using m le by (subst unat_sub) (auto simp: word_le_nat_alt up m_def)
  then have len: "unat len = min (m - unat start) cs" unfolding assms(5) by simp
  show "rs dvd unat len" unfolding len using m(1) d sizes(3) by (auto simp: min_def)
  show "unat a < unat start + unat len" "unat start + unat len \<le> bs" "len \<le> cache_size cfg"
    using len m le near cs_le(2) by (auto simp: word_le_nat_alt min_def)
qed

lemma diff_le:
  assumes "cache_wf cfg c" "cache_block c = b" "b < block_count cfg" "cache_ahead b a c" "cache_off c \<le> a"
  shows "unat (cache_len c - (a - cache_off c)) = unat (cache_off c) + unat (cache_len c) - unat a"
    "unat a < unat (cache_off c) + unat (cache_len c)"
proof -
  show l: "unat a < unat (cache_off c) + unat (cache_len c)" using assms ahead_nat by auto
  have "unat (a - cache_off c) = unat a - unat (cache_off c)" using assms(5) by (simp add: unat_sub)
  then show "unat (cache_len c - (a - cache_off c)) = unat (cache_off c) + unat (cache_len c) - unat a"
    using l assms(5) by (subst unat_sub) (auto simp: word_le_nat_alt)
qed

lemma view_from_p:
  assumes "cache_wf cfg p" "b < block_count cfg" "cache_ahead b a p" "cache_off p \<le> a" "unat w \<le> unat (cache_off p) + unat (cache_len p) - unat a"
  shows "cache_copy a w p = map (view (Some p) mem (unat b)) [unat a..<unat a + unat w]"
proof -
  have c: "cache_block p = b" "unat a < unat (cache_off p) + unat (cache_len p)" using assms(1-4) ahead_nat by auto
  have "view (Some p) mem (unat b) i = cache_buffer p ! (i - unat (cache_off p))" if "unat a \<le> i" "i < unat a + unat w" for i
    using that c assms(4,5) by (auto simp: view_def cache_covers_def word_le_nat_alt)
  then show ?thesis using c assms(5) by (subst cache_copy_bytes [OF assms(1) c(1) assms(2,4) _ refl]) auto
qed

lemma view_from_r:
  assumes "coherent_but X cfg (contents d) c" "ok d" "b < block_count cfg" "cache_ahead b a c" "cache_off c \<le> a"
    and "unat w \<le> unat (cache_off c) + unat (cache_len c) - unat a" and "b \<notin> X"
    and "\<And>i. unat a \<le> i \<Longrightarrow> i < unat a + unat w \<Longrightarrow> view pc (contents d) (unat b) i = contents d (unat b) ! i"
  shows "cache_copy a w c = map (view pc (contents d) (unat b)) [unat a..<unat a + unat w]"
proof -
  have wf: "cache_wf cfg c" using assms(1) by (simp add: coherent_but_def)
  have c: "cache_block c = b" "unat a < unat (cache_off c) + unat (cache_len c)" using wf assms(3-5) ahead_nat by auto
  have "length (contents d (unat b)) = bs" using assms(2,3) by (simp add: block_length word_less_nat_alt)
  moreover have "unat (cache_off c) + unat (cache_len c) \<le> bs" using wf c(1) assms(3) by (simp add: cache_wf_def)
  ultimately have "cache_buffer c ! (i - unat (cache_off c)) = contents d (unat b) ! i"
    if "unat a \<le> i" "i < unat a + unat w" for i
    using that c assms(3,5,6,7) by (intro coherent_bytes [OF assms(1)]) (auto simp: cache_covers_def word_le_nat_alt)
  then show ?thesis using c assms(6,8) by (subst cache_copy_bytes [OF wf c(1) assms(3,5) _ refl]) auto
qed

end

context block_device
begin

lemma read_loop:
  assumes "b < block_count cfg" "pcache_wf cfg pc" "0 < unat hint" "unat hint \<le> bs" "b \<notin> X"
  shows "ok d \<Longrightarrow> coherent_but X cfg (contents d) rc \<Longrightarrow> unat a + unat n \<le> bs \<Longrightarrow>
    \<exists>rc' d'. bd_read_loop cfg pc hint b a n data rc d =
      Some (0, data @ map (view pc (contents d) (unat b)) [unat a..<unat a + unat n], rc', d') \<and>
      same d d' \<and> coherent_but X cfg (contents d) rc'"
proof (induction "2 * unat n + (if cache_ahead b a rc \<and> cache_off rc \<le> a then 0 else 1)" arbitrary: a n data rc d rule: less_induct)
  case less
  define in_p where "in_p = (case pc of None \<Rightarrow> False | Some p \<Rightarrow> cache_ahead b a p)"
  define p where "p = (case pc of None \<Rightarrow> rc | Some p \<Rightarrow> p)"
  have p: "pc = Some p" "cache_ahead b a p" "cache_wf cfg p" if in_p
    using that assms(2) by (auto simp: in_p_def p_def pcache_wf_def split: option.splits)
  show ?case
  proof (cases "n = 0")
    case True
    then show ?thesis using less.prems by (subst bd_read_loop.simps) simp
  next
    case False
    then have pos: "0 < n" "0 < unat n" by (simp_all add: word_greater_zero_iff unat_gt_0)
    have step: ?thesis
      if c: "unat w \<le> unat n" "0 < unat w" and bytes: "new = map (view pc (contents d) (unat b)) [unat a..<unat a + unat w]"
        and k: "same d d1" "bd_read_loop cfg pc hint b a n data rc d = bd_read_loop cfg pc hint b (a + w) (n - w) (data @ new) rc d1"
      for w new d1
    proof -
      have u: "unat (n - w) = unat n - unat w" using c(1) by (simp add: unat_sub word_le_nat_alt)
      have v: "unat (a + w) = unat a + unat w" using c(1) less.prems(3) sizes(8) by (intro unat_add_u32) simp
      have e: "unat (a + w) + unat (n - w) \<le> bs" using u v c(1) less.prems(3) by simp
      have "2 * unat (n - w) + (if cache_ahead b (a + w) rc \<and> cache_off rc \<le> a + w then 0 else 1)
          < 2 * unat n + (if cache_ahead b a rc \<and> cache_off rc \<le> a then 0 else 1)"
        using u c by auto
      from less.hyps [OF this _ _ e, of d1 "data @ new"] k less.prems(1,2) obtain rc' d'
        where r: "bd_read_loop cfg pc hint b (a + w) (n - w) (data @ new) rc d1 = Some (0, (data @ new) @
          map (view pc (contents d) (unat b)) [unat (a + w)..<unat (a + w) + unat (n - w)], rc', d')"
          "same d d'" "coherent_but X cfg (contents d) rc'" by auto
      have "[unat a..<unat a + unat n] = [unat a..<unat a + unat w] @ [unat (a + w)..<unat (a + w) + unat (n - w)]"
        using u v c(1) upt_add_eq_append [of "unat a" "unat a + unat w" "unat n - unat w"] by (simp add: add.assoc)
      with r k(2) bytes show ?thesis by simp
    qed
    have wr: "cache_wf cfg rc" using less.prems(2) by (simp add: coherent_but_def)
    have a: "unat a < bs" using less.prems(3) pos(2) by linarith
    show ?thesis
    proof (cases "in_p \<and> cache_off p \<le> a")
      case True
      define w where "w = lfs_min n (cache_len p - (a - cache_off p))"
      have pb: "cache_block p = b" using p True ahead_nat assms(1) by auto
      have w: "unat w = min (unat n) (unat (cache_off p) + unat (cache_len p) - unat a)"
        "unat a < unat (cache_off p) + unat (cache_len p)"
        using diff_le [OF p(3) pb assms(1) p(2)] True by (auto simp: w_def)
      show ?thesis
      proof (rule step [of w "cache_copy a w p" d])
        show "cache_copy a w p = map (view pc (contents d) (unat b)) [unat a..<unat a + unat w]"
          unfolding p(1) [OF conjunct1 [OF True]] using p True w by (intro view_from_p assms) auto
        show "bd_read_loop cfg pc hint b a n data rc d = bd_read_loop cfg pc hint b (a + w) (n - w) (data @ cache_copy a w p) rc d"
          using pos True by (subst bd_read_loop.simps) (simp add: in_p_def [symmetric] p_def [symmetric] w_def Let_def)
      qed (use w pos less.prems in auto)
    next
      case not_p: False
      define w1 where "w1 = (if in_p then lfs_min n (cache_off p - a) else n)"
      have p_after: "unat a < unat (cache_off p)" if in_p using that not_p by (auto simp: word_le_nat_alt)
      have w1: "0 < unat w1" "unat w1 \<le> unat n"
        using pos p_after by (auto simp: w1_def unat_sub word_le_nat_alt)
      have beyond: "view pc (contents d) (unat b) i = contents d (unat b) ! i" if "unat a \<le> i" "i < unat a + unat w1" for i
      proof (rule view_beyond_p [OF assms(2,1) _ that(1)])
        show "\<not> (case pc of None \<Rightarrow> False | Some p \<Rightarrow> cache_ahead b a p \<and> cache_off p \<le> a)"
          using not_p by (auto simp: in_p_def p_def split: option.splits)
        fix q assume q: "pc = Some q" "cache_ahead b a q"
        then have "in_p" "q = p" by (simp_all add: in_p_def p_def)
        with p_after that(2) show "i < unat (cache_off q)" by (auto simp: w1_def unat_sub word_le_nat_alt)
      qed
      show ?thesis
      proof (cases "cache_ahead b a rc \<and> cache_off rc \<le> a")
        case True
        define w where "w = lfs_min w1 (cache_len rc - (a - cache_off rc))"
        have rb: "cache_block rc = b" using True wr ahead_nat assms(1) by auto
        have w: "unat w = min (unat w1) (unat (cache_off rc) + unat (cache_len rc) - unat a)"
          "unat a < unat (cache_off rc) + unat (cache_len rc)"
          using diff_le [OF wr rb assms(1)] True by (auto simp: w_def)
        show ?thesis
        proof (rule step [of w "cache_copy a w rc" d])
          show "cache_copy a w rc = map (view pc (contents d) (unat b)) [unat a..<unat a + unat w]"
            using True w beyond assms(5) by (intro view_from_r [OF less.prems(2,1) assms(1)]) auto
          show "bd_read_loop cfg pc hint b a n data rc d = bd_read_loop cfg pc hint b (a + w) (n - w) (data @ cache_copy a w rc) rc d"
            using pos True not_p by (subst bd_read_loop.simps) (auto simp: in_p_def [symmetric] p_def [symmetric] w_def w1_def Let_def)
        qed (use w w1 less.prems in auto)
      next
        case not_r: False
        define w2 where "w2 = (if cache_ahead b a rc then lfs_min w1 (cache_off rc - a) else w1)"
        have r_after: "unat a < unat (cache_off rc)" if "cache_ahead b a rc" using that not_r by (auto simp: word_le_nat_alt)
        have w2: "0 < unat w2" "unat w2 \<le> unat w1"
          using w1 r_after by (auto simp: w2_def unat_sub word_le_nat_alt)
        define direct where "direct \<longleftrightarrow> n \<ge> hint \<and> a mod read_size cfg = 0 \<and> n \<ge> read_size cfg"
        define w where "w = lfs_aligndown w2 (read_size cfg)"
        define start where "start = lfs_aligndown a (read_size cfg)"
        define len where "len = lfs_min (lfs_min (lfs_alignup (a + hint) (read_size cfg)) (block_size cfg) - start) (cache_size cfg)"
        have unfold: "bd_read_loop cfg pc hint b a n data rc d =
            (if direct then case bd_read cfg b a w d of None \<Rightarrow> None
               | Some (err, bytes, d) \<Rightarrow> if err \<noteq> 0 then Some (err, data, rc, d)
                   else bd_read_loop cfg pc hint b (a + w) (n - w) (data @ bytes) rc d
             else case bd_read cfg b start len d of None \<Rightarrow> None
               | Some (err, bytes, d) \<Rightarrow>
                   let rc = rc\<lparr>cache_block := b, cache_off := start, cache_len := len,
                         cache_buffer := mem_write (cache_buffer rc) 0 bytes\<rparr>
                   in if err > 0 then None else if err \<noteq> 0 then Some (err, data, rc, d)
                      else bd_read_loop cfg pc hint b a n data rc d)"
        proof -
          have c: "(0 < n) = True" "(in_p \<and> cache_off p \<le> a) = False" "(cache_ahead b a rc \<and> cache_off rc \<le> a) = False"
            "(block_count cfg \<le> b) = False"
            using pos not_r not_p assms(1) by (simp_all add: not_le)
          show ?thesis
            by (subst bd_read_loop.simps, simp only: Let_def in_p_def [symmetric] p_def [symmetric] c if_True if_False
                direct_def [symmetric] w1_def [symmetric] w2_def [symmetric] w_def [symmetric] start_def [symmetric] len_def [symmetric])
        qed
        show ?thesis
        proof (cases direct)
          case True
          then have "unat (a mod read_size cfg) = 0" "read_size cfg \<le> n" by (simp_all add: direct_def)
          then have al: "rs dvd unat a" "rs \<le> unat n" by (simp_all add: unat_mod mod_eq_0_iff_dvd word_le_nat_alt)
          have gap: "rs \<le> unat (cache_off c - a)" if "unat a < unat (cache_off c)" "cache_ahead b a c" "cache_wf cfg c" for c
          proof -
            have "rs dvd unat (cache_off c)" using that(2,3) assms(1) by (auto simp: cache_ahead_def cache_wf_def)
            then have "rs dvd unat (cache_off c) - unat a" using al(1) by (rule dvd_diff_nat)
            then have "rs \<le> unat (cache_off c) - unat a" using that(1) by (intro dvd_imp_le) auto
            then show ?thesis using that(1) by (simp add: unat_sub word_le_nat_alt)
          qed
          have "rs \<le> unat w1" using al(2) gap [of p] p p_after by (auto simp: w1_def)
          then have al3: "rs \<le> unat w2" using gap [of rc] wr r_after by (auto simp: w2_def)
          have w: "0 < unat w" "unat w \<le> unat w2" "rs dvd unat w"
            using al3 sizes(1) aligndown_dvd [of "read_size cfg" w2] unat_lfs_aligndown [of w2 "read_size cfg"]
              mod_less_divisor [OF sizes(1), of "unat w2"]
            by (simp_all add: w_def)
          obtain d1 where r: "bd_read cfg b a w d = Some (0, mem_read (contents d (unat b)) (unat a) (unat w), d1)" "same d d1"
            using dev_read [OF less.prems(1) assms(1) al(1) w(3)] w w1 w2 less.prems(3) by auto
          show ?thesis
          proof (rule step [of w "mem_read (contents d (unat b)) (unat a) (unat w)" d1])
            have "length (contents d (unat b)) = bs" using less.prems(1) assms(1) by (simp add: block_length word_less_nat_alt)
            then show "mem_read (contents d (unat b)) (unat a) (unat w) = map (view pc (contents d) (unat b)) [unat a..<unat a + unat w]"
              using w w1 w2 less.prems(3) by (intro nth_equalityI) (auto simp: nth_mem_read beyond)
            show "bd_read_loop cfg pc hint b a n data rc d = bd_read_loop cfg pc hint b (a + w) (n - w)
                (data @ mem_read (contents d (unat b)) (unat a) (unat w)) rc d1"
              unfolding unfold r by (simp add: True)
          qed (use w w1 w2 r less.prems in auto)
        next
          case False
          note ld = load_covers [OF a assms(3,4) start_def len_def]
          define rc1 where "rc1 = rc\<lparr>cache_block := b, cache_off := start, cache_len := len,
            cache_buffer := mem_write (cache_buffer rc) 0 (mem_read (contents d (unat b)) (unat start) (unat len))\<rparr>"
          obtain d1 where r: "bd_read cfg b start len d = Some (0, mem_read (contents d (unat b)) (unat start) (unat len), d1)" "same d d1"
            using dev_read [OF less.prems(1) assms(1) ld(1,2,5)] by auto
          have "length (contents d (unat b)) = bs" using less.prems(1) assms(1) by (simp add: block_length word_less_nat_alt)
          then have lm: "length (mem_read (contents d (unat b)) (unat start) (unat len)) = unat len" using ld(5) by simp
          have "coherent_but X cfg (contents d) rc1"
            using wr ld lm by (simp add: coherent_but_def cache_wf_def rc1_def mem_write_def word_le_nat_alt)
          moreover have "cache_ahead b a rc1 \<and> cache_off rc1 \<le> a"
            using calculation ld assms(1) by (subst ahead_nat) (auto simp: coherent_but_def rc1_def word_le_nat_alt)
          moreover have "bd_read_loop cfg pc hint b a n data rc d = bd_read_loop cfg pc hint b a n data rc1 d1"
            unfolding unfold r by (simp add: False rc1_def Let_def)
          ultimately show ?thesis
            using less.hyps [of n a rc1 d1 data] not_r less.prems r(2) by simp
        qed
      qed
    qed
  qed
qed

end

context block_device
begin

text \<open>\<open>lfs_bd_read\<close> returns the bytes the file system sees.\<close>

lemma bd_read_view:
  assumes "b < block_count cfg" "pcache_wf cfg pc" "0 < unat hint" "unat hint \<le> bs"
    and "ok d" "coherent_but X cfg (contents d) rc" "unat a + unat n \<le> bs" "b \<notin> X"
  shows "\<exists>rc' d'. lfs_bd_read cfg pc rc hint b a n d =
      Some (0, map (view pc (contents d) (unat b)) [unat a..<unat a + unat n], rc', d') \<and> same d d' \<and> coherent_but X cfg (contents d) rc'"
proof -
  have "unat (a + n) = unat a + unat n" using assms(7) sizes(8) by (intro unat_add_u32) simp
  then have "\<not> (block_count cfg \<le> b \<or> block_size cfg < a + n)" using assms(1,7) by (simp add: not_le not_less word_le_nat_alt word_less_nat_alt)
  then show ?thesis using read_loop [OF assms(1-4,8,5-7), of "[]"] by (simp add: lfs_bd_read_def)
qed

end


section \<open>Comparing and flushing\<close>

lemma memcmp_eq: "length xs = length ys \<Longrightarrow> memcmp xs ys = 0 \<longleftrightarrow> xs = ys"
  by (induction xs ys rule: memcmp.induct) auto

lemma coherent_cong:
  "coherent_but X cfg mem c \<Longrightarrow> (cache_block c < block_count cfg \<Longrightarrow> mem' (unat (cache_block c)) = mem (unat (cache_block c))) \<Longrightarrow> coherent_but X cfg mem' c"
  by (simp add: coherent_but_def)

lemma coherent_drop: "length (cache_buffer c) = unat (cache_size cfg) \<Longrightarrow> block_count cfg \<le> LFS_BLOCK_INLINE \<Longrightarrow> coherent_but X cfg mem (lfs_cache_drop c)"
  by (simp add: coherent_but_def cache_wf_def lfs_cache_drop_def word_le_nat_alt word_less_nat_alt block_markers)

context block_device
begin

lemma cmp_loop:
  assumes "b < block_count cfg" "b \<notin> X" "pcache_wf cfg pc" "unat sz \<le> unat hint" "unat hint \<le> bs"
    "unat a + unat sz \<le> bs" "unat sz \<le> length data"
  shows "ok d \<Longrightarrow> coherent_but X cfg (contents d) rc \<Longrightarrow> unat i \<le> unat sz \<Longrightarrow>
    \<exists>r rc' d'. bd_cmp_loop cfg pc hint b a data sz i rc d = Some (r, rc', d') \<and> same d d' \<and> coherent_but X cfg (contents d) rc' \<and>
      r \<ge> 0 \<and> (r = LFS_CMP_EQ \<longleftrightarrow> map (view pc (contents d) (unat b)) [unat a + unat i..<unat a + unat sz] = drop (unat i) (take (unat sz) data))"
proof (induction "unat sz - unat i" arbitrary: i rc d rule: less_induct)
  case less
  show ?case
  proof (cases "i < sz")
    case False
    with less.prems(3) have "unat i = unat sz" by (simp add: word_less_nat_alt)
    with False less.prems show ?thesis
      by (subst bd_cmp_loop.simps) (simp add: LFS_CMP_EQ_def)
  next
    case True
    define w where "w = lfs_min (sz - i) 8"
    have w: "unat w = min (unat sz - unat i) 8" "0 < unat w" "unat i + unat w \<le> unat sz"
      using True by (auto simp: w_def unat_sub word_le_nat_alt word_less_nat_alt)
    have u: "unat (hint - i) = unat hint - unat i" "unat (a + i) = unat a + unat i" "unat (i + w) = unat i + unat w"
      using True assms w(3) sizes(8) by (simp_all add: unat_sub word_le_nat_alt word_less_nat_alt unat_add_u32)
    have "0 < unat (hint - i)" "unat (hint - i) \<le> bs" "unat (a + i) + unat w \<le> bs"
      using u w assms by auto
    from bd_read_view [OF assms(1,3) this(1,2) less.prems(1,2) this(3) assms(2)] obtain rc1 d1
      where r: "lfs_bd_read cfg pc rc (hint - i) b (a + i) w d =
          Some (0, map (view pc (contents d) (unat b)) [unat a + unat i..<unat a + unat i + unat w], rc1, d1)"
        "same d d1" "coherent_but X cfg (contents d) rc1"
      unfolding u by blast
    define xs where "xs = map (view pc (contents d) (unat b)) [unat a + unat i..<unat a + unat i + unat w]"
    define ys where "ys = take (unat w) (drop (unat i) data)"
    have len: "length xs = length ys" using w assms(7) by (simp add: xs_def ys_def)
    have upt: "[unat a + unat i..<unat a + unat sz] = [unat a + unat i..<unat a + unat i + unat w] @
        [unat a + unat (i + w)..<unat a + unat sz]"
      using upt_add_eq_append [of "unat a + unat i" "unat a + unat i + unat w" "unat sz - unat i - unat w"] w(3) by (simp add: u(3) add.assoc)
    have "drop (unat i) (take (unat sz) data) = take (unat sz - unat i) (drop (unat i) data)"
      by (simp add: drop_take)
    also have "\<dots> = take (unat w + (unat sz - unat i - unat w)) (drop (unat i) data)" using w(3) by simp
    also have "\<dots> = ys @ drop (unat (i + w)) (take (unat sz) data)"
      unfolding take_add ys_def u(3) by (simp add: drop_take add.commute)
    finally have dr: "drop (unat i) (take (unat sz) data) = ys @ drop (unat (i + w)) (take (unat sz) data)" .
    have body: "bd_cmp_loop cfg pc hint b a data sz i rc d =
        (if memcmp xs ys \<noteq> 0 then Some (if memcmp xs ys < 0 then LFS_CMP_LT else LFS_CMP_GT, rc1, d1)
         else bd_cmp_loop cfg pc hint b a data sz (i + w) rc1 d1)"
      using True r(1) by (subst bd_cmp_loop.simps) (simp add: w_def [symmetric] xs_def [symmetric] ys_def [symmetric] Let_def)
    show ?thesis
    proof (cases "xs = ys")
      case False
      then have "memcmp xs ys \<noteq> 0" using memcmp_eq [OF len] by simp
      then show ?thesis
        using False r(2,3) len by (simp add: body upt dr xs_def [symmetric] LFS_CMP_EQ_def LFS_CMP_LT_def LFS_CMP_GT_def)
    next
      case True
      then have "memcmp xs ys = 0" using memcmp_eq [OF len] by simp
      moreover have "unat sz - unat (i + w) < unat sz - unat i" "unat (i + w) \<le> unat sz" using w(2,3) u(3) by linarith+
      ultimately show ?thesis
        using less.hyps [of "i + w" d1 rc1] r(2,3) len True by (simp add: body upt dr xs_def [symmetric])
    qed
  qed
qed

text \<open>A flush programs the waiting bytes, rounded up to whole program units.\<close>

lemma flush_writes:
  assumes "cache_block p < block_count cfg" "length (cache_buffer p) = cs" "ps dvd unat (cache_off p)"
    and "unat (cache_len p) \<le> cs" "unat (cache_off p) + unat (cache_len p) \<le> bs"
    and "L = (unat (cache_len p) + ps - 1) div ps * ps"
    and "ok d" "\<And>i. unat (cache_off p) \<le> i \<Longrightarrow> i < unat (cache_off p) + L \<Longrightarrow> ready d (unat (cache_block p)) i"
    and "coherent_but X cfg (contents d) rc" "validate \<or> cache_block rc \<noteq> cache_block p"
  shows "\<exists>rc' d'. lfs_bd_flush cfg p rc validate d = Some (0, lfs_cache_zero cfg p, rc', d') \<and> ok d' \<and> coherent_but X cfg (contents d') rc' \<and>
    (if validate then coherent cfg (contents d') rc' else rc' = rc) \<and>
    contents d' = (contents d)(unat (cache_block p) := mem_write (contents d (unat (cache_block p))) (unat (cache_off p)) (take L (cache_buffer p))) \<and>
    (\<forall>c i. ready d c i \<longrightarrow> c \<noteq> unat (cache_block p) \<or> i < unat (cache_off p) \<or> unat (cache_off p) + L \<le> i \<longrightarrow> ready d' c i)"
proof -
  let ?b = "cache_block p" and ?a = "cache_off p" and ?l = "unat (cache_len p)"
  have L: "ps dvd L" "?l \<le> L" "L < ?l + ps"
  proof -
    show "ps dvd L" by (simp add: assms(6))
    have "?l + ps - 1 < L + ps" using dividend_less_div_times [OF sizes(2), of "?l + ps - 1"] by (simp add: assms(6) add.commute)
    then show "?l \<le> L" using sizes(2) by linarith
    have "L \<le> ?l + ps - 1" unfolding assms(6) by (rule div_times_less_eq_dividend)
    then show "L < ?l + ps" using sizes(2) by linarith
  qed
  have round: "L \<le> m" if m: "ps dvd m" "?l \<le> m" for m
  proof (rule ccontr)
    assume "\<not> L \<le> m"
    with L(1) m(1) have "m + ps \<le> L" using dvd_diff_nat [of ps L m] sizes(2) dvd_imp_le [of ps "L - m"] by auto
    with L(3) m(2) show False by linarith
  qed
  have LC: "L \<le> cs" using round sizes(4) assms(4) by blast
  have "L \<le> bs - unat ?a" using assms(3,5) cs_le(5) by (intro round) (auto simp: dvd_diff_nat)
  then have LB: "unat ?a + L \<le> bs" using assms(5) by linarith
  define w where "w = lfs_alignup (cache_len p) (prog_size cfg)"
  have w: "unat w = L"
    unfolding w_def assms(6) using assms(4) cs_le(1,3) sizes(2,8) by (intro unat_lfs_alignup) auto
  define bytes where "bytes = take L (cache_buffer p)"
  have lb: "length bytes = L" using LC assms(2) by (simp add: bytes_def)
  obtain d1 where d1: "bd_prog cfg ?b ?a bytes d = Some (0, d1)" "ok d1"
    "contents d1 = (contents d)(unat ?b := mem_write (contents d (unat ?b)) (unat ?a) bytes)"
    "\<forall>c i. ready d c i \<longrightarrow> c \<noteq> unat ?b \<or> i < unat ?a \<or> unat ?a + L \<le> i \<longrightarrow> ready d1 c i"
    using dev_prog [OF assms(7,1,3), of bytes] L(1) LB assms(8) lb by auto
  have nn: "?b \<noteq> LFS_BLOCK_NULL \<and> ?b \<noteq> LFS_BLOCK_INLINE" using assms(1) by (rule not_null)
  show ?thesis
  proof (cases validate)
    case False
    have "coherent_but X cfg (contents d1) rc"
      using assms(9) by (rule coherent_cong) (use False assms(10) d1(3) in \<open>auto simp: word_unat_eq_iff\<close>)
    with d1 False nn assms(1) show ?thesis
      by (simp add: lfs_bd_flush_def w_def [symmetric] w bytes_def [symmetric] Let_def not_le)
  next
    case True
    have "coherent cfg (contents d1) (lfs_cache_drop rc)"
      using assms(9) sizes(9) by (intro coherent_drop) (auto simp: coherent_but_def cache_wf_def)
    moreover have "pcache_wf cfg None" by (simp add: pcache_wf_def)
    ultimately obtain r rc1 d2 where c: "lfs_bd_cmp cfg None (lfs_cache_drop rc) w ?b ?a (cache_buffer p) w d1 = Some (r, rc1, d2)"
      "same d1 d2" "coherent cfg (contents d1) rc1" "r \<ge> 0"
      "r = LFS_CMP_EQ \<longleftrightarrow> map (view None (contents d1) (unat ?b)) [unat ?a..<unat ?a + L] = take L (cache_buffer p)"
      using cmp_loop [OF assms(1), of "{}" None w w ?a "cache_buffer p" d1 "lfs_cache_drop rc" 0] LB LC assms(2) d1(2)
      by (auto simp: w lfs_bd_cmp_def)
    have "length (contents d (unat ?b)) = bs" using assms(1,7) by (simp add: block_length word_less_nat_alt)
    then have "map (view None (contents d1) (unat ?b)) [unat ?a..<unat ?a + L] = take L (cache_buffer p)"
      using LB lb by (intro nth_equalityI) (auto simp: view_def d1(3) nth_mem_write bytes_def)
    with c d1 True nn assms(1) coherent_but [OF c(3), of X] show ?thesis
      by (simp add: lfs_bd_flush_def w_def [symmetric] w bytes_def [symmetric] Let_def not_le)
  qed
qed

end

section \<open>Programming\<close>

text \<open>
  \<open>writing_by u cfg rdy p b a\<close>: the program cache is empty, or holds the last bytes before position \<open>a\<close> of
  block \<open>b\<close>; from there on the block is erased.  The cache starts at a multiple of \<open>u\<close>.
\<close>

definition writing_by :: "nat \<Rightarrow> 'd lfs_config \<Rightarrow> (nat \<Rightarrow> nat \<Rightarrow> bool) \<Rightarrow> lfs_cache \<Rightarrow> u32 \<Rightarrow> nat \<Rightarrow> bool" where
  "writing_by u cfg rdy p b a \<longleftrightarrow> length (cache_buffer p) = unat (cache_size cfg) \<and> a \<le> unat (block_size cfg) \<and>
     (\<exists>s. u dvd s \<and> s \<le> a \<and> (\<forall>i. s \<le> i \<and> i < unat (block_size cfg) \<longrightarrow> rdy (unat b) i) \<and>
        (if cache_block p = LFS_BLOCK_NULL then s = a
         else cache_block p = b \<and> s = unat (cache_off p) \<and> s < unat (block_size cfg) \<and> a = s + unat (cache_len p) \<and>
           unat (cache_len p) < unat (cache_size cfg)))"

abbreviation writing :: "'d lfs_config \<Rightarrow> (nat \<Rightarrow> nat \<Rightarrow> bool) \<Rightarrow> lfs_cache \<Rightarrow> u32 \<Rightarrow> nat \<Rightarrow> bool" where
  "writing cfg \<equiv> writing_by (unat (prog_size cfg)) cfg"

lemma round_multiple: "0 < p \<Longrightarrow> (p * k + p - 1) div p * p = p * k" for p k :: nat
proof -
  assume p: "0 < p"
  then have "p * k + p - 1 = p - 1 + p * k" by simp
  moreover have "(p - 1 + p * k) div p = k + (p - 1) div p" using p by (intro div_mult_self2) simp
  ultimately show ?thesis using p by (simp add: mult.commute)
qed

lemma view_update:
  "view (Some p) mem b i = (if cache_covers p b i then cache_buffer p ! (i - unat (cache_off p)) else mem b ! i)"
  by (simp add: view_def)

context block_device
begin

lemma writing_empty:
  "length (cache_buffer p) = cs \<Longrightarrow> cache_block p = LFS_BLOCK_NULL \<Longrightarrow> a \<le> bs \<Longrightarrow> u dvd a \<Longrightarrow>
    (\<And>i. a \<le> i \<Longrightarrow> i < bs \<Longrightarrow> rdy (unat b) i) \<Longrightarrow> writing_by u cfg rdy p b a"
  by (auto simp: writing_by_def)

lemma prog_loop:
  assumes "b < block_count cfg" and "ps dvd u" and "u dvd cs"
  shows "ok d \<Longrightarrow> coherent_but X cfg (contents d) rc \<Longrightarrow> validate \<or> cache_block rc \<noteq> b \<Longrightarrow> writing_by u cfg (ready d) p b (unat a) \<Longrightarrow>
    unat a + unat n \<le> bs \<Longrightarrow> length data = unat n \<Longrightarrow>
    \<exists>p' rc' d'. bd_prog_loop cfg validate b a data n p rc d = Some (0, p', rc', d') \<and> ok d' \<and> coherent_but X cfg (contents d') rc' \<and>
      (\<not> validate \<longrightarrow> rc' = rc) \<and> (validate \<and> 0 < n \<and> cache_block p' = LFS_BLOCK_NULL \<longrightarrow> coherent cfg (contents d') rc') \<and>
      writing_by u cfg (ready d') p' b (unat a + unat n) \<and>
      (\<forall>c. c \<noteq> unat b \<longrightarrow> contents d' c = contents d c \<and> (\<forall>i. ready d c i \<longrightarrow> ready d' c i)) \<and>
      (\<forall>i. i < bs \<longrightarrow> view (Some p') (contents d') (unat b) i =
        (if unat a \<le> i \<and> i < unat a + unat n then data ! (i - unat a) else view (Some p) (contents d) (unat b) i))"
proof (induction "2 * unat n + (if cache_block p = LFS_BLOCK_NULL then 1 else 0)" arbitrary: a n data p rc d rule: less_induct)
  case less
  show ?case
  proof (cases "n = 0")
    case True
    then show ?thesis using less.prems by (subst bd_prog_loop.simps) auto
  next
    case False
    then have pos: "0 < n" "0 < unat n" by (simp_all add: word_greater_zero_iff unat_gt_0)
    have nn: "b \<noteq> LFS_BLOCK_NULL" using not_null [OF assms(1)] by simp
    obtain s where wr: "length (cache_buffer p) = cs" "u dvd s" "s \<le> unat a" "\<forall>i. s \<le> i \<and> i < bs \<longrightarrow> ready d (unat b) i"
      "if cache_block p = LFS_BLOCK_NULL then s = unat a else cache_block p = b \<and> s = unat (cache_off p) \<and>
        s < bs \<and> unat a = s + unat (cache_len p) \<and> unat (cache_len p) < cs"
      using less.prems(4) by (auto simp: writing_by_def)
    show ?thesis
    proof (cases "cache_block p = LFS_BLOCK_NULL")
      case True
      define p1 where "p1 = p\<lparr>cache_block := b, cache_off := lfs_aligndown a (prog_size cfg), cache_len := 0\<rparr>"
      have s: "s = unat a" using wr(5) True by simp
      have off: "unat (lfs_aligndown a (prog_size cfg)) = unat a"
        using dvd_trans [OF assms(2) wr(2)] by (simp add: unat_lfs_aligndown s)
      have eq: "bd_prog_loop cfg validate b a data n p rc d = bd_prog_loop cfg validate b a data n p1 rc d"
        using pos True nn by (subst bd_prog_loop.simps) (simp add: p1_def)
      have wr1: "writing_by u cfg (ready d) p1 b (unat a)"
        using wr nn s off sizes(6) less.prems(5) pos(2) by (auto simp: writing_by_def p1_def)
      have ve: "view (Some p1) (contents d) (unat b) = view (Some p) (contents d) (unat b)"
        using True nn by (auto simp: view_update cache_covers_def p1_def word_unat_eq_iff fun_eq_iff)
      have "2 * unat n + (if cache_block p1 = LFS_BLOCK_NULL then 1 else 0) < 2 * unat n + (if cache_block p = LFS_BLOCK_NULL then 1 else 0)"
        using True nn by (simp add: p1_def)
      from less.hyps [OF this less.prems(1-3) wr1 less.prems(5,6)] show ?thesis unfolding eq ve .
    next
      case False
      then have p: "cache_block p = b" "s = unat (cache_off p)" "unat a = s + unat (cache_len p)" "unat (cache_len p) < cs" "s < bs"
        using wr(5) by simp_all
      have ao: "unat (a - cache_off p) = unat (cache_len p)" "cache_off p \<le> a"
        using p by (simp_all add: unat_sub word_le_nat_alt)
      define w where "w = lfs_min n (cache_size cfg - (a - cache_off p))"
      have w: "unat w = min (unat n) (cs - unat (cache_len p))" "0 < unat w" "unat w \<le> unat n" "unat (cache_len p) + unat w \<le> cs"
        using p ao pos by (auto simp: w_def unat_sub word_le_nat_alt)
      have u: "unat (a + w) = unat a + unat w" "unat (n - w) = unat n - unat w"
        using w less.prems(5) sizes(8) by (simp_all add: unat_add_u32 unat_sub word_le_nat_alt)
      have fin: "unat (a + w - cache_off p) = unat (cache_len p) + unat w"
        using u ao p by (subst unat_sub) (auto simp: word_le_nat_alt)
      define p1 where "p1 = p\<lparr>cache_buffer := mem_write (cache_buffer p) (unat (cache_len p)) (take (unat w) data),
          cache_len := lfs_max (cache_len p) (a + w - cache_off p)\<rparr>"
      have len1: "unat (cache_len p1) = unat (cache_len p) + unat w" by (simp add: p1_def fin)
      have inc: "a < cache_off p + cache_size cfg"
        using p sizes(8) cs_le(1) less.prems(5) pos by (subst word_less_nat_alt, subst unat_add_u32) auto
      have body: "bd_prog_loop cfg validate b a data n p rc d =
          (if cache_len p1 = cache_size cfg then
             case lfs_bd_flush cfg p1 rc validate d of None \<Rightarrow> None
             | Some (err, p, rc, d) \<Rightarrow> if err \<noteq> 0 then Some (err, p, rc, d)
                 else bd_prog_loop cfg validate b (a + w) (drop (unat w) data) (n - w) p rc d
           else bd_prog_loop cfg validate b (a + w) (drop (unat w) data) (n - w) p1 rc d)"
        using pos inc ao p(1)
        by (subst bd_prog_loop.simps) (simp add: w_def [symmetric] p1_def Let_def)
      have v1: "view (Some p1) (contents d) (unat b) i =
          (if unat a \<le> i \<and> i < unat a + unat w then data ! (i - unat a) else view (Some p) (contents d) (unat b) i)" for i
      proof -
        have c: "cache_covers p (unat b) i \<longleftrightarrow> s \<le> i \<and> i < unat a" using p by (simp add: cache_covers_def)
        have "cache_block p1 = b" "cache_off p1 = cache_off p" using p by (simp_all add: p1_def)
        then have c1: "cache_covers p1 (unat b) i \<longleftrightarrow> s \<le> i \<and> i < unat a + unat w" using p len1 by (simp add: cache_covers_def add.assoc)
        have fit: "unat (cache_len p) + length (take (unat w) data) \<le> length (cache_buffer p)"
          using wr(1) w(3,4) less.prems(6) by simp
        have buf: "cache_buffer p1 ! (i - s) = (if unat a \<le> i then data ! (i - unat a) else cache_buffer p ! (i - s))"
          if "s \<le> i" "i < unat a + unat w"
        proof -
          have "unat (cache_len p) \<le> i - s \<longleftrightarrow> unat a \<le> i" "i - s - unat (cache_len p) = i - unat a"
            "i - s < unat (cache_len p) + length (take (unat w) data)"
            using that p(3) w(3) less.prems(6) by auto
          then show ?thesis using fit that w(3) less.prems(6) by (auto simp: p1_def nth_mem_write)
        qed
        show ?thesis
          unfolding view_update c c1 using buf p(2,3) \<open>cache_off p1 = cache_off p\<close> by auto
      qed
      have rest: ?thesis
        if k: "bd_prog_loop cfg validate b a data n p rc d = bd_prog_loop cfg validate b (a + w) (drop (unat w) data) (n - w) p2 rc2 d2"
          and i: "ok d2" "coherent_but X cfg (contents d2) rc2" "\<not> validate \<longrightarrow> rc2 = rc" "writing_by u cfg (ready d2) p2 b (unat (a + w))"
            "validate \<Longrightarrow> cache_block p2 = LFS_BLOCK_NULL \<Longrightarrow> coherent cfg (contents d2) rc2"
          and c: "\<And>c. c \<noteq> unat b \<Longrightarrow> contents d2 c = contents d c \<and> (\<forall>i. ready d c i \<longrightarrow> ready d2 c i)"
          and v: "\<And>i. i < bs \<Longrightarrow> view (Some p2) (contents d2) (unat b) i = view (Some p1) (contents d) (unat b) i"
        for p2 rc2 d2
      proof -
        have m: "2 * unat (n - w) + (if cache_block p2 = LFS_BLOCK_NULL then 1 else 0)
            < 2 * unat n + (if cache_block p = LFS_BLOCK_NULL then 1 else 0)"
          using u(2) w(2,3) by auto
        have "unat (a + w) + unat (n - w) \<le> bs" "length (drop (unat w) data) = unat (n - w)"
          using u w less.prems(5,6) by auto
        from less.hyps [OF m i(1,2) _ i(4) this] i(3) less.prems(3) obtain p' rc' d' where r:
          "bd_prog_loop cfg validate b (a + w) (drop (unat w) data) (n - w) p2 rc2 d2 = Some (0, p', rc', d')" "ok d'"
          "coherent_but X cfg (contents d') rc'" "\<not> validate \<longrightarrow> rc' = rc2" "writing_by u cfg (ready d') p' b (unat (a + w) + unat (n - w))"
          "\<forall>c. c \<noteq> unat b \<longrightarrow> contents d' c = contents d2 c \<and> (\<forall>i. ready d2 c i \<longrightarrow> ready d' c i)"
          "\<forall>i. i < bs \<longrightarrow> view (Some p') (contents d') (unat b) i =
             (if unat (a + w) \<le> i \<and> i < unat (a + w) + unat (n - w) then drop (unat w) data ! (i - unat (a + w))
              else view (Some p2) (contents d2) (unat b) i)"
          "validate \<and> 0 < n - w \<and> cache_block p' = LFS_BLOCK_NULL \<longrightarrow> coherent cfg (contents d') rc'"
          by blast
        have flushed: "coherent cfg (contents d') rc'" if "validate" "cache_block p' = LFS_BLOCK_NULL"
        proof (cases "n - w = 0")
          case True
          with r(1) have "p' = p2" "rc' = rc2" "d' = d2" by (simp_all add: bd_prog_loop.simps [of _ _ _ _ _ 0])
          with i(5) that show ?thesis by simp
        next
          case False
          with r(8) that show ?thesis by (simp add: word_greater_zero_iff)
        qed
        have sum: "unat (a + w) + unat (n - w) = unat a + unat n" using u w by simp
        have "view (Some p') (contents d') (unat b) i =
            (if unat a \<le> i \<and> i < unat a + unat n then data ! (i - unat a) else view (Some p) (contents d) (unat b) i)" if "i < bs" for i
          using r(7) [unfolded sum] v [OF that] that v1 [of i] w(3) less.prems(6) unfolding u(1) by (auto simp: not_le)
        note view' = this
        show ?thesis
        proof (rule exI [of _ p'], rule exI [of _ rc'], rule exI [of _ d'], intro conjI allI impI)
          show "bd_prog_loop cfg validate b a data n p rc d = Some (0, p', rc', d')" using k r(1) by simp
          show "writing_by u cfg (ready d') p' b (unat a + unat n)" using r(5) unfolding sum .
          show "rc' = rc" if "\<not> validate" using that r(4) i(3) by simp
          show "contents d' x = contents d x" if "x \<noteq> unat b" for x using that r(6) c [of x] by simp
          show "ready d' x j" if "x \<noteq> unat b" "ready d x j" for x j using that r(6) c [of x] by blast
        qed (use r(2,3) view' flushed in blast)+
      qed
      show ?thesis
      proof (cases "cache_len p1 = cache_size cfg")
        case False
        then have "unat (cache_len p1) < cs" using len1 w(4) by (auto simp: word_unat_eq_iff)
        then have "writing_by u cfg (ready d) p1 b (unat (a + w))"
          using wr(1-4) p nn u len1 w less.prems(5,6) by (auto simp: writing_by_def p1_def intro!: exI [of _ s])
        moreover have "cache_block p1 \<noteq> LFS_BLOCK_NULL" using p(1) nn by (simp add: p1_def)
        ultimately show ?thesis using False less.prems by (intro rest [of p1 rc d]) (simp_all add: body)
      next
        case True
        then have l: "unat (cache_len p1) = cs" by simp
        have q: "cache_block p1 = b" "cache_off p1 = cache_off p" "length (cache_buffer p1) = cs"
          using p wr(1) w(4) less.prems(6) w(3) by (simp_all add: p1_def)
        have fits: "unat (cache_off p1) + unat (cache_len p1) \<le> bs"
          using len1 q(2) p(2,3) w(3) less.prems(5) by simp
        obtain k where k: "cs = ps * k" using sizes(4) by auto
        have L: "cs = (unat (cache_len p1) + ps - 1) div ps * ps" unfolding l k by (rule round_multiple [OF sizes(2), symmetric])
        have start: "ps dvd unat (cache_off p1)" "unat (cache_off p1) = s" using dvd_trans [OF assms(2) wr(2)] p(2) q(2) by simp_all
        have full: "unat (a + w) = s + cs" using u(1) len1 l p by simp
        have "ready d (unat (cache_block p1)) i" if "unat (cache_off p1) \<le> i" "i < unat (cache_off p1) + cs" for i
          using that wr(4) start fits l q(1) by auto
        from flush_writes [OF _ q(3) start(1) _ fits L less.prems(1) this less.prems(2), of validate] obtain rc1 d1
          where fl: "lfs_bd_flush cfg p1 rc validate d = Some (0, lfs_cache_zero cfg p1, rc1, d1)" "ok d1" "coherent_but X cfg (contents d1) rc1"
            "if validate then coherent cfg (contents d1) rc1 else rc1 = rc"
            "contents d1 = (contents d)(unat b := mem_write (contents d (unat b)) s (take cs (cache_buffer p1)))"
            "\<forall>c i. ready d c i \<longrightarrow> c \<noteq> unat b \<or> i < s \<or> s + cs \<le> i \<longrightarrow> ready d1 c i"
          using assms(1) less.prems(3) q(1) start(2) l by auto
        define p2 where "p2 = lfs_cache_zero cfg p1"
        have p2: "cache_block p2 = LFS_BLOCK_NULL" "length (cache_buffer p2) = cs"
          using q(3) by (simp_all add: p2_def lfs_cache_zero_def mem_write_def)
        have bl: "length (contents d (unat b)) = bs" using less.prems(1) assms(1) by (simp add: block_length word_less_nat_alt)
        show ?thesis
        proof (rule rest [of p2 rc1 d1])
          show "bd_prog_loop cfg validate b a data n p rc d = bd_prog_loop cfg validate b (a + w) (drop (unat w) data) (n - w) p2 rc1 d1"
            using True fl(1) by (simp add: body p2_def)
          show "writing_by u cfg (ready d1) p2 b (unat (a + w))"
            using p2 full fits l start wr(2,4) assms(3) fl(6) by (intro writing_empty) auto
          show "view (Some p2) (contents d1) (unat b) i = view (Some p1) (contents d) (unat b) i" if "i < bs" for i
            using that p2(1) nn fits l start(2) q bl
            by (auto simp: view_update cache_covers_def fl(5) nth_mem_write word_unat_eq_iff)
        qed (use fl in \<open>auto split: if_splits\<close>)
      qed
    qed
  qed
qed

end

context block_device
begin

text \<open>\<open>lfs_bd_prog\<close> on bytes that fit the block.\<close>

lemma bd_prog_view:
  assumes u: "ps dvd u" "u dvd cs" and "b < block_count cfg" "ok d" "coherent_but X cfg (contents d) rc" "validate \<or> cache_block rc \<noteq> b"
    and "writing_by u cfg (ready d) p b (unat a)" "unat a + length data \<le> bs"
  shows "\<exists>p' rc' d'. lfs_bd_prog cfg p rc validate b a data d = Some (0, p', rc', d') \<and>
    ok d' \<and> coherent_but X cfg (contents d') rc' \<and> (\<not> validate \<longrightarrow> rc' = rc) \<and>
    (validate \<and> data \<noteq> [] \<and> cache_block p' = LFS_BLOCK_NULL \<longrightarrow> coherent cfg (contents d') rc') \<and>
    writing_by u cfg (ready d') p' b (unat a + length data) \<and>
    (\<forall>c. c \<noteq> unat b \<longrightarrow> contents d' c = contents d c \<and> (\<forall>i. ready d c i \<longrightarrow> ready d' c i)) \<and>
    (\<forall>i < bs. view (Some p') (contents d') (unat b) i =
      (if unat a \<le> i \<and> i < unat a + length data then data ! (i - unat a) else view (Some p) (contents d) (unat b) i))"
proof -
  have n: "unat (word_of_nat (length data) :: u32) = length data" using assms(8) sizes(8) by (simp add: unat_of_nat)
  have "unat (a + word_of_nat (length data)) = unat a + length data"
    using assms(8) sizes(8) n by (subst unat_add_u32) simp_all
  then have "a + word_of_nat (length data) \<le> block_size cfg" using assms(8) by (simp add: word_le_nat_alt)
  then have "lfs_bd_prog cfg p rc validate b a data d =
      bd_prog_loop cfg validate b a data (word_of_nat (length data)) p rc d"
    using assms(3) by (simp add: lfs_bd_prog_def Let_def)
  moreover have l: "unat a + unat (word_of_nat (length data) :: u32) \<le> bs"
    "length data = unat (word_of_nat (length data) :: u32)" using assms(8) n by simp_all
  moreover have "0 < (word_of_nat (length data) :: u32) \<longleftrightarrow> data \<noteq> []" unfolding word_less_nat_alt n by simp
  ultimately show ?thesis using prog_loop [OF assms(3) u assms(4-7) l] by (simp only: n)
qed

lemma writing_block: "writing_by u cfg rdy p b a \<Longrightarrow> cache_block p = LFS_BLOCK_NULL \<or> cache_block p = b"
  by (auto simp: writing_by_def split: if_splits)

lemma view_other:
  assumes "writing_by u cfg rdy p b a" "c \<noteq> b" "c < block_count cfg"
  shows "view (Some p) mem (unat c) = view None mem (unat c)"
proof -
  have "c \<noteq> LFS_BLOCK_NULL" using not_null [OF assms(3)] by simp
  with writing_block [OF assms(1)] assms(2) have "cache_block p \<noteq> c" by auto
  then show ?thesis by (simp add: view_def cache_covers_def fun_eq_iff word_unat_eq_iff)
qed

end

end
