(* ===== verification/Lfs_Tag.thy ===== *)
theory Lfs_Tag
  imports Lfs_Bd
begin

text \<open>
  The small types of littlefs (\<open>lfs.c\<close>, type-level utilities): pairs of blocks, the 32-bit tags of
  metadata entries, and the global state.  A tag is a type of 11 bits below a valid bit, an id and a
  size of ten bits each; the lemmas give every operation on it in terms of these fields.
\<close>

section \<open>Pairs of blocks\<close>

type_synonym lfs_pair = "u32 \<times> u32"

definition lfs_pair_swap :: "lfs_pair \<Rightarrow> lfs_pair" where
  "lfs_pair_swap pair = (snd pair, fst pair)"

definition lfs_pair_isnull :: "lfs_pair \<Rightarrow> bool" where
  "lfs_pair_isnull pair \<longleftrightarrow> fst pair = LFS_BLOCK_NULL \<or> snd pair = LFS_BLOCK_NULL"

definition lfs_pair_cmp :: "lfs_pair \<Rightarrow> lfs_pair \<Rightarrow> int" where
  "lfs_pair_cmp a b = of_bool (\<not> (fst a = fst b \<or> snd a = snd b \<or> fst a = snd b \<or> snd a = fst b))"

definition lfs_pair_sync :: "lfs_pair \<Rightarrow> lfs_pair \<Rightarrow> bool" where
  "lfs_pair_sync a b \<longleftrightarrow> (fst a = fst b \<and> snd a = snd b) \<or> (fst a = snd b \<and> snd a = fst b)"

lemma lfs_pair_cmp_zero: "lfs_pair_cmp a b = 0 \<longleftrightarrow> {fst a, snd a} \<inter> {fst b, snd b} \<noteq> {}"
  by (auto simp: lfs_pair_cmp_def)

lemma lfs_pair_sync_set: "lfs_pair_sync a b \<longleftrightarrow> a = b \<or> a = lfs_pair_swap b"
  by (auto simp: lfs_pair_sync_def lfs_pair_swap_def prod_eq_iff)

section \<open>Tags\<close>

text \<open>Big-endian words, byte by byte.\<close>

definition lfs_frombe32 :: "u32 \<Rightarrow> u32" where
  "lfs_frombe32 a =
     (let b = le32_bytes a
      in push_bit 24 (ucast (b ! 0)) OR push_bit 16 (ucast (b ! 1)) OR push_bit 8 (ucast (b ! 2)) OR ucast (b ! 3))"

definition lfs_tobe32 :: "u32 \<Rightarrow> u32" where
  "lfs_tobe32 a = lfs_frombe32 a"

definition LFS_MKTAG :: "u32 \<Rightarrow> u32 \<Rightarrow> u32 \<Rightarrow> u32" where
  "LFS_MKTAG ty i sz = push_bit 20 ty OR push_bit 10 i OR sz"

definition lfs_tag_isvalid :: "u32 \<Rightarrow> bool" where
  "lfs_tag_isvalid tag \<longleftrightarrow> tag AND 0x80000000 = 0"

definition lfs_tag_isdelete :: "u32 \<Rightarrow> bool" where
  "lfs_tag_isdelete tag \<longleftrightarrow> signed_drop_bit 22 (push_bit 22 tag) = - 1"

definition lfs_tag_type1 :: "u32 \<Rightarrow> u16" where
  "lfs_tag_type1 tag = ucast (drop_bit 20 (tag AND 0x70000000))"

definition lfs_tag_type3 :: "u32 \<Rightarrow> u16" where
  "lfs_tag_type3 tag = ucast (drop_bit 20 (tag AND 0x7ff00000))"

definition lfs_tag_chunk :: "u32 \<Rightarrow> u8" where
  "lfs_tag_chunk tag = ucast (drop_bit 20 (tag AND 0x0ff00000))"

definition lfs_tag_splice :: "u32 \<Rightarrow> int" where
  "lfs_tag_splice tag = sint (lfs_tag_chunk tag)"

definition lfs_tag_id :: "u32 \<Rightarrow> u16" where
  "lfs_tag_id tag = ucast (drop_bit 10 (tag AND 0x000ffc00))"

definition lfs_tag_size :: "u32 \<Rightarrow> u32" where
  "lfs_tag_size tag = tag AND 0x3ff"

definition lfs_tag_dsize :: "u32 \<Rightarrow> u32" where
  "lfs_tag_dsize tag = 4 + lfs_tag_size (tag + of_bool (lfs_tag_isdelete tag))"

section \<open>Global state\<close>

record lfs_gstate =
  gstate_tag :: u32
  gstate_pair :: lfs_pair

definition lfs_gstate_xor :: "lfs_gstate \<Rightarrow> lfs_gstate \<Rightarrow> lfs_gstate" where
  "lfs_gstate_xor a b = \<lparr>gstate_tag = gstate_tag a XOR gstate_tag b,
     gstate_pair = (fst (gstate_pair a) XOR fst (gstate_pair b), snd (gstate_pair a) XOR snd (gstate_pair b))\<rparr>"

definition lfs_gstate_iszero :: "lfs_gstate \<Rightarrow> bool" where
  "lfs_gstate_iszero a \<longleftrightarrow> gstate_tag a = 0 \<and> fst (gstate_pair a) = 0 \<and> snd (gstate_pair a) = 0"

definition lfs_gstate_hasorphans :: "lfs_gstate \<Rightarrow> bool" where
  "lfs_gstate_hasorphans a \<longleftrightarrow> lfs_tag_size (gstate_tag a) \<noteq> 0"

definition lfs_gstate_getorphans :: "lfs_gstate \<Rightarrow> u8" where
  "lfs_gstate_getorphans a = ucast (lfs_tag_size (gstate_tag a))"

definition lfs_gstate_hasmove :: "lfs_gstate \<Rightarrow> bool" where
  "lfs_gstate_hasmove a \<longleftrightarrow> lfs_tag_type1 (gstate_tag a) \<noteq> 0"

definition lfs_gstate_hasmovehere :: "lfs_gstate \<Rightarrow> lfs_pair \<Rightarrow> bool" where
  "lfs_gstate_hasmovehere a pair \<longleftrightarrow> lfs_tag_type1 (gstate_tag a) \<noteq> 0 \<and> lfs_pair_cmp (gstate_pair a) pair = 0"

text \<open>The state of the disk is the XOR of the deltas in all commits, so a delta applied twice is undone.\<close>

lemma lfs_gstate_xor_cancel: "lfs_gstate_xor (lfs_gstate_xor a b) b = a"
  by (simp add: lfs_gstate_xor_def xor.assoc)

lemma lfs_gstate_xor_zero: "lfs_gstate_iszero (lfs_gstate_xor a b) \<longleftrightarrow> a = b"
proof
  assume "lfs_gstate_iszero (lfs_gstate_xor a b)"
  then have z: "gstate_tag a XOR gstate_tag b = 0" "fst (gstate_pair a) XOR fst (gstate_pair b) = 0"
      "snd (gstate_pair a) XOR snd (gstate_pair b) = 0"
    by (simp_all add: lfs_gstate_iszero_def lfs_gstate_xor_def)
  have eq: "x XOR y = 0 \<Longrightarrow> x = y" for x y :: u32
    by (metis xor.assoc xor.right_neutral xor_self_eq xor.left_neutral)
  show "a = b" using eq [OF z(1)] eq [OF z(2)] eq [OF z(3)] by (simp add: prod_eq_iff)
qed (simp add: lfs_gstate_iszero_def lfs_gstate_xor_def)

section \<open>Fields of a tag\<close>

definition mktag :: "nat \<Rightarrow> nat \<Rightarrow> nat \<Rightarrow> u32" where
  "mktag t i s = word_of_nat (t * 1048576 + i * 1024 + s)"

abbreviation tag_type :: "u32 \<Rightarrow> nat" where "tag_type tag \<equiv> unat tag div 1048576"
abbreviation tag_id :: "u32 \<Rightarrow> nat" where "tag_id tag \<equiv> unat tag div 1024 mod 1024"
abbreviation tag_size :: "u32 \<Rightarrow> nat" where "tag_size tag \<equiv> unat tag mod 1024"

lemma tag_sum: "tag_type tag * 1048576 + tag_id tag * 1024 + tag_size tag = unat tag"
proof -
  have a: "unat tag = unat tag div 1024 * 1024 + unat tag mod 1024" by simp
  have b: "unat tag div 1024 = unat tag div 1024 div 1024 * 1024 + unat tag div 1024 mod 1024" by simp
  have c: "unat tag div 1024 div 1024 = unat tag div 1048576" by (simp add: div_mult2_eq [symmetric])
  from a b c show ?thesis by linarith
qed

lemma mktag_fields: "mktag (tag_type tag) (tag_id tag) (tag_size tag) = tag"
  unfolding mktag_def tag_sum by simp

lemma tag_eq_iff: "a = b \<longleftrightarrow> tag_type a = tag_type b \<and> tag_id a = tag_id b \<and> tag_size a = tag_size b"
  by (metis mktag_fields)

lemma tag_bounds: "tag_type tag < 4096" "tag_id tag < 1024" "tag_size tag < 1024"
proof -
  have "unat tag < 2 ^ LENGTH(32)" by (rule unsigned_less)
  then show "tag_type tag < 4096" "tag_id tag < 1024" "tag_size tag < 1024" by (simp_all add: div_less_iff_less_mult)
qed

lemma unat_mktag:
  assumes "t < 4096" "i < 1024" "s < 1024"
  shows "unat (mktag t i s) = t * 1048576 + i * 1024 + s"
proof -
  have "unat (mktag t i s) = (t * 1048576 + i * 1024 + s) mod 2 ^ LENGTH(32)" unfolding mktag_def by (rule unat_of_nat)
  then show ?thesis using assms by simp
qed

lemma fields_mktag [simp]:
  assumes "t < 4096" "i < 1024" "s < 1024"
  shows "tag_type (mktag t i s) = t" "tag_id (mktag t i s) = i" "tag_size (mktag t i s) = s"
proof -
  have u: "unat (mktag t i s) = s + (t * 1024 + i) * 1024" using assms by (simp add: unat_mktag)
  have d: "unat (mktag t i s) div 1024 = t * 1024 + i" unfolding u using assms(3) by simp
  have "unat (mktag t i s) div 1048576 = unat (mktag t i s) div 1024 div 1024" by (simp add: div_mult2_eq [symmetric])
  then show "tag_type (mktag t i s) = t" unfolding d using assms(2) by simp
  show "tag_id (mktag t i s) = i" unfolding d using assms(2) by simp
  show "tag_size (mktag t i s) = s" unfolding u using assms(3) by (simp only: mod_mult_self1 mod_less)
qed

lemma and_mask_nat: "unat (w AND mask n) = unat w mod 2 ^ n" for w :: u32
  unfolding take_bit_eq_mask [symmetric] unsigned_take_bit_eq by (rule take_bit_eq_mod)

lemma field_nat:
  fixes w m :: u32
  assumes "m = push_bit n (mask k)" "n + k \<le> 32"
  shows "unat (drop_bit n (w AND m)) = unat w div 2 ^ n mod 2 ^ k"
proof -
  have "drop_bit n (w AND m) = drop_bit n w AND mask k"
    unfolding assms(1) by (rule bit_word_eqI) (use assms(2) in \<open>auto simp: bit_simps\<close>)
  then have "unat (drop_bit n (w AND m)) = unat (drop_bit n w) mod 2 ^ k" by (simp only: and_mask_nat)
  also have "unat (drop_bit n w) = unat w div 2 ^ n" unfolding unat_drop_bit_eq by (rule drop_bit_eq_div)
  finally show ?thesis .
qed

lemma ucast_field:
  fixes tag m :: u32
  assumes "m = push_bit n (mask k)" "n + k \<le> 32" "k \<le> LENGTH('a :: len)"
  shows "unat (ucast (drop_bit n (tag AND m)) :: 'a word) = unat tag div 2 ^ n mod 2 ^ k"
proof -
  have "unat tag div 2 ^ n mod 2 ^ k < 2 ^ k" by simp
  also have "(2 :: nat) ^ k \<le> 2 ^ LENGTH('a)" using assms(3) by (simp add: power_increasing)
  finally show ?thesis unfolding unsigned_ucast_eq field_nat [OF assms(1,2)] by (simp add: take_bit_nat_eq_self)
qed

lemma id_nat [simp]: "unat (lfs_tag_id tag) = tag_id tag"
proof -
  have m: "(0x000ffc00 :: u32) = push_bit 10 (mask 10)" by (simp add: mask_eq_exp_minus_1 push_bit_eq_mult)
  show ?thesis unfolding lfs_tag_id_def by (subst ucast_field [OF m]) simp_all
qed

lemma size_nat [simp]: "unat (lfs_tag_size tag) = tag_size tag"
proof -
  have m: "(0x3ff :: u32) = mask 10" by (simp add: mask_eq_exp_minus_1)
  show ?thesis unfolding lfs_tag_size_def m and_mask_nat by simp
qed

lemma type3_nat [simp]: "unat (lfs_tag_type3 tag) = tag_type tag mod 2048"
proof -
  have m: "(0x7ff00000 :: u32) = push_bit 20 (mask 11)" by (simp add: mask_eq_exp_minus_1 push_bit_eq_mult)
  show ?thesis unfolding lfs_tag_type3_def by (subst ucast_field [OF m]) simp_all
qed

lemma chunk_nat [simp]: "unat (lfs_tag_chunk tag) = tag_type tag mod 256"
proof -
  have m: "(0x0ff00000 :: u32) = push_bit 20 (mask 8)" by (simp add: mask_eq_exp_minus_1 push_bit_eq_mult)
  show ?thesis unfolding lfs_tag_chunk_def by (subst ucast_field [OF m]) simp_all
qed

text \<open>The first three bits of the type, as a number below the valid bit.\<close>

lemma type1_nat [simp]: "unat (lfs_tag_type1 tag) = tag_type tag div 256 mod 8 * 256"
proof -
  have m: "(0x70000000 :: u32) = push_bit 28 (mask 3)" by (simp add: mask_eq_exp_minus_1 push_bit_eq_mult)
  have u: "unat (drop_bit 28 (tag AND push_bit 28 (mask 3))) = unat tag div 2 ^ 28 mod 2 ^ 3" by (rule field_nat) simp_all
  have p: "drop_bit 20 (tag AND push_bit 28 (mask 3)) = push_bit 8 (drop_bit 28 (tag AND push_bit 28 (mask 3)))"
    by (rule bit_word_eqI) (auto simp: bit_simps)
  have d: "unat tag div 1048576 div 256 = unat tag div 2 ^ 28" by (simp add: div_mult2_eq [symmetric])
  have l: "unat tag div 2 ^ 28 mod 2 ^ 3 < 8" using mod_less_divisor [of 8 "unat tag div 2 ^ 28"] by simp
  have "unat (drop_bit 20 (tag AND 0x70000000)) = take_bit LENGTH(32) (push_bit 8 (unat tag div 2 ^ 28 mod 2 ^ 3))"
    unfolding m p unsigned_push_bit_eq u ..
  moreover have "unat (lfs_tag_type1 tag) = take_bit LENGTH(16) (unat (drop_bit 20 (tag AND 0x70000000)))"
    unfolding lfs_tag_type1_def by (rule unsigned_ucast_eq)
  ultimately have "unat (lfs_tag_type1 tag) = take_bit LENGTH(16) (take_bit LENGTH(32) (push_bit 8 (unat tag div 2 ^ 28 mod 2 ^ 3)))"
    by (simp only:)
  moreover have "take_bit LENGTH(16) (take_bit LENGTH(32) (push_bit 8 x)) = x * 256" if "x < 8" for x :: nat
    using that by (simp add: push_bit_eq_mult take_bit_nat_eq_self)
  ultimately have "unat (lfs_tag_type1 tag) = unat tag div 2 ^ 28 mod 2 ^ 3 * 256" using l by (simp only:)
  then show ?thesis unfolding d by simp
qed

text \<open>The field operations, in the fields.\<close>

lemma isvalid_nat: "lfs_tag_isvalid tag \<longleftrightarrow> tag_type tag < 2048"
proof -
  have "unat tag < 2 ^ LENGTH(32)" by (rule unsigned_less)
  then have "unat tag div 2 ^ 31 < 2" by (simp add: div_less_iff_less_mult)
  then have "bit (unat tag) 31 \<longleftrightarrow> \<not> unat tag div 2 ^ 31 < 1" by (auto simp: bit_iff_odd less_Suc_eq numeral_2_eq_2)
  moreover have "bit (unat tag) 31 = bit tag 31" by (simp add: bit_unsigned_iff)
  moreover have "tag AND 2 ^ 31 = 0 \<longleftrightarrow> \<not> bit tag 31" by (rule and_exp_eq_0_iff_not_bit)
  moreover have "unat tag div 2 ^ 31 < 1 \<longleftrightarrow> unat tag < 2 ^ 31" using div_less_iff_less_mult [of "2 ^ 31" "unat tag" 1] by simp
  ultimately have "tag AND 2 ^ 31 = 0 \<longleftrightarrow> unat tag < 2 ^ 31" by blast
  then show ?thesis unfolding lfs_tag_isvalid_def by (simp add: div_less_iff_less_mult)
qed

lemma isdelete_nat: "lfs_tag_isdelete tag \<longleftrightarrow> tag_size tag = 1023"
proof -
  have "signed_drop_bit 22 (push_bit 22 tag) = signed_take_bit 9 tag"
    by (rule bit_word_eqI) (auto simp: bit_simps min_def not_le less_Suc_eq_le dest: le_antisym)
  then have "lfs_tag_isdelete tag \<longleftrightarrow> signed_take_bit 9 tag = signed_take_bit 9 (- 1)"
    by (simp add: lfs_tag_isdelete_def)
  also have "\<dots> \<longleftrightarrow> take_bit (Suc 9) tag = take_bit (Suc 9) (- 1)" by (rule signed_take_bit_eq_iff_take_bit_eq)
  also have "\<dots> \<longleftrightarrow> unat (take_bit 10 tag) = 1023"
    by (simp add: take_bit_minus_one_eq_mask mask_eq_exp_minus_1 word_unat_eq_iff)
  also have "unat (take_bit 10 tag) = tag_size tag"
    unfolding unsigned_take_bit_eq by (simp add: take_bit_eq_mod)
  finally show ?thesis .
qed

lemma dsize_nat: "unat (lfs_tag_dsize tag) = 4 + (if tag_size tag = 1023 then 0 else tag_size tag)"
proof -
  have a: "unat (4 + lfs_tag_size t) = 4 + tag_size t" for t
    using tag_bounds(3) [of t] by (subst unat_add_u32) simp_all
  have "tag_size (tag + 1) = (unat tag + 1) mod 1024" by (simp add: unat_word_ariths mod_mod_cancel)
  also have "\<dots> = (tag_size tag + 1) mod 1024" by (simp add: mod_simps)
  finally have "tag_size tag = 1023 \<Longrightarrow> tag_size (tag + 1) = 0" by simp
  then show ?thesis unfolding lfs_tag_dsize_def a by (simp add: isdelete_nat)
qed

lemma field_bits: "n div 1048576 = drop_bit 20 n" "n div 1024 = drop_bit 10 n" "n mod 1024 = take_bit 10 n"
  for n :: nat
  by (simp_all add: drop_bit_eq_div take_bit_eq_mod)

lemma fields_and: "tag_type (a AND b) = tag_type a AND tag_type b" "tag_id (a AND b) = tag_id a AND tag_id b"
    "tag_size (a AND b) = tag_size a AND tag_size b"
  unfolding field_bits unsigned_and_eq drop_bit_and take_bit_and by (rule refl)+

lemma fields_or: "tag_type (a OR b) = tag_type a OR tag_type b" "tag_id (a OR b) = tag_id a OR tag_id b"
    "tag_size (a OR b) = tag_size a OR tag_size b"
  unfolding field_bits unsigned_or_eq drop_bit_or take_bit_or by (rule refl)+

lemma MKTAG_fields:
  assumes "unat ty < 4096" "unat i < 1024" "unat s < 1024"
  shows "LFS_MKTAG ty i s = mktag (unat ty) (unat i) (unat s)"
proof -
  have ty: "unat (push_bit 20 ty) = unat ty * 1048576" and i: "unat (push_bit 10 i) = unat i * 1024"
    using assms unfolding unsigned_push_bit_eq by (simp_all add: push_bit_eq_mult take_bit_nat_eq_self)
  have m: "n * 1048576 div 1024 mod 1024 = 0" "n * 1048576 mod 1024 = 0" for n :: nat
  proof -
    have n: "n * 1048576 = n * 1024 * 1024" by simp
    show "n * 1048576 div 1024 mod 1024 = 0" "n * 1048576 mod 1024 = 0" unfolding n by simp_all
  qed
  show ?thesis unfolding LFS_MKTAG_def tag_eq_iff [of _ "mktag _ _ _"] fields_mktag [OF assms] fields_or ty i
    using assms by (simp add: m)
qed

end
