(* ===== verification/Lfs_Rambd.thy ===== *)
theory Lfs_Rambd
  imports Lfs_Bd
begin

text \<open>
  The block device in memory that littlefs is tested on (\<open>bd/lfs_rambd.c\<close>), as an implementation of the
  device interface, and the properties of the caching layer on every device.  None is a failed
  assertion or an access outside the memory of the device.
\<close>

section \<open>The device\<close>

definition LFS_ERR_NOMEM :: int where "LFS_ERR_NOMEM = -12"

record lfs_rambd_config =
  erase_value :: int
  static_buffer :: "u8 list option"

record lfs_rambd =
  ram :: "u8 list"
  rambd_cfg :: lfs_rambd_config

definition device_size :: "'d lfs_config \<Rightarrow> u32" where
  "device_size cfg = block_size cfg * block_count cfg"

text \<open>\<open>allocated\<close> is what \<open>lfs_malloc\<close> returns, if anything.\<close>

definition lfs_rambd_createcfg :: "'d lfs_config \<Rightarrow> lfs_rambd_config \<Rightarrow> u8 list option \<Rightarrow> int \<times> lfs_rambd option" where
  "lfs_rambd_createcfg cfg bdcfg allocated =
     (case (case static_buffer bdcfg of Some b \<Rightarrow> Some b | None \<Rightarrow> allocated) of
        None \<Rightarrow> (LFS_ERR_NOMEM, None)
      | Some b \<Rightarrow>
          let v = (if erase_value bdcfg \<noteq> -1 then word_of_int (erase_value bdcfg) else 0)
          in (0, Some \<lparr>ram = mem_write b 0 (replicate (unat (device_size cfg)) v), rambd_cfg = bdcfg\<rparr>))"

definition lfs_rambd_create :: "'d lfs_config \<Rightarrow> u8 list option \<Rightarrow> int \<times> lfs_rambd option" where
  "lfs_rambd_create cfg allocated = lfs_rambd_createcfg cfg \<lparr>erase_value = -1, static_buffer = None\<rparr> allocated"

definition lfs_rambd_read :: "'d lfs_config \<Rightarrow> u32 \<Rightarrow> u32 \<Rightarrow> u32 \<Rightarrow> lfs_rambd \<Rightarrow> (int \<times> u8 list \<times> lfs_rambd) option" where
  "lfs_rambd_read cfg block off sz bd =
     (if off mod read_size cfg \<noteq> 0 \<or> sz mod read_size cfg \<noteq> 0 \<or> block \<ge> block_count cfg then None
      else
        let start = unat (block * block_size cfg + off)
        in if start + unat sz > length (ram bd) then None else Some (0, mem_read (ram bd) start (unat sz), bd))"

definition lfs_rambd_prog :: "'d lfs_config \<Rightarrow> u32 \<Rightarrow> u32 \<Rightarrow> u8 list \<Rightarrow> lfs_rambd \<Rightarrow> (int \<times> lfs_rambd) option" where
  "lfs_rambd_prog cfg block off buffer bd =
     (let sz = word_of_nat (length buffer) :: u32
      in if off mod prog_size cfg \<noteq> 0 \<or> sz mod prog_size cfg \<noteq> 0 \<or> block \<ge> block_count cfg then None
         else
           let start = unat (block * block_size cfg + off)
           in if start + unat sz > length (ram bd) then None
              else if erase_value (rambd_cfg bd) \<noteq> -1 \<and>
                      (\<exists>i \<in> set [0..<unat sz]. uint (ram bd ! (start + i)) \<noteq> erase_value (rambd_cfg bd)) then None
              else Some (0, bd\<lparr>ram := mem_write (ram bd) start buffer\<rparr>))"

definition lfs_rambd_erase :: "'d lfs_config \<Rightarrow> u32 \<Rightarrow> lfs_rambd \<Rightarrow> (int \<times> lfs_rambd) option" where
  "lfs_rambd_erase cfg block bd =
     (if block \<ge> block_count cfg then None
      else if erase_value (rambd_cfg bd) \<noteq> -1 then
        let start = unat (block * block_size cfg)
        in if start + unat (block_size cfg) > length (ram bd) then None
           else Some (0, bd\<lparr>ram := mem_write (ram bd) start
                  (replicate (unat (block_size cfg)) (word_of_int (erase_value (rambd_cfg bd))))\<rparr>)
      else Some (0, bd))"

definition lfs_rambd_sync :: "lfs_rambd \<Rightarrow> (int \<times> lfs_rambd) option" where
  "lfs_rambd_sync bd = Some (0, bd)"

text \<open>A configuration that uses the device, with the sizes of \<open>g\<close>.\<close>

definition rambd_config :: "'g lfs_config \<Rightarrow> lfs_rambd lfs_config" where
  "rambd_config g = \<lparr>bd_read = lfs_rambd_read g, bd_prog = lfs_rambd_prog g, bd_erase = lfs_rambd_erase g,
     bd_sync = lfs_rambd_sync, read_size = read_size g, prog_size = prog_size g, block_size = block_size g,
     block_count = block_count g, cache_size = cache_size g, lookahead_size = lookahead_size g,
     metadata_max = metadata_max g\<rparr>"

section \<open>It keeps the promises of the interface\<close>

definition ram_block :: "'g lfs_config \<Rightarrow> lfs_rambd \<Rightarrow> nat \<Rightarrow> u8 list" where
  "ram_block g bd b = mem_read (ram bd) (b * unat (block_size g)) (unat (block_size g))"

definition ram_ok :: "'g lfs_config \<Rightarrow> lfs_rambd \<Rightarrow> bool" where
  "ram_ok g bd \<longleftrightarrow> length (ram bd) = unat (block_size g) * unat (block_count g) \<and>
     (erase_value (rambd_cfg bd) = -1 \<or> erase_value (rambd_cfg bd) \<in> {0..255})"

definition ram_ready :: "'g lfs_config \<Rightarrow> lfs_rambd \<Rightarrow> nat \<Rightarrow> nat \<Rightarrow> bool" where
  "ram_ready g bd b i \<longleftrightarrow> i < unat (block_size g) \<and>
     (erase_value (rambd_cfg bd) \<noteq> -1 \<longrightarrow> uint (ram_block g bd b ! i) = erase_value (rambd_cfg bd))"

lemma block_start:
  fixes b a :: u32
  assumes "unat b < n" "unat a \<le> m" "m * n < 4294967296" "unat k = m"
  shows "unat (b * k + a) = unat b * m + unat a" "unat b * m + m \<le> m * n"
proof -
  have "(unat b + 1) * m \<le> n * m" using assms(1) by (intro mult_le_mono1) simp
  then show "unat b * m + m \<le> m * n" by (simp add: mult.commute)
  with assms(2,3) have "unat b * m + unat a \<le> m * n" by linarith
  with assms(3) have s: "unat b * m + unat a < 4294967296" by linarith
  then have "unat (b * k) = unat b * m" using assms(4) by (simp add: unat_mult_u32)
  with s show "unat (b * k + a) = unat b * m + unat a" by (subst unat_add_u32) simp_all
qed

lemma ram_block_write:
  assumes "a + length bs \<le> m" "b * m + m \<le> length r" "m = unat (block_size g)"
  shows "ram_block g (bd\<lparr>ram := mem_write r (b * m + a) bs\<rparr>) =
    (ram_block g (bd\<lparr>ram := r\<rparr>))(b := mem_write (ram_block g (bd\<lparr>ram := r\<rparr>) b) a bs)"
proof
  fix c
  show "ram_block g (bd\<lparr>ram := mem_write r (b * m + a) bs\<rparr>) c =
    ((ram_block g (bd\<lparr>ram := r\<rparr>))(b := mem_write (ram_block g (bd\<lparr>ram := r\<rparr>) b) a bs)) c"
  proof (cases "c = b")
    case True
    have "mem_read (mem_write r (b * m + a) bs) (b * m) m = mem_write (mem_read r (b * m) m) a bs"
      using assms(1,2) by (intro nth_equalityI) (auto simp: nth_mem_read nth_mem_write)
    with True show ?thesis by (simp add: ram_block_def assms(3))
  next
    case False
    then have "c * m + m \<le> b * m \<or> b * m + m \<le> c * m"
      by (metis add.commute mult_Suc mult_le_mono1 not_less_eq_eq le_antisym nat_le_linear)
    then have "mem_read (mem_write r (b * m + a) bs) (c * m) m = mem_read r (c * m) m"
      using assms(1,2) by (intro nth_equalityI) (auto simp: mem_read_def nth_mem_write)
    with False show ?thesis by (simp add: ram_block_def assms(3))
  qed
qed

lemma ram_block_erased:
  assumes "b * m + m \<le> length (ram bd)" "m = unat (block_size g)"
  shows "ram_block g (bd\<lparr>ram := mem_write (ram bd) (b * m) (replicate m v)\<rparr>) = (ram_block g bd)(b := replicate m v)"
proof -
  have "mem_write (ram_block g bd b) 0 (replicate m v) = replicate m v"
    using assms by (simp add: mem_write_def ram_block_def)
  then show ?thesis using ram_block_write [of 0 "replicate m v" m b "ram bd" g bd] assms by simp
qed

lemma mem_read_inside: "a + n \<le> k \<Longrightarrow> mem_read (mem_read r s k) a n = mem_read r (s + a) n"
  by (simp add: mem_read_def drop_take take_take add.commute min_def)

text \<open>The sizes \<open>lfs_init\<close> asserts, for a device of less than 4 GiB.\<close>

definition sizes_ok :: "'g lfs_config \<Rightarrow> bool" where
  "sizes_ok g \<longleftrightarrow> 0 < unat (read_size g) \<and> 0 < unat (prog_size g) \<and> unat (read_size g) dvd unat (cache_size g) \<and>
     unat (prog_size g) dvd unat (cache_size g) \<and> unat (cache_size g) dvd unat (block_size g) \<and> 0 < unat (cache_size g) \<and>
     0 < unat (block_size g) \<and> unat (block_size g) \<le> 1073741824 \<and> block_count g \<le> LFS_BLOCK_INLINE \<and>
     unat (block_size g) * unat (block_count g) < 4294967296"

lemma rambd_device:
  assumes "sizes_ok g"
  shows "block_device (rambd_config g) (ram_ok g) (ram_block g) (ram_ready g)"
proof -
  define m n where "m = unat (block_size g)" and "n = unat (block_count g)"
  have g: "0 < unat (read_size g)" "0 < unat (prog_size g)" "m * n < 4294967296"
    using assms by (simp_all add: sizes_ok_def m_def n_def)
  have total: "length (ram d) = m * n" if "ram_ok g d" for d using that by (simp add: ram_ok_def m_def n_def)
  have modz: "w mod k = 0 \<longleftrightarrow> unat k dvd unat w" for w k :: u32
    by (simp add: word_unat_eq_iff unat_mod mod_eq_0_iff_dvd)
  note start = block_start [where m = m and n = n, OF _ _ g(3) m_def [symmetric]]
  show ?thesis
  proof (unfold_locales, goal_cases)
    case (10 d k)
    then have "k + 1 \<le> n" by (simp add: n_def rambd_config_def)
    then have "(k + 1) * m \<le> n * m" by (rule mult_le_mono1)
    with 10 total [of d] show ?case by (simp add: rambd_config_def ram_block_def m_def n_def mult.commute)
  next
    case (11 d b a k)
    then have b: "unat b < n" and a: "unat a \<le> m" by (simp_all add: rambd_config_def n_def m_def word_less_nat_alt)
    note s = start [OF b a]
    from 11 have "a mod read_size g = 0" "k mod read_size g = 0" "\<not> block_count g \<le> b" "unat a + unat k \<le> m"
      by (simp_all add: rambd_config_def modz m_def not_le)
    moreover have "unat b * m + unat a + unat k \<le> length (ram d)" using s(2) \<open>unat a + unat k \<le> m\<close> total [of d] 11(1) by simp
    ultimately show ?case
      using s 11(1) total [of d]
      by (simp add: rambd_config_def lfs_rambd_read_def Let_def mem_read_inside ram_block_def m_def [symmetric])
  next
    case (12 d b a xs)
    then have b: "unat b < n" and a: "unat a \<le> m" and x: "unat a + length xs \<le> m"
      by (simp_all add: rambd_config_def n_def m_def word_less_nat_alt)
    note s = start [OF b a]
    have len: "unat (word_of_nat (length xs) :: u32) = length xs" using x assms by (simp add: unat_of_nat sizes_ok_def m_def)
    from 12 have al: "a mod prog_size g = 0" "(word_of_nat (length xs) :: u32) mod prog_size g = 0" "\<not> block_count g \<le> b"
      by (simp_all add: rambd_config_def modz len not_le)
    have fit: "unat b * m + unat a + length xs \<le> length (ram d)" using s(2) x total [of d] 12(1) by simp
    have erased: "uint (ram d ! (unat b * m + unat a + i)) = erase_value (rambd_cfg d)"
      if "erase_value (rambd_cfg d) \<noteq> -1" "i < length xs" for i
    proof -
      have "ram_ready g d (unat b) (unat a + i)" using 12(6) [of "unat a + i"] that(2) by simp
      then have "uint (ram_block g d (unat b) ! (unat a + i)) = erase_value (rambd_cfg d)" using that(1) by (simp add: ram_ready_def)
      moreover have "ram_block g d (unat b) ! (unat a + i) = ram d ! (unat b * m + (unat a + i))"
        unfolding ram_block_def m_def [symmetric] using that(2) x s(2) total [of d] 12(1) by (intro nth_mem_read) auto
      ultimately show ?thesis by (simp add: add.assoc)
    qed
    define d' where "d' = d\<lparr>ram := mem_write (ram d) (unat b * m + unat a) xs\<rparr>"
    have "bd_prog (rambd_config g) b a xs d = Some (0, d')"
      using al s(1) fit erased by (auto simp: rambd_config_def lfs_rambd_prog_def Let_def len d'_def)
    moreover have "ram_ok g d'" using 12(1) fit by (simp add: ram_ok_def d'_def)
    moreover have blk: "ram_block g d' = (ram_block g d)(unat b := mem_write (ram_block g d (unat b)) (unat a) xs)"
      using ram_block_write [of "unat a" xs m "unat b" "ram d" g d] x s(2) total [of d] 12(1) by (simp add: d'_def m_def)
    moreover have cfg': "rambd_cfg d' = rambd_cfg d" by (simp add: d'_def)
    have "ram_ready g d' c i" if "ram_ready g d c i" "c \<noteq> unat b \<or> i < unat a \<or> unat a + length xs \<le> i" for c i
    proof (cases "c = unat b")
      case True
      have "length (ram_block g d (unat b)) = m" using s(2) total [of d] 12(1) by (simp add: ram_block_def m_def)
      with that True x show ?thesis by (auto simp: ram_ready_def blk nth_mem_write cfg')
    next
      case False
      with that(1) show ?thesis by (simp add: ram_ready_def blk cfg')
    qed
    ultimately show ?case by blast
  next
    case (13 d b)
    then have b: "unat b < n" by (simp add: rambd_config_def n_def word_less_nat_alt)
    note s = start [OF b, of 0]
    have bc: "\<not> block_count g \<le> b" using 13(2) by (simp add: rambd_config_def not_le)
    show ?case
    proof (cases "erase_value (rambd_cfg d) = -1")
      case True
      with bc 13(1) show ?thesis
        by (auto simp: rambd_config_def lfs_rambd_erase_def ram_ready_def)
    next
      case False
      define v :: u8 where "v = word_of_int (erase_value (rambd_cfg d))"
      have v: "uint v = erase_value (rambd_cfg d)"
        using False 13(1) by (auto simp: v_def ram_ok_def uint_word_of_int)
      define d' where "d' = d\<lparr>ram := mem_write (ram d) (unat b * m) (replicate m v)\<rparr>"
      have fit: "unat b * m + m \<le> length (ram d)" using s(2) total [of d] 13(1) by simp
      have "bd_erase (rambd_config g) b d = Some (0, d')"
        using bc False s(1) fit by (simp add: rambd_config_def lfs_rambd_erase_def Let_def d'_def v_def m_def [symmetric])
      moreover have "ram_ok g d'" using 13(1) fit by (simp add: ram_ok_def d'_def)
      moreover have blk: "ram_block g d' = (ram_block g d)(unat b := replicate m v)"
        using ram_block_erased [OF fit m_def] by (simp add: d'_def)
      moreover have "rambd_cfg d' = rambd_cfg d" by (simp add: d'_def)
      ultimately show ?thesis using v by (auto simp: ram_ready_def blk m_def [symmetric] rambd_config_def)
    qed
  next
    case (14 d)
    then show ?case by (simp add: rambd_config_def lfs_rambd_sync_def)
  qed (use assms in \<open>simp_all add: sizes_ok_def rambd_config_def\<close>)
qed

text \<open>The sizes the ESP8266 core uses, for a file system of 1 MiB.\<close>

definition esp_lfs_sizes :: "unit lfs_config" where
  "esp_lfs_sizes = \<lparr>bd_read = (\<lambda>_ _ _ _. None), bd_prog = (\<lambda>_ _ _ _. None), bd_erase = (\<lambda>_ _. None), bd_sync = (\<lambda>_. None),
     read_size = 64, prog_size = 64, block_size = 8192, block_count = 128, cache_size = 64, lookahead_size = 64,
     metadata_max = 0\<rparr>"

lemma esp_config: "block_size (rambd_config esp_lfs_sizes) = 8192" "block_count (rambd_config esp_lfs_sizes) = 128"
  "cache_size (rambd_config esp_lfs_sizes) = 64" "read_size (rambd_config esp_lfs_sizes) = 64"
  by (simp_all add: rambd_config_def esp_lfs_sizes_def)

lemma esp_sizes_ok: "sizes_ok esp_lfs_sizes"
  by (simp add: sizes_ok_def esp_lfs_sizes_def word_le_nat_alt block_markers)

interpretation ram_device: block_device "rambd_config esp_lfs_sizes" "ram_ok esp_lfs_sizes" "ram_block esp_lfs_sizes" "ram_ready esp_lfs_sizes"
  by (rule rambd_device [OF esp_sizes_ok])

section \<open>Properties of the caching layer\<close>

text \<open>
  Property C38: reading through the caches.  On every device that keeps the promises of the interface,
  for every state of the two caches and every range inside a block, \<open>lfs_bd_read\<close> returns, without
  waiting for ever, exactly the bytes the file system sees there (the waiting bytes of the program
  cache, the device elsewhere), changes nothing on the device and leaves the read cache in agreement
  with it.
\<close>

theorem lfs_bd_read_sees:
  assumes "block_device cfg ok contents ready" and "ok d" and "coherent cfg (contents d) rcache" and "pcache_wf cfg pcache"
    and "b < block_count cfg" and "unat a + unat n \<le> unat (block_size cfg)" and "0 < hint" and "hint \<le> block_size cfg"
  shows "\<exists>rcache' d'. lfs_bd_read cfg pcache rcache hint b a n d =
      Some (0, map (view pcache (contents d) (unat b)) [unat a..<unat a + unat n], rcache', d') \<and>
    contents d' = contents d \<and> coherent cfg (contents d') rcache'"
proof -
  have "0 < unat hint" "unat hint \<le> unat (block_size cfg)" using assms(7,8) by (simp_all add: word_less_nat_alt word_le_nat_alt)
  from block_device.bd_read_view [OF assms(1,5,4) this assms(2,3,6), OF empty_notin] show ?thesis by metis
qed

definition empty_cache :: lfs_cache where
  "empty_cache = \<lparr>cache_block = LFS_BLOCK_NULL, cache_off = 0, cache_len = 0, cache_buffer = replicate 64 0xff\<rparr>"

definition blank_ram :: lfs_rambd where
  "blank_ram = \<lparr>ram = replicate 1048576 0xff, rambd_cfg = \<lparr>erase_value = 255, static_buffer = None\<rparr>\<rparr>"

lemma blank_ram_ok: "ram_ok esp_lfs_sizes blank_ram"
  by (simp add: ram_ok_def blank_ram_def esp_lfs_sizes_def)

lemma empty_cache_coherent: "coherent (rambd_config esp_lfs_sizes) mem empty_cache"
  by (simp add: coherent_but_def cache_wf_def empty_cache_def rambd_config_def esp_lfs_sizes_def word_less_nat_alt block_markers)

lemma blank_ram_block: "b < 128 \<Longrightarrow> i < 8192 \<Longrightarrow> ram_block esp_lfs_sizes blank_ram b ! i = 255"
  by (simp add: ram_block_def blank_ram_def esp_lfs_sizes_def mem_read_def)

lemma blank_ram_ready: "b < 128 \<Longrightarrow> i < 8192 \<Longrightarrow> ram_ready esp_lfs_sizes blank_ram b i"
  by (simp add: ram_ready_def blank_ram_block) (simp add: blank_ram_def esp_lfs_sizes_def)

theorem lfs_bd_read_sees_witness:
  "\<exists>rcache' d'. lfs_bd_read (rambd_config esp_lfs_sizes) None empty_cache 4 3 61 7 blank_ram = Some (0, replicate 7 0xff, rcache', d')"
proof -
  have "map (view None (ram_block esp_lfs_sizes blank_ram) 3) [61..<68] = replicate 7 0xff"
  proof -
    have "map (view None (ram_block esp_lfs_sizes blank_ram) 3) [61..<68] = map (\<lambda>_. 0xff) [61..<68]"
      by (rule map_cong) (auto simp: view_def blank_ram_block)
    then show ?thesis by (simp only: map_replicate_const) (simp add: numeral_eq_Suc)
  qed
  with lfs_bd_read_sees [OF ram_device.block_device_axioms blank_ram_ok empty_cache_coherent, of None 3 61 7 4]
  show ?thesis by (auto simp: pcache_wf_def rambd_config_def esp_lfs_sizes_def word_le_nat_alt)
qed

text \<open>
  Property C37: writing through the caches.  Programming bytes one after the other into an erased part of
  a block succeeds, and afterwards the file system sees the new bytes where they were written and
  everything else unchanged, whether they still wait in the cache or went to the device (read back
  and compared there); the next position can be programmed.
\<close>

theorem lfs_bd_prog_writes:
  assumes "block_device cfg ok contents ready" and "ok d" and "coherent cfg (contents d) rcache"
    and "b < block_count cfg" and "validate \<or> cache_block rcache \<noteq> b" and "writing cfg (ready d) pcache b (unat a)"
    and "unat a + length data \<le> unat (block_size cfg)"
  shows "\<exists>pcache' rcache' d'. lfs_bd_prog cfg pcache rcache validate b a data d = Some (0, pcache', rcache', d') \<and>
    ok d' \<and> coherent cfg (contents d') rcache' \<and> (\<not> validate \<longrightarrow> rcache' = rcache) \<and>
    writing cfg (ready d') pcache' b (unat a + length data) \<and>
    (\<forall>c. c \<noteq> unat b \<longrightarrow> contents d' c = contents d c \<and> (\<forall>i. ready d c i \<longrightarrow> ready d' c i)) \<and>
    (\<forall>i < unat (block_size cfg). view (Some pcache') (contents d') (unat b) i =
      (if unat a \<le> i \<and> i < unat a + length data then data ! (i - unat a) else view (Some pcache) (contents d) (unat b) i))"
  using block_device.bd_prog_view [OF assms(1) dvd_refl block_device.sizes(4) [OF assms(1)] assms(4,2,3,5,6,7)] by blast

theorem lfs_bd_prog_writes_witness:
  "\<exists>pcache' rcache' d'. lfs_bd_prog (rambd_config esp_lfs_sizes) empty_cache empty_cache True 5 128 (replicate 100 1) blank_ram =
     Some (0, pcache', rcache', d') \<and> view (Some pcache') (ram_block esp_lfs_sizes d') 5 130 = 1"
proof -
  have "writing (rambd_config esp_lfs_sizes) (ram_ready esp_lfs_sizes blank_ram) empty_cache 5 (unat (128 :: u32))"
    using blank_ram_ready [of 5]
    by (intro ram_device.writing_empty) (simp_all add: empty_cache_def rambd_config_def esp_lfs_sizes_def)
  from lfs_bd_prog_writes [OF ram_device.block_device_axioms blank_ram_ok empty_cache_coherent _ _ this, of True "replicate 100 1"]
  show ?thesis by (force simp: rambd_config_def esp_lfs_sizes_def)
qed

end
