(* ===== verification/Lfs_Dir_Get.thy ===== *)
theory Lfs_Dir_Get
  imports Lfs_Tag Lfs_Rambd
begin

text \<open>
  Reading a metadata log of littlefs: \<open>lfs_dir_getslice\<close>, \<open>lfs_dir_get\<close> and \<open>lfs_dir_getread\<close> of
  \<open>lfs.c\<close>.  The code walks the log from its end and keeps track of how later creations and deletions
  moved the id it looks for; the reference is the replay of the log from its beginning.
\<close>

section \<open>The code\<close>

definition LFS_ERR_NOENT :: int where "LFS_ERR_NOENT = -2"
definition LFS_TYPE_SPLICE :: u32 where "LFS_TYPE_SPLICE = 0x400"
definition LFS_TYPE_CREATE :: u32 where "LFS_TYPE_CREATE = 0x401"
definition LFS_TYPE_DELETE :: u32 where "LFS_TYPE_DELETE = 0x4ff"

record lfs_mdir =
  mdir_pair :: lfs_pair
  mdir_rev :: u32
  mdir_off :: u32
  mdir_etag :: u32
  mdir_count :: u16
  mdir_erased :: bool
  mdir_split :: bool
  mdir_tail :: lfs_pair

text \<open>
  The result is the code (a tag or an error), the bytes of the buffer when one was filled, and the
  state.  An iteration takes at least four bytes of the log off, so the loop ends.
\<close>

function dir_getslice_loop ::
  "'d lfs_config \<Rightarrow> u32 \<Rightarrow> u32 \<Rightarrow> u32 \<Rightarrow> u32 \<Rightarrow> u32 \<Rightarrow> u32 \<Rightarrow> u32 \<Rightarrow> u32 \<Rightarrow> lfs_cache \<Rightarrow> 'd \<Rightarrow>
     (int \<times> u8 list \<times> lfs_cache \<times> 'd) option" where
  "dir_getslice_loop cfg block gmask gtag goff gsize off ntag gdiff rcache d =
     (if off \<ge> 4 + lfs_tag_dsize ntag then
        case lfs_bd_read cfg None rcache 4 block (off - lfs_tag_dsize ntag) 4 d of
          None \<Rightarrow> None
        | Some (err, bytes, rcache, d) \<Rightarrow>
            if err \<noteq> 0 then Some (err, [], rcache, d)
            else
              let off = off - lfs_tag_dsize ntag;
                  tag = ntag;
                  ntag = (lfs_frombe32 (le32_of bytes) XOR tag) AND 0x7fffffff;
                  around = lfs_tag_id gmask \<noteq> 0 \<and> ucast (lfs_tag_type1 tag) = LFS_TYPE_SPLICE \<and>
                    lfs_tag_id tag \<le> lfs_tag_id (gtag - gdiff)
              in if around \<and> tag = (LFS_MKTAG LFS_TYPE_CREATE 0 0 OR (LFS_MKTAG 0 0x3ff 0 AND (gtag - gdiff))) then
                   Some (LFS_ERR_NOENT, [], rcache, d)
                 else
                   let gdiff = (if around then gdiff + LFS_MKTAG 0 (word_of_int (lfs_tag_splice tag)) 0 else gdiff)
                   in if gmask AND tag = gmask AND (gtag - gdiff) then
                        if lfs_tag_isdelete tag then Some (LFS_ERR_NOENT, [], rcache, d)
                        else
                          let diff = lfs_min (lfs_tag_size tag) gsize
                          in case lfs_bd_read cfg None rcache diff block (off + 4 + goff) diff d of
                               None \<Rightarrow> None
                             | Some (err, bytes, rcache, d) \<Rightarrow>
                                 if err \<noteq> 0 then Some (err, [], rcache, d)
                                 else Some (sint (tag + gdiff), bytes @ replicate (unat (gsize - diff)) 0, rcache, d)
                      else dir_getslice_loop cfg block gmask gtag goff gsize off ntag gdiff rcache d
      else Some (LFS_ERR_NOENT, [], rcache, d))"
  by pat_completeness auto
termination
proof (relation "measure (\<lambda>(cfg, block, gmask, gtag, goff, gsize, off, ntag, gdiff, rcache, d). unat off)", goal_cases)
  case (2 cfg block gmask gtag goff gsize off ntag gdiff rcache d a x1 y1 x2 y2 x3 y3 z1 z2 z3 z4 z5)
  have "4 \<le> unat (lfs_tag_dsize ntag)" "unat (lfs_tag_dsize ntag) < 1028"
    using tag_bounds(3) [of ntag] by (auto simp: dsize_nat)
  moreover have "unat (4 + lfs_tag_dsize ntag) \<le> unat off" using 2(1) by (simp add: word_le_nat_alt)
  ultimately show ?case using 2 by (simp add: unat_add_u32 unat_sub word_le_nat_alt)
qed simp

declare dir_getslice_loop.simps [simp del]

definition lfs_dir_getslice ::
  "'d lfs_config \<Rightarrow> lfs_gstate \<Rightarrow> lfs_mdir \<Rightarrow> u32 \<Rightarrow> u32 \<Rightarrow> u32 \<Rightarrow> u32 \<Rightarrow> lfs_cache \<Rightarrow> 'd \<Rightarrow>
     (int \<times> u8 list \<times> lfs_cache \<times> 'd) option" where
  "lfs_dir_getslice cfg gdisk dir gmask gtag goff gsize rcache d =
     (let gdiff = (if lfs_gstate_hasmovehere gdisk (mdir_pair dir) \<and> lfs_tag_id gmask \<noteq> 0 \<and>
                      lfs_tag_id (gstate_tag gdisk) \<le> lfs_tag_id gtag then 0 - LFS_MKTAG 0 1 0 else 0)
      in dir_getslice_loop cfg (fst (mdir_pair dir)) gmask gtag goff gsize (mdir_off dir) (mdir_etag dir) gdiff rcache d)"

definition lfs_dir_get ::
  "'d lfs_config \<Rightarrow> lfs_gstate \<Rightarrow> lfs_mdir \<Rightarrow> u32 \<Rightarrow> u32 \<Rightarrow> lfs_cache \<Rightarrow> 'd \<Rightarrow> (int \<times> u8 list \<times> lfs_cache \<times> 'd) option" where
  "lfs_dir_get cfg gdisk dir gmask gtag rcache d =
     lfs_dir_getslice cfg gdisk dir gmask gtag 0 (lfs_tag_size gtag) rcache d"

section \<open>The replay of a log\<close>

text \<open>
  An entry is a tag and its data.  A log is listed from the newest entry to the oldest; replaying it
  from the oldest gives, for each file, the entries that are about it, the newest first.
\<close>

type_synonym lfs_entry = "u32 \<times> u8 list"

definition replay_step :: "lfs_entry \<Rightarrow> lfs_entry list list \<Rightarrow> lfs_entry list list" where
  "replay_step e files =
     (let t = tag_type (fst e); i = tag_id (fst e)
      in if t = 0x401 then take i files @ [] # drop i files
         else if t = 0x4ff then take i files @ drop (Suc i) files
         else if i < length files then files[i := e # files ! i] else files)"

fun replay :: "lfs_entry list \<Rightarrow> lfs_entry list list" where
  "replay [] = []"
| "replay (e # es) = replay_step e (replay es)"

text \<open>Creations have no data; they and deletions are the only entries of the splice type.\<close>

fun wf_log :: "lfs_entry list \<Rightarrow> bool" where
  "wf_log [] \<longleftrightarrow> True"
| "wf_log (e # es) \<longleftrightarrow> wf_log es \<and> tag_type (fst e) < 2048 \<and> length (replay (e # es)) \<le> 1023 \<and>
     (tag_type (fst e) div 256 = 4 \<longrightarrow>
        tag_type (fst e) = 0x401 \<and> tag_size (fst e) = 0 \<and> tag_id (fst e) \<le> length (replay es) \<or>
        tag_type (fst e) = 0x4ff \<and> tag_id (fst e) < length (replay es))"

text \<open>The entries lie in the block behind its revision count; each tag is stored as the difference to the one before.\<close>

fun log_at :: "u8 list \<Rightarrow> nat \<Rightarrow> u32 \<Rightarrow> lfs_entry list \<Rightarrow> bool" where
  "log_at blk off t [] \<longleftrightarrow> off = 4 \<and> t = 0x7fffffff"
| "log_at blk off t ((tag, data) # es) \<longleftrightarrow>
     (let o' = off - unat (lfs_tag_dsize tag)
      in t = tag \<and> 4 + unat (lfs_tag_dsize tag) \<le> off \<and> off \<le> length blk \<and> 4 + length data = unat (lfs_tag_dsize tag) \<and>
         mem_read blk (o' + 4) (length data) = data \<and>
         log_at blk o' ((lfs_frombe32 (le32_of (mem_read blk o' 4)) XOR tag) AND 0x7fffffff) es)"

text \<open>The newest entry of a file whose type agrees with \<open>gt\<close> in the bits of \<open>tm\<close>, unless it is a removal.\<close>

definition lookup_entry :: "nat \<Rightarrow> nat \<Rightarrow> lfs_entry list \<Rightarrow> lfs_entry option" where
  "lookup_entry tm gt es =
     (case find (\<lambda>e. tag_type (fst e) AND tm = gt AND tm) es of
        None \<Rightarrow> None
      | Some e \<Rightarrow> if tag_size (fst e) = 1023 then None else Some e)"

definition get_result :: "nat \<Rightarrow> nat \<Rightarrow> lfs_entry option \<Rightarrow> int \<times> u8 list" where
  "get_result g s found =
     (case found of
        None \<Rightarrow> (LFS_ERR_NOENT, [])
      | Some (tag, data) \<Rightarrow> (int (unat (mktag (tag_type tag) g (tag_size tag))), take s (data @ replicate s 0)))"

section \<open>Walking back along the log\<close>

lemma splice_values: "tag_type tag = 0x401 \<Longrightarrow> lfs_tag_splice tag = 1" "tag_type tag = 0x4ff \<Longrightarrow> lfs_tag_splice tag = -1"
proof -
  have c: "lfs_tag_chunk tag = word_of_nat (tag_type tag mod 256)"
    by (simp add: word_unat_eq_iff unat_of_nat)
  show "tag_type tag = 0x401 \<Longrightarrow> lfs_tag_splice tag = 1" by (simp add: lfs_tag_splice_def c)
  show "tag_type tag = 0x4ff \<Longrightarrow> lfs_tag_splice tag = -1" by (simp add: lfs_tag_splice_def c)
qed

lemma mktag_shift: "mktag t (Suc c) s - 1024 = mktag t c s" "mktag t c s + 1024 = mktag t (Suc c) s"
  by (simp_all add: mktag_def algebra_simps)

lemma MKTAG_one: "LFS_MKTAG 0 1 0 = 1024" "LFS_MKTAG 0 (- 1) 0 = - 1024"
  by (simp_all add: LFS_MKTAG_def push_bit_eq_mult)

lemma is_splice: "ucast (lfs_tag_type1 tag) = LFS_TYPE_SPLICE \<longleftrightarrow> tag_type tag div 256 mod 8 = 4"
proof -
  have u: "unat (ucast w :: u32) = unat w" for w :: u16
  proof -
    have "unat w < 2 ^ LENGTH(16)" by (rule unsigned_less)
    then show ?thesis by (simp add: unsigned_ucast_eq take_bit_nat_eq_self)
  qed
  show ?thesis by (simp add: word_unat_eq_iff u LFS_TYPE_SPLICE_def)
qed

lemma created_tag:
  assumes "c < 1024" "t < 4096" "s < 1024"
  shows "LFS_MKTAG LFS_TYPE_CREATE 0 0 OR (LFS_MKTAG 0 0x3ff 0 AND mktag t c s) = mktag 0x401 c 0"
proof -
  have m: "LFS_MKTAG 0 0x3ff 0 = mktag 0 1023 0" "LFS_MKTAG LFS_TYPE_CREATE 0 0 = mktag 0x401 0 0"
    by (subst MKTAG_fields; simp add: LFS_TYPE_CREATE_def)+
  have "1023 AND c = take_bit 10 c" by (simp add: take_bit_eq_mask mask_eq_exp_minus_1 and.commute)
  also have "\<dots> = c" using assms(1) by (simp add: take_bit_nat_eq_self)
  finally show ?thesis unfolding tag_eq_iff [of _ "mktag 0x401 c 0"] m fields_or fields_and using assms by simp
qed

lemma same_fields:
  assumes "tm < 4096" "gt < 4096" "c < 1024" "s < 1024"
  shows "mktag tm 1023 0 AND tag = mktag tm 1023 0 AND mktag gt c s \<longleftrightarrow> tag_type tag AND tm = gt AND tm \<and> tag_id tag = c"
proof -
  have i: "i AND 1023 = i" if "i < 1024" for i :: nat
  proof -
    have "i AND 1023 = take_bit 10 i" by (simp add: take_bit_eq_mask mask_eq_exp_minus_1)
    with that show ?thesis by (simp add: take_bit_nat_eq_self)
  qed
  show ?thesis unfolding tag_eq_iff [of "_ AND _"] fields_and
    using assms tag_bounds(2) [of tag] by (simp add: i [THEN and.commute [THEN trans]] i and.commute [of tm])
qed


lemma find_Cons: "find P (x # xs) = (if P x then Some x else find P xs)"
  by simp

text \<open>What one entry does to the list a file has.\<close>

lemma replay_create:
  assumes "tag_type (fst e) = 0x401" "tag_id (fst e) \<le> length files" "c < length (replay_step e files)"
  shows "replay_step e files ! c = (if c = tag_id (fst e) then [] else if tag_id (fst e) < c then files ! (c - 1) else files ! c)"
    "length (replay_step e files) = Suc (length files)"
  using assms by (auto simp: replay_step_def Let_def nth_append nth_Cons')

lemma replay_delete:
  assumes "tag_type (fst e) = 0x4ff" "tag_id (fst e) < length files" "c < length (replay_step e files)"
  shows "replay_step e files ! c = (if tag_id (fst e) \<le> c then files ! Suc c else files ! c)"
    "Suc (length (replay_step e files)) = length files"
  using assms by (auto simp: replay_step_def Let_def nth_append)

lemma replay_other:
  assumes "tag_type (fst e) \<noteq> 0x401" "tag_type (fst e) \<noteq> 0x4ff" "c < length files"
  shows "replay_step e files ! c = (if c = tag_id (fst e) then e # files ! c else files ! c)"
    "length (replay_step e files) = length files"
  using assms by (auto simp: replay_step_def Let_def)

text \<open>A tag as a signed result.\<close>

lemma sint_tag: "tag_type tag < 2048 \<Longrightarrow> sint tag = int (unat tag)"
proof -
  assume "tag_type tag < 2048"
  then have "unat tag < 2147483648" by (simp add: div_less_iff_less_mult)
  then show ?thesis by (intro sint_small) simp
qed

context block_device
begin

lemma read_bytes:
  assumes "ok d" "coherent cfg (contents d) rcache" "blk < block_count cfg" "unat a + unat n \<le> bs" "n \<le> hint" "hint \<le> block_size cfg"
  shows "\<exists>rcache' d'. lfs_bd_read cfg None rcache hint blk a n d =
      Some (0, mem_read (contents d (unat blk)) (unat a) (unat n), rcache', d') \<and> same d d' \<and> coherent cfg (contents d') rcache'"
proof (cases "n = 0")
  case True
  have "unat a + unat n < 4294967296" using assms(4) sizes(8) by simp
  then have "\<not> a + n > block_size cfg" using assms(4) by (simp add: word_less_nat_alt unat_add_u32)
  moreover have "\<not> blk \<ge> block_count cfg" using assms(3) by (simp add: not_le)
  ultimately show ?thesis using assms(1,2) True
    by (simp add: lfs_bd_read_def bd_read_loop.simps [of _ _ _ _ _ 0] mem_read_def)
next
  case False
  then have "unat n \<noteq> 0" by (simp add: unat_eq_zero)
  moreover have "unat n \<le> unat hint" "unat hint \<le> bs" using assms(5,6) by (simp_all only: word_le_nat_alt)
  ultimately have h: "0 < unat hint" "unat hint \<le> bs" by linarith+
  have wf: "pcache_wf cfg None" by (simp add: pcache_wf_def)
  have "length (contents d (unat blk)) = bs" using block_length [OF assms(1)] assms(3) by (simp add: word_less_nat_alt)
  then have "map (view None (contents d) (unat blk)) [unat a..<unat a + unat n] = mem_read (contents d (unat blk)) (unat a) (unat n)"
    using assms(4) by (intro nth_equalityI) (simp_all add: nth_mem_read view_def)
  then show ?thesis using bd_read_view [OF assms(3) wf h assms(1,2,4) empty_notin] by auto
qed

end

text \<open>The tags the caller passes: a file's id, a type that is neither a creation nor a deletion.\<close>

definition get_ok :: "nat \<Rightarrow> nat \<Rightarrow> nat \<Rightarrow> bool" where
  "get_ok tm gt s \<longleftrightarrow> tm < 4096 \<and> gt < 4096 \<and> s < 1024 \<and>
     0x401 AND tm \<noteq> gt AND tm \<and> 0x4ff AND tm \<noteq> gt AND tm"

lemma tag_after_gdiff:
  assumes "mktag gt g s - gdiff = mktag gt c s" "tag_id tag = c" "tag_type tag < 2048" "g < 1024"
  shows "sint (tag + gdiff) = int (unat (mktag (tag_type tag) g (tag_size tag)))"
proof -
  have "gdiff = mktag gt g s - mktag gt c s" using assms(1) by (simp add: algebra_simps)
  then have "gdiff = word_of_nat (g * 1024) - word_of_nat (c * 1024)" by (simp add: mktag_def)
  moreover have "tag = mktag (tag_type tag) c (tag_size tag)" using mktag_fields [of tag] assms(2) by simp
  then have "tag = word_of_nat (tag_type tag * 1048576) + word_of_nat (c * 1024) + word_of_nat (tag_size tag)"
    by (simp add: mktag_def)
  ultimately have "tag + gdiff = word_of_nat (tag_type tag * 1048576) + word_of_nat (tag_size tag) + word_of_nat (g * 1024)"
    by (simp only: add.assoc add.commute add.left_commute add_diff_cancel_left' diff_add_cancel) (simp add: algebra_simps)
  then have "tag + gdiff = mktag (tag_type tag) g (tag_size tag)" by (simp add: mktag_def algebra_simps)
  moreover have "tag_type (mktag (tag_type tag) g (tag_size tag)) < 2048"
    using assms(3,4) tag_bounds [of tag] by simp
  ultimately show ?thesis by (simp add: sint_tag)
qed

context block_device
begin

text \<open>What the loop does when the entry before the offset is \<open>(tag, data)\<close> and the file has index \<open>c\<close>.\<close>

lemma getslice_step:
  fixes off ntag
  assumes "ok d" "coherent cfg (contents d) rcache" "blk < block_count cfg" "get_ok tm gt s" "c < 1023" "tag_type tag < 2048"
    and at: "log_at (contents d (unat blk)) (unat off) ntag ((tag, data) # es)"
    and gd: "mktag gt g s - gdiff = mktag gt c s"
  shows "\<exists>off' ntag' rc d'. same d d' \<and> coherent cfg (contents d') rc \<and> log_at (contents d' (unat blk)) (unat off') ntag' es \<and>
    unat off' + 4 + length data \<le> bs \<and> mem_read (contents d' (unat blk)) (unat off' + 4) (length data) = data \<and>
    dir_getslice_loop cfg blk (mktag tm 1023 0) (mktag gt g s) 0 gsize off ntag gdiff rcache d =
      (let around = tag_type tag div 256 = 4 \<and> tag_id tag \<le> c in
       if around \<and> tag = mktag 0x401 c 0 then Some (LFS_ERR_NOENT, [], rc, d')
       else
         let gdiff = (if around then gdiff + LFS_MKTAG 0 (word_of_int (lfs_tag_splice tag)) 0 else gdiff)
         in if mktag tm 1023 0 AND tag = mktag tm 1023 0 AND (mktag gt g s - gdiff) then
              if lfs_tag_isdelete tag then Some (LFS_ERR_NOENT, [], rc, d')
              else
                let diff = lfs_min (lfs_tag_size tag) gsize
                in case lfs_bd_read cfg None rc diff blk (off' + 4) diff d' of
                     None \<Rightarrow> None
                   | Some (err, bytes, rcache, d) \<Rightarrow>
                       if err \<noteq> 0 then Some (err, [], rcache, d)
                       else Some (sint (tag + gdiff), bytes @ replicate (unat (gsize - diff)) 0, rcache, d)
            else dir_getslice_loop cfg blk (mktag tm 1023 0) (mktag gt g s) 0 gsize off' ntag' gdiff rc d')"
proof -
  let ?b = "contents d (unat blk)"
  define o' where "o' = off - lfs_tag_dsize tag"
  have lb: "length ?b = bs" using block_length [OF assms(1)] assms(3) by (simp add: word_less_nat_alt)
  have a: "ntag = tag" "4 + unat (lfs_tag_dsize tag) \<le> unat off" "unat off \<le> bs" "4 + length data = unat (lfs_tag_dsize tag)"
    using at by (simp_all add: Let_def lb)
  have uo: "unat o' = unat off - unat (lfs_tag_dsize tag)"
    unfolding o'_def using a(2) by (simp add: unat_sub word_le_nat_alt)
  from at have l: "mem_read ?b (unat o' + 4) (length data) = data"
      "log_at ?b (unat o') ((lfs_frombe32 (le32_of (mem_read ?b (unat o') 4)) XOR tag) AND 0x7fffffff) es"
    unfolding log_at.simps Let_def uo by blast+
  have "unat (4 + lfs_tag_dsize tag) = 4 + unat (lfs_tag_dsize tag)"
    using tag_bounds(3) [of tag] by (subst unat_add_u32) (auto simp: dsize_nat)
  then have enter: "off \<ge> 4 + lfs_tag_dsize ntag" using a(1,2) by (simp add: word_le_nat_alt)
  have fit: "unat o' + 4 + length data \<le> bs" using uo a by linarith
  then have "unat o' + unat (4 :: u32) \<le> bs" by simp
  moreover have "(4 :: u32) \<le> block_size cfg" using fit by (simp add: word_le_nat_alt)
  ultimately obtain rc d' where rd: "lfs_bd_read cfg None rcache 4 blk o' 4 d = Some (0, mem_read ?b (unat o') 4, rc, d')"
      "same d d'" "coherent cfg (contents d') rc"
    using read_bytes [OF assms(1,2,3), of o' 4 4] by auto
  have m: "lfs_tag_id (mktag tm 1023 0) \<noteq> 0" "lfs_tag_id tag \<le> lfs_tag_id (mktag gt c s) \<longleftrightarrow> tag_id tag \<le> c"
    using assms(4,5) by (simp_all add: word_unat_eq_iff word_le_nat_alt get_ok_def)
  have t4: "tag_type tag div 256 mod 8 = tag_type tag div 256" using assms(6) by (simp add: div_less_iff_less_mult)
  have cr: "LFS_MKTAG LFS_TYPE_CREATE 0 0 OR (LFS_MKTAG 0 0x3ff 0 AND mktag gt c s) = mktag 0x401 c 0"
    using assms(4,5) by (intro created_tag) (simp_all add: get_ok_def)
  show ?thesis
    apply (rule exI [of _ o'], rule exI [of _ "(lfs_frombe32 (le32_of (mem_read ?b (unat o') 4)) XOR tag) AND 0x7fffffff"],
      rule exI [of _ rc], rule exI [of _ d'])
    apply (intro conjI)
    subgoal using rd(2) by simp
    subgoal using rd(2) by simp
    subgoal using rd(2) by simp
    subgoal using rd(3) by simp
    subgoal using rd(2) l(2) by simp
    subgoal using fit by simp
    subgoal using l(1) rd(2) by simp
    subgoal
      by (subst dir_getslice_loop.simps) (simp only: enter [unfolded a(1)] a(1) if_True rd(1) o'_def [symmetric]
        option.case prod.case Let_def gd is_splice t4 m cr refl simp_thms if_False add_0_right)
    done
qed


lemma getslice_hit:
  assumes "ok d" "coherent cfg (contents d) rcache" "blk < block_count cfg" "unat o' + 4 + length data \<le> bs"
    and "mem_read (contents d (unat blk)) (unat o' + 4) (length data) = data" "length data = tag_size tag"
  shows "\<exists>rcache' d'. (let diff = lfs_min (lfs_tag_size tag) gsize
      in case lfs_bd_read cfg None rcache diff blk (o' + 4) diff d of
           None \<Rightarrow> None
         | Some (err, bytes, rcache, d) \<Rightarrow>
             if err \<noteq> 0 then Some (err, [], rcache, d)
             else Some (r, bytes @ replicate (unat (gsize - diff)) 0, rcache, d)) =
      Some (r, take (unat gsize) (data @ replicate (unat gsize) 0), rcache', d') \<and> same d d' \<and> coherent cfg (contents d') rcache'"
proof -
  define diff where "diff = lfs_min (lfs_tag_size tag) gsize"
  have ud: "unat diff = min (length data) (unat gsize)" by (simp add: diff_def assms(6))
  have uo: "unat (o' + 4) = unat o' + 4" using assms(4) sizes(8) by (subst unat_add_u32) simp_all
  have fit: "unat (o' + 4) + unat diff \<le> bs" using assms(4) unfolding uo ud by simp
  moreover have "diff \<le> block_size cfg" using fit by (simp add: word_le_nat_alt)
  ultimately obtain rc d' where rd: "lfs_bd_read cfg None rcache diff blk (o' + 4) diff d =
      Some (0, mem_read (contents d (unat blk)) (unat (o' + 4)) (unat diff), rc, d')" "same d d'" "coherent cfg (contents d') rc"
    using read_bytes [OF assms(1,2,3) _ order_refl] by blast
  have "mem_read (contents d (unat blk)) (unat (o' + 4)) (unat diff) = take (unat diff) data"
  proof -
    have "mem_read m a n = take n (mem_read m a k)" if "n \<le> k" for m :: "u8 list" and a n k
      using that by (simp add: mem_read_def min_def)
    from this [of "unat diff" "length data"] show ?thesis using ud by (simp add: uo assms(5))
  qed
  moreover have "diff \<le> gsize" by (simp add: word_le_nat_alt ud)
  then have "unat (gsize - diff) = unat gsize - unat diff" by (simp add: unat_sub)
  then have "take (unat diff) data @ replicate (unat (gsize - diff)) 0 = take (unat gsize) (data @ replicate (unat gsize) 0)"
    by (auto simp: ud min_def)
  ultimately show ?thesis using rd unfolding diff_def [symmetric] by (simp add: Let_def)
qed

text \<open>The loop returns what the replay says.\<close>

lemma getslice_loop:
  assumes "blk < block_count cfg" "get_ok tm gt s" "g < 1023" "wf_log es"
    and "ok d" "coherent cfg (contents d) rcache" "log_at (contents d (unat blk)) (unat off) ntag es"
    and "mktag gt g s - gdiff = mktag gt c s" "c < length (replay es)"
    and "get_result g (unat gsize) (lookup_entry tm gt (replay es ! c)) = (r, bytes)"
  shows "\<exists>rcache' d'. dir_getslice_loop cfg blk (mktag tm 1023 0) (mktag gt g s) 0 gsize off ntag gdiff rcache d =
    Some (r, bytes, rcache', d') \<and> same d d' \<and> coherent cfg (contents d') rcache'"
  using assms(4-10)
proof (induction es arbitrary: off ntag gdiff c rcache d)
  case (Cons e es)
  obtain tag data where e: "e = (tag, data)" by fastforce
  let ?files = "replay es" and ?i = "tag_id tag"
  have wf: "wf_log es" "tag_type tag < 2048" "length (replay (e # es)) \<le> 1023"
    "tag_type tag div 256 = 4 \<Longrightarrow> tag_type tag = 0x401 \<and> tag_size tag = 0 \<and> ?i \<le> length ?files \<or>
       tag_type tag = 0x4ff \<and> ?i < length ?files"
    using Cons.prems(1) by (simp_all add: e)
  have c: "c < 1023" using Cons.prems(6) wf(3) by linarith
  have lt: "length data + 4 = unat (lfs_tag_dsize tag)" using Cons.prems(4) by (simp add: e Let_def)
  from getslice_step [OF Cons.prems(2,3) assms(1,2) c wf(2) Cons.prems(4) [unfolded e] Cons.prems(5), of gsize]
  obtain off' ntag' rc d' where s: "same d d'" "coherent cfg (contents d') rc" "log_at (contents d' (unat blk)) (unat off') ntag' es"
      "unat off' + 4 + length data \<le> bs" "mem_read (contents d' (unat blk)) (unat off' + 4) (length data) = data"
    and step: "dir_getslice_loop cfg blk (mktag tm 1023 0) (mktag gt g s) 0 gsize off ntag gdiff rcache d =
      (let around = tag_type tag div 256 = 4 \<and> ?i \<le> c in
       if around \<and> tag = mktag 0x401 c 0 then Some (LFS_ERR_NOENT, [], rc, d')
       else
         let gdiff = (if around then gdiff + LFS_MKTAG 0 (word_of_int (lfs_tag_splice tag)) 0 else gdiff)
         in if mktag tm 1023 0 AND tag = mktag tm 1023 0 AND (mktag gt g s - gdiff) then
              if lfs_tag_isdelete tag then Some (LFS_ERR_NOENT, [], rc, d')
              else
                let diff = lfs_min (lfs_tag_size tag) gsize
                in case lfs_bd_read cfg None rc diff blk (off' + 4) diff d' of
                     None \<Rightarrow> None
                   | Some (err, bytes, rcache, d) \<Rightarrow>
                       if err \<noteq> 0 then Some (err, [], rcache, d)
                       else Some (sint (tag + gdiff), bytes @ replicate (unat (gsize - diff)) 0, rcache, d)
            else dir_getslice_loop cfg blk (mktag tm 1023 0) (mktag gt g s) 0 gsize off' ntag' gdiff rc d')"
    by blast
  have ok': "ok d'" using s(1) by simp
  have match: "mktag tm 1023 0 AND tag = mktag tm 1023 0 AND mktag gt c' s \<longleftrightarrow> tag_type tag AND tm = gt AND tm \<and> ?i = c'"
    if "c' < 1024" for c' using assms(2) that by (intro same_fields) (simp_all add: get_ok_def)
  have nomatch: "\<not> tag_type tag AND tm = gt AND tm" if "tag_type tag = 0x401 \<or> tag_type tag = 0x4ff"
    using assms(2) that by (auto simp: get_ok_def)
  have go: "\<exists>rcache' d''. dir_getslice_loop cfg blk (mktag tm 1023 0) (mktag gt g s) 0 gsize off' ntag' gdiff' rc d' =
      Some (r, bytes, rcache', d'') \<and> same d d'' \<and> coherent cfg (contents d'') rcache'"
    if "mktag gt g s - gdiff' = mktag gt c' s" "c' < length ?files"
      "get_result g (unat gsize) (lookup_entry tm gt (?files ! c')) = (r, bytes)" for gdiff' c'
    using Cons.IH [OF wf(1) ok' s(2,3) that] s(1) by auto
  consider (create) "tag_type tag = 0x401" | (delete) "tag_type tag = 0x4ff" | (other) "tag_type tag div 256 \<noteq> 4" "tag_type tag \<noteq> 0x401" "tag_type tag \<noteq> 0x4ff"
    using wf(4) by fastforce
  then show ?case
  proof cases
    case create
    then have q: "tag_size tag = 0" "?i \<le> length ?files" using wf(4) by simp_all
    note nth = replay_create [of e ?files c, unfolded e fst_conv, OF create q(2)]
    have len: "c < length (replay_step (tag, data) ?files)" using Cons.prems(6) by (simp add: e)
    consider "?i = c" | "?i < c" | "c < ?i" by linarith
    then show ?thesis
    proof cases
      case 1
      then have "tag = mktag 0x401 c 0" using create q(1) mktag_fields [of tag] by simp
      moreover have "r = LFS_ERR_NOENT" "bytes = []"
        using Cons.prems(7) nth(1) [OF len] 1 by (simp_all add: e lookup_entry_def get_result_def)
      ultimately show ?thesis using step s(1,2) create 1 by simp
    next
      case 2
      then have "tag \<noteq> mktag 0x401 c 0" using c by auto
      moreover have gd: "mktag gt g s - (gdiff + 1024) = mktag gt (c - 1) s"
        using Cons.prems(5) mktag_shift(1) [of gt "c - 1" s] 2 by (simp add: algebra_simps)
      moreover have "c - 1 < length ?files" using len nth(2) [OF len] 2 by simp
      moreover have "get_result g (unat gsize) (lookup_entry tm gt (?files ! (c - 1))) = (r, bytes)"
        using Cons.prems(7) nth(1) [OF len] 2 by (simp add: e)
      ultimately show ?thesis using step go [OF gd] nomatch create 2 c match [of "c - 1"]
        by (simp add: splice_values MKTAG_one)
    next
      case 3
      then have "tag \<noteq> mktag 0x401 c 0" using c by auto
      moreover have "c < length ?files" using q(2) 3 by simp
      moreover have "get_result g (unat gsize) (lookup_entry tm gt (?files ! c)) = (r, bytes)"
        using Cons.prems(7) nth(1) [OF len] 3 by (simp add: e)
      ultimately show ?thesis using step go [OF Cons.prems(5)] nomatch create 3 c match [of c] by (simp add: Cons.prems(5))
    qed
  next
    case delete
    then have q: "?i < length ?files" using wf(4) by simp
    note nth = replay_delete [of e ?files c, unfolded e fst_conv, OF delete q]
    have len: "c < length (replay_step (tag, data) ?files)" using Cons.prems(6) by (simp add: e)
    have no: "tag \<noteq> mktag 0x401 c 0" using delete c by auto
    show ?thesis
    proof (cases "?i \<le> c")
      case True
      have gd: "mktag gt g s - (gdiff + (- 1024)) = mktag gt (Suc c) s"
        using Cons.prems(5) mktag_shift(2) [of gt c s] by (simp add: algebra_simps)
      moreover have "Suc c < length ?files" using len nth(2) [OF len] by simp
      moreover have "get_result g (unat gsize) (lookup_entry tm gt (?files ! Suc c)) = (r, bytes)"
        using Cons.prems(7) nth(1) [OF len] True by (simp add: e)
      ultimately show ?thesis using step go [OF gd] nomatch delete True c match [of "Suc c"] no
        by (simp add: splice_values MKTAG_one del: add_uminus_conv_diff)
    next
      case False
      moreover have "c < length ?files" using q False by simp
      moreover have "get_result g (unat gsize) (lookup_entry tm gt (?files ! c)) = (r, bytes)"
        using Cons.prems(7) nth(1) [OF len] False by (simp add: e)
      ultimately show ?thesis using step go [OF Cons.prems(5)] nomatch delete c match [of c] no by (simp add: Cons.prems(5))
    qed
  next
    case other
    then have cl: "c < length ?files" using Cons.prems(6) other by (simp add: e replay_step_def Let_def split: if_splits)
    note nth = replay_other [of e c ?files, unfolded e fst_conv, OF other(2,3) cl]
    show ?thesis
    proof (cases "tag_type tag AND tm = gt AND tm \<and> ?i = c")
      case False
      then have "get_result g (unat gsize) (lookup_entry tm gt (?files ! c)) = (r, bytes)"
        using Cons.prems(7) nth(1) by (auto simp: e lookup_entry_def split: if_splits)
      from go [OF Cons.prems(5) cl this] show ?thesis
        using step other(1) match [of c] False c by (simp only: Cons.prems(5) Let_def if_False simp_thms)
    next
      case True
      then have found: "lookup_entry tm gt (replay (e # es) ! c) = (if tag_size tag = 1023 then None else Some (tag, data))"
        using nth(1) by (simp add: e lookup_entry_def)
      show ?thesis
      proof (cases "tag_size tag = 1023")
        case del: True
        then have "r = LFS_ERR_NOENT" "bytes = []" using Cons.prems(7) unfolding found by (simp_all add: get_result_def)
        then show ?thesis using step other(1) True del s(1,2) c match [of c] by (simp add: Cons.prems(5) isdelete_nat)
      next
        case nodel: False
        then have b: "r = sint (tag + gdiff)" "bytes = take (unat gsize) (data @ replicate (unat gsize) 0)"
          using Cons.prems(7) tag_after_gdiff [OF Cons.prems(5) _ wf(2)] True assms(3) unfolding found by (simp_all add: get_result_def)
        have "length data = tag_size tag" using lt nodel by (simp add: dsize_nat)
        note hit = getslice_hit [OF ok' s(2) assms(1) s(4,5) this, of gsize "sint (tag + gdiff)", folded b(2)]
        show ?thesis
          using step other(1) True nodel s(1) c match [of c] hit by (simp add: Cons.prems(5) isdelete_nat b(1))
      qed
    qed
  qed
qed simp

end

section \<open>Properties\<close>

text \<open>The files a directory block shows: a file that is being moved away is not among them.\<close>

definition live_files :: "lfs_gstate \<Rightarrow> lfs_mdir \<Rightarrow> lfs_entry list \<Rightarrow> lfs_entry list list" where
  "live_files gdisk dir es =
     (if lfs_gstate_hasmovehere gdisk (mdir_pair dir)
      then take (tag_id (gstate_tag gdisk)) (replay es) @ drop (Suc (tag_id (gstate_tag gdisk))) (replay es)
      else replay es)"

text \<open>
  Property C10: looking up a metadata entry.  Walking backwards through the log of a directory block,
  with tags stored as differences and ids that later creations, deletions and a pending move have
  shifted, \<open>lfs_dir_get\<close> returns what replaying the log from its beginning gives: the newest entry of
  the file with the type that was asked for, under the id the file has now, with its data cut or
  padded to the size of the buffer, or no entry when there is none or it was removed.  It always
  returns and changes nothing on the device.
\<close>

theorem lfs_dir_get_replays:
  assumes "block_device cfg ok contents ready" and "ok d" and "coherent cfg (contents d) rcache"
    and "fst (mdir_pair dir) < block_count cfg"
    and "log_at (contents d (unat (fst (mdir_pair dir)))) (unat (mdir_off dir)) (mdir_etag dir) es" and "wf_log es"
    and "get_ok tm gt s" and "g < length (live_files gdisk dir es)"
  shows "\<exists>rcache' d'. lfs_dir_get cfg gdisk dir (mktag tm 1023 0) (mktag gt g s) rcache d =
      (case get_result g s (lookup_entry tm gt (live_files gdisk dir es ! g)) of (r, bytes) \<Rightarrow> Some (r, bytes, rcache', d')) \<and>
    ok d' \<and> contents d' = contents d \<and> coherent cfg (contents d') rcache'"
proof -
  let ?m = "tag_id (gstate_tag gdisk)" and ?mv = "lfs_gstate_hasmovehere gdisk (mdir_pair dir)"
  define c where "c = (if ?mv \<and> ?m \<le> g then Suc g else g)"
  have n: "length (replay es) \<le> 1023" using assms(6) by (cases es) simp_all
  have c: "c < length (replay es)" "live_files gdisk dir es ! g = replay es ! c"
    using assms(8) by (auto simp: live_files_def c_def nth_append split: if_splits)
  have "g \<le> c" by (simp add: c_def)
  then have g: "g < 1023" using c n by linarith
  have k: "tm < 4096" "gt < 4096" "s < 1024" using assms(7) by (simp_all add: get_ok_def)
  have us: "unat (lfs_tag_size (mktag gt g s)) = s" using k g by simp
  define gdiff :: u32 where "gdiff = (if ?mv \<and> ?m \<le> g then - 1024 else 0)"
  have gd: "(if ?mv \<and> lfs_tag_id (mktag tm 1023 0) \<noteq> 0 \<and> lfs_tag_id (gstate_tag gdisk) \<le> lfs_tag_id (mktag gt g s)
      then 0 - LFS_MKTAG 0 1 0 else 0) = gdiff"
    using k g by (simp add: word_unat_eq_iff word_le_nat_alt MKTAG_one gdiff_def)
  have shift: "mktag gt g s - gdiff = mktag gt c s"
    using mktag_shift(2) [of gt g s] by (simp add: c_def gdiff_def)
  obtain r bytes where res: "get_result g s (lookup_entry tm gt (replay es ! c)) = (r, bytes)" by fastforce
  from block_device.getslice_loop [OF assms(1,4,7) g assms(6,2,3,5) shift c(1), of "lfs_tag_size (mktag gt g s)"]
  show ?thesis unfolding us by (simp add: lfs_dir_get_def lfs_dir_getslice_def gd c(2) res) blast
qed


text \<open>A log of two files: the second was created first and holds two bytes in its entry.\<close>

definition small_log :: "lfs_entry list" where
  "small_log = [(mktag 0x001 0 1, [98]), (mktag 0x401 0 0, []), (mktag 0x201 0 2, [7, 8]), (mktag 0x001 0 1, [97]), (mktag 0x401 0 0, [])]"

definition small_log_bytes :: "u8 list" where
  "small_log_bytes = [1, 0, 0, 0, 0xbf, 0xef, 0xff, 0xff, 0x40, 0, 0, 1, 97, 0x20, 0, 0, 3, 7, 8, 0x60, 0, 0, 2, 0x40, 0, 0, 1, 98]"

definition log_ram :: lfs_rambd where
  "log_ram = blank_ram\<lparr>ram := small_log_bytes @ replicate (1048576 - 28) 0xff\<rparr>"

definition small_dir :: lfs_mdir where
  "small_dir = \<lparr>mdir_pair = (0, 1), mdir_rev = 1, mdir_off = 28, mdir_etag = mktag 0x001 0 1, mdir_count = 2,
     mdir_erased = True, mdir_split = False, mdir_tail = (LFS_BLOCK_NULL, LFS_BLOCK_NULL)\<rparr>"

definition no_gstate :: lfs_gstate where
  "no_gstate = \<lparr>gstate_tag = 0, gstate_pair = (0, 0)\<rparr>"

lemma mem_read_prefix: "a + n \<le> length xs \<Longrightarrow> mem_read (xs @ ys) a n = mem_read xs a n"
  by (simp add: mem_read_def)

lemma log_at_prefix: "off \<le> length xs \<Longrightarrow> log_at (xs @ ys) off t es \<longleftrightarrow> log_at xs off t es"
  by (induction es arbitrary: off t) (auto simp: Let_def mem_read_prefix split: prod.splits)

lemma length_small: "length small_log_bytes = 28"
  by (simp add: small_log_bytes_def)

lemma frombe32_bytes: "lfs_frombe32 (le32_of [a, b, c, d]) = le32 d c b a"
proof -
  have "le32_of [a, b, c, d] = le32 a b c d" by (simp add: le32_of_def)
  then show ?thesis unfolding lfs_frombe32_def Let_def by (simp add: le32_bytes_le32) (simp add: le32_def ac_simps)
qed

lemma small_tags: "mktag 0x001 0 1 = 0x100001" "mktag 0x401 0 0 = 0x40100000" "mktag 0x201 0 2 = 0x20100002"
  by (simp_all add: mktag_def)

lemma dsize_small: "unat (lfs_tag_dsize 0x100001) = 5" "unat (lfs_tag_dsize 0x40100000) = 4" "unat (lfs_tag_dsize 0x20100002) = 6"
  by (simp_all add: dsize_nat)

lemma small_log_at: "log_at small_log_bytes 28 (mktag 0x001 0 1) small_log"
  unfolding small_log_def small_tags log_at.simps Let_def dsize_small small_log_bytes_def
  by (simp add: mem_read_def frombe32_bytes) (simp add: le32_def)

lemma small_log_wf: "wf_log small_log"
  unfolding small_log_def small_tags by (simp add: replay_step_def Let_def)

lemma small_log_files: "live_files no_gstate small_dir small_log = [[(mktag 0x001 0 1, [98])], [(mktag 0x201 0 2, [7, 8]), (mktag 0x001 0 1, [97])]]"
proof -
  have "\<not> lfs_gstate_hasmovehere no_gstate (mdir_pair small_dir)"
    by (simp add: lfs_gstate_hasmovehere_def no_gstate_def word_unat_eq_iff)
  then show ?thesis unfolding live_files_def small_log_def small_tags by (simp add: replay_step_def Let_def)
qed

theorem lfs_dir_get_replays_witness:
  "\<exists>rcache' d'. lfs_dir_get (rambd_config esp_lfs_sizes) no_gstate small_dir (mktag 0x700 1023 0) (mktag 0x201 1 4) empty_cache log_ram =
     Some (int (unat (mktag 0x201 1 2)), [7, 8, 0, 0], rcache', d')"
proof -
  have ok: "ram_ok esp_lfs_sizes log_ram"
    by (simp add: ram_ok_def log_ram_def blank_ram_def esp_lfs_sizes_def small_log_bytes_def)
  have "ram_block esp_lfs_sizes log_ram 0 = small_log_bytes @ replicate 8164 0xff"
    by (simp add: ram_block_def log_ram_def esp_lfs_sizes_def mem_read_def small_log_bytes_def)
  then have at: "log_at (ram_block esp_lfs_sizes log_ram (unat (fst (mdir_pair small_dir)))) (unat (mdir_off small_dir)) (mdir_etag small_dir) small_log"
    using small_log_at log_at_prefix [of 28 small_log_bytes] by (simp add: small_dir_def length_small)
  have zeros: "replicate 4 (0 :: u8) = [0, 0, 0, 0]" by (simp add: numeral_eq_Suc)
  have "lookup_entry 0x700 0x201 (live_files no_gstate small_dir small_log ! 1) = Some (mktag 0x201 0 2, [7, 8])"
    unfolding small_log_files small_tags by (simp add: lookup_entry_def)
  then have res: "get_result 1 4 (lookup_entry 0x700 0x201 (live_files no_gstate small_dir small_log ! 1)) =
      (int (unat (mktag 0x201 1 2)), [7, 8, 0, 0])"
    unfolding small_tags by (simp add: get_result_def zeros)
  have "get_ok 0x700 0x201 4" by (simp add: get_ok_def)
  moreover have "1 < length (live_files no_gstate small_dir small_log)" unfolding small_log_files by simp
  moreover have "fst (mdir_pair small_dir) < block_count (rambd_config esp_lfs_sizes)"
    by (simp add: small_dir_def rambd_config_def esp_lfs_sizes_def)
  ultimately show ?thesis
    using lfs_dir_get_replays [OF ram_device.block_device_axioms ok empty_cache_coherent _ at small_log_wf, of "0x700" "0x201" 4 1 no_gstate]
    unfolding res by auto
qed

end
