(* ===== verification/Lfs_Ctz.thy ===== *)
theory Lfs_Ctz
  imports Lfs_Rambd
begin

text \<open>
  The CTZ skip lists of littlefs (\<open>lfs_ctz_index\<close>, \<open>lfs_ctz_find\<close> and \<open>lfs_ctz_traverse\<close> of \<open>lfs.c\<close>).
  A file is a list of blocks; block \<open>i > 0\<close> starts with one pointer for every power of two that
  divides \<open>i\<close>, the \<open>k\<close>-th to block \<open>i - 2 ^ k\<close>.
\<close>

section \<open>The functions\<close>

text \<open>The block index of a position in a file, and the offset inside that block.\<close>

definition lfs_ctz_index :: "'d lfs_config \<Rightarrow> u32 \<Rightarrow> u32 \<times> u32" where
  "lfs_ctz_index cfg off =
     (let sz = off;
          b = block_size cfg - 2 * 4;
          i = sz div b
      in if i = 0 then (0, off)
         else
           let i = (sz - 4 * (lfs_popc (i - 1) + 2)) div b
           in (i, sz - b * i - 4 * lfs_popc i))"

text \<open>
  The outputs are the block and the offset in it; they are not set on an error.  The skip is at most
  31, and the distance left is at least the step, so the loop always ends.
\<close>

definition ctz_skip :: "u32 \<Rightarrow> u32 \<Rightarrow> u32" where
  "ctz_skip current target = lfs_min (lfs_npw2 (current - target + 1) - 1) (lfs_ctz current)"

lemma ctz_step:
  assumes "target < current"
  shows "2 ^ unat (ctz_skip current target) \<le> unat current - unat target"
    and "unat (ctz_skip current target) \<le> zeros (unat current)"
    and "unat (current - push_bit (unat (ctz_skip current target)) 1) = unat current - 2 ^ unat (ctz_skip current target)"
proof -
  let ?d = "unat current - unat target" and ?s = "unat (ctz_skip current target)"
  have d: "unat (current - target) = ?d" "0 < ?d" using assms by (simp_all add: unat_sub word_le_nat_alt word_less_nat_alt)
  have "bit_len ?d (unat (lfs_npw2 (current - target + 1)))" using lfs_npw2_bit_len [of "current - target + 1"] by (simp add: d)
  then have l: "?d < 2 ^ k \<longleftrightarrow> unat (lfs_npw2 (current - target + 1)) \<le> k" for k by (simp add: bit_len_def)
  have p: "0 < unat (lfs_npw2 (current - target + 1))" using l [of 0] d(2) by simp
  then have "unat (lfs_npw2 (current - target + 1) - 1) = unat (lfs_npw2 (current - target + 1)) - 1"
    by (subst unat_sub_le) simp_all
  then have s: "?s \<le> unat (lfs_npw2 (current - target + 1)) - 1" "?s \<le> unat (lfs_ctz current)"
    by (simp_all add: ctz_skip_def)
  with l [of "unat (lfs_npw2 (current - target + 1)) - 1"] p have "\<not> ?d < 2 ^ (unat (lfs_npw2 (current - target + 1)) - 1)" by simp
  moreover have "(2 :: nat) ^ ?s \<le> 2 ^ (unat (lfs_npw2 (current - target + 1)) - 1)" using s(1) by (intro power_increasing) simp_all
  ultimately show a: "2 ^ ?s \<le> ?d" by linarith
  have "current \<noteq> 0" using assms by auto
  with s(2) show "?s \<le> zeros (unat current)" by (simp add: unat_lfs_ctz)
  have "2 ^ ?s < (4294967296 :: nat)" using a unat_u32_less [of current] by linarith
  moreover have "push_bit ?s 1 = (word_of_nat (2 ^ ?s) :: u32)" by (simp add: push_bit_eq_mult)
  ultimately have u: "unat (push_bit ?s 1 :: u32) = 2 ^ ?s" by (simp only: unat_of_nat) simp
  show "unat (current - push_bit ?s 1) = unat current - 2 ^ ?s" 
  proof -
    have "unat (current - push_bit ?s 1) = unat current - unat (push_bit ?s 1 :: u32)"
      by (rule unat_sub_le) (use a u in linarith)
    then show ?thesis by (simp only: u)
  qed
qed

function ctz_find_loop ::
  "'d lfs_config \<Rightarrow> lfs_cache option \<Rightarrow> u32 \<Rightarrow> u32 \<Rightarrow> u32 \<Rightarrow> lfs_cache \<Rightarrow> 'd \<Rightarrow> (int \<times> u32 option \<times> lfs_cache \<times> 'd) option" where
  "ctz_find_loop cfg pcache target current head rcache d =
     (if current > target then
        let skip = ctz_skip current target
        in case lfs_bd_read cfg pcache rcache 4 head (4 * skip) 4 d of
             None \<Rightarrow> None
           | Some (err, bytes, rcache, d) \<Rightarrow>
               if err \<noteq> 0 then Some (err, None, rcache, d)
               else ctz_find_loop cfg pcache target (current - push_bit (unat skip) 1) (le32_of bytes) rcache d
      else Some (0, Some head, rcache, d))"
  by pat_completeness auto
termination
proof (relation "measure (\<lambda>(cfg, pcache, target, current, head, rcache, d). unat current)")
  fix target current skip :: u32
  assume a: "target < current" "skip = ctz_skip current target"
  have "0 < (2 :: nat) ^ unat skip" by simp
  then have "unat (current - push_bit (unat skip) 1) < unat current"
    unfolding a(2) ctz_step(3) [OF a(1)] using ctz_step(1) [OF a(1)] a(1) by (simp add: word_less_nat_alt)
  then show "((cfg, pcache, target, current - push_bit (unat skip) 1, le32_of x, rc, e), (cfg, pcache, target, current, head, rcache, d))
      \<in> measure (\<lambda>(cfg, pcache, target, current, head, rcache, d). unat current)"
    for cfg :: "'a lfs_config" and pcache x rc head rcache and d e :: 'a by simp
qed simp

declare ctz_find_loop.simps [simp del]

definition lfs_ctz_find ::
  "'d lfs_config \<Rightarrow> lfs_cache option \<Rightarrow> lfs_cache \<Rightarrow> u32 \<Rightarrow> u32 \<Rightarrow> u32 \<Rightarrow> 'd \<Rightarrow>
     (int \<times> (u32 \<times> u32) option \<times> lfs_cache \<times> 'd) option" where
  "lfs_ctz_find cfg pcache rcache head sz pos d =
     (if sz = 0 then Some (0, Some (LFS_BLOCK_NULL, 0), rcache, d)
      else
        let current = fst (lfs_ctz_index cfg (sz - 1));
            (target, pos) = lfs_ctz_index cfg pos
        in case ctz_find_loop cfg pcache target current head rcache d of
             None \<Rightarrow> None
           | Some (err, head, rcache, d) \<Rightarrow> Some (err, map_option (\<lambda>h. (h, pos)) head, rcache, d))"

lemma index_step:
  "index \<noteq> 0 \<Longrightarrow> unat (index - 1) = unat index - 1 \<and> 1 \<le> unat index"
  "index \<noteq> 0 \<Longrightarrow> index AND 1 = 0 \<Longrightarrow> unat (index - 2) = unat index - 2 \<and> 2 \<le> unat index" for index :: u32
proof -
  show "unat (index - 1) = unat index - 1 \<and> 1 \<le> unat index" if "index \<noteq> 0"
    using that by (simp add: unat_minus_one Suc_le_eq unat_gt_0)
  assume i: "index \<noteq> 0" "index AND 1 = 0"
  have "unat (index AND 1) = unat index mod 2" by (simp add: unat_and and_one_eq unat_mod_distrib)
  with i(2) have "unat index mod 2 = 0" by simp
  moreover have "0 < unat index" using i(1) by (simp add: unat_gt_0)
  ultimately have "2 \<le> unat index" by presburger
  then show "unat (index - 2) = unat index - 2 \<and> 2 \<le> unat index" by (subst unat_sub_le) simp_all
qed

lemma index_parity: "index AND 1 = 0 \<longleftrightarrow> even (unat index)" "index AND 1 = (if even (unat index) then 0 else 1)" for index :: u32
proof -
  have "unat (index AND 1) = unat index mod 2" by (simp add: unat_and and_one_eq unat_mod_distrib)
  then show "index AND 1 = (if even (unat index) then 0 else 1)" by (auto simp: word_unat_eq_iff odd_iff_mod_2_eq_one)
  then show "index AND 1 = 0 \<longleftrightarrow> even (unat index)" by simp
qed

text \<open>The callback of a traversal acts on a state of its own; a result other than zero ends it.\<close>

function ctz_traverse_loop ::
  "'d lfs_config \<Rightarrow> lfs_cache option \<Rightarrow> (u32 \<Rightarrow> 's \<Rightarrow> int \<times> 's) \<Rightarrow> u32 \<Rightarrow> u32 \<Rightarrow> 's \<Rightarrow> lfs_cache \<Rightarrow> 'd \<Rightarrow>
     (int \<times> 's \<times> lfs_cache \<times> 'd) option" where
  "ctz_traverse_loop cfg pcache cb index head s rcache d =
     (case cb head s of (err, s) \<Rightarrow>
        if err \<noteq> 0 then Some (err, s, rcache, d)
        else if index = 0 then Some (0, s, rcache, d)
        else
          let count = 2 - (index AND 1)
          in case lfs_bd_read cfg pcache rcache (count * 4) head 0 (count * 4) d of
               None \<Rightarrow> None
             | Some (err, bytes, rcache, d) \<Rightarrow>
                 if err \<noteq> 0 then Some (err, s, rcache, d)
                 else if count = 2 then
                   case cb (le32_of (take 4 bytes)) s of (err, s) \<Rightarrow>
                     if err \<noteq> 0 then Some (err, s, rcache, d)
                     else ctz_traverse_loop cfg pcache cb (index - 2) (le32_of (drop 4 bytes)) s rcache d
                 else ctz_traverse_loop cfg pcache cb (index - 1) (le32_of (take 4 bytes)) s rcache d)"
  by pat_completeness auto
termination
  by (relation "measure (\<lambda>(cfg, pcache, cb, index, head, s, rcache, d). unat index)") (auto simp: index_step unat_gt_0)

declare ctz_traverse_loop.simps [simp del]

definition lfs_ctz_traverse ::
  "'d lfs_config \<Rightarrow> lfs_cache option \<Rightarrow> lfs_cache \<Rightarrow> u32 \<Rightarrow> u32 \<Rightarrow> (u32 \<Rightarrow> 's \<Rightarrow> int \<times> 's) \<Rightarrow> 's \<Rightarrow> 'd \<Rightarrow>
     (int \<times> 's \<times> lfs_cache \<times> 'd) option" where
  "lfs_ctz_traverse cfg pcache rcache head sz cb s d =
     (if sz = 0 then Some (0, s, rcache, d)
      else ctz_traverse_loop cfg pcache cb (fst (lfs_ctz_index cfg (sz - 1))) head s rcache d)"

section \<open>Where the bytes of a file are\<close>

text \<open>The pointers at the start of block \<open>i\<close>, and the data bytes in the blocks before it.\<close>

definition ptr_bytes :: "nat \<Rightarrow> nat" where
  "ptr_bytes i = (if i = 0 then 0 else 4 * (zeros i + 1))"

definition data_before :: "nat \<Rightarrow> nat \<Rightarrow> nat" where
  "data_before B i = (\<Sum>j<i. B - ptr_bytes j)"

lemma data_before_0 [simp]: "data_before B 0 = 0"
  by (simp add: data_before_def)

lemma ptr_bytes_le: "ptr_bytes (Suc i) \<le> 4 + 4 * ones i"
proof -
  have "0 < ones (Suc i)"
  proof (induction "Suc i" arbitrary: i rule: less_induct)
    case less
    show ?case by (cases i rule: parity_cases) (auto simp: ones.simps [of "Suc i"] elim!: oddE intro!: less)
  qed
  with ones_Suc [of i] show ?thesis by (simp add: ptr_bytes_def)
qed

lemma data_before_Suc:
  assumes "8 \<le> B" "\<And>j. j < i \<Longrightarrow> 4 + 4 * ones j \<le> B"
  shows "data_before B (Suc i) = (B - 8) * Suc i + 8 + 4 * ones i"
  using assms(2)
proof (induction i)
  case 0
  show ?case using assms(1) by (simp add: data_before_def ptr_bytes_def)
next
  case (Suc i)
  have "ptr_bytes (Suc i) \<le> B" using ptr_bytes_le [of i] Suc.prems [of i] by simp
  moreover have "data_before B (Suc (Suc i)) = data_before B (Suc i) + (B - ptr_bytes (Suc i))" by (simp add: data_before_def)
  moreover have "data_before B (Suc i) = (B - 8) * Suc i + 8 + 4 * ones i" using Suc by simp
  moreover have "(B - 8) * Suc (Suc i) = (B - 8) * Suc i + B - 8" using assms(1) by simp
  moreover have "ptr_bytes (Suc i) = 4 * zeros (Suc i) + 4" by (simp add: ptr_bytes_def)
  ultimately show ?case using ones_Suc [of i] assms(1) by linarith
qed

lemma ones_lt: "n < 2 ^ k - 1 \<Longrightarrow> ones n < k"
proof (induction k arbitrary: n)
  case (Suc k)
  show ?case
  proof (cases "even n")
    case True
    then obtain m where "n = 2 * m" by (auto elim: evenE)
    moreover from this have "m < 2 ^ k" using Suc.prems by simp
    ultimately show ?thesis using ones_le [of m k] by simp
  next
    case False
    then obtain m where "n = Suc (2 * m)" by (auto elim: oddE)
    moreover from this have "m < 2 ^ k - 1" using Suc.prems by simp
    ultimately show ?thesis using Suc.IH [of m] by simp
  qed
qed simp

text \<open>Enough room for the pointers in every block that a file of \<open>s + 1\<close> bytes has.\<close>

definition roomy :: "nat \<Rightarrow> nat \<Rightarrow> bool" where
  "roomy B s \<longleftrightarrow> (\<forall>n. n * (B - 8) \<le> s \<longrightarrow> 16 + 4 * ones n \<le> B)"

lemma roomy_112:
  assumes "112 \<le> B" "s \<le> 2147483647"
  shows "roomy B s"
  unfolding roomy_def
proof (intro allI impI)
  fix n assume "n * (B - 8) \<le> s"
  moreover have "n * 104 \<le> n * (B - 8)" using assms(1) by (intro mult_le_mono2) simp
  ultimately have "n * 104 \<le> 2147483647" using assms(2) by linarith
  then have "n < 2 ^ 25 - 1" by simp
  then have "ones n < 25" by (rule ones_lt)
  then show "16 + 4 * ones n \<le> B" using assms(1) by simp
qed

lemma index_nat:
  assumes room: "roomy B s" and i0: "i0 = s div (B - 8)"
    and res: "(i, off) = (if i0 = 0 then (0, s) else let i = (s - 4 * (ones (i0 - 1) + 2)) div (B - 8) in (i, s - (B - 8) * i - 4 * ones i))"
  shows "data_before B i \<le> s \<and> s < data_before B (Suc i) \<and> off = s - data_before B i + ptr_bytes i"
proof -
  define b where "b = B - 8"
  have r: "n * b \<le> s \<Longrightarrow> 16 + 4 * ones n \<le> B" for n using room by (simp add: roomy_def b_def)
  from r [of 0] have b: "8 \<le> b" "B = b + 8" by (simp_all add: b_def)
  have below: "16 + 4 * ones j \<le> B" if "n * b \<le> s" "j \<le> n" for n j
    using mult_le_mono1 [OF that(2), of b] that(1) by (intro r) (rule le_trans)
  have N: "data_before B (Suc n) = b * Suc n + 8 + 4 * ones n" if "n * b \<le> s" for n
    
  proof -
    have "4 + 4 * ones j \<le> B" if "j < n" for j using below [OF \<open>n * b \<le> s\<close>, of j] that by simp
    then have "data_before B (Suc n) = (B - 8) * Suc n + 8 + 4 * ones n" using b by (intro data_before_Suc) simp_all
    then show ?thesis by (simp add: b_def)
  qed
  have div: "i0 * b \<le> s" "s < Suc i0 * b" using i0 b(1) dividend_less_div_times [of b s] by (simp_all add: b_def [symmetric])
  show ?thesis
  proof (cases i0)
    case 0
    then show ?thesis using res div(2) N [of 0] by (simp add: ptr_bytes_def)
  next
    case (Suc m)
    define x where "x = 8 + 4 * ones m"
    have mb: "Suc m * b = m * b + b" "Suc (Suc m) * b = m * b + 2 * b" by simp_all
    have sm: "m * b + b \<le> s" "s < m * b + 2 * b" using div unfolding Suc mb by simp_all
    have x: "x \<le> b" using r [of m] sm(1) by (simp add: x_def b(2))
    have i: "i = (s - x) div b" "off = s - b * i - 4 * ones i"
      using res by (simp_all add: Suc Let_def x_def b_def [symmetric])
    show ?thesis
    proof (cases "m * b + b + x \<le> s")
      case True
      have "i = Suc m" unfolding i(1) by (rule div_nat_eqI) (use True sm in \<open>simp_all add: algebra_simps\<close>)
      moreover have "data_before B (Suc m) = m * b + b + x" using N [of m] sm(1) by (simp add: x_def algebra_simps)
      moreover have "data_before B (Suc (Suc m)) = m * b + 2 * b + 8 + 4 * ones (Suc m)"
        using N [of "Suc m"] sm(1) by (simp add: algebra_simps)
      moreover have "off = s - (m * b + b) - 4 * ones (Suc m)" using \<open>i = Suc m\<close> i(2) by (simp add: algebra_simps)
      moreover have "ptr_bytes (Suc m) = 4 * zeros (Suc m) + 4" by (simp add: ptr_bytes_def)
      ultimately show ?thesis using True sm(2) ones_Suc [of m] x_def by simp
    next
      case False
      have "i = m" unfolding i(1) by (rule div_nat_eqI) (use False sm x in \<open>simp_all add: algebra_simps\<close>)
      moreover have "data_before B (Suc m) = m * b + b + x" using N [of m] sm(1) by (simp add: x_def algebra_simps)
      ultimately show ?thesis
      proof (cases m)
        case 0
        with \<open>i = m\<close> \<open>data_before B (Suc m) = _\<close> False i(2) show ?thesis by (simp add: ptr_bytes_def)
      next
        case (Suc k)
        have "data_before B m = m * b + 8 + 4 * ones k" using N [of k] sm(1) by (simp add: Suc algebra_simps)
        moreover have "16 + 4 * ones k \<le> B" using below [of m k] sm(1) Suc by simp
        moreover have "b * m = m * b" by simp
        moreover have "ptr_bytes m = 4 * zeros m + 4" by (simp add: ptr_bytes_def Suc)
        moreover have "ones m + zeros m = Suc (ones k)" using ones_Suc [of k] Suc by simp
        ultimately show ?thesis
          using \<open>data_before B (Suc m) = _\<close> False sm(1) i(2) b(2) unfolding \<open>i = m\<close> by (intro conjI; linarith)
      qed
    qed
  qed
qed

text \<open>The words compute the same numbers.\<close>

lemma lfs_ctz_index_data:
  assumes room: "roomy (unat (block_size cfg)) (unat s)"
  shows "\<exists>i off. lfs_ctz_index cfg s = (i, off) \<and> data_before (unat (block_size cfg)) (unat i) \<le> unat s \<and>
    unat s < data_before (unat (block_size cfg)) (Suc (unat i)) \<and>
    unat off = unat s - data_before (unat (block_size cfg)) (unat i) + ptr_bytes (unat i)"
proof -
  have big: "16 \<le> unat (block_size cfg)" using room by (auto simp: roomy_def dest: spec [of _ 0])
  define b where "b = block_size cfg - 2 * 4"
  define i0 where "i0 = s div b"
  have r: "n * (unat (block_size cfg) - 8) \<le> unat s \<Longrightarrow> 16 + 4 * ones n \<le> unat (block_size cfg)" for n
    using room by (simp add: roomy_def)
  have ub: "unat b = unat (block_size cfg) - 8" using r [of 0] by (simp add: b_def) (subst unat_sub_le, simp_all)
  have ui0: "unat i0 = unat s div (unat (block_size cfg) - 8)" by (simp add: i0_def unat_div_distrib ub)
  show ?thesis
  proof (cases "i0 = 0")
    case True
    then have z: "unat s div (unat (block_size cfg) - 8) = 0" using ui0 by simp
    have "lfs_ctz_index cfg s = (0, s)" using True by (simp add: lfs_ctz_index_def Let_def i0_def b_def)
    with index_nat [OF room refl, of 0 "unat s"] z show ?thesis by simp
  next
    case False
    define i where "i = (s - 4 * (lfs_popc (i0 - 1) + 2)) div b"
    define m where "m = unat i0 - 1"
    have m: "unat i0 = Suc m" using False by (simp add: m_def unat_gt_0)
    have sm: "Suc m * unat b \<le> unat s" unfolding m [symmetric] ui0 ub by simp
    then have x: "8 + 4 * ones m \<le> unat b" "unat b \<le> unat s" using r [of m] by (simp_all add: ub)
    have "unat (i0 - 1) = m" using False by (simp add: m_def unat_minus_one)
    then have p: "unat (lfs_popc (i0 - 1)) = ones m" by (simp add: unat_lfs_popc)
    have "ones m \<le> 32" using unat_u32_less [of i0] m by (intro ones_le) simp
    then have "unat (4 * (lfs_popc (i0 - 1) + 2)) = 4 * (ones m + 2)" using p by (simp add: unat_mult_u32 unat_add_u32)
    then have "unat (s - 4 * (lfs_popc (i0 - 1) + 2)) = unat s - 4 * (ones m + 2)" using x by (subst unat_sub_le) simp_all
    then have ui: "unat i = (unat s - 4 * (ones m + 2)) div unat b" by (simp add: i_def unat_div_distrib)
    have D: "data_before (unat (block_size cfg)) (unat i) \<le> unat s" "unat s < data_before (unat (block_size cfg)) (Suc (unat i))"
      "unat s - unat b * unat i - 4 * ones (unat i) = unat s - data_before (unat (block_size cfg)) (unat i) + ptr_bytes (unat i)"
      using index_nat [OF room ui0, of "unat i" "unat s - unat b * unat i - 4 * ones (unat i)"] m ui
      by (simp_all add: ub Let_def)
    have fits: "unat b * unat i + 4 * ones (unat i) \<le> unat s"
    proof (cases "unat i")
      case (Suc k)
      have "unat b * unat i \<le> unat s" unfolding ui
        by (rule le_trans [OF times_div_less_eq_dividend]) simp
      then have kb: "Suc k * unat b \<le> unat s" by (simp add: Suc mult.commute)
      have "16 + 4 * ones j \<le> unat (block_size cfg)" if "j < Suc k" for j
        using mult_le_mono1 [of j "Suc k" "unat b"] that kb by (intro r) (simp add: ub)
      then have "4 + 4 * ones j \<le> unat (block_size cfg)" if "j < k" for j
        using that by (rule_tac le_trans [of _ "16 + 4 * ones j"]) simp_all
      then have "data_before (unat (block_size cfg)) (Suc k) = (unat (block_size cfg) - 8) * Suc k + 8 + 4 * ones k"
        using big by (intro data_before_Suc) simp_all
      then have "data_before (unat (block_size cfg)) (Suc k) = unat b * Suc k + 8 + 4 * ones k" by (simp add: ub)
      with D(1) ones_Suc [of k] show ?thesis by (simp add: Suc)
    qed simp
    then have "unat b * unat i < 4294967296" using unat_u32_less [of s] by linarith
    then have bi: "unat (b * i) = unat b * unat i" by (simp add: unat_mult_u32)
    have "ones (unat i) \<le> 32" using unat_u32_less [of i] by (intro ones_le) simp
    then have po: "unat (4 * lfs_popc i) = 4 * ones (unat i)" by (simp add: unat_mult_u32 unat_lfs_popc)
    have "unat (s - b * i) = unat s - unat b * unat i" using fits by (subst unat_sub_le) (simp_all add: bi)
    then have "unat (s - b * i - 4 * lfs_popc i) = unat s - unat b * unat i - 4 * ones (unat i)"
      using fits by (subst unat_sub_le) (simp_all add: po)
    moreover have "lfs_ctz_index cfg s = (i, s - b * i - 4 * lfs_popc i)"
      using False by (simp add: lfs_ctz_index_def Let_def i_def i0_def b_def)
    ultimately show ?thesis using D by simp
  qed
qed

text \<open>
  The place of a byte in a file.  For blocks of at least 112 bytes and files up to
  \<open>LFS_FILE_MAX\<close>, the closed form of \<open>lfs_ctz_index\<close> (population counts, two divisions, arithmetic
  modulo \<open>2 ^ 32\<close>) finds the block that holds the byte, counting the bytes that the pointers of
  all blocks before take, and its offset there, behind the pointers and inside the block.
\<close>

theorem lfs_ctz_index_locates:
  assumes "112 \<le> unat (block_size cfg)" and "unat s \<le> 2147483647"
  shows "\<exists>i off. lfs_ctz_index cfg s = (i, off) \<and> data_before (unat (block_size cfg)) (unat i) \<le> unat s \<and>
    unat s < data_before (unat (block_size cfg)) (Suc (unat i)) \<and>
    unat off = unat s - data_before (unat (block_size cfg)) (unat i) + ptr_bytes (unat i) \<and> unat off < unat (block_size cfg)"
proof -
  let ?B = "unat (block_size cfg)"
  from lfs_ctz_index_data [OF roomy_112 [OF assms]] obtain i off where
    i: "lfs_ctz_index cfg s = (i, off)" "data_before ?B (unat i) \<le> unat s" "unat s < data_before ?B (Suc (unat i))"
      "unat off = unat s - data_before ?B (unat i) + ptr_bytes (unat i)" by blast
  have "data_before ?B (Suc (unat i)) = data_before ?B (unat i) + (?B - ptr_bytes (unat i))" by (simp add: data_before_def)
  with i have "unat off < ?B" by linarith
  with i show ?thesis by blast
qed

text \<open>
  Property C39: the bound of 112 bytes is needed.  At a block size of 104, which the assertions of \<open>lfs_init\<close> accept, byte 1610612832 of a file
  (below \<open>LFS_FILE_MAX\<close>) is in block 16777215, but the function returns block 16777216 and an offset
  that lies inside the pointers of that block.
\<close>

theorem lfs_ctz_index_104:
  "4 * lfs_npw2 (0xffffffff div (104 - 2 * 4)) \<le> 104 \<and>
   lfs_ctz_index (esp_lfs_sizes\<lparr>block_size := 104\<rparr>) 1610612832 = (16777216, 92) \<and> 92 < ptr_bytes 16777216 \<and>
   data_before 104 16777215 \<le> 1610612832 \<and> 1610612832 < data_before 104 16777216"
proof (intro conjI)
  have o: "ones 16777216 = 1" "ones 16777215 = 24" "ones 16777214 = 23" "zeros 16777216 = 24"
    by (simp_all add: ones.simps zeros.simps)
  have p: "lfs_popc 16777216 = 1"
    by (simp add: word_unat_eq_iff unat_lfs_popc o)
  show "lfs_ctz_index (esp_lfs_sizes\<lparr>block_size := 104\<rparr>) 1610612832 = (16777216, 92)"
    by (simp add: lfs_ctz_index_def p)
  have "unat (lfs_npw2 44739242) \<le> 26"
    using lfs_npw2_bit_len [of 44739242] by (simp add: bit_len_def flip: all_simps) (erule allE [of _ 26], simp)
  then have "unat (4 * lfs_npw2 44739242) \<le> 104" by (simp add: unat_mult_u32)
  then show "4 * lfs_npw2 (0xffffffff div (104 - 2 * 4)) \<le> 104" by (simp add: word_le_nat_alt)
  have "4 + 4 * ones j \<le> 104" if "j \<le> 16777214" for j
  proof -
    have "j < 2 ^ 24 - 1" using that by simp
    then have "ones j < 24" by (rule ones_lt)
    then show ?thesis by simp
  qed
  then have "data_before 104 (Suc 16777215) = (104 - 8) * Suc 16777215 + 8 + 4 * ones 16777215"
      "data_before 104 (Suc 16777214) = (104 - 8) * Suc 16777214 + 8 + 4 * ones 16777214"
    by (simp_all only: data_before_Suc)
  then show "data_before 104 16777215 \<le> 1610612832" "1610612832 < data_before 104 16777216" "92 < ptr_bytes 16777216"
    by (simp_all add: o ptr_bytes_def)
qed


section \<open>Files on a device\<close>

text \<open>
  \<open>v b j\<close> is byte \<open>j\<close> of block \<open>b\<close> as the file system sees it.  Block \<open>i\<close> of the list is \<open>bl i\<close>, the
  last one \<open>bl n\<close>; \<open>ctz_file\<close> adds the bytes of the file, behind the pointers of each block.
\<close>

definition ctz_list :: "'d lfs_config \<Rightarrow> (nat \<Rightarrow> nat \<Rightarrow> u8) \<Rightarrow> (nat \<Rightarrow> u32) \<Rightarrow> nat \<Rightarrow> bool" where
  "ctz_list cfg v bl n \<longleftrightarrow>
     (\<forall>i \<le> n. bl i < block_count cfg \<and>
        (\<forall>k \<le> zeros i. 0 < i \<longrightarrow> le32_of (map (v (unat (bl i))) [4 * k..<4 * k + 4]) = bl (i - 2 ^ k)))"

definition ctz_file :: "'d lfs_config \<Rightarrow> (nat \<Rightarrow> nat \<Rightarrow> u8) \<Rightarrow> (nat \<Rightarrow> u32) \<Rightarrow> nat \<Rightarrow> u8 list \<Rightarrow> bool" where
  "ctz_file cfg v bl n bytes \<longleftrightarrow> ctz_list cfg v bl n \<and>
     data_before (unat (block_size cfg)) n < length bytes \<and> length bytes \<le> data_before (unat (block_size cfg)) (Suc n) \<and>
     (\<forall>i \<le> n. \<forall>j. ptr_bytes i \<le> j \<and> j < unat (block_size cfg) \<and>
        data_before (unat (block_size cfg)) i + (j - ptr_bytes i) < length bytes \<longrightarrow>
        v (unat (bl i)) j = bytes ! (data_before (unat (block_size cfg)) i + (j - ptr_bytes i)))"

lemma data_before_mono: "i \<le> j \<Longrightarrow> data_before B i \<le> data_before B j"
  unfolding data_before_def by (rule sum_mono2) auto

lemma data_before_unique:
  assumes "data_before B i \<le> s" "s < data_before B (Suc i)" "data_before B j \<le> s" "s < data_before B (Suc j)"
  shows "i = j"
  using data_before_mono [of "Suc i" j B] data_before_mono [of "Suc j" i B] assms
  by (cases i j rule: linorder_cases) auto

lemma roomy_ptr_bytes_12:
  assumes "roomy B s" "data_before B i \<le> s"
  shows "ptr_bytes i + 12 \<le> B"
proof (cases i)
  case (Suc m)
  have b: "16 \<le> B" using assms(1) by (auto simp: roomy_def dest: spec [of _ 0])
  have "m * (B - 8) \<le> s"
  proof (rule ccontr)
    assume "\<not> m * (B - 8) \<le> s"
    then have m: "s < m * (B - 8)" by simp
    define j where "j = s div (B - 8)"
    have "0 < B - 8" using b by simp
    then have j: "j < m" "j * (B - 8) \<le> s" "s < Suc j * (B - 8)"
      using m dividend_less_div_times [of "B - 8" s] by (simp_all only: j_def less_mult_imp_div_less div_times_less_eq_dividend mult_Suc)
    have "4 + 4 * ones l \<le> B" if "l < j" for l
    proof -
      have "l * (B - 8) \<le> s" using mult_le_mono1 [of l j "B - 8"] that j(2) by linarith
      with assms(1) show ?thesis by (force simp: roomy_def)
    qed
    then have "data_before B (Suc j) = (B - 8) * Suc j + 8 + 4 * ones j" using b by (intro data_before_Suc) simp_all
    then have "s < data_before B (Suc j)" using j(3) by (simp add: algebra_simps)
    moreover have "data_before B (Suc j) \<le> data_before B i" using j(1) Suc by (intro data_before_mono) simp
    ultimately show False using assms(2) by simp
  qed
  with assms(1) have "16 + 4 * ones m \<le> B" by (simp add: roomy_def)
  with ptr_bytes_le [of m] show ?thesis by (simp add: Suc)
next
  case 0
  show ?thesis using assms(1) 0 by (auto simp: roomy_def ptr_bytes_def dest: spec [of _ 0])
qed

lemma roomy_ptr_bytes: "roomy B s \<Longrightarrow> data_before B i \<le> s \<Longrightarrow> ptr_bytes i \<le> B"
  using roomy_ptr_bytes_12 [of B s i] by simp

context block_device
begin

text \<open>Reading one pointer.\<close>

lemma ptr_read:
  assumes "pcache_wf cfg pc" "ok d" "coherent_but X cfg (contents d) rc" "ctz_list cfg (view pc (contents d)) bl n"
    and "0 < i" "i \<le> n" "unat k \<le> zeros i" "ptr_bytes i \<le> bs" "bl i \<notin> X"
  shows "\<exists>bytes rc' d'. lfs_bd_read cfg pc rc 4 (bl i) (4 * k) 4 d = Some (0, bytes, rc', d') \<and> le32_of bytes = bl (i - 2 ^ unat k) \<and>
    same d d' \<and> coherent_but X cfg (contents d) rc'"
proof -
  have z: "4 * unat k + 4 \<le> bs" using assms(5,7,8) by (simp add: ptr_bytes_def)
  then have u: "unat (4 * k) = 4 * unat k" using sizes(8) by (simp add: unat_mult_u32)
  have bl: "bl i < block_count cfg" "le32_of (map (view pc (contents d) (unat (bl i))) [4 * unat k..<4 * unat k + 4]) = bl (i - 2 ^ unat k)"
    using assms(4-7) by (auto simp: ctz_list_def)
  from bd_read_view [OF bl(1) assms(1) _ _ assms(2,3) _ assms(9), of 4 "4 * k" 4] z bl(2) show ?thesis by (auto simp: u)
qed

lemma find_loop:
  assumes "pcache_wf cfg pc" and "\<And>i. i \<le> n \<Longrightarrow> ptr_bytes i \<le> bs" and "\<And>i. i \<le> n \<Longrightarrow> bl i \<notin> X"
  shows "ok d \<Longrightarrow> coherent_but X cfg (contents d) rc \<Longrightarrow> ctz_list cfg (view pc (contents d)) bl n \<Longrightarrow>
    unat target \<le> unat current \<Longrightarrow> unat current \<le> n \<Longrightarrow>
    \<exists>rc' d'. ctz_find_loop cfg pc target current (bl (unat current)) rc d = Some (0, Some (bl (unat target)), rc', d') \<and>
      same d d' \<and> coherent_but X cfg (contents d) rc'"
proof (induction "unat current" arbitrary: current rc d rule: less_induct)
  case less
  show ?case
  proof (cases "target < current")
    case True
    define k where "k = ctz_skip current target"
    define c where "c = current - push_bit (unat k) 1"
    note step = ctz_step [OF True, folded k_def, folded c_def]
    have pos: "0 < unat current" using True by (simp add: word_less_nat_alt)
    from ptr_read [OF assms(1) less.prems(1-3) pos less.prems(5) step(2) assms(2,3) [OF less.prems(5)]] obtain bytes rc1 d1 where
      rd: "lfs_bd_read cfg pc rc 4 (bl (unat current)) (4 * k) 4 d = Some (0, bytes, rc1, d1)" "le32_of bytes = bl (unat current - 2 ^ unat k)"
        "same d d1" "coherent_but X cfg (contents d) rc1" by blast
    have lt: "unat c < unat current" and le: "unat target \<le> unat c"
      using step pos True by (simp_all add: word_less_nat_alt step(3))
    from less.hyps [OF lt _ _ _ le, of d1 rc1] rd(3,4) less.prems(3,5) lt obtain rc2 d2 where
      "ctz_find_loop cfg pc target c (bl (unat c)) rc1 d1 = Some (0, Some (bl (unat target)), rc2, d2)"
      "same d1 d2" "coherent_but X cfg (contents d) rc2" by auto
    moreover have "ctz_find_loop cfg pc target current (bl (unat current)) rc d = ctz_find_loop cfg pc target c (bl (unat c)) rc1 d1"
      using True rd(1,2) by (subst ctz_find_loop.simps) (simp only: Let_def k_def [symmetric] c_def [symmetric] step(3), simp)
    ultimately show ?thesis using rd(3) by auto
  next
    case False
    then have "current = target" using less.prems(4) by (simp add: word_less_nat_alt word_unat_eq_iff)
    with less.prems show ?thesis by (subst ctz_find_loop.simps) simp
  qed
qed

end


text \<open>A callback over a list of blocks, stopped by the first result other than zero.\<close>

fun visit :: "(u32 \<Rightarrow> 's \<Rightarrow> int \<times> 's) \<Rightarrow> u32 list \<Rightarrow> 's \<Rightarrow> int \<times> 's" where
  "visit cb [] s = (0, s)"
| "visit cb (b # bs) s = (case cb b s of (err, s) \<Rightarrow> if err \<noteq> 0 then (err, s) else visit cb bs s)"

context block_device
begin

lemma traverse_loop:
  assumes "pcache_wf cfg pc" and "\<And>i. i \<le> n \<Longrightarrow> ptr_bytes i \<le> bs"
  shows "ok d \<Longrightarrow> coherent cfg (contents d) rc \<Longrightarrow> ctz_list cfg (view pc (contents d)) bl n \<Longrightarrow> unat index \<le> n \<Longrightarrow>
    \<exists>rc' d'. ctz_traverse_loop cfg pc cb index (bl (unat index)) s rc d =
        Some (fst (visit cb (map bl (rev [0..<Suc (unat index)])) s), snd (visit cb (map bl (rev [0..<Suc (unat index)])) s), rc', d') \<and>
      same d d' \<and> coherent cfg (contents d) rc'"
proof (induction "unat index" arbitrary: index s rc d rule: less_induct)
  case less
  let ?i = "unat index"
  obtain e1 s1 where c1: "cb (bl ?i) s = (e1, s1)" by (cases "cb (bl ?i) s")
  show ?case
  proof (cases "e1 \<noteq> 0 \<or> index = 0")
    case True
    with c1 less.prems show ?thesis by (subst ctz_traverse_loop.simps) auto
  next
    case False
    then have e1: "e1 = 0" and i: "index \<noteq> 0" "0 < ?i" by (simp_all add: unat_gt_0)
    obtain m where m: "?i = Suc m" using i(2) by (cases ?i) simp_all
    have bl: "bl ?i < block_count cfg" and le: "ptr_bytes ?i \<le> bs" using less.prems(3,4) assms(2) by (simp_all add: ctz_list_def)
    have ptr: "le32_of (map (view pc (contents d) (unat (bl ?i))) [4 * k..<4 * k + 4]) = bl (?i - 2 ^ k)" if "k \<le> zeros ?i" for k
      using less.prems(3,4) i(2) that by (simp add: ctz_list_def)
    show ?thesis
    proof (cases "even ?i")
      case False
      then have par: "index AND 1 = 1" by (simp add: index_parity(2))
      from bd_read_view [OF bl assms(1) _ _ less.prems(1,2), of 4 0 4] le i(2) obtain rc1 d1 where
        rd: "lfs_bd_read cfg pc rc 4 (bl ?i) 0 4 d = Some (0, map (view pc (contents d) (unat (bl ?i))) [0..<4], rc1, d1)"
          "same d d1" "coherent cfg (contents d) rc1" by (auto simp: ptr_bytes_def)
      have h: "le32_of (map (view pc (contents d) (unat (bl ?i))) [0..<4]) = bl (unat (index - 1))"
        using ptr [of 0] index_step(1) [OF i(1)] by simp
      have u: "unat (index - 1) = m" using index_step(1) [OF i(1)] m by simp
      have "ctz_traverse_loop cfg pc cb index (bl ?i) s rc d = ctz_traverse_loop cfg pc cb (index - 1) (bl (unat (index - 1))) s1 rc1 d1"
        using c1 e1 i(1) rd(1) h by (subst ctz_traverse_loop.simps) (simp add: Let_def par)
      moreover from less.hyps [of "index - 1" d1 rc1 s1] rd less.prems(3,4) u m obtain rc2 d2 where
        "ctz_traverse_loop cfg pc cb (index - 1) (bl (unat (index - 1))) s1 rc1 d1 =
          Some (fst (visit cb (map bl (rev [0..<Suc (unat (index - 1))])) s1), snd (visit cb (map bl (rev [0..<Suc (unat (index - 1))])) s1), rc2, d2)"
        "same d1 d2" "coherent cfg (contents d) rc2" by auto
      ultimately show ?thesis using rd(2) c1 e1 m u by auto
    next
      case True
      then have par: "index AND 1 = 0" by (simp add: index_parity(2))
      note two = index_step(2) [OF i(1) par]
      have z: "1 \<le> zeros ?i" using True i(2) by (subst zeros.simps) simp
      from bd_read_view [OF bl assms(1) _ _ less.prems(1,2), of 8 0 8] le i(2) z obtain rc1 d1 where
        rd: "lfs_bd_read cfg pc rc 8 (bl ?i) 0 8 d = Some (0, map (view pc (contents d) (unat (bl ?i))) [0..<8], rc1, d1)"
          "same d d1" "coherent cfg (contents d) rc1" by (auto simp: ptr_bytes_def)
      have sp: "[0..<8] = [0..<4] @ [4..<8]" by (simp add: upt_add_eq_append [of 0 4 4, simplified])
      have h: "le32_of (take 4 (map (view pc (contents d) (unat (bl ?i))) [0..<8])) = bl (?i - 1)"
        "le32_of (drop 4 (map (view pc (contents d) (unat (bl ?i))) [0..<8])) = bl (unat (index - 2))"
        using ptr [of 0] ptr [of 1] z two by (simp_all add: sp take_map drop_map)
      obtain k where k: "m = Suc k" using two m by (cases m) simp_all
      have u: "unat (index - 2) = k" using two m k by simp
      obtain e2 s2 where c2: "cb (bl (?i - 1)) s1 = (e2, s2)" by (cases "cb (bl (?i - 1)) s1")
      have eq: "ctz_traverse_loop cfg pc cb index (bl ?i) s rc d =
          (if e2 \<noteq> 0 then Some (e2, s2, rc1, d1) else ctz_traverse_loop cfg pc cb (index - 2) (bl (unat (index - 2))) s2 rc1 d1)"
        using c1 e1 i(1) rd(1) h c2 by (subst ctz_traverse_loop.simps) (simp add: Let_def par)
      have c2': "cb (bl m) s1 = (e2, s2)" using c2 m by simp
      show ?thesis
      proof (cases "e2 = 0")
        case True
        from less.hyps [of "index - 2" d1 rc1 s2] rd less.prems(3,4) u m k obtain rc2 d2 where
          "ctz_traverse_loop cfg pc cb (index - 2) (bl (unat (index - 2))) s2 rc1 d1 =
            Some (fst (visit cb (map bl (rev [0..<Suc (unat (index - 2))])) s2), snd (visit cb (map bl (rev [0..<Suc (unat (index - 2))])) s2), rc2, d2)"
          "same d1 d2" "coherent cfg (contents d) rc2" by auto
        with eq rd(2) c1 e1 m k u c2' True show ?thesis by auto
      next
        case False
        with eq rd(2,3) c1 e1 m k c2' show ?thesis by auto
      qed
    qed
  qed
qed

end


section \<open>Properties of the lists\<close>

lemma ctz_last_index:
  assumes "ctz_file cfg v bl n bytes" "112 \<le> unat (block_size cfg)" "unat sz = length bytes" "unat sz \<le> 2147483647"
  shows "unat (fst (lfs_ctz_index cfg (sz - 1))) = n" "sz \<noteq> 0" "i \<le> n \<Longrightarrow> ptr_bytes i \<le> unat (block_size cfg)"
proof -
  let ?B = "unat (block_size cfg)"
  have f: "data_before ?B n < unat sz" "unat sz \<le> data_before ?B (Suc n)" using assms(1,3) by (simp_all add: ctz_file_def)
  then show z: "sz \<noteq> 0" by auto
  then have u: "unat (sz - 1) = unat sz - 1" by (simp add: unat_minus_one)
  then have room: "roomy ?B (unat (sz - 1))" using assms by (intro roomy_112) simp_all
  from lfs_ctz_index_data [OF room] obtain j off where j: "lfs_ctz_index cfg (sz - 1) = (j, off)"
    "data_before ?B (unat j) \<le> unat (sz - 1)" "unat (sz - 1) < data_before ?B (Suc (unat j))" by blast
  have "unat j = n" by (rule data_before_unique [OF j(2,3)]) (use f u in linarith)+
  with j(1) show "unat (fst (lfs_ctz_index cfg (sz - 1))) = n" by simp
  show "ptr_bytes i \<le> ?B" if "i \<le> n"
    using data_before_mono [OF that, of ?B] f u by (intro roomy_ptr_bytes [OF room]) linarith
qed

lemma find_result:
  assumes "block_device cfg ok contents ready" and "ok d" and "coherent_but X cfg (contents d) rcache" and "pcache_wf cfg pcache"
    and "112 \<le> unat (block_size cfg)" and "ctz_file cfg (view pcache (contents d)) bl n bytes"
    and "unat sz = length bytes" and "unat sz \<le> 2147483647" and "unat pos < unat sz" and "\<And>i. i \<le> n \<Longrightarrow> bl i \<notin> X"
  shows "\<exists>i off rcache' d'. lfs_ctz_find cfg pcache rcache (bl n) sz pos d = Some (0, Some (bl i, off), rcache', d') \<and> i \<le> n \<and>
    data_before (unat (block_size cfg)) i \<le> unat pos \<and>
    unat off = ptr_bytes i + (unat pos - data_before (unat (block_size cfg)) i) \<and> unat off < unat (block_size cfg) \<and>
    ok d' \<and> contents d' = contents d \<and> ready d' = ready d \<and> coherent_but X cfg (contents d') rcache'"
proof -
  let ?B = "unat (block_size cfg)"
  note last = ctz_last_index [OF assms(6,5,7,8)]
  have "unat pos \<le> 2147483647" using assms(8,9) by simp
  with assms(5) have room: "roomy ?B (unat pos)" by (rule roomy_112)
  from lfs_ctz_index_data [OF this] obtain i off where i: "lfs_ctz_index cfg pos = (i, off)"
    "data_before ?B (unat i) \<le> unat pos" "unat pos < data_before ?B (Suc (unat i))"
    "unat off = unat pos - data_before ?B (unat i) + ptr_bytes (unat i)" by blast
  have "ptr_bytes (unat i) \<le> ?B" by (rule roomy_ptr_bytes [OF room i(2)])
  then have "unat off < ?B" using i(2-4) by (simp add: data_before_def)
  have f: "ctz_list cfg (view pcache (contents d)) bl n" "length bytes \<le> data_before ?B (Suc n)" using assms(6) by (simp_all add: ctz_file_def)
  have "unat i \<le> n"
  proof (rule ccontr)
    assume "\<not> unat i \<le> n"
    then have "data_before ?B (Suc n) \<le> data_before ?B (unat i)" by (intro data_before_mono) simp
    with i(2) assms(9) f(2) assms(7) show False by simp
  qed
  with last(1) have le: "unat i \<le> unat (fst (lfs_ctz_index cfg (sz - 1)))" "unat (fst (lfs_ctz_index cfg (sz - 1))) \<le> n" by simp_all
  from block_device.find_loop [OF assms(1,4) last(3) assms(10) assms(2,3) f(1) le] obtain rc' d' where
    "ctz_find_loop cfg pcache i (fst (lfs_ctz_index cfg (sz - 1))) (bl n) rcache d = Some (0, Some (bl (unat i)), rc', d')"
    "ok d'" "contents d' = contents d" "ready d' = ready d" "coherent_but X cfg (contents d) rc'" unfolding last(1) by blast
  moreover from this(1) last(2) have "lfs_ctz_find cfg pcache rcache (bl n) sz pos d = Some (0, Some (bl (unat i), off), rc', d')"
    by (simp add: lfs_ctz_find_def i(1))
  ultimately show ?thesis using \<open>unat i \<le> n\<close> i(2,4) \<open>unat off < ?B\<close> by (intro exI [of _ "unat i"] exI [of _ off]) auto
qed

lemma ctz_file_byte:
  assumes "ctz_file cfg v bl n bytes" "i \<le> n" "ptr_bytes i \<le> j" "j < unat (block_size cfg)"
    "data_before (unat (block_size cfg)) i + (j - ptr_bytes i) < length bytes"
  shows "v (unat (bl i)) j = bytes ! (data_before (unat (block_size cfg)) i + (j - ptr_bytes i))"
  using assms unfolding ctz_file_def by blast

text \<open>
  Property C36: seeking in a file.  On every device that keeps its promises and for every file stored
  there as a CTZ list (at most \<open>LFS_FILE_MAX\<close> bytes), \<open>lfs_ctz_find\<close> ends without an error at the block
  and offset that hold the byte of the position, following stored pointers only, and changes nothing
  on the device.
\<close>

theorem lfs_ctz_find_reaches:
  assumes "block_device cfg ok contents ready" and "ok d" and "coherent cfg (contents d) rcache" and "pcache_wf cfg pcache"
    and "112 \<le> unat (block_size cfg)" and "ctz_file cfg (view pcache (contents d)) bl n bytes"
    and "unat sz = length bytes" and "unat sz \<le> 2147483647" and "pos < sz"
  shows "\<exists>block off rcache' d'. lfs_ctz_find cfg pcache rcache (bl n) sz pos d = Some (0, Some (block, off), rcache', d') \<and>
    block \<in> bl ` {0..n} \<and> off < block_size cfg \<and> view pcache (contents d) (unat block) (unat off) = bytes ! unat pos \<and>
    contents d' = contents d \<and> coherent cfg (contents d') rcache'"
proof -
  have pos: "unat pos < unat sz" using assms(9) by (simp add: word_less_nat_alt)
  from find_result [OF assms(1-8) pos empty_notin] obtain i off rc' d' where
    f: "lfs_ctz_find cfg pcache rcache (bl n) sz pos d = Some (0, Some (bl i, off), rc', d')" "i \<le> n"
      "data_before (unat (block_size cfg)) i \<le> unat pos" "unat off = ptr_bytes i + (unat pos - data_before (unat (block_size cfg)) i)"
      "unat off < unat (block_size cfg)" "contents d' = contents d" "coherent cfg (contents d') rc'" by blast
  have "view pcache (contents d) (unat (bl i)) (unat off) = bytes ! unat pos"
    using ctz_file_byte [OF assms(6) f(2) _ f(5)] f(3,4) pos assms(7) by simp
  with f show ?thesis by (auto simp: word_less_nat_alt)
qed

text \<open>A file of 9000 bytes in the blocks 3 and 5 of a memory device.\<close>

definition two_blocks :: "nat \<Rightarrow> u32" where
  "two_blocks i = (if i = 0 then 3 else 5)"

definition filled_ram :: lfs_rambd where
  "filled_ram = blank_ram\<lparr>ram := mem_write (ram blank_ram) 40960 [3, 0, 0, 0]\<rparr>"

lemma filled_ram_ok: "ram_ok esp_lfs_sizes filled_ram"
  using blank_ram_ok by (simp add: ram_ok_def filled_ram_def) (simp add: blank_ram_def)

lemma filled_block: "b < 128 \<Longrightarrow> j < 8192 \<Longrightarrow>
  ram_block esp_lfs_sizes filled_ram b ! j = (if b = 5 \<and> j < 4 then [3, 0, 0, 0] ! j else 255)"
proof -
  assume b: "b < 128" "j < 8192"
  then have i: "40960 \<le> b * 8192 + j \<and> b * 8192 + j < 40964 \<longleftrightarrow> b = 5 \<and> j < 4"
  proof (intro iffI)
    assume r: "40960 \<le> b * 8192 + j \<and> b * 8192 + j < 40964"
    with b(2) have "4 < b" "b < 6" by linarith+
    then have "b = 5" by simp
    with r show "b = 5 \<and> j < 4" by simp
  qed simp
  have "ram_block esp_lfs_sizes filled_ram b ! j = ram filled_ram ! (b * 8192 + j)"
    using b by (simp add: ram_block_def esp_lfs_sizes_def mem_read_def filled_ram_def blank_ram_def)
  also have "\<dots> = (if 40960 \<le> b * 8192 + j \<and> b * 8192 + j < 40964 then [3, 0, 0, 0] ! (b * 8192 + j - 40960) else 255)"
    using b by (simp add: filled_ram_def blank_ram_def nth_mem_write)
  finally show ?thesis unfolding i by auto
qed

lemma filled_file:
  "ctz_file (rambd_config esp_lfs_sizes) (view None (ram_block esp_lfs_sizes filled_ram)) two_blocks 1 (replicate 9000 255)"
proof -
  have b: "unat (block_size (rambd_config esp_lfs_sizes)) = 8192" "block_count (rambd_config esp_lfs_sizes) = 128"
    by (simp_all add: rambd_config_def esp_lfs_sizes_def)
  have z: "zeros (Suc 0) = 0" by (simp add: zeros.simps)
  have n: "data_before 8192 (Suc 0) = 8192" "data_before 8192 (Suc (Suc 0)) = 16380"
    by (simp_all add: data_before_def ptr_bytes_def zeros.simps)
  have "le32_of [3, 0, 0, 0] = 3" by (simp add: le32_of_def le32_def)
  then have p: "le32_of (map (view None (ram_block esp_lfs_sizes filled_ram) 5) [0..<4]) = 3"
    by (simp add: view_def filled_block upt_rec)
  show ?thesis
    unfolding ctz_file_def ctz_list_def b
    by (auto simp: n p z two_blocks_def le_Suc_eq view_def filled_block ptr_bytes_def)
qed

theorem lfs_ctz_find_reaches_witness:
  "\<exists>block off rcache' d'. lfs_ctz_find (rambd_config esp_lfs_sizes) None empty_cache 5 9000 100 filled_ram =
     Some (0, Some (block, off), rcache', d') \<and> block \<in> {3, 5} \<and> off < 8192"
proof -
  from lfs_ctz_find_reaches [OF ram_device.block_device_axioms filled_ram_ok empty_cache_coherent _ _ filled_file, of 9000 100]
  show ?thesis by (force simp: pcache_wf_def rambd_config_def esp_lfs_sizes_def two_blocks_def)
qed

text \<open>
  Property C40: traversing a file.  \<open>lfs_ctz_traverse\<close> ends, and hands the blocks of the file to the
  callback from the last to the first, each exactly once, stopping at the first result other than
  zero; nothing on the device changes.
\<close>

theorem lfs_ctz_traverse_visits:
  assumes "block_device cfg ok contents ready" and "ok d" and "coherent cfg (contents d) rcache" and "pcache_wf cfg pcache"
    and "112 \<le> unat (block_size cfg)" and "ctz_file cfg (view pcache (contents d)) bl n bytes"
    and "unat sz = length bytes" and "unat sz \<le> 2147483647"
  shows "\<exists>rcache' d'. lfs_ctz_traverse cfg pcache rcache (bl n) sz cb s d =
      (case visit cb (map bl (rev [0..<Suc n])) s of (err, s') \<Rightarrow> Some (err, s', rcache', d')) \<and>
    contents d' = contents d \<and> coherent cfg (contents d') rcache'"
proof -
  note last = ctz_last_index [OF assms(6,5,7,8)]
  have "ctz_list cfg (view pcache (contents d)) bl n" using assms(6) by (simp add: ctz_file_def)
  from block_device.traverse_loop [OF assms(1,4) last(3) assms(2,3) this, of "fst (lfs_ctz_index cfg (sz - 1))" cb s] obtain rc' d' where
    "ctz_traverse_loop cfg pcache cb (fst (lfs_ctz_index cfg (sz - 1))) (bl n) s rcache d =
      Some (fst (visit cb (map bl (rev [0..<Suc n])) s), snd (visit cb (map bl (rev [0..<Suc n])) s), rc', d')"
    "contents d' = contents d" "coherent cfg (contents d) rc'" unfolding last(1) by blast
  with last(2) show ?thesis by (auto simp: lfs_ctz_traverse_def split: prod.split)
qed

theorem lfs_ctz_traverse_visits_witness:
  "\<exists>rcache' d'. lfs_ctz_traverse (rambd_config esp_lfs_sizes) None empty_cache 5 9000 (\<lambda>b seen. (0, seen @ [b])) [] filled_ram =
     Some (0, [5, 3], rcache', d')"
proof -
  from lfs_ctz_traverse_visits [OF ram_device.block_device_axioms filled_ram_ok empty_cache_coherent _ _ filled_file, of 9000 "\<lambda>b seen. (0, seen @ [b])" "[]"]
  show ?thesis by (force simp: pcache_wf_def rambd_config_def esp_lfs_sizes_def two_blocks_def)
qed

end
