(* ===== verification/Lfs_Alloc.thy ===== *)
theory Lfs_Alloc
  imports Lfs_Ctz
begin

text \<open>
  The block allocator of littlefs (\<open>lfs_alloc_lookahead\<close> to \<open>lfs_alloc\<close> of \<open>lfs.c\<close>): a window of the
  blocks as a bitmap, filled by a traversal of the file system.  The traversal is a parameter; it acts
  on the rest of the file system, a state of its own, and hands the blocks in use to a callback.
\<close>

section \<open>The functions\<close>

definition LFS_ERR_NOSPC :: int where "LFS_ERR_NOSPC = -28"

record lfs_free =
  free_off :: u32
  free_size :: u32
  free_i :: u32
  free_ack :: u32
  free_buffer :: "u32 list"

definition lfs_alloc_lookahead :: "'d lfs_config \<Rightarrow> u32 \<Rightarrow> lfs_free \<Rightarrow> int \<times> lfs_free" where
  "lfs_alloc_lookahead cfg block f =
     (let off = ((block - free_off f) + block_count cfg) mod block_count cfg
      in (0, if off < free_size f then
               f\<lparr>free_buffer := (free_buffer f)[unat (off div 32) :=
                   free_buffer f ! unat (off div 32) OR push_bit (unat (off mod 32)) 1]\<rparr>
             else f))"

definition lfs_alloc_ack :: "'d lfs_config \<Rightarrow> lfs_free \<Rightarrow> lfs_free" where
  "lfs_alloc_ack cfg f = f\<lparr>free_ack := block_count cfg\<rparr>"

definition lfs_alloc_drop :: "'d lfs_config \<Rightarrow> lfs_free \<Rightarrow> lfs_free" where
  "lfs_alloc_drop cfg f = lfs_alloc_ack cfg (f\<lparr>free_size := 0, free_i := 0\<rparr>)"

text \<open>The bit of the window at an offset, and one step of its position.\<close>

definition lookahead_bit :: "lfs_free \<Rightarrow> u32 \<Rightarrow> bool" where
  "lookahead_bit f off \<longleftrightarrow> free_buffer f ! unat (off div 32) AND push_bit (unat (off mod 32)) 1 \<noteq> 0"

definition alloc_advance :: "lfs_free \<Rightarrow> lfs_free" where
  "alloc_advance f = f\<lparr>free_i := free_i f + 1, free_ack := free_ack f - 1\<rparr>"

lemma window_step: "free_i f \<noteq> free_size f \<Longrightarrow> unat (free_size f - (free_i f + 1)) < unat (free_size f - free_i f)"
proof -
  assume "free_i f \<noteq> free_size f"
  then have "free_size f - free_i f \<noteq> 0" by simp
  then have "unat (free_size f - free_i f - 1) < unat (free_size f - free_i f)"
    by (simp add: unat_minus_one unat_gt_0)
  then show ?thesis by (simp add: algebra_simps)
qed

text \<open>The eager search for the next free block.\<close>

function alloc_skip :: "lfs_free \<Rightarrow> lfs_free" where
  "alloc_skip f = (if free_i f \<noteq> free_size f \<and> lookahead_bit f (free_i f) then alloc_skip (alloc_advance f) else f)"
  by pat_completeness auto
termination
  by (relation "measure (\<lambda>f. unat (free_size f - free_i f))") (simp_all add: alloc_advance_def window_step)

text \<open>The search in the window; None when it holds no free block.\<close>

function alloc_scan :: "lfs_free \<Rightarrow> u32 option \<times> lfs_free" where
  "alloc_scan f =
     (if free_i f \<noteq> free_size f then
        let off = free_i f; f' = alloc_advance f
        in if \<not> lookahead_bit f off then (Some off, alloc_skip f') else alloc_scan f'
      else (None, f))"
  by pat_completeness auto
termination
  by (relation "measure (\<lambda>f. unat (free_size f - free_i f))") (simp_all add: alloc_advance_def window_step)

declare alloc_skip.simps [simp del] alloc_scan.simps [simp del]

text \<open>The next window: the result of the traversal, the window and the rest of the state.\<close>

type_synonym 'w traverse = "(u32 \<Rightarrow> lfs_free \<Rightarrow> int \<times> lfs_free) \<Rightarrow> lfs_free \<Rightarrow> 'w \<Rightarrow> (int \<times> lfs_free \<times> 'w) option"

definition alloc_rescan :: "'d lfs_config \<Rightarrow> 'w traverse \<Rightarrow> lfs_free \<Rightarrow> 'w \<Rightarrow> (int \<times> lfs_free \<times> 'w) option" where
  "alloc_rescan cfg traverse f w =
     (let f = f\<lparr>free_off := (free_off f + free_size f) mod block_count cfg,
            free_size := lfs_min (8 * lookahead_size cfg) (free_ack f), free_i := 0,
            free_buffer := replicate (unat (lookahead_size cfg) div 4) 0\<rparr>
      in traverse (lfs_alloc_lookahead cfg) f w)"

partial_function (option) lfs_alloc ::
  "'d lfs_config \<Rightarrow> 'w traverse \<Rightarrow> lfs_free \<Rightarrow> 'w \<Rightarrow> (int \<times> u32 option \<times> lfs_free \<times> 'w) option" where
  "lfs_alloc cfg traverse f w =
     (case alloc_scan f of
        (Some off, f') \<Rightarrow> Some (0, Some ((free_off f + off) mod block_count cfg), f', w)
      | (None, f) \<Rightarrow>
          if free_ack f = 0 then Some (LFS_ERR_NOSPC, None, f, w)
          else
            case alloc_rescan cfg traverse f w of
              None \<Rightarrow> None
            | Some (err, f, w) \<Rightarrow>
                if err \<noteq> 0 then Some (err, None, lfs_alloc_drop cfg f, w)
                else lfs_alloc cfg traverse f w)"

section \<open>The window\<close>

text \<open>
  \<open>used\<close> are the blocks in use, \<open>handed\<close> those returned since the last acknowledgement.  A clear bit
  ahead of the position is a block not in use; the blocks behind it that were looked at since the
  acknowledgement are at most as many as \<open>free_ack\<close> is short of all blocks.
\<close>

definition window_block :: "'d lfs_config \<Rightarrow> lfs_free \<Rightarrow> nat \<Rightarrow> nat" where
  "window_block cfg f k = (unat (free_off f) + k) mod unat (block_count cfg)"

definition window_bit :: "lfs_free \<Rightarrow> nat \<Rightarrow> bool" where
  "window_bit f k \<longleftrightarrow> bit (free_buffer f ! (k div 32)) (k mod 32)"

definition looked_at :: "'d lfs_config \<Rightarrow> lfs_free \<Rightarrow> nat set" where
  "looked_at cfg f = (\<lambda>j. (unat (free_off f) + unat (free_i f) + unat (block_count cfg) - j) mod unat (block_count cfg)) `
     {1..unat (block_count cfg) - unat (free_ack f)}"

definition sizes_fit :: "'d lfs_config \<Rightarrow> bool" where
  "sizes_fit cfg \<longleftrightarrow> 0 < unat (block_count cfg) \<and> unat (block_count cfg) \<le> 2147483648 \<and>
     8 dvd unat (lookahead_size cfg) \<and> 0 < unat (lookahead_size cfg) \<and> unat (lookahead_size cfg) < 536870912"

definition alloc_safe :: "'d lfs_config \<Rightarrow> nat set \<Rightarrow> nat set \<Rightarrow> lfs_free \<Rightarrow> bool" where
  "alloc_safe cfg used handed f \<longleftrightarrow>
     unat (free_off f) < unat (block_count cfg) \<and> unat (free_i f) \<le> unat (free_size f) \<and>
     unat (free_size f) - unat (free_i f) \<le> unat (free_ack f) \<and> unat (free_ack f) \<le> unat (block_count cfg) \<and>
     unat (free_size f) \<le> unat (block_count cfg) \<and>
     (\<forall>k. unat (free_i f) \<le> k \<and> k < unat (free_size f) \<and> \<not> window_bit f k \<longrightarrow> window_block cfg f k \<notin> used) \<and>
     handed \<subseteq> looked_at cfg f"

text \<open>In addition the set bits are blocks in use, and so is every block looked at and not returned.\<close>

definition alloc_exact :: "'d lfs_config \<Rightarrow> nat set \<Rightarrow> nat set \<Rightarrow> lfs_free \<Rightarrow> bool" where
  "alloc_exact cfg used handed f \<longleftrightarrow> alloc_safe cfg used handed f \<and>
     (\<forall>k. unat (free_i f) \<le> k \<and> k < unat (free_size f) \<and> window_bit f k \<longrightarrow> window_block cfg f k \<in> used) \<and>
     looked_at cfg f \<subseteq> used \<union> handed"

lemma and_single_bit: "k < 32 \<Longrightarrow> w AND push_bit k 1 \<noteq> 0 \<longleftrightarrow> bit w k" for w :: u32
proof -
  assume k: "k < 32"
  have "w AND push_bit k 1 = 0 \<longleftrightarrow> \<not> bit w k"
  proof
    assume "w AND push_bit k 1 = 0"
    then have "\<not> bit (w AND push_bit k 1) k" by simp
    with k show "\<not> bit w k" by (simp add: bit_and_iff bit_push_bit_iff bit_1_iff bit_exp_iff possible_bit_word)
  next
    assume "\<not> bit w k"
    then show "w AND push_bit k 1 = 0"
      by (intro bit_eqI) (auto simp: bit_and_iff bit_push_bit_iff bit_1_iff bit_exp_iff possible_bit_word)
  qed
  then show ?thesis by simp
qed

lemma lookahead_window_bit: "lookahead_bit f off = window_bit f (unat off)"
proof -
  have "unat (off mod 32) < 32" by (simp add: unat_mod_distrib)
  from and_single_bit [OF this] show ?thesis by (simp add: lookahead_bit_def window_bit_def unat_div_distrib unat_mod_distrib)
qed

lemma advance_simps [simp]: "free_off (alloc_advance f) = free_off f" "free_size (alloc_advance f) = free_size f"
  "free_buffer (alloc_advance f) = free_buffer f" "window_block cfg (alloc_advance f) = window_block cfg f"
  "window_bit (alloc_advance f) = window_bit f"
  by (simp_all add: alloc_advance_def window_block_def window_bit_def fun_eq_iff)

lemma advance_nat:
  assumes "alloc_safe cfg used handed f" "free_i f \<noteq> free_size f"
  shows "unat (free_i f) < unat (free_size f)" "unat (free_i (alloc_advance f)) = Suc (unat (free_i f))"
    "0 < unat (free_ack f)" "unat (free_ack (alloc_advance f)) = unat (free_ack f) - 1"
proof -
  show lt: "unat (free_i f) < unat (free_size f)" using assms by (auto simp: alloc_safe_def word_unat_eq_iff)
  with unat_u32_less [of "free_size f"] have "unat (free_i f) + unat (1 :: u32) < 4294967296" by (simp only: unat_1)
  then have "unat (free_i f + 1) = unat (free_i f) + unat (1 :: u32)" by (rule unat_add_u32)
  then show "unat (free_i (alloc_advance f)) = Suc (unat (free_i f))" by (simp add: alloc_advance_def)
  show pos: "0 < unat (free_ack f)" using assms(1) lt unfolding alloc_safe_def by linarith
  then have "free_ack f \<noteq> 0" by auto
  then show "unat (free_ack (alloc_advance f)) = unat (free_ack f) - 1" by (simp add: alloc_advance_def unat_minus_one)
qed

lemma looked_at_advance:
  assumes "alloc_safe cfg used handed f" "free_i f \<noteq> free_size f"
  shows "looked_at cfg (alloc_advance f) = insert (window_block cfg f (unat (free_i f))) (looked_at cfg f)"
proof -
  note n = advance_nat [OF assms]
  let ?b = "unat (block_count cfg)" and ?p = "unat (free_off f) + unat (free_i f)" and ?a = "unat (free_ack f)"
  have ab: "?a \<le> ?b" using assms(1) by (simp add: alloc_safe_def)
  have "looked_at cfg (alloc_advance f) = (\<lambda>j. (Suc ?p + ?b - j) mod ?b) ` {1..Suc (?b - ?a)}"
    unfolding looked_at_def advance_simps n(2,4) using ab n(3) by (simp add: Suc_diff_le)
  also have "{1..Suc (?b - ?a)} = Suc ` {0..?b - ?a}" by (simp only: One_nat_def image_Suc_atLeastAtMost)
  also have "(\<lambda>j. (Suc ?p + ?b - j) mod ?b) ` Suc ` {0..?b - ?a} = (\<lambda>j. (?p + ?b - j) mod ?b) ` {0..?b - ?a}"
    by (simp only: image_image add_Suc diff_Suc_Suc)
  also have "{0..?b - ?a} = insert 0 {1..?b - ?a}" by auto
  also have "(\<lambda>j. (?p + ?b - j) mod ?b) ` insert 0 {1..?b - ?a} = insert (window_block cfg f (unat (free_i f))) (looked_at cfg f)"
    by (simp add: looked_at_def window_block_def)
  finally show ?thesis .
qed

lemma cyclic_distinct: "0 < e \<Longrightarrow> e < b \<Longrightarrow> (p + e) mod b \<noteq> p mod b" for e b p :: nat
proof
  assume e: "0 < e" "e < b" "(p + e) mod b = p mod b"
  then have "b dvd p + e - p" by (subst mod_eq_dvd_iff_nat [symmetric]) simp_all
  with e show False by (auto dest: dvd_imp_le)
qed

lemma next_not_looked_at:
  assumes "alloc_safe cfg used handed f" "free_i f \<noteq> free_size f"
  shows "window_block cfg f (unat (free_i f)) \<notin> looked_at cfg f"
proof
  let ?b = "unat (block_count cfg)" and ?p = "unat (free_off f) + unat (free_i f)" and ?a = "unat (free_ack f)"
  assume "window_block cfg f (unat (free_i f)) \<in> looked_at cfg f"
  then obtain j where j: "1 \<le> j" "j \<le> ?b - ?a" "?p mod ?b = (?p + ?b - j) mod ?b"
    by (auto simp: looked_at_def window_block_def)
  have "j < ?b" using j(1,2) advance_nat(3) [OF assms] by linarith
  then have "(?p + ?b - j) mod ?b = (?p + (?b - j)) mod ?b" by simp
  with j(3) have "?p mod ?b = (?p + (?b - j)) mod ?b" by simp
  moreover have "(?p + (?b - j)) mod ?b \<noteq> ?p mod ?b" using j(1) \<open>j < ?b\<close> by (intro cyclic_distinct) simp_all
  ultimately show False by simp
qed

lemma step_used:
  assumes "alloc_safe cfg used handed f" "free_i f \<noteq> free_size f"
  shows "alloc_safe cfg used handed (alloc_advance f)"
proof -
  have "handed \<subseteq> looked_at cfg (alloc_advance f)"
    unfolding looked_at_advance [OF assms] using assms(1) by (auto simp: alloc_safe_def)
  with assms(1) advance_nat [OF assms] show ?thesis by (auto simp: alloc_safe_def)
qed

lemma step_free:
  assumes "alloc_safe cfg used handed f" "free_i f \<noteq> free_size f" "\<not> window_bit f (unat (free_i f))"
  shows "alloc_safe cfg used (insert (window_block cfg f (unat (free_i f))) handed) (alloc_advance f)"
    and "window_block cfg f (unat (free_i f)) \<notin> used \<union> handed" "window_block cfg f (unat (free_i f)) < unat (block_count cfg)"
proof -
  note n = advance_nat [OF assms(1,2)]
  have "insert (window_block cfg f (unat (free_i f))) handed \<subseteq> looked_at cfg (alloc_advance f)"
    unfolding looked_at_advance [OF assms(1,2)] using assms(1) by (auto simp: alloc_safe_def)
  with step_used [OF assms(1,2)] show "alloc_safe cfg used (insert (window_block cfg f (unat (free_i f))) handed) (alloc_advance f)"
    by (simp add: alloc_safe_def)
  have "window_block cfg f (unat (free_i f)) \<notin> used" using assms(1,3) n(1) by (simp add: alloc_safe_def)
  moreover have "handed \<subseteq> looked_at cfg f" using assms(1) by (simp add: alloc_safe_def)
  ultimately show "window_block cfg f (unat (free_i f)) \<notin> used \<union> handed" using next_not_looked_at [OF assms(1,2)] by auto
  show "window_block cfg f (unat (free_i f)) < unat (block_count cfg)" using assms(1) by (auto simp: alloc_safe_def window_block_def)
qed

lemma exact_used:
  assumes "alloc_exact cfg used handed f" "free_i f \<noteq> free_size f" "window_bit f (unat (free_i f))"
  shows "alloc_exact cfg used handed (alloc_advance f)"
proof -
  have s: "alloc_safe cfg used handed f" using assms(1) by (simp add: alloc_exact_def)
  note n = advance_nat [OF s assms(2)]
  have "window_block cfg f (unat (free_i f)) \<in> used" using assms(1,3) n(1) by (simp add: alloc_exact_def)
  with assms(1) n step_used [OF s assms(2)] show ?thesis
    unfolding alloc_exact_def looked_at_advance [OF s assms(2)] by auto
qed

lemma exact_free:
  assumes "alloc_exact cfg used handed f" "free_i f \<noteq> free_size f" "\<not> window_bit f (unat (free_i f))"
  shows "alloc_exact cfg used (insert (window_block cfg f (unat (free_i f))) handed) (alloc_advance f)"
proof -
  have s: "alloc_safe cfg used handed f" using assms(1) by (simp add: alloc_exact_def)
  from assms(1) advance_nat [OF s assms(2)] step_free(1) [OF s assms(2,3)] show ?thesis
    unfolding alloc_exact_def looked_at_advance [OF s assms(2)] by auto
qed

text \<open>The two searches: an invariant kept by steps over used blocks survives them.\<close>

lemma skip_keeps:
  assumes "\<And>f. I f \<Longrightarrow> free_i f \<noteq> free_size f \<Longrightarrow> window_bit f (unat (free_i f)) \<Longrightarrow> I (alloc_advance f)" "I f"
  shows "I (alloc_skip f)"
  using assms(2)
proof (induction f rule: alloc_skip.induct)
  case (1 f)
  show ?case
  proof (cases "free_i f \<noteq> free_size f \<and> lookahead_bit f (free_i f)")
    case True
    with 1 assms(1) have "I (alloc_skip (alloc_advance f))" by (simp add: lookahead_window_bit)
    with True show ?thesis by (subst alloc_skip.simps) simp
  next
    case False
    with 1 show ?thesis by (subst alloc_skip.simps) auto
  qed
qed

lemma scan_keeps:
  assumes "\<And>f. I f \<Longrightarrow> free_i f \<noteq> free_size f \<Longrightarrow> window_bit f (unat (free_i f)) \<Longrightarrow> I (alloc_advance f)" "I f"
  shows "case alloc_scan f of
      (None, f') \<Rightarrow> I f' \<and> free_i f' = free_size f' \<and> free_off f' = free_off f
    | (Some off, f') \<Rightarrow> \<exists>g. I g \<and> free_off g = free_off f \<and> free_i g = off \<and> free_i g \<noteq> free_size g \<and> \<not> window_bit g (unat off) \<and> f' = alloc_skip (alloc_advance g)"
  using assms(2)
proof (induction f rule: alloc_scan.induct)
  case (1 f)
  show ?case
  proof (cases "free_i f \<noteq> free_size f \<and> lookahead_bit f (free_i f)")
    case True
    then have "I (alloc_advance f)" using 1 assms(1) by (simp add: lookahead_window_bit)
    moreover have "alloc_scan f = alloc_scan (alloc_advance f)" using True by (subst alloc_scan.simps) (simp add: Let_def)
    ultimately show ?thesis using 1(1) [OF _ refl refl] True by (auto split: prod.splits option.splits)
  next
    case False
    with 1(2) show ?thesis by (subst alloc_scan.simps) (auto simp: Let_def lookahead_window_bit)
  qed
qed

section \<open>Filling the window\<close>

lemma lookahead_fields [simp]:
  "free_off (snd (lfs_alloc_lookahead cfg b f)) = free_off f" "free_size (snd (lfs_alloc_lookahead cfg b f)) = free_size f"
  "free_i (snd (lfs_alloc_lookahead cfg b f)) = free_i f" "free_ack (snd (lfs_alloc_lookahead cfg b f)) = free_ack f"
  "length (free_buffer (snd (lfs_alloc_lookahead cfg b f))) = length (free_buffer f)" "fst (lfs_alloc_lookahead cfg b f) = 0"
  by (simp_all add: lfs_alloc_lookahead_def Let_def)

lemma window_offset:
  fixes o' b x k :: nat
  assumes "o' < b" "x < b" "k < b"
  shows "(o' + k) mod b = x \<longleftrightarrow> k = (x + b - o') mod b"
proof
  assume "(o' + k) mod b = x"
  then have "(x + b - o') mod b = ((o' + k) mod b + (b - o')) mod b" using assms(1) by simp
  also have "\<dots> = (o' + k + (b - o')) mod b" by (simp only: mod_add_left_eq)
  also have "\<dots> = k" using assms(1,3) by simp
  finally show "k = (x + b - o') mod b" ..
next
  assume "k = (x + b - o') mod b"
  then have "(o' + k) mod b = (o' + (x + b - o')) mod b" by (simp only: mod_add_right_eq)
  also have "\<dots> = x" using assms(1,2) by simp
  finally show "(o' + k) mod b = x" .
qed

lemma window_bit_lookahead:
  assumes "sizes_fit cfg" "unat (free_off f) < unat (block_count cfg)" "unat x < unat (block_count cfg)"
    and "unat (free_size f) \<le> 32 * length (free_buffer f)" "k < unat (free_size f)" "unat (free_size f) \<le> unat (block_count cfg)"
  shows "window_bit (snd (lfs_alloc_lookahead cfg x f)) k \<longleftrightarrow> window_bit f k \<or> window_block cfg f k = unat x"
proof -
  let ?b = "unat (block_count cfg)" and ?o = "unat (free_off f)"
  define off where "off = ((x - free_off f) + block_count cfg) mod block_count cfg"
  have b: "?b \<le> 2147483648" using assms(1) by (simp add: sizes_fit_def)
  have "x - free_off f + block_count cfg = x + (block_count cfg - free_off f)" by simp
  moreover have "unat (block_count cfg - free_off f) = ?b - ?o" using assms(2) by (intro unat_sub_le) simp
  moreover have "unat x + (?b - ?o) < 4294967296" using b assms(3) by linarith
  ultimately have "unat (x - free_off f + block_count cfg) = unat x + (?b - ?o)" by (simp only: unat_add_u32)
  then have off: "unat off = (unat x + ?b - ?o) mod ?b" using assms(2) by (simp add: off_def unat_mod_distrib)
  have q: "window_block cfg f k = unat x \<longleftrightarrow> k = unat off"
    unfolding off window_block_def using assms by (intro window_offset) linarith+
  show ?thesis
  proof (cases "off < free_size f")
    case False
    then have "k \<noteq> unat off" using assms(5) by (auto simp: word_less_nat_alt)
    with False q show ?thesis by (simp add: lfs_alloc_lookahead_def Let_def off_def [symmetric])
  next
    case True
    then have lt: "unat off < unat (free_size f)" by (simp add: word_less_nat_alt)
    then have d: "unat off div 32 < length (free_buffer f)" using assms(4) by linarith
    have bt: "bit (w OR 2 ^ (unat off mod 32)) m \<longleftrightarrow> bit w m \<or> m = unat off mod 32" if "m < 32" for w :: u32 and m
      using that by (auto simp: bit_or_iff bit_push_bit_iff bit_1_iff bit_exp_iff possible_bit_word)
    have "snd (lfs_alloc_lookahead cfg x f) = f\<lparr>free_buffer := (free_buffer f)[unat off div 32 :=
        free_buffer f ! (unat off div 32) OR push_bit (unat off mod 32) 1]\<rparr>"
      using True by (simp add: lfs_alloc_lookahead_def Let_def off_def [symmetric] unat_div_distrib unat_mod_distrib)
    then have "window_bit (snd (lfs_alloc_lookahead cfg x f)) k \<longleftrightarrow>
        window_bit f k \<or> (k div 32 = unat off div 32 \<and> k mod 32 = unat off mod 32)"
      using d by (auto simp: window_bit_def nth_list_update bt)
    moreover have "k div 32 = unat off div 32 \<and> k mod 32 = unat off mod 32 \<longleftrightarrow> k = unat off" by (metis div_mult_mod_eq)
    ultimately show ?thesis using q by simp
  qed
qed

lemma visit_lookahead:
  assumes "sizes_fit cfg" "unat (free_off f) < unat (block_count cfg)" "\<forall>x \<in> set blocks. unat x < unat (block_count cfg)"
    and "unat (free_size f) \<le> 32 * length (free_buffer f)" "unat (free_size f) \<le> unat (block_count cfg)"
  shows "\<exists>f'. visit (lfs_alloc_lookahead cfg) blocks f = (0, f') \<and> free_off f' = free_off f \<and> free_size f' = free_size f \<and>
    free_i f' = free_i f \<and> free_ack f' = free_ack f \<and>
    (\<forall>k < unat (free_size f). window_bit f' k \<longleftrightarrow> window_bit f k \<or> window_block cfg f k \<in> unat ` set blocks)"
  using assms(2-5)
proof (induction blocks arbitrary: f)
  case (Cons x xs)
  define g where "g = snd (lfs_alloc_lookahead cfg x f)"
  have g: "lfs_alloc_lookahead cfg x f = (0, g)" by (rule prod_eqI) (simp_all add: g_def)
  have fields: "free_off g = free_off f" "free_size g = free_size f" "free_i g = free_i f" "free_ack g = free_ack f"
    "length (free_buffer g) = length (free_buffer f)" by (simp_all add: g_def)
  then have "window_block cfg g = window_block cfg f" by (simp add: window_block_def fun_eq_iff)
  moreover have "window_bit g k \<longleftrightarrow> window_bit f k \<or> window_block cfg f k = unat x" if "k < unat (free_size f)" for k
    unfolding g_def using that Cons.prems by (intro window_bit_lookahead [OF assms(1)]) simp_all
  moreover from Cons.IH [of g] Cons.prems obtain f' where
    "visit (lfs_alloc_lookahead cfg) xs g = (0, f')" "free_off f' = free_off f" "free_size f' = free_size f"
    "free_i f' = free_i f" "free_ack f' = free_ack f"
    "\<forall>k < unat (free_size f). window_bit f' k \<longleftrightarrow> window_bit g k \<or> window_block cfg g k \<in> unat ` set xs" by (auto simp: fields)
  ultimately show ?case using g by auto
qed simp


section \<open>What the traversal promises\<close>

text \<open>
  In a good state of the file system the traversal hands the blocks in use to every callback, stops
  at the first result other than zero, and leaves a good state with the same blocks in use.
\<close>

locale block_traversal =
  fixes traverse :: "'w traverse" and good :: "'w \<Rightarrow> bool" and blocks :: "'w \<Rightarrow> u32 list"
  assumes visits: "good w \<Longrightarrow>
    \<exists>w'. good w' \<and> blocks w' = blocks w \<and> traverse cb f w = Some (fst (visit cb (blocks w) f), snd (visit cb (blocks w) f), w')"

text \<open>The blocks of one file keep the promise (\<open>lfs_ctz_traverse\<close>).\<close>

definition file_traverse :: "'d lfs_config \<Rightarrow> u32 \<Rightarrow> u32 \<Rightarrow> (lfs_cache \<times> 'd) traverse" where
  "file_traverse cfg head sz cb f w = lfs_ctz_traverse cfg None (fst w) head sz cb f (snd w)"

definition file_good :: "'d lfs_config \<Rightarrow> ('d \<Rightarrow> bool) \<Rightarrow> ('d \<Rightarrow> nat \<Rightarrow> u8 list) \<Rightarrow> (nat \<Rightarrow> u8 list) \<Rightarrow> lfs_cache \<times> 'd \<Rightarrow> bool" where
  "file_good cfg ok contents mem w \<longleftrightarrow> ok (snd w) \<and> contents (snd w) = mem \<and> coherent cfg mem (fst w)"

lemma file_traversal:
  assumes "block_device cfg ok contents ready" "112 \<le> unat (block_size cfg)" "ctz_file cfg (view None mem) bl n bytes"
    and "unat sz = length bytes" "unat sz \<le> 2147483647"
  shows "block_traversal (file_traverse cfg (bl n) sz) (file_good cfg ok contents mem) (\<lambda>w. map bl (rev [0..<Suc n]))"
proof
  fix w cb and f :: lfs_free
  assume w: "file_good cfg ok contents mem w"
  note last = ctz_last_index [OF assms(3,2,4,5)]
  have "ctz_list cfg (view None (contents (snd w))) bl n" using assms(3) w by (simp add: ctz_file_def file_good_def)
  from block_device.traverse_loop [OF assms(1) _ last(3) _ _ this, where rc = "fst w"
      and index = "fst (lfs_ctz_index cfg (sz - 1))" and cb = cb and s = f] w
  obtain rc' d' where
    "ctz_traverse_loop cfg None cb (fst (lfs_ctz_index cfg (sz - 1))) (bl n) f (fst w) (snd w) =
      Some (fst (visit cb (map bl (rev [0..<Suc n])) f), snd (visit cb (map bl (rev [0..<Suc n])) f), rc', d')"
    "ok d'" "contents d' = mem" "coherent cfg mem rc'"
    unfolding last(1) by (auto simp: file_good_def pcache_wf_def)
  with last(2) show "\<exists>w'. file_good cfg ok contents mem w' \<and> map bl (rev [0..<Suc n]) = map bl (rev [0..<Suc n]) \<and> file_traverse cfg (bl n) sz cb f w =
      Some (fst (visit cb (map bl (rev [0..<Suc n])) f), snd (visit cb (map bl (rev [0..<Suc n])) f), w')"
    by (intro exI [of _ "(rc', d')"]) (simp add: file_traverse_def lfs_ctz_traverse_def file_good_def)
qed

interpretation filled: block_traversal "file_traverse (rambd_config esp_lfs_sizes) 5 9000"
  "file_good (rambd_config esp_lfs_sizes) (ram_ok esp_lfs_sizes) (ram_block esp_lfs_sizes) (ram_block esp_lfs_sizes filled_ram)" "\<lambda>w. [5, 3]"
proof -
  have e: "two_blocks 1 = 5" "map two_blocks (rev [0..<Suc 1]) = [5, 3]" by (simp_all add: two_blocks_def)
  have "112 \<le> unat (block_size (rambd_config esp_lfs_sizes))" by (simp add: rambd_config_def esp_lfs_sizes_def)
  from file_traversal [OF ram_device.block_device_axioms this filled_file, of 9000, unfolded e]
  show "block_traversal (file_traverse (rambd_config esp_lfs_sizes) 5 9000)
      (file_good (rambd_config esp_lfs_sizes) (ram_ok esp_lfs_sizes) (ram_block esp_lfs_sizes) (ram_block esp_lfs_sizes filled_ram)) (\<lambda>w. [5, 3])"
    by simp
qed

section \<open>Allocation\<close>

text \<open>Both invariants at once.\<close>

definition alloc_inv :: "bool \<Rightarrow> 'd lfs_config \<Rightarrow> nat set \<Rightarrow> nat set \<Rightarrow> lfs_free \<Rightarrow> bool" where
  "alloc_inv e cfg used handed f \<longleftrightarrow> (if e then alloc_exact cfg used handed f else alloc_safe cfg used handed f)"

lemma inv_safe: "alloc_inv e cfg used handed f \<Longrightarrow> alloc_safe cfg used handed f"
  by (auto simp: alloc_inv_def alloc_exact_def split: if_splits)

lemma inv_used: "alloc_inv e cfg used handed f \<Longrightarrow> free_i f \<noteq> free_size f \<Longrightarrow> window_bit f (unat (free_i f)) \<Longrightarrow>
    alloc_inv e cfg used handed (alloc_advance f)"
  using step_used exact_used by (auto simp: alloc_inv_def split: if_splits)

lemma inv_free: "alloc_inv e cfg used handed f \<Longrightarrow> free_i f \<noteq> free_size f \<Longrightarrow> \<not> window_bit f (unat (free_i f)) \<Longrightarrow>
    alloc_inv e cfg used (insert (window_block cfg f (unat (free_i f))) handed) (alloc_advance f)"
  using step_free(1) exact_free by (auto simp: alloc_inv_def split: if_splits)

context block_traversal
begin

lemma rescan:
  assumes "sizes_fit cfg" "\<forall>x \<in> set (blocks w). unat x < unat (block_count cfg)" "used = unat ` set (blocks w)"
    and "alloc_inv e cfg used handed f" "free_i f = free_size f" "free_ack f \<noteq> 0" "good w"
  shows "\<exists>f' w'. alloc_rescan cfg traverse f w = Some (0, f', w') \<and> good w' \<and> blocks w' = blocks w \<and> alloc_inv e cfg used handed f' \<and>
    free_ack f' = free_ack f \<and> free_i f' \<noteq> free_size f'"
proof -
  let ?b = "unat (block_count cfg)" and ?o = "unat (free_off f)" and ?n = "unat (free_size f)" and ?a = "unat (free_ack f)"
  note s = inv_safe [OF assms(4)]
  have b: "?b \<le> 2147483648" "0 < ?b" "8 dvd unat (lookahead_size cfg)" "0 < unat (lookahead_size cfg)" "unat (lookahead_size cfg) < 536870912"
    using assms(1) by (simp_all add: sizes_fit_def)
  have n: "?n \<le> ?b" "?o < ?b" "?a \<le> ?b" using s by (simp_all add: alloc_safe_def)
  define f0 where "f0 = f\<lparr>free_off := (free_off f + free_size f) mod block_count cfg,
      free_size := lfs_min (8 * lookahead_size cfg) (free_ack f), free_i := 0,
      free_buffer := replicate (unat (lookahead_size cfg) div 4) 0\<rparr>"
  have "?o + ?n < 4294967296" using n b(1) by linarith
  then have o': "unat (free_off f0) = (?o + ?n) mod ?b" by (simp add: f0_def unat_mod_distrib unat_add_u32)
  have la: "unat (8 * lookahead_size cfg) = 8 * unat (lookahead_size cfg)" using b(5) by (simp add: unat_mult_u32)
  then have n': "unat (free_size f0) = min (8 * unat (lookahead_size cfg)) ?a" by (simp add: f0_def)
  have len: "unat (free_size f0) \<le> 32 * length (free_buffer f0)" "unat (free_size f0) \<le> ?b"
    using b(3) n(3) unfolding n' by (auto simp: f0_def elim!: dvdE)
  have zero: "\<not> window_bit f0 k" if "k < unat (free_size f0)" for k
  proof -
    have "k < length (free_buffer f0) * 32" using that len(1) by linarith
    then have "k div 32 < length (free_buffer f0)" by (rule less_mult_imp_div_less)
    then show ?thesis by (simp add: window_bit_def f0_def)
  qed
  from visits [OF assms(7), of "lfs_alloc_lookahead cfg" f0]
  obtain w' where w: "good w' \<and> blocks w' = blocks w" "traverse (lfs_alloc_lookahead cfg) f0 w =
    Some (fst (visit (lfs_alloc_lookahead cfg) (blocks w) f0), snd (visit (lfs_alloc_lookahead cfg) (blocks w) f0), w')" by blast
  have "unat (free_off f0) < ?b" using b(2) by (simp add: o')
  from visit_lookahead [OF assms(1) this assms(2) len] obtain f' where
    v: "visit (lfs_alloc_lookahead cfg) (blocks w) f0 = (0, f')" "free_off f' = free_off f0" "free_size f' = free_size f0"
      "free_i f' = 0" "free_ack f' = free_ack f"
      "\<forall>k < unat (free_size f0). window_bit f' k \<longleftrightarrow> window_bit f0 k \<or> window_block cfg f0 k \<in> used"
    by (auto simp: f0_def assms(3))
  have bits: "window_bit f' k \<longleftrightarrow> window_block cfg f' k \<in> used" if "k < unat (free_size f')" for k
    using v(2,3,6) zero that by (simp add: window_block_def)
  have looked: "looked_at cfg f' = looked_at cfg f"
  proof -
    have "((?o + ?n) mod ?b + ?b - j) mod ?b = (?o + ?n + ?b - j) mod ?b" if "j \<in> {1..?b - ?a}" for j
    proof -
      have "j \<le> ?b" using that unfolding atLeastAtMost_iff by linarith
      then show ?thesis using mod_add_left_eq [of "?o + ?n" ?b "?b - j"] by simp
    qed
    then show ?thesis unfolding looked_at_def v(2,4,5) o' by (simp add: assms(5))
  qed
  have "0 < ?a" using assms(6) by (simp add: unat_gt_0)
  then have "free_i f' \<noteq> free_size f'" using b(4) v(3,4) n' by (auto simp: word_unat_eq_iff)
  moreover have "alloc_safe cfg used handed f'"
    using s bits len(2) n' b(2) unfolding alloc_safe_def looked by (auto simp: v(2-5) o')
  moreover have "alloc_inv e cfg used handed f'"
    using assms(4) \<open>alloc_safe cfg used handed f'\<close> bits by (auto simp: alloc_inv_def alloc_exact_def looked split: if_splits)
  moreover have "alloc_rescan cfg traverse f w = Some (0, f', w')"
    using w(2) v(1) by (simp add: alloc_rescan_def f0_def)
  ultimately show ?thesis using w(1) v(5) by blast
qed

lemma alloc_result:
  assumes "sizes_fit cfg"
  shows "\<forall>x \<in> set (blocks w). unat x < unat (block_count cfg) \<Longrightarrow> used = unat ` set (blocks w) \<Longrightarrow> alloc_inv e cfg used handed f \<Longrightarrow> good w \<Longrightarrow>
    \<exists>err b f' w'. lfs_alloc cfg traverse f w = Some (err, b, f', w') \<and> good w' \<and> blocks w' = blocks w \<and>
      ((\<exists>x. err = 0 \<and> b = Some x \<and> unat x < unat (block_count cfg) \<and> unat x \<notin> used \<union> handed \<and> alloc_inv e cfg used (insert (unat x) handed) f') \<or>
       (err = LFS_ERR_NOSPC \<and> b = None \<and> free_ack f' = 0 \<and> alloc_inv e cfg used handed f'))"
proof (induction "2 * unat (free_ack f) + (if free_i f = free_size f then 1 else 0)" arbitrary: f w rule: less_induct)
  case less
  define I where "I = (\<lambda>g. alloc_inv e cfg used handed g \<and> unat (free_ack g) + unat (free_i g) = unat (free_ack f) + unat (free_i f) \<and> free_size g = free_size f)"
  have step: "I (alloc_advance g)" if "I g" "free_i g \<noteq> free_size g" "window_bit g (unat (free_i g))" for g
  proof -
    have inv: "alloc_inv e cfg used handed g" using that(1) by (simp add: I_def)
    have "unat (free_ack (alloc_advance g)) + unat (free_i (alloc_advance g)) = unat (free_ack g) + unat (free_i g)"
      using advance_nat [OF inv_safe [OF inv] that(2)] by linarith
    with that(1) inv_used [OF inv that(2,3)] show ?thesis by (simp add: I_def)
  qed
  have "I f" using less.prems(3) by (simp add: I_def)
  note scan = scan_keeps [of I, OF step this]
  obtain r g where sc: "alloc_scan f = (r, g)" by (cases "alloc_scan f")
  show ?case
  proof (cases r)
    case (Some off)
    with scan sc obtain h where h: "I h" "free_off h = free_off f" "free_i h = off" "free_i h \<noteq> free_size h"
      "\<not> window_bit h (unat (free_i h))" "g = alloc_skip (alloc_advance h)" by auto
    have inv: "alloc_inv e cfg used handed h" using h(1) by (simp add: I_def)
    note free = step_free [OF inv_safe [OF inv] h(4,5)]
    define x where "x = (free_off f + off) mod block_count cfg"
    have "unat (free_off h) < unat (block_count cfg)" "unat (free_i h) \<le> unat (block_count cfg)" "unat (block_count cfg) \<le> 2147483648"
      using inv_safe [OF inv] assms by (auto simp: alloc_safe_def sizes_fit_def)
    then have "unat (free_off f) + unat off < 4294967296" using h(2,3) by simp
    then have x: "unat x = window_block cfg h (unat (free_i h))"
      by (simp add: x_def h(2,3) window_block_def unat_mod_distrib unat_add_u32)
    have "alloc_inv e cfg used (insert (unat x) handed) g"
      unfolding x h(6) by (rule skip_keeps [where I = "alloc_inv e cfg used _", OF inv_used inv_free [OF inv h(4,5)]])
    moreover have "lfs_alloc cfg traverse f w = Some (0, Some x, g, w)"
      using Some sc by (subst lfs_alloc.simps) (simp add: x_def)
    ultimately show ?thesis using free(2,3) less.prems(4) unfolding x [symmetric] by blast
  next
    case None
    with scan sc have g: "alloc_inv e cfg used handed g" "free_i g = free_size g" "free_size g = free_size f"
      "unat (free_ack g) + unat (free_i g) = unat (free_ack f) + unat (free_i f)" by (auto simp: I_def)
    show ?thesis
    proof (cases "free_ack g = 0")
      case True
      then have "lfs_alloc cfg traverse f w = Some (LFS_ERR_NOSPC, None, g, w)"
        using None sc by (subst lfs_alloc.simps) simp
      with True g(1) less.prems(4) show ?thesis by blast
    next
      case False
      from rescan [OF assms less.prems(1,2) g(1,2) False less.prems(4)] obtain f2 w2 where
        r: "alloc_rescan cfg traverse g w = Some (0, f2, w2)" "good w2 \<and> blocks w2 = blocks w" "alloc_inv e cfg used handed f2" "free_ack f2 = free_ack g" "free_i f2 \<noteq> free_size f2"
        by blast
      have "unat (free_i f) \<le> unat (free_size f)" using inv_safe [OF less.prems(3)] by (simp add: alloc_safe_def)
      then have "unat (free_ack g) < unat (free_ack f) \<or> free_i f = free_size f \<and> unat (free_ack g) = unat (free_ack f)"
        using g(2-4) by (auto simp: word_unat_eq_iff)
      then have m: "2 * unat (free_ack f2) + (if free_i f2 = free_size f2 then 1 else 0) < 2 * unat (free_ack f) + (if free_i f = free_size f then 1 else 0)"
        using r(4,5) by auto
      have w2: "good w2" "blocks w2 = blocks w" using r(2) by simp_all
      have b2: "\<forall>x \<in> set (blocks w2). unat x < unat (block_count cfg)" "used = unat ` set (blocks w2)"
        using less.prems(1,2) by (simp_all add: w2(2))
      have "lfs_alloc cfg traverse f w = lfs_alloc cfg traverse f2 w2"
        using None sc False r(1) by (subst lfs_alloc.simps) simp
      then show ?thesis using less.hyps [OF m b2 r(3) w2(1)] unfolding w2(2) by simp
    qed
  qed
qed

end


section \<open>Histories of allocations\<close>

text \<open>
  The states of a mounted file system: allocations, changes of the file system that put only blocks
  into use that were in use or handed out, and acknowledgements, after which the blocks handed out
  and not in use are free again.
\<close>

inductive alloc_history ::
  "'d lfs_config \<Rightarrow> 'w traverse \<Rightarrow> ('w \<Rightarrow> bool) \<Rightarrow> ('w \<Rightarrow> u32 list) \<Rightarrow> u32 set \<Rightarrow> lfs_free \<Rightarrow> 'w \<Rightarrow> bool"
  for cfg traverse good blocks where
  mount: "good w \<Longrightarrow> \<forall>x \<in> set (blocks w). x < block_count cfg \<Longrightarrow> free_off f < block_count cfg \<Longrightarrow>
    alloc_history cfg traverse good blocks {} (lfs_alloc_drop cfg f) w"
| alloc: "alloc_history cfg traverse good blocks handed f w \<Longrightarrow> lfs_alloc cfg traverse f w = Some (err, b, f', w') \<Longrightarrow>
    alloc_history cfg traverse good blocks (handed \<union> set_option b) f' w'"
| change: "alloc_history cfg traverse good blocks handed f w \<Longrightarrow> good w' \<Longrightarrow> set (blocks w') \<subseteq> set (blocks w) \<union> handed \<Longrightarrow>
    alloc_history cfg traverse good blocks handed f w'"
| ack: "alloc_history cfg traverse good blocks handed f w \<Longrightarrow> alloc_history cfg traverse good blocks {} (lfs_alloc_ack cfg f) w"

lemma drop_exact:
  assumes "free_off f < block_count cfg" "handed = {}"
  shows "alloc_exact cfg used handed (lfs_alloc_drop cfg f)"
  using assms by (auto simp: alloc_exact_def alloc_safe_def lfs_alloc_drop_def lfs_alloc_ack_def looked_at_def word_less_nat_alt)

lemma ahead_not_looked_at:
  assumes "alloc_safe cfg used handed f" "unat (free_i f) \<le> k" "k < unat (free_size f)"
  shows "window_block cfg f k \<notin> looked_at cfg f"
proof
  let ?b = "unat (block_count cfg)" and ?p = "unat (free_off f) + unat (free_i f)" and ?a = "unat (free_ack f)"
  assume "window_block cfg f k \<in> looked_at cfg f"
  then obtain j where j: "j \<in> {1..?b - ?a}" "(unat (free_off f) + k) mod ?b = (?p + ?b - j) mod ?b"
    by (auto simp: looked_at_def window_block_def)
  define e where "e = k - unat (free_i f) + j"
  have a: "unat (free_size f) - unat (free_i f) \<le> ?a" "?a \<le> ?b" using assms(1) by (simp_all add: alloc_safe_def)
  have e: "0 < e" "e < ?b" and jb: "j \<le> ?b" using j(1) assms(2,3) a unfolding e_def atLeastAtMost_iff by linarith+
  have "(?p + ?b - j) + e = unat (free_off f) + k + ?b" using assms(2) jb by (simp add: e_def)
  then have "((?p + ?b - j) + e) mod ?b = (?p + ?b - j) mod ?b" using j(2) by simp
  with cyclic_distinct [OF e] show False by blast
qed

lemma safe_change:
  assumes "alloc_safe cfg used handed f" "used' \<subseteq> used \<union> handed"
  shows "alloc_safe cfg used' handed f"
  using assms ahead_not_looked_at [OF assms(1)] unfolding alloc_safe_def by blast

lemma safe_ack: "alloc_safe cfg used handed f \<Longrightarrow> alloc_safe cfg used {} (lfs_alloc_ack cfg f)"
  by (auto simp: alloc_safe_def lfs_alloc_ack_def window_block_def window_bit_def)

context block_traversal
begin

lemma history_safe:
  assumes "alloc_history cfg traverse good blocks handed f w" "sizes_fit cfg"
  shows "good w \<and> (\<forall>x \<in> set (blocks w) \<union> handed. unat x < unat (block_count cfg)) \<and>
    alloc_safe cfg (unat ` set (blocks w)) (unat ` handed) f"
  using assms(1)
proof induction
  case (mount w f)
  then show ?case using drop_exact [of f cfg "{}"] by (auto simp: alloc_exact_def word_less_nat_alt)
next
  case (alloc handed f w err b f' w')
  then have "alloc_inv False cfg (unat ` set (blocks w)) (unat ` handed) f" by (simp add: alloc_inv_def)
  from alloc_result [OF assms(2) _ refl this] alloc show ?case by (auto simp: alloc_inv_def)
next
  case (change handed f w w')
  have "unat ` set (blocks w') \<subseteq> unat ` set (blocks w) \<union> unat ` handed"
    unfolding image_Un [symmetric] using change(3) by (rule image_mono)
  with change safe_change show ?case by blast
next
  case (ack handed f w)
  then show ?case using safe_ack by auto
qed

end

text \<open>
  Property C9: blocks in use are never handed out.  In every state that mounting, allocating, changing
  the file system and acknowledging can lead to, however often the window moved and whatever stale
  bits it holds, \<open>lfs_alloc\<close> returns, and what it returns is a block of the device that is neither in
  use nor handed out since the last acknowledgement, or the error that there is no space.
\<close>

theorem lfs_alloc_fresh:
  assumes "block_traversal traverse good blocks" and "sizes_fit cfg" and "alloc_history cfg traverse good blocks handed f w"
  shows "\<exists>err b f' w'. lfs_alloc cfg traverse f w = Some (err, b, f', w') \<and>
    ((\<exists>x. err = 0 \<and> b = Some x \<and> x < block_count cfg \<and> x \<notin> set (blocks w) \<union> handed) \<or> (err = LFS_ERR_NOSPC \<and> b = None))"
proof -
  from block_traversal.history_safe [OF assms(1,3,2)] have
    h: "good w" "\<forall>x \<in> set (blocks w). unat x < unat (block_count cfg)" "alloc_inv False cfg (unat ` set (blocks w)) (unat ` handed) f"
    by (simp_all add: alloc_inv_def)
  from block_traversal.alloc_result [OF assms(1,2) h(2) refl h(3,1)] show ?thesis
    by (fastforce simp: word_less_nat_alt)
qed

lemma esp_sizes_fit: "sizes_fit (rambd_config esp_lfs_sizes)"
  by (simp add: sizes_fit_def rambd_config_def esp_lfs_sizes_def)

lemma filled_good: "file_good (rambd_config esp_lfs_sizes) (ram_ok esp_lfs_sizes) (ram_block esp_lfs_sizes) (ram_block esp_lfs_sizes filled_ram)
    (empty_cache, filled_ram)"
  using empty_cache_coherent blank_ram_ok by (simp add: file_good_def ram_ok_def filled_ram_def) (simp add: blank_ram_def)

definition unmounted :: lfs_free where
  "unmounted = \<lparr>free_off = 4, free_size = 9, free_i = 7, free_ack = 1, free_buffer = replicate 4 0\<rparr>"

theorem lfs_alloc_fresh_witness:
  "\<exists>err b f' w'. lfs_alloc (rambd_config esp_lfs_sizes) (file_traverse (rambd_config esp_lfs_sizes) 5 9000)
      (lfs_alloc_drop (rambd_config esp_lfs_sizes) unmounted) (empty_cache, filled_ram) = Some (err, b, f', w') \<and> b \<noteq> Some 5"
proof -
  have "alloc_history (rambd_config esp_lfs_sizes) (file_traverse (rambd_config esp_lfs_sizes) 5 9000)
      (file_good (rambd_config esp_lfs_sizes) (ram_ok esp_lfs_sizes) (ram_block esp_lfs_sizes) (ram_block esp_lfs_sizes filled_ram)) (\<lambda>w. [5, 3])
      {} (lfs_alloc_drop (rambd_config esp_lfs_sizes) unmounted) (empty_cache, filled_ram)"
    by (rule alloc_history.mount, rule filled_good) (simp_all add: unmounted_def rambd_config_def esp_lfs_sizes_def)
  from lfs_alloc_fresh [OF filled.block_traversal_axioms esp_sizes_fit this] show ?thesis by fastforce
qed

text \<open>Allocating again and again, up to the first error.\<close>

fun alloc_times :: "'d lfs_config \<Rightarrow> 'w traverse \<Rightarrow> nat \<Rightarrow> lfs_free \<Rightarrow> 'w \<Rightarrow> u32 list option" where
  "alloc_times cfg traverse 0 f w = Some []"
| "alloc_times cfg traverse (Suc n) f w =
     (case lfs_alloc cfg traverse f w of
        None \<Rightarrow> None
      | Some (err, None, f, w) \<Rightarrow> Some []
      | Some (err, Some x, f, w) \<Rightarrow> map_option ((#) x) (alloc_times cfg traverse n f w))"

lemma looked_at_all:
  assumes "free_ack f = 0" "0 < unat (block_count cfg)"
  shows "looked_at cfg f = {..<unat (block_count cfg)}"
proof -
  let ?b = "unat (block_count cfg)" and ?p = "unat (free_off f) + unat (free_i f)"
  have "x \<in> looked_at cfg f" if "x < ?b" for x
  proof -
    define k where "k = (x + ?b - ?p mod ?b) mod ?b"
    have "?p mod ?b < ?b" using assms(2) by simp
    then have "(?p mod ?b + k) mod ?b = x" using that by (subst window_offset) (simp_all add: k_def)
    then have x: "(?p + k) mod ?b = x" by (simp add: mod_add_left_eq)
    have "k < ?b" using assms(2) by (simp add: k_def)
    then have e: "?p + ?b - (?b - k) = ?p + k" "?b - k \<in> {1..?b}" by auto
    from x have "(?p + ?b - (?b - k)) mod ?b = x" unfolding e(1) .
    with e(2) have "x = (?p + ?b - (?b - k)) mod ?b" "?b - k \<in> {1..?b}" by simp_all
    then show ?thesis unfolding looked_at_def assms(1) unat_0 diff_zero by (rule image_eqI)
  qed
  then show ?thesis using assms(2) by (auto simp: looked_at_def)
qed

context block_traversal
begin

lemma alloc_times_result:
  assumes "sizes_fit cfg"
  shows "\<forall>x \<in> set (blocks w). unat x < unat (block_count cfg) \<Longrightarrow> alloc_exact cfg (unat ` set (blocks w)) handed f \<Longrightarrow> good w \<Longrightarrow>
    handed \<subseteq> {..<unat (block_count cfg)} \<Longrightarrow>
    \<exists>xs. alloc_times cfg traverse n f w = Some xs \<and> distinct xs \<and> set xs \<inter> set (blocks w) = {} \<and> unat ` set xs \<inter> handed = {} \<and>
      (\<forall>x \<in> set xs. unat x < unat (block_count cfg)) \<and>
      length xs = min n (unat (block_count cfg) - card (unat ` set (blocks w) \<union> handed))"
proof (induction n arbitrary: f w handed)
  case (Suc n)
  let ?b = "unat (block_count cfg)" and ?U = "unat ` set (blocks w)"
  have U: "?U \<union> handed \<subseteq> {..<?b}" using Suc.prems(1,4) by auto
  have "alloc_inv True cfg ?U handed f" using Suc.prems(2) by (simp add: alloc_inv_def)
  from alloc_result [OF assms Suc.prems(1) refl this Suc.prems(3)] obtain err b f' w' where
    r: "lfs_alloc cfg traverse f w = Some (err, b, f', w')" "good w'" "blocks w' = blocks w"
      "(\<exists>x. err = 0 \<and> b = Some x \<and> unat x < ?b \<and> unat x \<notin> ?U \<union> handed \<and> alloc_inv True cfg ?U (insert (unat x) handed) f') \<or>
       (err = LFS_ERR_NOSPC \<and> b = None \<and> free_ack f' = 0 \<and> alloc_inv True cfg ?U handed f')" by blast
  from r(4) show ?case
  proof
    assume "\<exists>x. err = 0 \<and> b = Some x \<and> unat x < ?b \<and> unat x \<notin> ?U \<union> handed \<and> alloc_inv True cfg ?U (insert (unat x) handed) f'"
    then obtain x where x: "b = Some x" "unat x < ?b" "unat x \<notin> ?U \<union> handed" "alloc_exact cfg ?U (insert (unat x) handed) f'"
      by (auto simp: alloc_inv_def)
    from Suc.IH [of w' "insert (unat x) handed" f'] Suc.prems r(2,3) x obtain xs where
      xs: "alloc_times cfg traverse n f' w' = Some xs" "distinct xs" "set xs \<inter> set (blocks w) = {}" "unat ` set xs \<inter> insert (unat x) handed = {}"
        "\<forall>x \<in> set xs. unat x < ?b" "length xs = min n (?b - card (?U \<union> insert (unat x) handed))" by auto
    have fin: "finite (?U \<union> handed)" using U finite_subset by blast
    have "insert (unat x) (?U \<union> handed) \<subseteq> {..<?b}" using U x(2) by simp
    from card_mono [OF _ this] have "card (?U \<union> handed) < ?b" using fin x(3) by simp
    moreover have "card (?U \<union> insert (unat x) handed) = Suc (card (?U \<union> handed))" using fin x(3) by simp
    ultimately have "length (x # xs) = min (Suc n) (?b - card (?U \<union> handed))" using xs(6) by simp
    moreover have "x \<notin> set (blocks w)" "x \<notin> set xs" using x(3) xs(4) by auto
    ultimately show ?thesis using r(1) x xs by auto
  next
    assume nospc: "err = LFS_ERR_NOSPC \<and> b = None \<and> free_ack f' = 0 \<and> alloc_inv True cfg ?U handed f'"
    then have "looked_at cfg f' \<subseteq> ?U \<union> handed" by (simp add: alloc_inv_def alloc_exact_def)
    moreover have "looked_at cfg f' = {..<?b}" using nospc assms by (intro looked_at_all) (simp_all add: sizes_fit_def)
    ultimately have "?U \<union> handed = {..<?b}" using U by auto
    then show ?thesis using r(1) nospc by simp
  qed
qed auto

end

text \<open>
  Property C11: every free block can be allocated.  After mounting (the window is dropped, wherever it
  starts), \<open>n\<close> allocations return distinct blocks of the device, none of them in use, and exactly
  \<open>n\<close> of them unless fewer are free; then all free blocks have been returned before the error.
\<close>

theorem lfs_alloc_hands_out_all:
  assumes "block_traversal traverse good blocks" and "sizes_fit cfg" and "good w"
    and "\<forall>x \<in> set (blocks w). x < block_count cfg" and "free_off f < block_count cfg"
  shows "\<exists>xs. alloc_times cfg traverse n (lfs_alloc_drop cfg f) w = Some xs \<and> distinct xs \<and> set xs \<inter> set (blocks w) = {} \<and>
    (\<forall>x \<in> set xs. x < block_count cfg) \<and> length xs = min n (unat (block_count cfg) - card (set (blocks w)))"
proof -
  have "\<forall>x \<in> set (blocks w). unat x < unat (block_count cfg)" using assms(4) by (simp add: word_less_nat_alt)
  from block_traversal.alloc_times_result [OF assms(1,2) this drop_exact [OF assms(5) refl] assms(3)]
  have "\<exists>xs. alloc_times cfg traverse n (lfs_alloc_drop cfg f) w = Some xs \<and> distinct xs \<and> set xs \<inter> set (blocks w) = {} \<and>
    (\<forall>x \<in> set xs. unat x < unat (block_count cfg)) \<and> length xs = min n (unat (block_count cfg) - card (unat ` set (blocks w)))" by simp
  moreover have "card (unat ` set (blocks w)) = card (set (blocks w))" by (rule card_image) (simp add: inj_on_def word_unat_eq_iff)
  ultimately show ?thesis by (simp only: word_less_nat_alt)
qed

theorem lfs_alloc_hands_out_all_witness:
  "\<exists>xs. alloc_times (rambd_config esp_lfs_sizes) (file_traverse (rambd_config esp_lfs_sizes) 5 9000) 200
      (lfs_alloc_drop (rambd_config esp_lfs_sizes) unmounted) (empty_cache, filled_ram) = Some xs \<and> distinct xs \<and> length xs = 126"
proof -
  from lfs_alloc_hands_out_all [OF filled.block_traversal_axioms esp_sizes_fit filled_good, of unmounted 200] show ?thesis
    by (auto simp: unmounted_def rambd_config_def esp_lfs_sizes_def)
qed


text \<open>
  A device of eight blocks under a file system whose blocks in use are listed, for a history in which
  the window is stale: block 0 is allocated and acknowledged while block 1 is free and block 2 is in
  use; then the file in block 2 is deleted and two blocks are allocated, as for a new directory.
\<close>

definition eight_blocks :: "u32 list lfs_config" where
  "eight_blocks = \<lparr>bd_read = (\<lambda>_ _ _ _. None), bd_prog = (\<lambda>_ _ _ _. None), bd_erase = (\<lambda>_ _. None), bd_sync = (\<lambda>_. None),
     read_size = 16, prog_size = 16, block_size = 512, block_count = 8, cache_size = 64, lookahead_size = 8, metadata_max = 0\<rparr>"

definition listed_traverse :: "u32 list traverse" where
  "listed_traverse cb f w = (case visit cb w f of (err, f) \<Rightarrow> Some (err, f, w))"

definition eight_mounted :: lfs_free where
  "eight_mounted = lfs_alloc_drop eight_blocks \<lparr>free_off = 0, free_size = 0, free_i = 0, free_ack = 0, free_buffer = [0, 0]\<rparr>"


end
