(* ===== verification/Lfs_Ctz_Extend.thy ===== *)
theory Lfs_Ctz_Extend
  imports Lfs_Alloc
begin

text \<open>
  Extending a CTZ list by a block (\<open>lfs_ctz_extend\<close> of \<open>lfs.c\<close>): a fresh block becomes the last one, as a
  copy of the last block while that is incomplete, otherwise with pointers to the blocks before.
  Nothing of the old list is written.
\<close>

section \<open>The function\<close>

text \<open>
  The two loops return the error, whether it sends the caller to its label \<open>relocate\<close>, the caches and
  the device.
\<close>

function copy_loop ::
  "'d lfs_config \<Rightarrow> u32 \<Rightarrow> u32 \<Rightarrow> u32 \<Rightarrow> u32 \<Rightarrow> lfs_cache \<Rightarrow> lfs_cache \<Rightarrow> 'd \<Rightarrow> (int \<times> bool \<times> lfs_cache \<times> lfs_cache \<times> 'd) option" where
  "copy_loop cfg nblock head noff i pcache rcache d =
     (if i < noff then
        case lfs_bd_read cfg None rcache (noff - i) head i 1 d of
          None \<Rightarrow> None
        | Some (err, byte, rcache, d) \<Rightarrow>
            if err \<noteq> 0 then Some (err, False, pcache, rcache, d)
            else
              case lfs_bd_prog cfg pcache rcache True nblock i byte d of
                None \<Rightarrow> None
              | Some (err, pcache, rcache, d) \<Rightarrow>
                  if err \<noteq> 0 then Some (err, err = LFS_ERR_CORRUPT, pcache, rcache, d)
                  else copy_loop cfg nblock head noff (i + 1) pcache rcache d
      else Some (0, False, pcache, rcache, d))"
  by pat_completeness auto
termination
  by (relation "measure (\<lambda>(cfg, nblock, head, noff, i, pcache, rcache, d). unat (noff - i))") (simp_all add: index_closer)

function link_loop ::
  "'d lfs_config \<Rightarrow> u32 \<Rightarrow> u32 \<Rightarrow> u32 \<Rightarrow> u32 \<Rightarrow> lfs_cache \<Rightarrow> lfs_cache \<Rightarrow> 'd \<Rightarrow> (int \<times> bool \<times> lfs_cache \<times> lfs_cache \<times> 'd) option" where
  "link_loop cfg nblock skips i nhead pcache rcache d =
     (if i < skips then
        case lfs_bd_prog cfg pcache rcache True nblock (4 * i) (le32_bytes nhead) d of
          None \<Rightarrow> None
        | Some (err, pcache, rcache, d) \<Rightarrow>
            if err \<noteq> 0 then Some (err, err = LFS_ERR_CORRUPT, pcache, rcache, d)
            else if i \<noteq> skips - 1 then
              case lfs_bd_read cfg None rcache 4 nhead (4 * i) 4 d of
                None \<Rightarrow> None
              | Some (err, bytes, rcache, d) \<Rightarrow>
                  if err \<noteq> 0 then Some (err, False, pcache, rcache, d)
                  else link_loop cfg nblock skips (i + 1) (le32_of bytes) pcache rcache d
            else link_loop cfg nblock skips (i + 1) nhead pcache rcache d
      else Some (0, False, pcache, rcache, d))"
  by pat_completeness auto
termination
  by (relation "measure (\<lambda>(cfg, nblock, skips, i, nhead, pcache, rcache, d). unat (skips - i))") (simp_all add: index_closer)

declare copy_loop.simps [simp del] link_loop.simps [simp del]

text \<open>\<open>lfs_alloc\<close> sets the block whenever it returns zero.\<close>

partial_function (option) lfs_ctz_extend ::
  "'d lfs_config \<Rightarrow> (lfs_cache \<times> 'd) traverse \<Rightarrow> u32 \<Rightarrow> u32 \<Rightarrow> lfs_cache \<Rightarrow> lfs_cache \<Rightarrow> lfs_free \<Rightarrow> 'd \<Rightarrow>
     (int \<times> (u32 \<times> u32) option \<times> lfs_cache \<times> lfs_cache \<times> lfs_free \<times> 'd) option" where
  "lfs_ctz_extend cfg traverse head sz pcache rcache f d =
     (case lfs_alloc cfg traverse f (rcache, d) of
        None \<Rightarrow> None
      | Some (err, b, f, rcache, d) \<Rightarrow>
          if err \<noteq> 0 then Some (err, None, pcache, rcache, f, d)
          else
            let nblock = the b
            in case lfs_bd_erase cfg nblock d of
                 None \<Rightarrow> None
               | Some (err, d) \<Rightarrow>
                   if err \<noteq> 0 then
                     if err = LFS_ERR_CORRUPT then lfs_ctz_extend cfg traverse head sz (lfs_cache_drop pcache) rcache f d
                     else Some (err, None, pcache, rcache, f, d)
                   else if sz = 0 then Some (0, Some (nblock, 0), pcache, rcache, f, d)
                   else
                     let (index, noff) = lfs_ctz_index cfg (sz - 1);
                         noff = noff + 1;
                         skips = lfs_ctz (index + 1) + 1
                     in case (if noff \<noteq> block_size cfg then copy_loop cfg nblock head noff 0 pcache rcache d
                              else link_loop cfg nblock skips 0 head pcache rcache d) of
                          None \<Rightarrow> None
                        | Some (err, relocate, pcache, rcache, d) \<Rightarrow>
                            if err \<noteq> 0 then
                              if relocate then lfs_ctz_extend cfg traverse head sz (lfs_cache_drop pcache) rcache f d
                              else Some (err, None, pcache, rcache, f, d)
                            else Some (0, Some (nblock, if noff \<noteq> block_size cfg then noff else 4 * skips), pcache, rcache, f, d))"

section \<open>What the loops write\<close>

context block_device
begin

lemma copy_loop_result:
  assumes u: "ps dvd u" "u dvd cs" and "nblock < block_count cfg" "head < block_count cfg" "head \<noteq> nblock" "unat noff \<le> bs"
  shows "ok d \<Longrightarrow> coherent_but {nblock} cfg (contents d) rc \<Longrightarrow> writing_by u cfg (ready d) p nblock (unat i) \<Longrightarrow> unat i \<le> unat noff \<Longrightarrow>
    \<exists>p' rc' d'. copy_loop cfg nblock head noff i p rc d = Some (0, False, p', rc', d') \<and> ok d' \<and>
      coherent_but {nblock} cfg (contents d') rc' \<and> writing_by u cfg (ready d') p' nblock (unat noff) \<and>
      (\<forall>c. c \<noteq> unat nblock \<longrightarrow> contents d' c = contents d c) \<and>
      (\<forall>j < bs. view (Some p') (contents d') (unat nblock) j =
        (if unat i \<le> j \<and> j < unat noff then contents d (unat head) ! j else view (Some p) (contents d) (unat nblock) j))"
proof (induction "unat noff - unat i" arbitrary: i p rc d rule: less_induct)
  case less
  show ?case
  proof (cases "i < noff")
    case False
    then have "unat i = unat noff" using less.prems(4) by (simp add: word_less_nat_alt)
    with False less.prems show ?thesis by (subst copy_loop.simps) auto
  next
    case True
    then have lt: "unat i < unat noff" by (simp add: word_less_nat_alt)
    then have i1: "unat (i + 1) = Suc (unat i)" by (rule Suc_index)
    have h: "unat (noff - i) = unat noff - unat i" using lt by (intro unat_sub_le) simp
    have hn: "head \<notin> {nblock}" using assms(5) by simp
    have r: "pcache_wf cfg None" "0 < unat (noff - i)" "unat (noff - i) \<le> bs" "unat i + unat (1 :: u32) \<le> bs"
      using lt assms(6) by (simp_all add: pcache_wf_def h)
    from bd_read_view [OF assms(4) r(1-3) less.prems(1,2) r(4) hn] obtain rc1 d1 where
      rd: "lfs_bd_read cfg None rc (noff - i) head i 1 d = Some (0, [contents d (unat head) ! unat i], rc1, d1)" "same d d1"
        "coherent_but {nblock} cfg (contents d) rc1" by (auto simp: view_def)
    have w: "writing_by u cfg (ready d1) p nblock (unat i)" "coherent_but {nblock} cfg (contents d1) rc1" "ok d1"
      "unat i + length [contents d (unat head) ! unat i] \<le> bs"
      using rd less.prems(3) r(4) by simp_all
    from bd_prog_view [OF u assms(3) w(3,2) _ w(1,4), of True] obtain p2 rc2 d2 where
      pr: "lfs_bd_prog cfg p rc1 True nblock i [contents d (unat head) ! unat i] d1 = Some (0, p2, rc2, d2)" "ok d2"
        "coherent_but {nblock} cfg (contents d2) rc2" "writing_by u cfg (ready d2) p2 nblock (unat (i + 1))"
        "\<forall>c. c \<noteq> unat nblock \<longrightarrow> contents d2 c = contents d c"
        "\<forall>j < bs. view (Some p2) (contents d2) (unat nblock) j =
          (if j = unat i then contents d (unat head) ! j else view (Some p) (contents d) (unat nblock) j)"
      using rd(2) by (auto simp: i1 less_Suc_eq le_less)
    have m: "unat noff - unat (i + 1) < unat noff - unat i" "unat (i + 1) \<le> unat noff" using lt i1 by simp_all
    from less.hyps [OF m(1) pr(2-4) m(2)] obtain p' rc' d' where
      rest: "copy_loop cfg nblock head noff (i + 1) p2 rc2 d2 = Some (0, False, p', rc', d')" "ok d'"
        "coherent_but {nblock} cfg (contents d') rc'" "writing_by u cfg (ready d') p' nblock (unat noff)"
        "\<forall>c. c \<noteq> unat nblock \<longrightarrow> contents d' c = contents d2 c"
        "\<forall>j < bs. view (Some p') (contents d') (unat nblock) j =
          (if unat (i + 1) \<le> j \<and> j < unat noff then contents d2 (unat head) ! j else view (Some p2) (contents d2) (unat nblock) j)" by blast
    have "contents d2 (unat head) = contents d (unat head)" using pr(5) assms(5) by (simp add: word_unat_eq_iff)
    then have "\<forall>j < bs. view (Some p') (contents d') (unat nblock) j =
        (if unat i \<le> j \<and> j < unat noff then contents d (unat head) ! j else view (Some p) (contents d) (unat nblock) j)"
      using rest(6) pr(6) lt by (auto simp: i1 Suc_le_eq le_less)
    moreover have "copy_loop cfg nblock head noff i p rc d = Some (0, False, p', rc', d')"
      using True rd(1) pr(1) rest(1) by (subst copy_loop.simps) simp
    ultimately show ?thesis using rest(2-5) pr(5) by auto
  qed
qed

end


lemma dvd_zeros: "2 ^ Suc k dvd m \<Longrightarrow> 0 < m \<Longrightarrow> k \<le> zeros (m - 2 ^ k) \<and> 2 ^ k < m" for m :: nat
proof -
  assume d: "2 ^ Suc k dvd m" and m: "0 < m"
  then have le: "2 ^ Suc k \<le> m" by (rule dvd_imp_le)
  then have lt: "2 ^ k < m" by (simp add: less_le_trans [of "2 ^ k" "2 * 2 ^ k"])
  have "2 ^ k dvd m" using d by (rule dvd_trans [rotated]) simp
  then have "2 ^ k dvd m - 2 ^ k" by (simp add: dvd_diff_nat)
  then have "k \<le> zeros (m - 2 ^ k)" using lt by (intro zeros_greatest) simp_all
  with lt show ?thesis by simp
qed

lemma upt_four: "[a..<a + 4] = [a, a + 1, a + 2, a + 3]"
  by (simp add: upt_rec numeral_eq_Suc)

lemma ctz_list_cong: "ctz_list cfg v bl n \<Longrightarrow> (\<And>i. i \<le> n \<Longrightarrow> v' (unat (bl i)) = v (unat (bl i))) \<Longrightarrow> ctz_list cfg v' bl n"
  unfolding ctz_list_def by simp

lemma view_None: "mem' b = mem b \<Longrightarrow> view None mem' b = view None mem b"
  by (simp add: view_def fun_eq_iff)

context block_device
begin

text \<open>The pointers of block \<open>m\<close>: the \<open>k\<close>-th is the block \<open>m - 2 ^ k\<close> of the list.\<close>

lemma link_loop_result:
  assumes u: "ps dvd u" "u dvd cs" and "nblock < block_count cfg" "nblock \<notin> bl ` {0..n}" "unat skips = zeros (Suc n) + 1" "ptr_bytes (Suc n) \<le> bs"
    and "\<And>i. i \<le> n \<Longrightarrow> ptr_bytes i \<le> bs"
  shows "ok d \<Longrightarrow> coherent_but {nblock} cfg (contents d) rc \<Longrightarrow> writing_by u cfg (ready d) p nblock (4 * unat i) \<Longrightarrow> unat i \<le> unat skips \<Longrightarrow>
    ctz_list cfg (view None (contents d)) bl n \<Longrightarrow>
    (\<forall>k < unat i. le32_of (map (view (Some p) (contents d) (unat nblock)) [4 * k..<4 * k + 4]) = bl (Suc n - 2 ^ k)) \<Longrightarrow>
    (unat i < unat skips \<longrightarrow> nhead = bl (Suc n - 2 ^ unat i)) \<Longrightarrow>
    \<exists>p' rc' d'. link_loop cfg nblock skips i nhead p rc d = Some (0, False, p', rc', d') \<and> ok d' \<and>
      coherent_but {nblock} cfg (contents d') rc' \<and> writing_by u cfg (ready d') p' nblock (4 * unat skips) \<and>
      (\<forall>c. c \<noteq> unat nblock \<longrightarrow> contents d' c = contents d c) \<and>
      (\<forall>k < unat skips. le32_of (map (view (Some p') (contents d') (unat nblock)) [4 * k..<4 * k + 4]) = bl (Suc n - 2 ^ k))"
proof (induction "unat skips - unat i" arbitrary: i nhead p rc d rule: less_induct)
  case less
  show ?case
  proof (cases "i < skips")
    case False
    then have "unat i = unat skips" using less.prems(4) by (simp add: word_less_nat_alt)
    with False less.prems show ?thesis by (subst link_loop.simps) auto
  next
    case True
    then have lt: "unat i < unat skips" by (simp add: word_less_nat_alt)
    note i1 = Suc_index [OF lt]
    have B: "4 * unat skips \<le> bs" using assms(5,6) by (simp add: ptr_bytes_def)
    then have u4: "unat (4 * i) = 4 * unat i" using lt sizes(8) by (simp add: unat_mult_u32)
    have nh: "nhead = bl (Suc n - 2 ^ unat i)" using less.prems(7) lt by blast
    have w: "writing_by u cfg (ready d) p nblock (unat (4 * i))" "unat (4 * i) + length (le32_bytes nhead) \<le> bs"
      using less.prems(3) B lt by (simp_all add: u4)
    from bd_prog_view [OF u assms(3) less.prems(1,2) _ w, of True, unfolded u4 length_le32_bytes] obtain p2 rc2 d2 where
      pr: "lfs_bd_prog cfg p rc True nblock (4 * i) (le32_bytes nhead) d = Some (0, p2, rc2, d2)" "ok d2"
        "coherent_but {nblock} cfg (contents d2) rc2" "writing_by u cfg (ready d2) p2 nblock (4 * unat i + 4)"
        "\<forall>c. c \<noteq> unat nblock \<longrightarrow> contents d2 c = contents d c \<and> (\<forall>i. ready d c i \<longrightarrow> ready d2 c i)"
        "\<forall>j < bs. view (Some p2) (contents d2) (unat nblock) j =
          (if 4 * unat i \<le> j \<and> j < 4 * unat i + 4 then le32_bytes nhead ! (j - 4 * unat i) else view (Some p) (contents d) (unat nblock) j)"
      by blast
    have w2: "writing_by u cfg (ready d2) p2 nblock (4 * unat (i + 1))" using pr(4) unfolding i1 mult_Suc_right by (simp only: add.commute)
    have new: "map (view (Some p2) (contents d2) (unat nblock)) [4 * unat i..<4 * unat i + 4] = le32_bytes nhead"
      using pr(6) B lt by (intro nth_equalityI) auto
    have old: "map (view (Some p2) (contents d2) (unat nblock)) [4 * k..<4 * k + 4] =
        map (view (Some p) (contents d) (unat nblock)) [4 * k..<4 * k + 4]" if "k < unat i" for k
      using pr(6) that B lt by (intro map_cong) auto
    have ptrs: "\<forall>k < unat (i + 1). le32_of (map (view (Some p2) (contents d2) (unat nblock)) [4 * k..<4 * k + 4]) = bl (Suc n - 2 ^ k)"
    proof (intro allI impI)
      fix k assume "k < unat (i + 1)"
      then consider "k < unat i" | "k = unat i" using i1 by linarith
      then show "le32_of (map (view (Some p2) (contents d2) (unat nblock)) [4 * k..<4 * k + 4]) = bl (Suc n - 2 ^ k)"
      proof cases
        case 1
        with less.prems(6) show ?thesis by (simp only: old)
      next
        case 2
        with nh show ?thesis by (simp only: new le32_of_bytes)
      qed
    qed
    have others: "contents d2 (unat (bl j)) = contents d (unat (bl j))" if "j \<le> n" for j
    proof -
      have "bl j \<noteq> nblock" using assms(4) that by auto
      then show ?thesis using pr(5) by (simp add: word_unat_eq_iff)
    qed
    have list: "ctz_list cfg (view None (contents d2)) bl n"
      using less.prems(5) by (rule ctz_list_cong) (rule view_None, rule others)
    have m: "unat skips - unat (i + 1) < unat skips - unat i" "unat (i + 1) \<le> unat skips" using lt i1 by simp_all
    show ?thesis
    proof (cases "i = skips - 1")
      case True
      then have last: "unat (i + 1) = unat skips" by simp
      then have "i + 1 = skips" by (simp add: word_unat_eq_iff)
      have "link_loop cfg nblock skips i nhead p rc d = Some (0, False, p2, rc2, d2)"
        using \<open>i < skips\<close> pr(1) True by (subst link_loop.simps) (simp, subst link_loop.simps, simp)
      then show ?thesis using pr(2,3,5) w2 ptrs unfolding last by auto
    next
      case False
      then have "i + 1 \<noteq> skips" by (auto simp: algebra_simps)
      then have "unat (i + 1) \<noteq> unat skips" by (simp add: word_unat_eq_iff)
      then have lt1: "Suc (unat i) < unat skips" using m(2) i1 by simp
      then have "Suc (unat i) \<le> zeros (Suc n)" using assms(5) by simp
      then have "2 ^ Suc (unat i) dvd (2 :: nat) ^ zeros (Suc n)" by (rule le_imp_power_dvd)
      then have "2 ^ Suc (unat i) dvd Suc n" using power_zeros_dvd by (rule dvd_trans)
      from dvd_zeros [OF this] have z: "unat i \<le> zeros (Suc n - 2 ^ unat i)" "2 ^ unat i < Suc n" by simp_all
      moreover have "(1 :: nat) \<le> 2 ^ unat i" by simp
      ultimately have idx: "0 < Suc n - 2 ^ unat i" "Suc n - 2 ^ unat i \<le> n" by linarith+
      have nb: "bl (Suc n - 2 ^ unat i) \<notin> {nblock}" using assms(4) idx(2) by auto
      have "pcache_wf cfg None" by (simp add: pcache_wf_def)
      from ptr_read [OF this pr(2,3) list idx z(1) assms(7) [OF idx(2)] nb] obtain bytes rc3 d3 where
        rd: "lfs_bd_read cfg None rc2 4 nhead (4 * i) 4 d2 = Some (0, bytes, rc3, d3)" "le32_of bytes = bl (Suc n - 2 ^ unat i - 2 ^ unat i)"
          "same d2 d3" "coherent_but {nblock} cfg (contents d2) rc3" unfolding nh by blast
      have next_ptr: "le32_of bytes = bl (Suc n - 2 ^ unat (i + 1))" using rd(2) by (simp add: i1 mult_2)
      have w3: "ok d3" "coherent_but {nblock} cfg (contents d3) rc3" "writing_by u cfg (ready d3) p2 nblock (4 * unat (i + 1))"
        "ctz_list cfg (view None (contents d3)) bl n"
        "\<forall>k < unat (i + 1). le32_of (map (view (Some p2) (contents d3) (unat nblock)) [4 * k..<4 * k + 4]) = bl (Suc n - 2 ^ k)"
        using rd(3,4) w2 list ptrs by simp_all
      have "unat (i + 1) < unat skips \<longrightarrow> le32_of bytes = bl (Suc n - 2 ^ unat (i + 1))" using next_ptr by simp
      from less.hyps [OF m(1) w3(1-3) m(2) w3(4,5) this] obtain p' rc' d' where
        rest: "link_loop cfg nblock skips (i + 1) (le32_of bytes) p2 rc3 d3 = Some (0, False, p', rc', d')" "ok d'"
          "coherent_but {nblock} cfg (contents d') rc'" "writing_by u cfg (ready d') p' nblock (4 * unat skips)"
          "\<forall>c. c \<noteq> unat nblock \<longrightarrow> contents d' c = contents d3 c"
          "\<forall>k < unat skips. le32_of (map (view (Some p') (contents d') (unat nblock)) [4 * k..<4 * k + 4]) = bl (Suc n - 2 ^ k)" by blast
      have "link_loop cfg nblock skips i nhead p rc d = Some (0, False, p', rc', d')"
        using \<open>i < skips\<close> False pr(1) rd(1) rest(1) by (subst link_loop.simps) simp
      then show ?thesis using rest(2-6) pr(5) rd(3) by auto
    qed
  qed
qed

end


section \<open>The extended list\<close>

text \<open>
  A list whose last block is written up to the offset \<open>off\<close>, possibly with no data yet; the next byte of
  the file goes there.
\<close>

definition ctz_bytes :: "'d lfs_config \<Rightarrow> (nat \<Rightarrow> nat \<Rightarrow> u8) \<Rightarrow> (nat \<Rightarrow> u32) \<Rightarrow> nat \<Rightarrow> u8 list \<Rightarrow> bool" where
  "ctz_bytes cfg v bl n bytes \<longleftrightarrow>
     (\<forall>i \<le> n. \<forall>j. ptr_bytes i \<le> j \<and> j < unat (block_size cfg) \<and>
        data_before (unat (block_size cfg)) i + (j - ptr_bytes i) < length bytes \<longrightarrow>
        v (unat (bl i)) j = bytes ! (data_before (unat (block_size cfg)) i + (j - ptr_bytes i)))"

definition ctz_open :: "'d lfs_config \<Rightarrow> (nat \<Rightarrow> nat \<Rightarrow> u8) \<Rightarrow> (nat \<Rightarrow> u32) \<Rightarrow> nat \<Rightarrow> nat \<Rightarrow> u8 list \<Rightarrow> bool" where
  "ctz_open cfg v bl n off bytes \<longleftrightarrow> ctz_list cfg v bl n \<and> ctz_bytes cfg v bl n bytes \<and>
     data_before (unat (block_size cfg)) n \<le> length bytes \<and> length bytes \<le> data_before (unat (block_size cfg)) (Suc n) \<and>
     off = ptr_bytes n + (length bytes - data_before (unat (block_size cfg)) n)"

lemma ctz_file_open: "ctz_file cfg v bl n bytes \<longleftrightarrow>
    ctz_open cfg v bl n (ptr_bytes n + (length bytes - data_before (unat (block_size cfg)) n)) bytes \<and>
    data_before (unat (block_size cfg)) n < length bytes"
  by (auto simp: ctz_file_def ctz_open_def ctz_bytes_def)

lemma data_before_step: "ptr_bytes n \<le> B \<Longrightarrow> data_before B (Suc n) = data_before B n + (B - ptr_bytes n)"
  by (simp add: data_before_def)

lemma ctz_list_bound: "ctz_list cfg v bl n \<Longrightarrow> i \<le> n \<Longrightarrow> bl i < block_count cfg"
  by (simp add: ctz_list_def)

lemma ctz_listD: "ctz_list cfg v bl n \<Longrightarrow> i \<le> n \<Longrightarrow> 0 < i \<Longrightarrow> k \<le> zeros i \<Longrightarrow>
    le32_of (map (v (unat (bl i))) [4 * k..<4 * k + 4]) = bl (i - 2 ^ k)"
  by (simp add: ctz_list_def)

text \<open>Exchanging the last block of a list for another one with the same bytes.\<close>

lemma ctz_list_replace:
  assumes "ctz_list cfg v bl n" "b < block_count cfg" "\<And>i. i < n \<Longrightarrow> v' (unat (bl i)) = v (unat (bl i))"
    and "\<And>j. j < ptr_bytes n \<Longrightarrow> v' (unat b) j = v (unat (bl n)) j"
  shows "ctz_list cfg v' (bl(n := b)) n"
  unfolding ctz_list_def
proof (intro allI impI conjI)
  fix i assume i: "i \<le> n"
  show "(bl(n := b)) i < block_count cfg" using assms(1,2) i by (simp add: ctz_list_def)
  fix k assume k: "k \<le> zeros i" "0 < i"
  have "(1 :: nat) \<le> 2 ^ k" by simp
  then have "i - 2 ^ k \<noteq> n" using i k(2) by linarith
  then have r: "(bl(n := b)) (i - 2 ^ k) = bl (i - 2 ^ k)" by simp
  show "le32_of (map (v' (unat ((bl(n := b)) i))) [4 * k..<4 * k + 4]) = (bl(n := b)) (i - 2 ^ k)"
  proof (cases "i = n")
    case True
    have "map (v' (unat b)) [4 * k..<4 * k + 4] = map (v (unat (bl n))) [4 * k..<4 * k + 4]"
      using k True by (intro map_cong [OF refl] assms(4)) (auto simp: ptr_bytes_def)
    with ctz_listD [OF assms(1) i k(2,1)] True r show ?thesis by (simp only: fun_upd_same)
  next
    case False
    with i have "i < n" by simp
    with ctz_listD [OF assms(1) i k(2,1)] r show ?thesis by (simp only: assms(3) fun_upd_other [OF False])
  qed
qed

text \<open>Adding a block whose pointers are right.\<close>

lemma ctz_list_extend:
  assumes "ctz_list cfg v bl n" "b < block_count cfg" "\<And>i. i \<le> n \<Longrightarrow> v' (unat (bl i)) = v (unat (bl i))"
    and "\<And>k. k \<le> zeros (Suc n) \<Longrightarrow> le32_of (map (v' (unat b)) [4 * k..<4 * k + 4]) = bl (Suc n - 2 ^ k)"
  shows "ctz_list cfg v' (bl(Suc n := b)) (Suc n)"
  unfolding ctz_list_def
proof (intro allI impI conjI)
  fix i assume i: "i \<le> Suc n"
  show "(bl(Suc n := b)) i < block_count cfg" using assms(1,2) i by (auto simp: ctz_list_def)
  fix k assume k: "k \<le> zeros i" "0 < i"
  have "(1 :: nat) \<le> 2 ^ k" by simp
  then have "i - 2 ^ k \<noteq> Suc n" using i k(2) by linarith
  then have r: "(bl(Suc n := b)) (i - 2 ^ k) = bl (i - 2 ^ k)" by simp
  show "le32_of (map (v' (unat ((bl(Suc n := b)) i))) [4 * k..<4 * k + 4]) = (bl(Suc n := b)) (i - 2 ^ k)"
  proof (cases "i = Suc n")
    case True
    with assms(4) k(1) r show ?thesis by (simp only: fun_upd_same)
  next
    case False
    with i have "i \<le> n" by simp
    with ctz_listD [OF assms(1) _ k(2,1)] r show ?thesis by (simp only: assms(3) fun_upd_other [OF False])
  qed
qed

lemma ctz_bytes_replace:
  assumes "ctz_bytes cfg v bl n bytes" "\<And>i. i < n \<Longrightarrow> v' (unat (bl i)) = v (unat (bl i))"
    and "\<And>j. ptr_bytes n \<le> j \<Longrightarrow> data_before (unat (block_size cfg)) n + (j - ptr_bytes n) < length bytes \<Longrightarrow>
      v' (unat b) j = v (unat (bl n)) j"
  shows "ctz_bytes cfg v' (bl(n := b)) n bytes"
  unfolding ctz_bytes_def
proof (intro allI impI)
  fix i j assume i: "i \<le> n" and j: "ptr_bytes i \<le> j \<and> j < unat (block_size cfg) \<and>
    data_before (unat (block_size cfg)) i + (j - ptr_bytes i) < length bytes"
  have old: "v (unat (bl i)) j = bytes ! (data_before (unat (block_size cfg)) i + (j - ptr_bytes i))"
    using assms(1) i j unfolding ctz_bytes_def by blast
  show "v' (unat ((bl(n := b)) i)) j = bytes ! (data_before (unat (block_size cfg)) i + (j - ptr_bytes i))"
  proof (cases "i = n")
    case True
    then have "v' (unat b) j = v (unat (bl n)) j" using assms(3) j by blast
    with old True show ?thesis by (simp only: fun_upd_same)
  next
    case False
    with i assms(2) old show ?thesis by simp
  qed
qed

lemma ctz_bytes_extend:
  assumes "ctz_bytes cfg v bl n bytes" "\<And>i. i \<le> n \<Longrightarrow> v' (unat (bl i)) = v (unat (bl i))"
    and "length bytes \<le> data_before (unat (block_size cfg)) (Suc n)"
  shows "ctz_bytes cfg v' (bl(Suc n := b)) (Suc n) bytes"
  unfolding ctz_bytes_def
proof (intro allI impI)
  fix i j assume i: "i \<le> Suc n" and j: "ptr_bytes i \<le> j \<and> j < unat (block_size cfg) \<and>
    data_before (unat (block_size cfg)) i + (j - ptr_bytes i) < length bytes"
  show "v' (unat ((bl(Suc n := b)) i)) j = bytes ! (data_before (unat (block_size cfg)) i + (j - ptr_bytes i))"
  proof (cases "i = Suc n")
    case True
    have "data_before (unat (block_size cfg)) i < length bytes" using j by linarith
    with assms(3) True show ?thesis by simp
  next
    case False
    with i have n: "i \<le> n" by simp
    then have "v (unat (bl i)) j = bytes ! (data_before (unat (block_size cfg)) i + (j - ptr_bytes i))"
      using assms(1) j unfolding ctz_bytes_def by blast
    then show ?thesis unfolding fun_upd_other [OF False] assms(2) [OF n] .
  qed
qed

lemma view_None_nth: "view None mem b j = mem b ! j"
  by (simp add: view_def)

context block_device
begin

lemma old_blocks:
  assumes "writing_by u cfg rdy p b a" "\<forall>c. c \<noteq> unat b \<longrightarrow> mem' c = mem c" "b \<notin> bl ` {0..n}" "bl j < block_count cfg" "(j :: nat) \<le> n"
  shows "view (Some p) mem' (unat (bl j)) = view None mem (unat (bl j))"
proof -
  have "bl j \<in> bl ` {0..n}" using assms(5) by (intro imageI) simp
  with assms(3) have ne: "bl j \<noteq> b" by metis
  then have "mem' (unat (bl j)) = mem (unat (bl j))" using assms(2) by (simp add: word_unat_eq_iff)
  then show ?thesis unfolding view_other [OF assms(1) ne assms(4)] by (rule view_None)
qed

lemma extend_result:
  assumes u: "ps dvd u" "u dvd cs" and al: "lfs_alloc cfg traverse f (rc, d) = Some (0, Some nblock, f1, rc1, d1)" "ok d1" "contents d1 = mem" "coherent cfg mem rc1"
      "nblock < block_count cfg"
    and sz: "112 \<le> bs" "unat sz = length bytes" "unat sz \<le> 2147483647"
    and old: "sz \<noteq> 0 \<Longrightarrow> ctz_file cfg (view None mem) bl n bytes \<and> head = bl n \<and> nblock \<notin> bl ` {0..n}"
    and p: "cache_block p = LFS_BLOCK_NULL" "length (cache_buffer p) = cs"
  shows "\<exists>i off p' rc' d'. lfs_ctz_extend cfg traverse head sz p rc f d = Some (0, Some (nblock, off), p', rc', f1, d') \<and>
    ok d' \<and> coherent_but {nblock} cfg (contents d') rc' \<and> writing_by u cfg (ready d') p' nblock (unat off) \<and>
    (\<forall>c. c \<noteq> unat nblock \<longrightarrow> contents d' c = mem c) \<and> lfs_ctz_index cfg sz = (i, off) \<and>
    ctz_open cfg (view (Some p') (contents d')) (bl(unat i := nblock)) (unat i) (unat off) bytes"
proof -
  obtain d2 where er: "bd_erase cfg nblock d1 = Some (0, d2)" "ok d2" "\<forall>c. c \<noteq> unat nblock \<longrightarrow> contents d2 c = mem c"
    "\<forall>i. ready d2 (unat nblock) i \<longleftrightarrow> i < bs" using dev_erase [OF al(2,5)] al(3) by auto
  have erase: "lfs_bd_erase cfg nblock d1 = Some (0, d2)" using er(1) al(5) by (simp add: lfs_bd_erase_def not_le)
  have w0: "writing_by u cfg (ready d2) p nblock 0" using p er(4) by (intro writing_empty) simp_all
  have co: "coherent_but {nblock} cfg (contents d2) rc1"
    using al(4) er(3) by (simp add: coherent_but_def word_unat_eq_iff)
  show ?thesis
  proof (cases "sz = 0")
    case True
    have "lfs_ctz_index cfg sz = (0, 0)" by (simp add: True lfs_ctz_index_def)
    moreover have "lfs_ctz_extend cfg traverse head sz p rc f d = Some (0, Some (nblock, 0), p, rc1, f1, d2)"
      using al(1) erase True by (subst lfs_ctz_extend.simps) (simp add: Let_def)
    moreover have "bytes = []" using True sz(2) by simp
    then have "ctz_open cfg (view (Some p) (contents d2)) (bl(0 := nblock)) 0 0 bytes"
      using al(5) by (simp add: ctz_open_def ctz_list_def ctz_bytes_def ptr_bytes_def)
    ultimately show ?thesis using er(2,3) co w0 by auto
  next
    case False
    from old [OF False] have o: "ctz_file cfg (view None mem) bl n bytes" "head = bl n" "nblock \<notin> bl ` {0..n}" by simp_all
    note last = ctz_last_index [OF o(1) sz]
    let ?N = "data_before bs"
    have f: "ctz_list cfg (view None mem) bl n" "ctz_bytes cfg (view None mem) bl n bytes" "?N n < unat sz" "unat sz \<le> ?N (Suc n)"
      using o(1) unfolding ctz_file_open ctz_open_def sz(2) by blast+
    have hd: "head < block_count cfg" "head \<noteq> nblock" using ctz_list_bound [OF f(1)] o(2,3) by auto
    have room: "roomy bs (unat sz)" "roomy bs (unat (sz - 1))"
      using sz unat_minus_one [OF False] by (auto intro!: roomy_112)
    have pn: "ptr_bytes n \<le> bs" using last(3) by simp
    have step: "?N (Suc n) = ?N n + (bs - ptr_bytes n)" by (rule data_before_step [OF pn])
    obtain index noff0 where ix: "lfs_ctz_index cfg (sz - 1) = (index, noff0)" by (cases "lfs_ctz_index cfg (sz - 1)")
    have index: "unat index = n" using last(1) ix by simp
    from lfs_ctz_index_data [OF room(2)] ix index have "unat noff0 = unat (sz - 1) - ?N n + ptr_bytes n" by auto
    then have n0: "unat noff0 + 1 = unat sz - ?N n + ptr_bytes n" using f(3) unat_minus_one [OF False] by simp
    have nb: "unat sz - ?N n + ptr_bytes n \<le> bs" using f(4) step pn by linarith
    define noff where "noff = noff0 + 1"
    have "unat noff0 + unat (1 :: u32) < 4294967296" using n0 nb sizes(8) by simp
    then have noff: "unat noff = unat sz - ?N n + ptr_bytes n" unfolding noff_def using n0 by (subst unat_add_u32) simp_all
    define skips where "skips = lfs_ctz (index + 1) + 1"
    have body: "lfs_ctz_extend cfg traverse head sz p rc f d =
        (case (if noff \<noteq> block_size cfg then copy_loop cfg nblock head noff 0 p rc1 d2 else link_loop cfg nblock skips 0 head p rc1 d2) of
           None \<Rightarrow> None
         | Some (err, relocate, pcache, rcache, d) \<Rightarrow>
             if err \<noteq> 0 then
               if relocate then lfs_ctz_extend cfg traverse head sz (lfs_cache_drop pcache) rcache f1 d
               else Some (err, None, pcache, rcache, f1, d)
             else Some (0, Some (nblock, if noff \<noteq> block_size cfg then noff else 4 * skips), pcache, rcache, f1, d))"
      using al(1) erase False ix by (subst lfs_ctz_extend.simps) (simp add: Let_def noff_def skips_def cong: option.case_cong prod.case_cong if_cong)
    from lfs_ctz_index_data [OF room(1)] obtain i off where io: "lfs_ctz_index cfg sz = (i, off)" "?N (unat i) \<le> unat sz"
      "unat sz < ?N (Suc (unat i))" "unat off = unat sz - ?N (unat i) + ptr_bytes (unat i)" by blast
    show ?thesis
    proof (cases "noff = block_size cfg")
      case False
      then have lt: "unat noff < bs" using nb noff by (auto simp: word_unat_eq_iff)
      then have i: "unat i = n" using f(3) noff step by (intro data_before_unique [OF io(2,3)]) linarith+
      with io(4) noff have off: "off = noff" by (simp add: word_unat_eq_iff)
      have w: "writing_by u cfg (ready d2) p nblock (unat (0 :: u32))" "unat (0 :: u32) \<le> unat noff" "unat noff \<le> bs" using w0 lt by simp_all
      from copy_loop_result [OF u al(5) hd w(3) er(2) co w(1,2)] obtain p' rc' d' where
        c: "copy_loop cfg nblock head noff 0 p rc1 d2 = Some (0, False, p', rc', d')" "ok d'" "coherent_but {nblock} cfg (contents d') rc'"
          "writing_by u cfg (ready d') p' nblock (unat noff)" "\<forall>c. c \<noteq> unat nblock \<longrightarrow> contents d' c = contents d2 c"
          "\<forall>j < bs. view (Some p') (contents d') (unat nblock) j =
            (if unat (0 :: u32) \<le> j \<and> j < unat noff then contents d2 (unat head) ! j else view (Some p) (contents d2) (unat nblock) j)" by blast
      have kept: "\<forall>c. c \<noteq> unat nblock \<longrightarrow> contents d' c = mem c" using c(5) er(3) by simp
      have head: "contents d2 (unat head) = mem (unat (bl n))" using er(3) hd(2) o(2) by (simp add: word_unat_eq_iff)
      have new: "view (Some p') (contents d') (unat nblock) j = view None mem (unat (bl n)) j" if "j < unat noff" for j
        using c(6) that lt head by (simp add: view_None_nth)
      have same: "view (Some p') (contents d') (unat (bl j)) = view None mem (unat (bl j))" if "j \<le> n" for j
        by (rule old_blocks [OF c(4) kept o(3) ctz_list_bound [OF f(1) that] that])
      have "ctz_list cfg (view (Some p') (contents d')) (bl(n := nblock)) n"
        using same new noff by (intro ctz_list_replace [OF f(1) al(5)]) simp_all
      moreover have "ctz_bytes cfg (view (Some p') (contents d')) (bl(n := nblock)) n bytes"
      proof (rule ctz_bytes_replace [OF f(2)])
        show "view (Some p') (contents d') (unat (bl j)) = view None mem (unat (bl j))" if "j < n" for j using same that by simp
        show "view (Some p') (contents d') (unat nblock) j = view None mem (unat (bl n)) j"
          if "ptr_bytes n \<le> j" "?N n + (j - ptr_bytes n) < length bytes" for j
          using that noff sz(2) f(3) by (intro new) linarith
      qed
      ultimately have "ctz_open cfg (view (Some p') (contents d')) (bl(n := nblock)) n (unat noff) bytes"
        using f(3,4) noff sz(2) by (simp add: ctz_open_def)
      moreover have "lfs_ctz_extend cfg traverse head sz p rc f d = Some (0, Some (nblock, off), p', rc', f1, d')"
        unfolding body using False c(1) off by simp
      ultimately show ?thesis using c(2-4) kept io(1) i off by auto
    next
      case True
      then have "unat noff = bs" by simp
      then have full: "unat sz = ?N (Suc n)" using noff step f(3) pn by linarith
      have pn1: "ptr_bytes (Suc n) + 12 \<le> bs" using full by (intro roomy_ptr_bytes_12 [OF room(1)]) simp
      then have "?N (Suc n) < ?N (Suc (Suc n))" using data_before_step [of "Suc n" bs] by simp
      then have i: "unat i = Suc n" using full by (intro data_before_unique [OF io(2,3)]) simp_all
      have "index + 1 \<noteq> 0" "unat (index + 1) = Suc n"
      proof -
        have "unat i < 4294967296" by simp
        then have "unat index + unat (1 :: u32) < 4294967296" using i index by simp
        then show "unat (index + 1) = Suc n" using index by (subst unat_add_u32) simp_all
        then show "index + 1 \<noteq> 0" by auto
      qed
      then have z: "unat (lfs_ctz (index + 1)) = zeros (Suc n)" by (simp add: unat_lfs_ctz)
      have zb: "4 * (zeros (Suc n) + 1) + 12 \<le> bs" using pn1 by (simp add: ptr_bytes_def)
      then have "unat (lfs_ctz (index + 1)) + unat (1 :: u32) < 4294967296" using sizes(8) z by simp
      then have skips: "unat skips = zeros (Suc n) + 1" unfolding skips_def using z by (subst unat_add_u32) simp_all
      then have s4: "unat (4 * skips) = ptr_bytes (Suc n)" using zb sizes(8) by (simp add: unat_mult_u32 ptr_bytes_def)
      then have off: "off = 4 * skips" using io(4) i full by (simp add: word_unat_eq_iff)
      have list: "ctz_list cfg (view None (contents d2)) bl n"
      proof (rule ctz_list_cong [OF f(1)])
        fix j assume j: "j \<le> n"
        have "bl j \<in> bl ` {0..n}" using j by (intro imageI) simp
        with o(3) have "bl j \<noteq> nblock" by metis
        then show "view None (contents d2) (unat (bl j)) = view None mem (unat (bl j))"
          using er(3) by (intro view_None) (simp add: word_unat_eq_iff)
      qed
      have w: "writing_by u cfg (ready d2) p nblock (4 * unat (0 :: u32))" "unat (0 :: u32) \<le> unat skips" "ptr_bytes (Suc n) \<le> bs"
        using w0 pn1 by simp_all
      have "\<forall>k < unat (0 :: u32). le32_of (map (view (Some p) (contents d2) (unat nblock)) [4 * k..<4 * k + 4]) = bl (Suc n - 2 ^ k)"
        "unat (0 :: u32) < unat skips \<longrightarrow> head = bl (Suc n - 2 ^ unat (0 :: u32))" using o(2) by simp_all
      from link_loop_result [OF u al(5) o(3) skips w(3) last(3) er(2) co w(1,2) list this] obtain p' rc' d' where
        c: "link_loop cfg nblock skips 0 head p rc1 d2 = Some (0, False, p', rc', d')" "ok d'" "coherent_but {nblock} cfg (contents d') rc'"
          "writing_by u cfg (ready d') p' nblock (4 * unat skips)" "\<forall>c. c \<noteq> unat nblock \<longrightarrow> contents d' c = contents d2 c"
          "\<forall>k < unat skips. le32_of (map (view (Some p') (contents d') (unat nblock)) [4 * k..<4 * k + 4]) = bl (Suc n - 2 ^ k)" by blast
      have kept: "\<forall>c. c \<noteq> unat nblock \<longrightarrow> contents d' c = mem c" using c(5) er(3) by simp
      have same: "view (Some p') (contents d') (unat (bl j)) = view None mem (unat (bl j))" if "j \<le> n" for j
        by (rule old_blocks [OF c(4) kept o(3) ctz_list_bound [OF f(1) that] that])
      have "ctz_list cfg (view (Some p') (contents d')) (bl(Suc n := nblock)) (Suc n)"
        using same c(6) skips by (intro ctz_list_extend [OF f(1) al(5)]) simp_all
      moreover have "ctz_bytes cfg (view (Some p') (contents d')) (bl(Suc n := nblock)) (Suc n) bytes"
        using f(2) same full sz(2) by (intro ctz_bytes_extend) simp_all
      ultimately have "ctz_open cfg (view (Some p') (contents d')) (bl(Suc n := nblock)) (Suc n) (unat off) bytes"
        using \<open>?N (Suc n) < ?N (Suc (Suc n))\<close> full sz(2) io(4) i by (simp add: ctz_open_def)
      moreover have "lfs_ctz_extend cfg traverse head sz p rc f d = Some (0, Some (nblock, off), p', rc', f1, d')"
        unfolding body using True c(1) off by simp
      moreover have "writing_by u cfg (ready d') p' nblock (unat off)" using c(4) skips unfolding off s4 by (simp add: ptr_bytes_def)
      ultimately show ?thesis using c(2,3) kept io(1) i by auto
    qed
  qed
qed

end


section \<open>Extending a file\<close>

text \<open>
  Property C8: extending copies on write.  In every state that a history of allocations can lead to, on
  a device that keeps its promises, \<open>lfs_ctz_extend\<close> ends.  It either reports that there is no space
  and has written nothing, or it returns a block that was not in use and the offset where the byte
  after the last one of the file belongs: the list with this block in its place holds the bytes of the
  file so far and can be written from there on.  No other block of the device has changed, so the old
  list still holds the old file.
\<close>

theorem lfs_ctz_extend_copies:
  assumes "block_device cfg ok contents ready" and "block_traversal traverse (file_good cfg ok contents mem) blocks"
    and "sizes_fit cfg" and "alloc_history cfg traverse (file_good cfg ok contents mem) blocks handed f (rcache, d)"
    and "112 \<le> unat (block_size cfg)" and "unat sz = length bytes" and "unat sz \<le> 2147483647"
    and "sz \<noteq> 0 \<longrightarrow> ctz_file cfg (view None mem) bl n bytes \<and> head = bl n \<and> bl ` {0..n} \<subseteq> set (blocks (rcache, d))"
    and "cache_block pcache = LFS_BLOCK_NULL" and "length (cache_buffer pcache) = unat (cache_size cfg)"
  shows "\<exists>err r p' rc' f' d'. lfs_ctz_extend cfg traverse head sz pcache rcache f d = Some (err, r, p', rc', f', d') \<and> ok d' \<and>
    (err = LFS_ERR_NOSPC \<and> r = None \<and> contents d' = mem \<or>
     (\<exists>nblock i off. err = 0 \<and> r = Some (nblock, off) \<and> lfs_ctz_index cfg sz = (i, off) \<and>
        nblock < block_count cfg \<and> nblock \<notin> set (blocks (rcache, d)) \<union> handed \<and>
        (\<forall>c. c \<noteq> unat nblock \<longrightarrow> contents d' c = mem c) \<and>
        ctz_open cfg (view (Some p') (contents d')) (bl(unat i := nblock)) (unat i) (unat off) bytes \<and>
        writing cfg (ready d') p' nblock (unat off)))"
proof -
  from block_traversal.history_safe [OF assms(2,4,3)] have
    h: "file_good cfg ok contents mem (rcache, d)" "\<forall>x \<in> set (blocks (rcache, d)). unat x < unat (block_count cfg)"
      "alloc_inv False cfg (unat ` set (blocks (rcache, d))) (unat ` handed) f"
    by (simp_all add: alloc_inv_def)
  from block_traversal.alloc_result [OF assms(2,3) h(2) refl h(3,1)] obtain err b f1 rc1 d1 where
    al: "lfs_alloc cfg traverse f (rcache, d) = Some (err, b, f1, rc1, d1)" "file_good cfg ok contents mem (rc1, d1)"
      "(\<exists>x. err = 0 \<and> b = Some x \<and> unat x < unat (block_count cfg) \<and> unat x \<notin> unat ` set (blocks (rcache, d)) \<union> unat ` handed) \<or>
       (err = LFS_ERR_NOSPC \<and> b = None)" by fastforce
  have g: "ok d1" "contents d1 = mem" "coherent cfg mem rc1" using al(2) by (simp_all add: file_good_def)
  from al(3) show ?thesis
  proof
    assume "err = LFS_ERR_NOSPC \<and> b = None"
    then have "lfs_ctz_extend cfg traverse head sz pcache rcache f d = Some (LFS_ERR_NOSPC, None, pcache, rc1, f1, d1)"
      using al(1) by (subst lfs_ctz_extend.simps) (simp add: LFS_ERR_NOSPC_def)
    with g show ?thesis by auto
  next
    assume "\<exists>x. err = 0 \<and> b = Some x \<and> unat x < unat (block_count cfg) \<and> unat x \<notin> unat ` set (blocks (rcache, d)) \<union> unat ` handed"
    then obtain nb where x: "err = 0" "b = Some nb" "nb < block_count cfg" "nb \<notin> set (blocks (rcache, d)) \<union> handed"
      by (auto simp: word_less_nat_alt)
    have old: "ctz_file cfg (view None mem) bl n bytes \<and> head = bl n \<and> nb \<notin> bl ` {0..n}" if "sz \<noteq> 0"
      using assms(8) that x(4) by blast
    from block_device.extend_result [OF assms(1) dvd_refl block_device.sizes(4) [OF assms(1)] al(1) [unfolded x(1,2)] g x(3) assms(5-7) old assms(9,10)] x show ?thesis by blast
  qed
qed

theorem lfs_ctz_extend_copies_witness:
  "\<exists>err r p' rc' f' d'. lfs_ctz_extend (rambd_config esp_lfs_sizes) (file_traverse (rambd_config esp_lfs_sizes) 5 9000) 5 9000
      empty_cache empty_cache (lfs_alloc_drop (rambd_config esp_lfs_sizes) unmounted) filled_ram = Some (err, r, p', rc', f', d') \<and>
    (err = LFS_ERR_NOSPC \<or> (\<exists>nblock. r = Some (nblock, 812) \<and> nblock \<noteq> 5))"
proof -
  have hist: "alloc_history (rambd_config esp_lfs_sizes) (file_traverse (rambd_config esp_lfs_sizes) 5 9000)
      (file_good (rambd_config esp_lfs_sizes) (ram_ok esp_lfs_sizes) (ram_block esp_lfs_sizes) (ram_block esp_lfs_sizes filled_ram)) (\<lambda>w. [5, 3])
      {} (lfs_alloc_drop (rambd_config esp_lfs_sizes) unmounted) (empty_cache, filled_ram)"
    by (rule alloc_history.mount, rule filled_good) (simp_all add: unmounted_def rambd_config_def esp_lfs_sizes_def)
  have ix: "lfs_ctz_index (rambd_config esp_lfs_sizes) 9000 = (1, 812)"
    by (simp add: lfs_ctz_index_def rambd_config_def esp_lfs_sizes_def) (simp add: lfs_popc_def builtin_popcount_def lsb_bits_def upt_32)
  have b: "112 \<le> unat (block_size (rambd_config esp_lfs_sizes))" by (simp add: rambd_config_def esp_lfs_sizes_def)
  have c: "cache_block empty_cache = LFS_BLOCK_NULL" "length (cache_buffer empty_cache) = unat (cache_size (rambd_config esp_lfs_sizes))"
    by (simp_all add: empty_cache_def rambd_config_def esp_lfs_sizes_def)
  have o: "(9000 :: u32) \<noteq> 0 \<longrightarrow> ctz_file (rambd_config esp_lfs_sizes) (view None (ram_block esp_lfs_sizes filled_ram)) two_blocks 1 (replicate 9000 255) \<and>
      5 = two_blocks 1 \<and> two_blocks ` {0..1} \<subseteq> set [5, 3]"
    using filled_file by (auto simp: two_blocks_def)
  from lfs_ctz_extend_copies [OF ram_device.block_device_axioms filled.block_traversal_axioms esp_sizes_fit hist b _ _ o c] ix
  show ?thesis by fastforce
qed

end
