(* ===== verification/Lfs_File.thy ===== *)
theory Lfs_File
  imports Lfs_Dir_Get Lfs_Ctz_Extend
begin

text \<open>
  Open files of littlefs (\<open>lfs_file_relocate\<close> to \<open>lfs_file_rawsize\<close> of \<open>lfs.c\<close>).  A small file is held in
  its directory entry (inline), any other as a CTZ list.  Every operation takes and returns the file
  and the part of the file system state it uses.
\<close>

section \<open>State\<close>

definition LFS_ERR_FBIG :: int where "LFS_ERR_FBIG = -27"
definition LFS_ERR_INVAL :: int where "LFS_ERR_INVAL = -22"
definition LFS_TYPE_INLINESTRUCT :: u32 where "LFS_TYPE_INLINESTRUCT = 0x201"
definition LFS_TYPE_CTZSTRUCT :: u32 where "LFS_TYPE_CTZSTRUCT = 0x202"
definition LFS_O_RDONLY :: u32 where "LFS_O_RDONLY = 1"
definition LFS_O_WRONLY :: u32 where "LFS_O_WRONLY = 2"
definition LFS_O_APPEND :: u32 where "LFS_O_APPEND = 0x800"
definition LFS_F_DIRTY :: u32 where "LFS_F_DIRTY = 0x10000"
definition LFS_F_WRITING :: u32 where "LFS_F_WRITING = 0x20000"
definition LFS_F_READING :: u32 where "LFS_F_READING = 0x40000"
definition LFS_F_ERRED :: u32 where "LFS_F_ERRED = 0x80000"
definition LFS_F_INLINE :: u32 where "LFS_F_INLINE = 0x100000"
definition LFS_SEEK_SET :: int where "LFS_SEEK_SET = 0"
definition LFS_SEEK_CUR :: int where "LFS_SEEK_CUR = 1"
definition LFS_SEEK_END :: int where "LFS_SEEK_END = 2"
definition LFS_FILE_MAX :: u32 where "LFS_FILE_MAX = 2147483647"

record lfs_file =
  file_id :: u16
  file_m :: lfs_mdir
  ctz_head :: u32
  ctz_size :: u32
  file_flags :: u32
  file_pos :: u32
  file_block :: u32
  file_off :: u32
  file_cache :: lfs_cache

text \<open>The fields of \<open>lfs_t\<close> that the operations use, and the device.\<close>

record 'd lfs =
  lfs_rcache :: lfs_cache
  lfs_pcache :: lfs_cache
  lfs_gdisk :: lfs_gstate
  lfs_free :: lfs_free
  lfs_file_max :: u32
  lfs_dev :: 'd

definition flag :: "lfs_file \<Rightarrow> u32 \<Rightarrow> bool" where
  "flag file f \<longleftrightarrow> file_flags file AND f \<noteq> 0"

definition set_flag :: "u32 \<Rightarrow> lfs_file \<Rightarrow> lfs_file" where
  "set_flag f file = file\<lparr>file_flags := file_flags file OR f\<rparr>"

definition clear_flag :: "u32 \<Rightarrow> lfs_file \<Rightarrow> lfs_file" where
  "clear_flag f file = file\<lparr>file_flags := file_flags file AND NOT f\<rparr>"

section \<open>Reading an entry through a cache\<close>

text \<open>The cache holds bytes of an entry at or after the offset.\<close>

definition inline_ahead :: "u32 \<Rightarrow> lfs_cache \<Rightarrow> bool" where
  "inline_ahead off c \<longleftrightarrow> cache_block c = LFS_BLOCK_INLINE \<and> off < cache_off c + cache_len c"

partial_function (option) dir_getread_loop ::
  "'d lfs_config \<Rightarrow> lfs_gstate \<Rightarrow> lfs_mdir \<Rightarrow> lfs_cache option \<Rightarrow> u32 \<Rightarrow> u32 \<Rightarrow> u32 \<Rightarrow> u32 \<Rightarrow> u32 \<Rightarrow> u8 list \<Rightarrow>
     lfs_cache \<Rightarrow> lfs_cache \<Rightarrow> 'd \<Rightarrow> (int \<times> u8 list \<times> lfs_cache \<times> lfs_cache \<times> 'd) option" where
  "dir_getread_loop cfg gdisk dir pcache hint gmask gtag off sz data rcache lcache d =
     (if sz > 0 then
        let in_p = (case pcache of None \<Rightarrow> False | Some p \<Rightarrow> inline_ahead off p);
            p = (case pcache of None \<Rightarrow> rcache | Some p \<Rightarrow> p)
        in if in_p \<and> off \<ge> cache_off p then
             let diff = lfs_min sz (cache_len p - (off - cache_off p))
             in dir_getread_loop cfg gdisk dir pcache hint gmask gtag (off + diff) (sz - diff) (data @ cache_copy off diff p) rcache lcache d
           else
             let diff = (if in_p then lfs_min sz (cache_off p - off) else sz);
                 in_r = inline_ahead off rcache
             in if in_r \<and> off \<ge> cache_off rcache then
                  let diff = lfs_min diff (cache_len rcache - (off - cache_off rcache))
                  in dir_getread_loop cfg gdisk dir pcache hint gmask gtag (off + diff) (sz - diff) (data @ cache_copy off diff rcache) rcache lcache d
                else
                  let start = lfs_aligndown off (read_size cfg);
                      len = lfs_min (lfs_alignup (off + hint) (read_size cfg)) (cache_size cfg)
                  in case lfs_dir_getslice cfg gdisk dir gmask gtag start len lcache d of
                       None \<Rightarrow> None
                     | Some (err, bytes, lcache, d) \<Rightarrow>
                         let rcache = rcache\<lparr>cache_block := LFS_BLOCK_INLINE, cache_off := start, cache_len := len,
                               cache_buffer := mem_write (cache_buffer rcache) 0 bytes\<rparr>
                         in if err < 0 then Some (err, data, rcache, lcache, d)
                            else dir_getread_loop cfg gdisk dir pcache hint gmask gtag off sz data rcache lcache d
      else Some (0, data, rcache, lcache, d))"

definition lfs_dir_getread ::
  "'d lfs_config \<Rightarrow> lfs_gstate \<Rightarrow> lfs_mdir \<Rightarrow> lfs_cache option \<Rightarrow> lfs_cache \<Rightarrow> u32 \<Rightarrow> u32 \<Rightarrow> u32 \<Rightarrow> u32 \<Rightarrow> u32 \<Rightarrow>
     lfs_cache \<Rightarrow> 'd \<Rightarrow> (int \<times> u8 list \<times> lfs_cache \<times> lfs_cache \<times> 'd) option" where
  "lfs_dir_getread cfg gdisk dir pcache rcache hint gmask gtag off sz lcache d =
     (if off + sz > block_size cfg then Some (LFS_ERR_CORRUPT, [], rcache, lcache, d)
      else dir_getread_loop cfg gdisk dir pcache hint gmask gtag off sz [] rcache lcache d)"

section \<open>Reading\<close>

text \<open>The bytes of a file at an offset of its current block or of its entry, through the file's cache.\<close>

definition file_entry_read :: "'d lfs_config \<Rightarrow> u32 \<Rightarrow> u32 \<Rightarrow> u32 \<Rightarrow> lfs_file \<Rightarrow> 'd lfs \<Rightarrow> (int \<times> u8 list \<times> lfs_file \<times> 'd lfs) option" where
  "file_entry_read cfg hint off sz file lfs =
     (case lfs_dir_getread cfg (lfs_gdisk lfs) (file_m file) None (file_cache file) hint (LFS_MKTAG 0xfff 0x1ff 0)
             (LFS_MKTAG LFS_TYPE_INLINESTRUCT (ucast (file_id file)) 0) off sz (lfs_rcache lfs) (lfs_dev lfs) of
        None \<Rightarrow> None
      | Some (err, bytes, cache, rcache, d) \<Rightarrow>
          Some (err, bytes, file\<lparr>file_cache := cache\<rparr>, lfs\<lparr>lfs_rcache := rcache, lfs_dev := d\<rparr>))"

definition file_read_block :: "'d lfs_config \<Rightarrow> lfs_file \<Rightarrow> 'd lfs \<Rightarrow> (int \<times> lfs_file \<times> 'd lfs) option" where
  "file_read_block cfg file lfs =
     (if \<not> flag file LFS_F_READING \<or> file_off file = block_size cfg then
        if \<not> flag file LFS_F_INLINE then
          case lfs_ctz_find cfg None (file_cache file) (ctz_head file) (ctz_size file) (file_pos file) (lfs_dev lfs) of
            None \<Rightarrow> None
          | Some (err, r, cache, d) \<Rightarrow>
              let file = file\<lparr>file_cache := cache\<rparr>; lfs = lfs\<lparr>lfs_dev := d\<rparr>
              in if err \<noteq> 0 then Some (err, file, lfs)
                 else Some (0, set_flag LFS_F_READING (file\<lparr>file_block := fst (the r), file_off := snd (the r)\<rparr>), lfs)
        else Some (0, set_flag LFS_F_READING (file\<lparr>file_block := LFS_BLOCK_INLINE, file_off := file_pos file\<rparr>), lfs)
      else Some (0, file, lfs))"

definition file_read_bytes :: "'d lfs_config \<Rightarrow> u32 \<Rightarrow> lfs_file \<Rightarrow> 'd lfs \<Rightarrow> (int \<times> u8 list \<times> lfs_file \<times> 'd lfs) option" where
  "file_read_bytes cfg diff file lfs =
     (if flag file LFS_F_INLINE then file_entry_read cfg (block_size cfg) (file_off file) diff file lfs
      else
        case lfs_bd_read cfg None (file_cache file) (block_size cfg) (file_block file) (file_off file) diff (lfs_dev lfs) of
          None \<Rightarrow> None
        | Some (err, bytes, cache, d) \<Rightarrow> Some (err, bytes, file\<lparr>file_cache := cache\<rparr>, lfs\<lparr>lfs_dev := d\<rparr>))"

partial_function (option) flushedread_loop ::
  "'d lfs_config \<Rightarrow> u32 \<Rightarrow> u8 list \<Rightarrow> lfs_file \<Rightarrow> 'd lfs \<Rightarrow> (int \<times> u8 list \<times> lfs_file \<times> 'd lfs) option" where
  "flushedread_loop cfg nsize data file lfs =
     (if nsize > 0 then
        case file_read_block cfg file lfs of
          None \<Rightarrow> None
        | Some (err, file, lfs) \<Rightarrow>
            if err \<noteq> 0 then Some (err, data, file, lfs)
            else
              let diff = lfs_min nsize (block_size cfg - file_off file)
              in case file_read_bytes cfg diff file lfs of
                   None \<Rightarrow> None
                 | Some (err, bytes, file, lfs) \<Rightarrow>
                     if err \<noteq> 0 then Some (err, data @ bytes, file, lfs)
                     else flushedread_loop cfg (nsize - diff) (data @ bytes)
                            (file\<lparr>file_pos := file_pos file + diff, file_off := file_off file + diff\<rparr>) lfs
      else Some (0, data, file, lfs))"

definition lfs_file_flushedread :: "'d lfs_config \<Rightarrow> u32 \<Rightarrow> lfs_file \<Rightarrow> 'd lfs \<Rightarrow> (int \<times> u8 list \<times> lfs_file \<times> 'd lfs) option" where
  "lfs_file_flushedread cfg sz file lfs =
     (if file_pos file \<ge> ctz_size file then Some (0, [], file, lfs)
      else
        let sz = lfs_min sz (ctz_size file - file_pos file)
        in case flushedread_loop cfg sz [] file lfs of
             None \<Rightarrow> None
           | Some (err, data, file, lfs) \<Rightarrow> Some (if err \<noteq> 0 then err else sint sz, data, file, lfs))"

section \<open>Moving the last block\<close>

text \<open>
  The traversal of the file system that the allocator uses visits the blocks of the open file, so it
  depends on the file.
\<close>

type_synonym 'd file_traverse = "lfs_file \<Rightarrow> (lfs_cache \<times> 'd) traverse"

text \<open>
  The blocks of one open file in \<open>lfs_fs_rawtraverse\<close>: those of a list that is not committed yet and
  those of the list that is being written; then all open files, behind the blocks that the directories
  refer to (\<open>meta\<close>).
\<close>

definition open_file_traverse ::
  "'d lfs_config \<Rightarrow> (u32 \<Rightarrow> 's \<Rightarrow> int \<times> 's) \<Rightarrow> lfs_file \<Rightarrow> 's \<Rightarrow> lfs_cache \<times> 'd \<Rightarrow> (int \<times> 's \<times> lfs_cache \<times> 'd) option" where
  "open_file_traverse cfg cb file s w =
     (case (if flag file LFS_F_DIRTY \<and> \<not> flag file LFS_F_INLINE
            then lfs_ctz_traverse cfg (Some (file_cache file)) (fst w) (ctz_head file) (ctz_size file) cb s (snd w)
            else Some (0, s, w)) of
        None \<Rightarrow> None
      | Some (err, s, w) \<Rightarrow>
          if err \<noteq> 0 then Some (err, s, w)
          else if flag file LFS_F_WRITING \<and> \<not> flag file LFS_F_INLINE
          then lfs_ctz_traverse cfg (Some (file_cache file)) (fst w) (file_block file) (file_pos file) cb s (snd w)
          else Some (0, s, w))"

fun open_files_traverse ::
  "'d lfs_config \<Rightarrow> (u32 \<Rightarrow> 's \<Rightarrow> int \<times> 's) \<Rightarrow> lfs_file list \<Rightarrow> 's \<Rightarrow> lfs_cache \<times> 'd \<Rightarrow> (int \<times> 's \<times> lfs_cache \<times> 'd) option" where
  "open_files_traverse cfg cb [] s w = Some (0, s, w)"
| "open_files_traverse cfg cb (file # files) s w =
     (case open_file_traverse cfg cb file s w of
        None \<Rightarrow> None
      | Some (err, s, w) \<Rightarrow> if err \<noteq> 0 then Some (err, s, w) else open_files_traverse cfg cb files s w)"

definition fs_traverse :: "'d lfs_config \<Rightarrow> (lfs_cache \<times> 'd) traverse \<Rightarrow> lfs_file list \<Rightarrow> (lfs_cache \<times> 'd) traverse" where
  "fs_traverse cfg meta files cb f w =
     (case meta cb f w of
        None \<Rightarrow> None
      | Some (err, f, w) \<Rightarrow> if err \<noteq> 0 then Some (err, f, w) else open_files_traverse cfg cb files f w)"

text \<open>
  Copying the first bytes of the current block to a new one: the error, whether it sends the caller to
  its label \<open>relocate\<close>, the file and the state.
\<close>

function relocate_loop ::
  "'d lfs_config \<Rightarrow> u32 \<Rightarrow> u32 \<Rightarrow> u32 \<Rightarrow> lfs_file \<Rightarrow> 'd lfs \<Rightarrow> (int \<times> bool \<times> lfs_file \<times> 'd lfs) option" where
  "relocate_loop cfg nblock off i file lfs =
     (if i < off then
        case (if flag file LFS_F_INLINE then file_entry_read cfg (off - i) i 1 file lfs
              else
                case lfs_bd_read cfg (Some (file_cache file)) (lfs_rcache lfs) (off - i) (file_block file) i 1 (lfs_dev lfs) of
                  None \<Rightarrow> None
                | Some (err, bytes, rcache, d) \<Rightarrow> Some (err, bytes, file, lfs\<lparr>lfs_rcache := rcache, lfs_dev := d\<rparr>)) of
          None \<Rightarrow> None
        | Some (err, byte, file, lfs) \<Rightarrow>
            if err \<noteq> 0 then Some (err, False, file, lfs)
            else
              case lfs_bd_prog cfg (lfs_pcache lfs) (lfs_rcache lfs) True nblock i byte (lfs_dev lfs) of
                None \<Rightarrow> None
              | Some (err, pcache, rcache, d) \<Rightarrow>
                  let lfs = lfs\<lparr>lfs_pcache := pcache, lfs_rcache := rcache, lfs_dev := d\<rparr>
                  in if err \<noteq> 0 then Some (err, err = LFS_ERR_CORRUPT, file, lfs)
                     else relocate_loop cfg nblock off (i + 1) file lfs
      else Some (0, False, file, lfs))"
  by pat_completeness auto
termination
  by (relation "measure (\<lambda>(cfg, nblock, off, i, file, lfs). unat (off - i))") (simp_all add: index_closer)

declare relocate_loop.simps [simp del]

partial_function (option) lfs_file_relocate ::
  "'d lfs_config \<Rightarrow> 'd file_traverse \<Rightarrow> lfs_file \<Rightarrow> 'd lfs \<Rightarrow> (int \<times> lfs_file \<times> 'd lfs) option" where
  "lfs_file_relocate cfg traverse file lfs =
     (case lfs_alloc cfg (traverse file) (lfs_free lfs) (lfs_rcache lfs, lfs_dev lfs) of
        None \<Rightarrow> None
      | Some (err, b, f, rcache, d) \<Rightarrow>
          let lfs = lfs\<lparr>lfs_free := f, lfs_rcache := rcache, lfs_dev := d\<rparr>
          in if err \<noteq> 0 then Some (err, file, lfs)
             else
               let nblock = the b
               in case lfs_bd_erase cfg nblock (lfs_dev lfs) of
                    None \<Rightarrow> None
                  | Some (err, d) \<Rightarrow>
                      let lfs = lfs\<lparr>lfs_dev := d\<rparr>
                      in if err \<noteq> 0 then
                           if err = LFS_ERR_CORRUPT
                           then lfs_file_relocate cfg traverse file (lfs\<lparr>lfs_pcache := lfs_cache_drop (lfs_pcache lfs)\<rparr>)
                           else Some (err, file, lfs)
                         else
                           case relocate_loop cfg nblock (file_off file) 0 file lfs of
                             None \<Rightarrow> None
                           | Some (err, relocate, file, lfs) \<Rightarrow>
                               if err \<noteq> 0 then
                                 if relocate
                                 then lfs_file_relocate cfg traverse file (lfs\<lparr>lfs_pcache := lfs_cache_drop (lfs_pcache lfs)\<rparr>)
                                 else Some (err, file, lfs)
                               else
                                 let p = lfs_pcache lfs;
                                     cache = (file_cache file)\<lparr>cache_buffer :=
                                         mem_write (cache_buffer (file_cache file)) 0 (take (unat (cache_size cfg)) (cache_buffer p)),
                                       cache_block := cache_block p, cache_off := cache_off p, cache_len := cache_len p\<rparr>
                                 in Some (0, set_flag LFS_F_WRITING (file\<lparr>file_cache := cache, file_block := nblock\<rparr>),
                                      lfs\<lparr>lfs_pcache := lfs_cache_zero cfg p\<rparr>))"

definition lfs_file_outline ::
  "'d lfs_config \<Rightarrow> 'd file_traverse \<Rightarrow> lfs_file \<Rightarrow> 'd lfs \<Rightarrow> (int \<times> lfs_file \<times> 'd lfs) option" where
  "lfs_file_outline cfg traverse file lfs =
     (let file = file\<lparr>file_off := file_pos file\<rparr>;
          lfs = lfs\<lparr>lfs_free := lfs_alloc_ack cfg (lfs_free lfs)\<rparr>
      in case lfs_file_relocate cfg traverse file lfs of
           None \<Rightarrow> None
         | Some (err, file, lfs) \<Rightarrow>
             if err \<noteq> 0 then Some (err, file, lfs) else Some (0, clear_flag LFS_F_INLINE file, lfs))"

section \<open>Writing\<close>

text \<open>The largest inline file.\<close>

definition inline_max :: "'d lfs_config \<Rightarrow> u32" where
  "inline_max cfg = lfs_min 0x3fe (lfs_min (cache_size cfg) ((if metadata_max cfg \<noteq> 0 then metadata_max cfg else block_size cfg) div 8))"

text \<open>The block to extend from: the one that holds the byte before the position, on the first write.\<close>

definition file_last_block :: "'d lfs_config \<Rightarrow> lfs_file \<Rightarrow> 'd lfs \<Rightarrow> (int \<times> lfs_file \<times> 'd lfs) option" where
  "file_last_block cfg file lfs =
     (if \<not> flag file LFS_F_WRITING \<and> file_pos file > 0 then
        case lfs_ctz_find cfg None (file_cache file) (ctz_head file) (ctz_size file) (file_pos file - 1) (lfs_dev lfs) of
          None \<Rightarrow> None
        | Some (err, r, cache, d) \<Rightarrow>
            let file = file\<lparr>file_cache := cache\<rparr>; lfs = lfs\<lparr>lfs_dev := d\<rparr>
            in if err \<noteq> 0 then Some (err, set_flag LFS_F_ERRED file, lfs)
               else Some (0, file\<lparr>file_block := fst (the r), file_off := snd (the r), file_cache := lfs_cache_zero cfg cache\<rparr>, lfs)
      else Some (0, file, lfs))"

text \<open>The block the next byte goes to, when there is none yet or the last one is full.\<close>

definition file_write_block ::
  "'d lfs_config \<Rightarrow> 'd file_traverse \<Rightarrow> lfs_file \<Rightarrow> 'd lfs \<Rightarrow> (int \<times> lfs_file \<times> 'd lfs) option" where
  "file_write_block cfg traverse file lfs =
     (if \<not> flag file LFS_F_WRITING \<or> file_off file = block_size cfg then
        if \<not> flag file LFS_F_INLINE then
          case file_last_block cfg file lfs of
            None \<Rightarrow> None
          | Some (err, file, lfs) \<Rightarrow>
              if err \<noteq> 0 then Some (err, file, lfs)
              else
                case lfs_ctz_extend cfg (traverse file) (file_block file) (file_pos file) (file_cache file) (lfs_rcache lfs)
                       (lfs_alloc_ack cfg (lfs_free lfs)) (lfs_dev lfs) of
                  None \<Rightarrow> None
                | Some (err, r, cache, rcache, f, d) \<Rightarrow>
                    let file = file\<lparr>file_cache := cache\<rparr>;
                        lfs = lfs\<lparr>lfs_rcache := rcache, lfs_free := f, lfs_dev := d\<rparr>
                    in if err \<noteq> 0 then Some (err, set_flag LFS_F_ERRED file, lfs)
                       else Some (0, set_flag LFS_F_WRITING (file\<lparr>file_block := fst (the r), file_off := snd (the r)\<rparr>), lfs)
        else Some (0, set_flag LFS_F_WRITING (file\<lparr>file_block := LFS_BLOCK_INLINE, file_off := file_pos file\<rparr>), lfs)
      else Some (0, file, lfs))"

text \<open>Programming, in a new block when the device reports the current one as bad.\<close>

partial_function (option) file_prog_loop ::
  "'d lfs_config \<Rightarrow> 'd file_traverse \<Rightarrow> u8 list \<Rightarrow> lfs_file \<Rightarrow> 'd lfs \<Rightarrow> (int \<times> lfs_file \<times> 'd lfs) option" where
  "file_prog_loop cfg traverse data file lfs =
     (case lfs_bd_prog cfg (file_cache file) (lfs_rcache lfs) True (file_block file) (file_off file) data (lfs_dev lfs) of
        None \<Rightarrow> None
      | Some (err, cache, rcache, d) \<Rightarrow>
          let file = file\<lparr>file_cache := cache\<rparr>; lfs = lfs\<lparr>lfs_rcache := rcache, lfs_dev := d\<rparr>
          in if err = 0 then Some (0, file, lfs)
             else if err \<noteq> LFS_ERR_CORRUPT then Some (err, set_flag LFS_F_ERRED file, lfs)
             else
               case lfs_file_relocate cfg traverse file lfs of
                 None \<Rightarrow> None
               | Some (err, file, lfs) \<Rightarrow>
                   if err \<noteq> 0 then Some (err, set_flag LFS_F_ERRED file, lfs)
                   else file_prog_loop cfg traverse data file lfs)"

partial_function (option) flushedwrite_loop ::
  "'d lfs_config \<Rightarrow> 'd file_traverse \<Rightarrow> u8 list \<Rightarrow> u32 \<Rightarrow> lfs_file \<Rightarrow> 'd lfs \<Rightarrow> (int \<times> lfs_file \<times> 'd lfs) option" where
  "flushedwrite_loop cfg traverse data nsize file lfs =
     (if nsize > 0 then
        case file_write_block cfg traverse file lfs of
          None \<Rightarrow> None
        | Some (err, file, lfs) \<Rightarrow>
            if err \<noteq> 0 then Some (err, file, lfs)
            else
              let diff = lfs_min nsize (block_size cfg - file_off file)
              in case file_prog_loop cfg traverse (take (unat diff) data) file lfs of
                   None \<Rightarrow> None
                 | Some (err, file, lfs) \<Rightarrow>
                     if err \<noteq> 0 then Some (err, file, lfs)
                     else flushedwrite_loop cfg traverse (drop (unat diff) data) (nsize - diff)
                            (file\<lparr>file_pos := file_pos file + diff, file_off := file_off file + diff\<rparr>)
                            (lfs\<lparr>lfs_free := lfs_alloc_ack cfg (lfs_free lfs)\<rparr>)
      else Some (0, file, lfs))"

definition lfs_file_flushedwrite ::
  "'d lfs_config \<Rightarrow> 'd file_traverse \<Rightarrow> u8 list \<Rightarrow> lfs_file \<Rightarrow> 'd lfs \<Rightarrow> (int \<times> lfs_file \<times> 'd lfs) option" where
  "lfs_file_flushedwrite cfg traverse data file lfs =
     (let sz = word_of_nat (length data)
      in case (if flag file LFS_F_INLINE \<and> lfs_max (file_pos file + sz) (ctz_size file) > inline_max cfg
               then lfs_file_outline cfg traverse file lfs else Some (0, file, lfs)) of
           None \<Rightarrow> None
         | Some (err, file, lfs) \<Rightarrow>
             if err \<noteq> 0 then Some (err, set_flag LFS_F_ERRED file, lfs)
             else
               case flushedwrite_loop cfg traverse data sz file lfs of
                 None \<Rightarrow> None
               | Some (err, file, lfs) \<Rightarrow> Some (if err \<noteq> 0 then err else sint sz, file, lfs))"

section \<open>Flushing\<close>

text \<open>
  The copy of the file that the old bytes are read through shares the buffer of the read cache with
  the file system.  At most one of the two caches is valid at any time, as each is dropped before the
  other loads, so they have buffers of their own here.
\<close>

partial_function (option) flush_copy_loop ::
  "'d lfs_config \<Rightarrow> 'd file_traverse \<Rightarrow> lfs_file \<Rightarrow> lfs_file \<Rightarrow> 'd lfs \<Rightarrow> (int \<times> lfs_file \<times> 'd lfs) option" where
  "flush_copy_loop cfg traverse orig file lfs =
     (if file_pos file < ctz_size file then
        case lfs_file_flushedread cfg 1 orig lfs of
          None \<Rightarrow> None
        | Some (res, data, orig, lfs) \<Rightarrow>
            if res < 0 then Some (res, file, lfs)
            else
              case lfs_file_flushedwrite cfg traverse data file lfs of
                None \<Rightarrow> None
              | Some (res, file, lfs) \<Rightarrow>
                  if res < 0 then Some (res, file, lfs)
                  else if cache_block (lfs_rcache lfs) \<noteq> LFS_BLOCK_NULL then
                    flush_copy_loop cfg traverse (orig\<lparr>file_cache := lfs_cache_drop (file_cache orig)\<rparr>) file
                      (lfs\<lparr>lfs_rcache := lfs_cache_drop (lfs_rcache lfs)\<rparr>)
                  else flush_copy_loop cfg traverse orig file lfs
      else Some (0, file, lfs))"

partial_function (option) flush_out_loop ::
  "'d lfs_config \<Rightarrow> 'd file_traverse \<Rightarrow> lfs_file \<Rightarrow> 'd lfs \<Rightarrow> (int \<times> lfs_file \<times> 'd lfs) option" where
  "flush_out_loop cfg traverse file lfs =
     (case lfs_bd_flush cfg (file_cache file) (lfs_rcache lfs) True (lfs_dev lfs) of
        None \<Rightarrow> None
      | Some (err, cache, rcache, d) \<Rightarrow>
          let file = file\<lparr>file_cache := cache\<rparr>; lfs = lfs\<lparr>lfs_rcache := rcache, lfs_dev := d\<rparr>
          in if err = 0 then Some (0, file, lfs)
             else if err \<noteq> LFS_ERR_CORRUPT then Some (err, file, lfs)
             else
               case lfs_file_relocate cfg traverse file lfs of
                 None \<Rightarrow> None
               | Some (err, file, lfs) \<Rightarrow>
                   if err \<noteq> 0 then Some (err, file, lfs) else flush_out_loop cfg traverse file lfs)"

definition zero_mdir :: lfs_mdir where
  "zero_mdir = \<lparr>mdir_pair = (0, 0), mdir_rev = 0, mdir_off = 0, mdir_etag = 0, mdir_count = 0,
     mdir_erased = False, mdir_split = False, mdir_tail = (0, 0)\<rparr>"

definition flush_orig :: "lfs_file \<Rightarrow> lfs_cache \<Rightarrow> lfs_file" where
  "flush_orig file rcache = \<lparr>file_id = 0, file_m = zero_mdir, ctz_head = ctz_head file, ctz_size = ctz_size file,
     file_flags = LFS_O_RDONLY, file_pos = file_pos file, file_block = 0, file_off = 0, file_cache = rcache\<rparr>"

text \<open>The two halves: dropping what was read, writing out what was written.\<close>

definition flush_reading :: "lfs_file \<Rightarrow> lfs_file" where
  "flush_reading file =
     (if flag file LFS_F_READING then
        clear_flag LFS_F_READING
          (if \<not> flag file LFS_F_INLINE then file\<lparr>file_cache := lfs_cache_drop (file_cache file)\<rparr> else file)
      else file)"

definition flush_writing ::
  "'d lfs_config \<Rightarrow> 'd file_traverse \<Rightarrow> lfs_file \<Rightarrow> 'd lfs \<Rightarrow> (int \<times> lfs_file \<times> 'd lfs) option" where
  "flush_writing cfg traverse file lfs =
     (if flag file LFS_F_WRITING then
        let pos = file_pos file
        in case (if \<not> flag file LFS_F_INLINE then
                   case flush_copy_loop cfg traverse (flush_orig file (lfs_rcache lfs)) file
                          (lfs\<lparr>lfs_rcache := lfs_cache_drop (lfs_rcache lfs)\<rparr>) of
                     None \<Rightarrow> None
                   | Some (res, file, lfs) \<Rightarrow>
                       if res \<noteq> 0 then Some (res, file, lfs) else flush_out_loop cfg traverse file lfs
                 else Some (0, file\<lparr>file_pos := lfs_max (file_pos file) (ctz_size file)\<rparr>, lfs)) of
             None \<Rightarrow> None
           | Some (err, file, lfs) \<Rightarrow>
               if err \<noteq> 0 then Some (err, file, lfs)
               else Some (0, (set_flag LFS_F_DIRTY (clear_flag LFS_F_WRITING
                      (file\<lparr>ctz_head := file_block file, ctz_size := file_pos file\<rparr>)))\<lparr>file_pos := pos\<rparr>, lfs)
      else Some (0, file, lfs))"

definition lfs_file_flush ::
  "'d lfs_config \<Rightarrow> 'd file_traverse \<Rightarrow> lfs_file \<Rightarrow> 'd lfs \<Rightarrow> (int \<times> lfs_file \<times> 'd lfs) option" where
  "lfs_file_flush cfg traverse file lfs = flush_writing cfg traverse (flush_reading file) lfs"

section \<open>The operations\<close>

definition lfs_file_rawsize :: "lfs_file \<Rightarrow> u32" where
  "lfs_file_rawsize file = (if flag file LFS_F_WRITING then lfs_max (file_pos file) (ctz_size file) else ctz_size file)"

definition lfs_file_rawtell :: "lfs_file \<Rightarrow> u32" where
  "lfs_file_rawtell file = file_pos file"

text \<open>None is a failed assertion on the flags the file was opened with.\<close>

definition lfs_file_rawread ::
  "'d lfs_config \<Rightarrow> 'd file_traverse \<Rightarrow> u32 \<Rightarrow> lfs_file \<Rightarrow> 'd lfs \<Rightarrow> (int \<times> u8 list \<times> lfs_file \<times> 'd lfs) option" where
  "lfs_file_rawread cfg traverse sz file lfs =
     (if file_flags file AND LFS_O_RDONLY \<noteq> LFS_O_RDONLY then None
      else if flag file LFS_F_WRITING then
        case lfs_file_flush cfg traverse file lfs of
          None \<Rightarrow> None
        | Some (err, file, lfs) \<Rightarrow>
            if err \<noteq> 0 then Some (err, [], file, lfs) else lfs_file_flushedread cfg sz file lfs
      else lfs_file_flushedread cfg sz file lfs)"

text \<open>Writing zeros one by one up to a position.\<close>

partial_function (option) write_zeros ::
  "'d lfs_config \<Rightarrow> 'd file_traverse \<Rightarrow> u32 \<Rightarrow> lfs_file \<Rightarrow> 'd lfs \<Rightarrow> (int \<times> lfs_file \<times> 'd lfs) option" where
  "write_zeros cfg traverse pos file lfs =
     (if file_pos file < pos then
        case lfs_file_flushedwrite cfg traverse [0] file lfs of
          None \<Rightarrow> None
        | Some (res, file, lfs) \<Rightarrow> if res < 0 then Some (res, file, lfs) else write_zeros cfg traverse pos file lfs
      else Some (0, file, lfs))"

definition lfs_file_rawwrite ::
  "'d lfs_config \<Rightarrow> 'd file_traverse \<Rightarrow> u8 list \<Rightarrow> lfs_file \<Rightarrow> 'd lfs \<Rightarrow> (int \<times> lfs_file \<times> 'd lfs) option" where
  "lfs_file_rawwrite cfg traverse data file lfs =
     (if file_flags file AND LFS_O_WRONLY \<noteq> LFS_O_WRONLY then None
      else
        case (if flag file LFS_F_READING then lfs_file_flush cfg traverse file lfs else Some (0, file, lfs)) of
          None \<Rightarrow> None
        | Some (err, file, lfs) \<Rightarrow>
            if err \<noteq> 0 then Some (err, file, lfs)
            else
              let file = (if flag file LFS_O_APPEND \<and> file_pos file < ctz_size file then file\<lparr>file_pos := ctz_size file\<rparr> else file)
              in if file_pos file + word_of_nat (length data) > lfs_file_max lfs then Some (LFS_ERR_FBIG, file, lfs)
                 else
                   case (if \<not> flag file LFS_F_WRITING \<and> file_pos file > ctz_size file
                         then write_zeros cfg traverse (file_pos file) (file\<lparr>file_pos := ctz_size file\<rparr>) lfs
                         else Some (0, file, lfs)) of
                     None \<Rightarrow> None
                   | Some (res, file, lfs) \<Rightarrow>
                       if res < 0 then Some (res, file, lfs)
                       else
                         case lfs_file_flushedwrite cfg traverse data file lfs of
                           None \<Rightarrow> None
                         | Some (nsize, file, lfs) \<Rightarrow>
                             if nsize < 0 then Some (nsize, file, lfs) else Some (nsize, clear_flag LFS_F_ERRED file, lfs))"

text \<open>The offset is a signed word.  The result is the new position or an error.\<close>

definition seek_target :: "lfs_file \<Rightarrow> u32 \<Rightarrow> int \<Rightarrow> u32 option" where
  "seek_target file off whence =
     (if whence = LFS_SEEK_SET then Some off
      else if whence = LFS_SEEK_CUR then if sint (file_pos file) + sint off < 0 then None else Some (file_pos file + off)
      else if whence = LFS_SEEK_END then
        if sint (lfs_file_rawsize file) + sint off < 0 then None else Some (lfs_file_rawsize file + off)
      else Some (file_pos file))"

definition lfs_file_rawseek ::
  "'d lfs_config \<Rightarrow> 'd file_traverse \<Rightarrow> u32 \<Rightarrow> int \<Rightarrow> lfs_file \<Rightarrow> 'd lfs \<Rightarrow> (int \<times> lfs_file \<times> 'd lfs) option" where
  "lfs_file_rawseek cfg traverse off whence file lfs =
     (case seek_target file off whence of
        None \<Rightarrow> Some (LFS_ERR_INVAL, file, lfs)
      | Some npos \<Rightarrow>
          if npos > lfs_file_max lfs then Some (LFS_ERR_INVAL, file, lfs)
          else if file_pos file = npos then Some (sint npos, file, lfs)
          else
            let (oindex, _) = lfs_ctz_index cfg (file_pos file);
                (nindex, noff) = lfs_ctz_index cfg npos
            in if \<not> flag file LFS_F_WRITING \<and> oindex = nindex \<and> noff \<ge> cache_off (file_cache file) \<and>
                  noff < cache_off (file_cache file) + cache_len (file_cache file)
               then Some (sint npos, file\<lparr>file_pos := npos, file_off := noff\<rparr>, lfs)
               else
                 case lfs_file_flush cfg traverse file lfs of
                   None \<Rightarrow> None
                 | Some (err, file, lfs) \<Rightarrow>
                     if err \<noteq> 0 then Some (err, file, lfs) else Some (sint npos, file\<lparr>file_pos := npos\<rparr>, lfs))"

definition lfs_file_rawrewind ::
  "'d lfs_config \<Rightarrow> 'd file_traverse \<Rightarrow> lfs_file \<Rightarrow> 'd lfs \<Rightarrow> (int \<times> lfs_file \<times> 'd lfs) option" where
  "lfs_file_rawrewind cfg traverse file lfs =
     (case lfs_file_rawseek cfg traverse 0 LFS_SEEK_SET file lfs of
        None \<Rightarrow> None
      | Some (res, file, lfs) \<Rightarrow> Some (if res < 0 then res else 0, file, lfs))"

partial_function (option) truncate_fill ::
  "'d lfs_config \<Rightarrow> 'd file_traverse \<Rightarrow> u32 \<Rightarrow> lfs_file \<Rightarrow> 'd lfs \<Rightarrow> (int \<times> lfs_file \<times> 'd lfs) option" where
  "truncate_fill cfg traverse sz file lfs =
     (if file_pos file < sz then
        case lfs_file_rawwrite cfg traverse [0] file lfs of
          None \<Rightarrow> None
        | Some (res, file, lfs) \<Rightarrow> if res < 0 then Some (res, file, lfs) else truncate_fill cfg traverse sz file lfs
      else Some (0, file, lfs))"

definition truncate_to ::
  "'d lfs_config \<Rightarrow> 'd file_traverse \<Rightarrow> u32 \<Rightarrow> lfs_file \<Rightarrow> 'd lfs \<Rightarrow> (int \<times> lfs_file \<times> 'd lfs) option" where
  "truncate_to cfg traverse sz file lfs =
     (let oldsize = lfs_file_rawsize file
      in if sz < oldsize then
           case lfs_file_flush cfg traverse file lfs of
             None \<Rightarrow> None
           | Some (err, file, lfs) \<Rightarrow>
               if err \<noteq> 0 then Some (err, file, lfs)
               else
                 case lfs_ctz_find cfg None (file_cache file) (ctz_head file) (ctz_size file) sz (lfs_dev lfs) of
                   None \<Rightarrow> None
                 | Some (err, r, cache, d) \<Rightarrow>
                     let file = file\<lparr>file_cache := cache\<rparr>; lfs = lfs\<lparr>lfs_dev := d\<rparr>
                     in if err \<noteq> 0 then Some (err, file, lfs)
                        else Some (0, set_flag (LFS_F_DIRTY OR LFS_F_READING)
                               (file\<lparr>file_block := fst (the r), file_off := snd (the r), file_pos := sz,
                                  ctz_head := fst (the r), ctz_size := sz\<rparr>), lfs)
         else if sz > oldsize then
           case lfs_file_rawseek cfg traverse 0 LFS_SEEK_END file lfs of
             None \<Rightarrow> None
           | Some (res, file, lfs) \<Rightarrow> if res < 0 then Some (res, file, lfs) else truncate_fill cfg traverse sz file lfs
         else Some (0, file, lfs))"

definition lfs_file_rawtruncate ::
  "'d lfs_config \<Rightarrow> 'd file_traverse \<Rightarrow> u32 \<Rightarrow> lfs_file \<Rightarrow> 'd lfs \<Rightarrow> (int \<times> lfs_file \<times> 'd lfs) option" where
  "lfs_file_rawtruncate cfg traverse sz file lfs =
     (if file_flags file AND LFS_O_WRONLY \<noteq> LFS_O_WRONLY then None
      else if sz > LFS_FILE_MAX then Some (LFS_ERR_INVAL, file, lfs)
      else
        let pos = file_pos file
        in case truncate_to cfg traverse sz file lfs of
             None \<Rightarrow> None
           | Some (res, file, lfs) \<Rightarrow>
               if res \<noteq> 0 then Some (res, file, lfs)
               else
                 case lfs_file_rawseek cfg traverse pos LFS_SEEK_SET file lfs of
                   None \<Rightarrow> None
                 | Some (res, file, lfs) \<Rightarrow> Some (if res < 0 then res else 0, file, lfs))"

end
