(* ===== verification/Lfs_File_Read.thy ===== *)
theory Lfs_File_Read
  imports Lfs_File
begin

text \<open>
  Reading and seeking in an open file of littlefs that is stored as a CTZ list: the invariant of the
  open file, what a read returns, when a seek keeps the invariant, and what goes wrong when it does
  not.
\<close>

section \<open>Flags\<close>

lemma flag_values:
  "LFS_F_READING \<noteq> 0" "LFS_F_WRITING \<noteq> 0" "LFS_F_INLINE \<noteq> 0" "LFS_F_DIRTY \<noteq> 0"
  "LFS_F_READING AND LFS_F_INLINE = 0" "LFS_F_READING AND LFS_F_WRITING = 0" "LFS_F_WRITING AND LFS_F_INLINE = 0"
  "LFS_F_WRITING AND LFS_F_READING = 0" "LFS_F_INLINE AND LFS_F_READING = 0" "LFS_F_INLINE AND LFS_F_WRITING = 0"
  "LFS_F_DIRTY AND LFS_F_INLINE = 0" "LFS_F_DIRTY AND LFS_F_READING = 0" "LFS_F_DIRTY AND LFS_F_WRITING = 0"
  by (simp_all add: LFS_F_READING_def LFS_F_WRITING_def LFS_F_INLINE_def LFS_F_DIRTY_def)

lemma flag_set: "flag (set_flag f fl) g \<longleftrightarrow> f AND g \<noteq> 0 \<or> flag fl g"
proof -
  have "(file_flags fl OR f) AND g = (file_flags fl AND g) OR (f AND g)" by (rule bit.conj_disj_distrib2)
  moreover have "a OR b = 0 \<longleftrightarrow> a = 0 \<and> b = 0" for a b :: u32 by (metis or.right_neutral or_eq_0_iff)
  ultimately show ?thesis by (auto simp: flag_def set_flag_def)
qed

lemma flag_clear: "f AND g = 0 \<Longrightarrow> flag (clear_flag f fl) g \<longleftrightarrow> flag fl g" "\<not> flag (clear_flag f fl) f"
proof -
  have n: "\<not> (bit f n \<and> bit g n)" if "f AND g = 0" for n
  proof -
    have "bit (f AND g) n = bit (0 :: u32) n" using that by (simp only:)
    then show ?thesis by (simp add: bit_and_iff)
  qed
  have "(file_flags fl AND NOT f) AND g = file_flags fl AND g" if "f AND g = 0"
    by (rule bit_word_eqI) (use n [OF that] in \<open>auto simp: bit_simps\<close>)
  then show "f AND g = 0 \<Longrightarrow> flag (clear_flag f fl) g \<longleftrightarrow> flag fl g" by (simp add: flag_def clear_flag_def)
  have "(file_flags fl AND NOT f) AND f = 0" by (rule bit_word_eqI) (auto simp: bit_simps)
  then show "\<not> flag (clear_flag f fl) f" by (simp add: flag_def clear_flag_def)
qed

lemma flag_update [simp]:
  "flag (fl\<lparr>file_cache := c\<rparr>) g = flag fl g" "flag (fl\<lparr>file_block := b\<rparr>) g = flag fl g"
  "flag (fl\<lparr>file_off := a\<rparr>) g = flag fl g" "flag (fl\<lparr>file_pos := a\<rparr>) g = flag fl g"
  "flag (fl\<lparr>ctz_head := a\<rparr>) g = flag fl g" "flag (fl\<lparr>ctz_size := a\<rparr>) g = flag fl g"
  by (simp_all add: flag_def)


section \<open>The invariant of an open file\<close>

text \<open>
  While the flag \<open>LFS_F_READING\<close> is set, \<open>file_block\<close> and \<open>file_off\<close> are where the byte at \<open>file_pos\<close> is, or
  the end of the block before.
\<close>

definition file_here :: "nat \<Rightarrow> (nat \<Rightarrow> u32) \<Rightarrow> nat \<Rightarrow> lfs_file \<Rightarrow> bool" where
  "file_here B bl n fl \<longleftrightarrow> (\<exists>i \<le> n. file_block fl = bl i \<and> ptr_bytes i \<le> unat (file_off fl) \<and> unat (file_off fl) \<le> B \<and>
     unat (file_pos fl) = data_before B i + (unat (file_off fl) - ptr_bytes i))"

text \<open>The cache may hold old bytes of blocks in \<open>X\<close>, which are not blocks of the file.\<close>

definition reads_file_but ::
  "u32 set \<Rightarrow> 'd lfs_config \<Rightarrow> (nat \<Rightarrow> u8 list) \<Rightarrow> (nat \<Rightarrow> u32) \<Rightarrow> nat \<Rightarrow> u8 list \<Rightarrow> lfs_file \<Rightarrow> bool" where
  "reads_file_but X cfg mem bl n bytes fl \<longleftrightarrow>
     \<not> flag fl LFS_F_INLINE \<and> \<not> flag fl LFS_F_WRITING \<and> ctz_file cfg (view None mem) bl n bytes \<and>
     ctz_head fl = bl n \<and> unat (ctz_size fl) = length bytes \<and> length bytes \<le> 2147483647 \<and>
     (\<forall>i \<le> n. bl i \<notin> X) \<and> coherent_but X cfg mem (file_cache fl) \<and>
     (flag fl LFS_F_READING \<longrightarrow> file_here (unat (block_size cfg)) bl n fl)"

abbreviation reads_file :: "'d lfs_config \<Rightarrow> (nat \<Rightarrow> u8 list) \<Rightarrow> (nat \<Rightarrow> u32) \<Rightarrow> nat \<Rightarrow> u8 list \<Rightarrow> lfs_file \<Rightarrow> bool" where
  "reads_file \<equiv> reads_file_but {}"

section \<open>Reading\<close>

lemma wf_None: "pcache_wf cfg None"
  by (simp add: pcache_wf_def)

lemma read_block:
  assumes dev: "block_device cfg ok contents ready" and "112 \<le> unat (block_size cfg)" and "ok (lfs_dev lfs)"
    and fr: "reads_file_but X cfg (contents (lfs_dev lfs)) bl n bytes fl" and "unat (file_pos fl) < length bytes"
  shows "\<exists>fl' d' i. file_read_block cfg fl lfs = Some (0, fl', lfs\<lparr>lfs_dev := d'\<rparr>) \<and> ok d' \<and>
    contents d' = contents (lfs_dev lfs) \<and> ready d' = ready (lfs_dev lfs) \<and>
    reads_file_but X cfg (contents d') bl n bytes fl' \<and> flag fl' LFS_F_READING \<and> file_pos fl' = file_pos fl \<and>
    i \<le> n \<and> file_block fl' = bl i \<and> ptr_bytes i \<le> unat (file_off fl') \<and> unat (file_off fl') < unat (block_size cfg) \<and>
    unat (file_pos fl) = data_before (unat (block_size cfg)) i + (unat (file_off fl') - ptr_bytes i)"
proof (cases "\<not> flag fl LFS_F_READING \<or> file_off fl = block_size cfg")
  case False
  with fr have "file_here (unat (block_size cfg)) bl n fl" by (simp add: reads_file_but_def)
  moreover have "unat (file_off fl) \<noteq> unat (block_size cfg)" using False by (simp add: word_unat_eq_iff)
  ultimately show ?thesis using False fr assms(3)
    by (intro exI [of _ fl] exI [of _ "lfs_dev lfs"]) (auto simp: file_read_block_def file_here_def le_less)
next
  case True
  have f: "coherent_but X cfg (contents (lfs_dev lfs)) (file_cache fl)" "ctz_file cfg (view None (contents (lfs_dev lfs))) bl n bytes"
    "unat (ctz_size fl) = length bytes" "unat (ctz_size fl) \<le> 2147483647" "ctz_head fl = bl n" "\<not> flag fl LFS_F_INLINE" "\<And>i. i \<le> n \<Longrightarrow> bl i \<notin> X"
    using fr by (simp_all add: reads_file_but_def)
  have "unat (file_pos fl) < unat (ctz_size fl)" using assms(5) f(3) by simp
  from find_result [OF dev assms(3) f(1) wf_None assms(2) f(2-4) this f(7)] obtain i off rc' d' where
    r: "lfs_ctz_find cfg None (file_cache fl) (bl n) (ctz_size fl) (file_pos fl) (lfs_dev lfs) = Some (0, Some (bl i, off), rc', d')"
      "i \<le> n" "data_before (unat (block_size cfg)) i \<le> unat (file_pos fl)"
      "unat off = ptr_bytes i + (unat (file_pos fl) - data_before (unat (block_size cfg)) i)" "unat off < unat (block_size cfg)"
      "ok d'" "contents d' = contents (lfs_dev lfs)" "ready d' = ready (lfs_dev lfs)" "coherent_but X cfg (contents d') rc'" by blast
  define fl' where "fl' = set_flag LFS_F_READING (fl\<lparr>file_cache := rc', file_block := bl i, file_off := off\<rparr>)"
  have fields: "file_pos fl' = file_pos fl" "file_block fl' = bl i" "file_off fl' = off" "file_cache fl' = rc'"
    "ctz_head fl' = ctz_head fl" "ctz_size fl' = ctz_size fl" by (simp_all add: fl'_def set_flag_def)
  have flags: "flag fl' LFS_F_READING" "flag fl' LFS_F_INLINE = flag fl LFS_F_INLINE" "flag fl' LFS_F_WRITING = flag fl LFS_F_WRITING"
    by (simp_all add: fl'_def flag_set flag_values)
  have "file_here (unat (block_size cfg)) bl n fl'" unfolding file_here_def fields using r(2-5) by (intro exI [of _ i]) auto
  then have "reads_file_but X cfg (contents d') bl n bytes fl'" using fr r(7,9) unfolding reads_file_but_def fields flags by simp
  moreover have "file_read_block cfg fl lfs = Some (0, fl', lfs\<lparr>lfs_dev := d'\<rparr>)"
    using True f(5,6) r(1) by (simp add: file_read_block_def Let_def fl'_def)
  ultimately show ?thesis using r flags(1) unfolding fields by (intro exI [of _ fl'] exI [of _ d'] exI [of _ i]) (simp add: fields)
qed

lemma file_read_loop:
  assumes dev: "block_device cfg ok contents ready" and "112 \<le> unat (block_size cfg)"
  shows "ok (lfs_dev lfs) \<Longrightarrow> reads_file_but X cfg (contents (lfs_dev lfs)) bl n bytes fl \<Longrightarrow>
    unat (file_pos fl) + unat nsize \<le> length bytes \<Longrightarrow>
    \<exists>fl' d'. flushedread_loop cfg nsize data fl lfs =
        Some (0, data @ take (unat nsize) (drop (unat (file_pos fl)) bytes), fl', lfs\<lparr>lfs_dev := d'\<rparr>) \<and>
      ok d' \<and> contents d' = contents (lfs_dev lfs) \<and> ready d' = ready (lfs_dev lfs) \<and> reads_file_but X cfg (contents d') bl n bytes fl' \<and>
      unat (file_pos fl') = unat (file_pos fl) + unat nsize"
proof (induction "unat nsize" arbitrary: nsize data fl lfs rule: less_induct)
  case less
  let ?B = "unat (block_size cfg)"
  show ?case
  proof (cases "nsize = 0")
    case True
    have "lfs\<lparr>lfs_dev := lfs_dev lfs\<rparr> = lfs" by simp
    with True less.prems show ?thesis
      by (intro exI [of _ fl] exI [of _ "lfs_dev lfs"]) (simp add: flushedread_loop.simps [of _ 0])
  next
    case False
    then have pos: "0 < unat nsize" by (simp add: unat_gt_0)
    then have "unat (file_pos fl) < length bytes" using less.prems(3) by linarith
    from read_block [OF dev assms(2) less.prems(1,2) this] obtain f1 d1 i where
      b: "file_read_block cfg fl lfs = Some (0, f1, lfs\<lparr>lfs_dev := d1\<rparr>)" "ok d1" "contents d1 = contents (lfs_dev lfs)"
        "ready d1 = ready (lfs_dev lfs)" "reads_file_but X cfg (contents d1) bl n bytes f1" "flag f1 LFS_F_READING" "file_pos f1 = file_pos fl"
      and at: "i \<le> n" "file_block f1 = bl i" "ptr_bytes i \<le> unat (file_off f1)" "unat (file_off f1) < ?B"
        "unat (file_pos fl) = data_before ?B i + (unat (file_off f1) - ptr_bytes i)" by blast
    define diff where "diff = lfs_min nsize (block_size cfg - file_off f1)"
    have ud: "unat diff = min (unat nsize) (?B - unat (file_off f1))"
      unfolding diff_def using at(4) by (simp add: unat_sub_le)
    have dpos: "0 < unat diff" "unat diff \<le> unat nsize" "unat (file_off f1) + unat diff \<le> ?B" using ud pos at(4) by simp_all
    have cf: "ctz_file cfg (view None (contents d1)) bl n bytes" "coherent_but X cfg (contents d1) (file_cache f1)" "length bytes \<le> 2147483647"
        "\<not> flag f1 LFS_F_INLINE" "file_block f1 \<notin> X" using b(5) at(1,2) by (simp_all add: reads_file_but_def)
    have blk: "file_block f1 < block_count cfg" using cf(1) at(1,2) by (simp add: ctz_file_def ctz_list_def)
    have bytes: "map (view None (contents d1) (unat (file_block f1))) [unat (file_off f1)..<unat (file_off f1) + unat diff] =
        take (unat diff) (drop (unat (file_pos fl)) bytes)"
    proof (rule nth_equalityI)
      fix k assume k: "k < length (map (view None (contents d1) (unat (file_block f1))) [unat (file_off f1)..<unat (file_off f1) + unat diff])"
      then have k: "k < unat diff" by simp
      have p: "data_before ?B i + (unat (file_off f1) + k - ptr_bytes i) = unat (file_pos fl) + k" using at(3,5) by linarith
      have "view None (contents d1) (unat (bl i)) (unat (file_off f1) + k) = bytes ! (unat (file_pos fl) + k)"
        using ctz_file_byte [OF cf(1) at(1), of "unat (file_off f1) + k"] at(3) dpos k less.prems(3) unfolding p by linarith
      then show "map (view None (contents d1) (unat (file_block f1))) [unat (file_off f1)..<unat (file_off f1) + unat diff] ! k =
          take (unat diff) (drop (unat (file_pos fl)) bytes) ! k" using k at(2) less.prems(3) dpos by simp
    qed (use less.prems(3) dpos in simp)
    from block_device.bd_read_view [OF dev blk wf_None _ order_refl b(2) cf(2) dpos(3) cf(5)] assms(2) bytes obtain rc2 d2 where
      rd: "lfs_bd_read cfg None (file_cache f1) (block_size cfg) (file_block f1) (file_off f1) diff d1 =
          Some (0, take (unat diff) (drop (unat (file_pos fl)) bytes), rc2, d2)"
        "ok d2" "contents d2 = contents d1" "ready d2 = ready d1" "coherent_but X cfg (contents d1) rc2" by auto
    define f2 where "f2 = f1\<lparr>file_cache := rc2, file_pos := file_pos f1 + diff, file_off := file_off f1 + diff\<rparr>"
    have up: "unat (file_pos f1 + diff) = unat (file_pos fl) + unat diff" "unat (file_off f1 + diff) = unat (file_off f1) + unat diff"
      using less.prems(3) dpos cf(3) b(7) block_device.sizes(8) [OF dev] by (auto intro!: unat_add_u32 trans [OF unat_add_u32])
    have un: "unat (nsize - diff) = unat nsize - unat diff" using dpos(2) by (rule unat_sub_le)
    have "file_here ?B bl n f2"
      unfolding file_here_def using at dpos(3) up by (intro exI [of _ i]) (simp add: f2_def)
    then have r2: "reads_file_but X cfg (contents d2) bl n bytes f2" using b(5) rd(3,5) by (simp add: reads_file_but_def f2_def)
    define l2 where "l2 = lfs\<lparr>lfs_dev := d2\<rparr>"
    have step: "flushedread_loop cfg nsize data fl lfs =
        flushedread_loop cfg (nsize - diff) (data @ take (unat diff) (drop (unat (file_pos fl)) bytes)) f2 l2"
      using False b(1) cf(4) rd(1) by (subst flushedread_loop.simps)
        (simp add: file_read_bytes_def diff_def [symmetric] f2_def l2_def word_gt_0 Let_def)
    have m: "unat (nsize - diff) < unat nsize" "ok (lfs_dev l2)" "reads_file_but X cfg (contents (lfs_dev l2)) bl n bytes f2"
      "unat (file_pos f2) + unat (nsize - diff) \<le> length bytes"
      using un dpos rd(2) r2 less.prems(3) up(1) b(7) by (simp_all add: l2_def f2_def)
    have join: "take (unat diff) (drop (unat (file_pos fl)) bytes) @ take (unat (nsize - diff)) (drop (unat (file_pos f2)) bytes) =
        take (unat nsize) (drop (unat (file_pos fl)) bytes)"
      using up(1) b(7) dpos(2) un by (simp add: f2_def take_add [symmetric] drop_drop [symmetric] add.commute del: drop_drop)
    from less.hyps [OF m, of "data @ take (unat diff) (drop (unat (file_pos fl)) bytes)"] show ?thesis
      unfolding step append.assoc join using rd(3,4) b(3,4,7) up(1) un dpos(2) by (auto simp: l2_def f2_def)
  qed
qed


lemma flushedread_bytes:
  assumes "block_device cfg ok contents ready" and "112 \<le> unat (block_size cfg)" and "ok (lfs_dev lfs)"
    and "reads_file_but X cfg (contents (lfs_dev lfs)) bl n bytes fl"
  shows "\<exists>fl' d'. lfs_file_flushedread cfg sz fl lfs =
      Some (int (length (take (unat sz) (drop (unat (file_pos fl)) bytes))), take (unat sz) (drop (unat (file_pos fl)) bytes),
        fl', lfs\<lparr>lfs_dev := d'\<rparr>) \<and>
    ok d' \<and> contents d' = contents (lfs_dev lfs) \<and> ready d' = ready (lfs_dev lfs) \<and> reads_file_but X cfg (contents d') bl n bytes fl' \<and>
    unat (file_pos fl') = unat (file_pos fl) + length (take (unat sz) (drop (unat (file_pos fl)) bytes))"
proof (cases "file_pos fl \<ge> ctz_size fl")
  case True
  then have "length bytes \<le> unat (file_pos fl)" using assms(4) by (simp add: reads_file_but_def word_le_nat_alt)
  with True assms(3,4) show ?thesis
    by (intro exI [of _ fl] exI [of _ "lfs_dev lfs"]) (simp add: lfs_file_flushedread_def)
next
  case False
  have s: "unat (ctz_size fl) = length bytes" "length bytes \<le> 2147483647" using assms(4) by (simp_all add: reads_file_but_def)
  define k where "k = lfs_min sz (ctz_size fl - file_pos fl)"
  have "unat (ctz_size fl - file_pos fl) = length bytes - unat (file_pos fl)"
    using False s(1) by (subst unat_sub_le) (simp_all add: word_le_nat_alt)
  then have k: "unat k = length (take (unat sz) (drop (unat (file_pos fl)) bytes))" by (simp add: k_def min.commute)
  then have sk: "sint k = int (length (take (unat sz) (drop (unat (file_pos fl)) bytes)))" "unat (file_pos fl) + unat k \<le> length bytes"
    "take (unat k) (drop (unat (file_pos fl)) bytes) = take (unat sz) (drop (unat (file_pos fl)) bytes)"
    using s False by (auto simp: sint_small word_le_nat_alt min_def)
  from file_read_loop [OF assms sk(2), of "[]"] show ?thesis
    using False k sk by (simp add: lfs_file_flushedread_def k_def [symmetric]) (fastforce simp: k_def)
qed


text \<open>
  Property C32: reading a file.  For every open file that is stored as a CTZ list, at every position, a
  read of any number of bytes ends without an error, returns exactly the bytes of the file from the
  position on, up to the number asked for or the end of the file, moves the position behind them, and
  leaves the file fit for the next operation; nothing on the device changes.
\<close>

theorem lfs_file_read_returns:
  assumes "block_device cfg ok contents ready" and "112 \<le> unat (block_size cfg)" and "ok (lfs_dev lfs)"
    and "reads_file cfg (contents (lfs_dev lfs)) bl n bytes fl"
  shows "\<exists>fl' d'. lfs_file_flushedread cfg sz fl lfs =
      Some (int (length (take (unat sz) (drop (unat (file_pos fl)) bytes))), take (unat sz) (drop (unat (file_pos fl)) bytes),
        fl', lfs\<lparr>lfs_dev := d'\<rparr>) \<and>
    ok d' \<and> contents d' = contents (lfs_dev lfs) \<and> reads_file cfg (contents d') bl n bytes fl' \<and>
    unat (file_pos fl') = unat (file_pos fl) + length (take (unat sz) (drop (unat (file_pos fl)) bytes))"
  using flushedread_bytes [OF assms, of sz] by blast

text \<open>A file of 16380 bytes in the blocks 3 and 5; one byte of block 3 is different from the others.\<close>

definition marked_ram :: lfs_rambd where
  "marked_ram = filled_ram\<lparr>ram := (ram filled_ram)[32706 := 7]\<rparr>"

definition marked_bytes :: "u8 list" where
  "marked_bytes = (replicate 16380 255)[8130 := 7]"

definition opened :: lfs_file where
  "opened = \<lparr>file_id = 0, file_m = zero_mdir, ctz_head = 5, ctz_size = 16380, file_flags = LFS_O_RDONLY,
     file_pos = 0, file_block = 0, file_off = 0, file_cache = empty_cache\<rparr>"

definition mounted :: "lfs_rambd lfs" where
  "mounted = \<lparr>lfs_rcache = empty_cache, lfs_pcache = empty_cache, lfs_gdisk = no_gstate, lfs_free = unmounted,
     lfs_file_max = LFS_FILE_MAX, lfs_dev = marked_ram\<rparr>"

lemma marked_ok: "ram_ok esp_lfs_sizes marked_ram"
  using filled_ram_ok by (simp add: ram_ok_def marked_ram_def)

lemma marked_block: "b < 128 \<Longrightarrow> j < 8192 \<Longrightarrow>
  ram_block esp_lfs_sizes marked_ram b ! j = (if b = 3 \<and> j = 8130 then 7 else if b = 5 \<and> j < 4 then [3, 0, 0, 0] ! j else 255)"
proof -
  assume b: "b < 128" "j < 8192"
  have l: "length (ram filled_ram) = 1048576" using filled_ram_ok by (simp add: ram_ok_def esp_lfs_sizes_def)
  have k: "b * 8192 + j < 1048576" using b by linarith
  have r: "ram_block esp_lfs_sizes bd b ! j = ram bd ! (b * 8192 + j)" if "length (ram bd) = 1048576" for bd
    using b k that by (simp add: ram_block_def esp_lfs_sizes_def mem_read_def)
  have "b * 8192 + j = 32706 \<longleftrightarrow> b = 3 \<and> j = 8130"
  proof
    assume e: "b * 8192 + j = 32706"
    with b(2) have "2 < b" "b < 4" by linarith+
    then have "b = 3" by simp
    with e show "b = 3 \<and> j = 8130" by simp
  qed simp
  with r [of marked_ram] r [of filled_ram] l k filled_block [OF b] show ?thesis
    by (auto simp: marked_ram_def nth_list_update)
qed

lemma marked_file:
  "ctz_file (rambd_config esp_lfs_sizes) (view None (ram_block esp_lfs_sizes marked_ram)) two_blocks 1 marked_bytes"
proof -
  have b: "unat (block_size (rambd_config esp_lfs_sizes)) = 8192" by (simp add: esp_config)
  have z: "zeros (Suc 0) = 0" by (simp add: zeros.simps)
  have n: "data_before 8192 (Suc 0) = 8192" "data_before 8192 (Suc (Suc 0)) = 16380"
    by (simp_all add: data_before_def ptr_bytes_def zeros.simps)
  have "le32_of [3, 0, 0, 0] = 3" by (simp add: le32_of_def le32_def)
  then have p: "le32_of (map (view None (ram_block esp_lfs_sizes marked_ram) 5) [0..<4]) = 3"
    by (simp add: view_def marked_block upt_rec)
  show ?thesis
    unfolding ctz_file_def ctz_list_def b esp_config
    by (auto simp: n p z two_blocks_def le_Suc_eq view_def marked_block ptr_bytes_def marked_bytes_def nth_list_update)
qed

lemma opened_reads: "reads_file (rambd_config esp_lfs_sizes) (ram_block esp_lfs_sizes marked_ram) two_blocks 1 marked_bytes opened"
  using marked_file empty_cache_coherent
  by (simp add: reads_file_but_def opened_def flag_def LFS_O_RDONLY_def LFS_F_INLINE_def LFS_F_WRITING_def LFS_F_READING_def
      two_blocks_def marked_bytes_def)

lemma marked_7: "take 2 (drop 8130 marked_bytes) = [7, 255]"
  by (simp add: marked_bytes_def drop_update_swap nth_list_update take_update_swap numeral_2_eq_2 drop_replicate take_replicate)

theorem lfs_file_read_returns_witness:
  "\<exists>fl' d'. lfs_file_flushedread (rambd_config esp_lfs_sizes) 2 (opened\<lparr>file_pos := 8130\<rparr>) mounted =
     Some (2, [7, 255], fl', mounted\<lparr>lfs_dev := d'\<rparr>)"
proof -
  have "reads_file (rambd_config esp_lfs_sizes) (ram_block esp_lfs_sizes (lfs_dev mounted)) two_blocks 1 marked_bytes (opened\<lparr>file_pos := 8130\<rparr>)"
    using opened_reads by (simp add: reads_file_but_def mounted_def) (simp add: opened_def flag_def LFS_O_RDONLY_def LFS_F_READING_def)
  moreover have "take 2 (drop 8130 marked_bytes) = [7, 255]" by (rule marked_7)
  moreover have "112 \<le> unat (block_size (rambd_config esp_lfs_sizes))" by (simp add: esp_config)
  moreover have "ram_ok esp_lfs_sizes (lfs_dev mounted)" "file_pos (opened\<lparr>file_pos := 8130\<rparr>) = 8130" using marked_ok by (simp_all add: mounted_def)
  ultimately show ?thesis
    using lfs_file_read_returns [OF ram_device.block_device_axioms, of mounted two_blocks 1 marked_bytes "opened\<lparr>file_pos := 8130\<rparr>" 2]
    by auto
qed

section \<open>Seeking\<close>

lemma ctz_index_inside:
  assumes "112 \<le> unat (block_size cfg)" "unat s \<le> 2147483647"
    and "data_before (unat (block_size cfg)) i \<le> unat s" "unat s < data_before (unat (block_size cfg)) (Suc i)"
  shows "\<exists>j off. lfs_ctz_index cfg s = (j, off) \<and> unat j = i \<and>
    unat off = ptr_bytes i + (unat s - data_before (unat (block_size cfg)) i)"
proof -
  from lfs_ctz_index_data [OF roomy_112 [OF assms(1,2)]] obtain j off where j: "lfs_ctz_index cfg s = (j, off)"
    "data_before (unat (block_size cfg)) (unat j) \<le> unat s" "unat s < data_before (unat (block_size cfg)) (Suc (unat j))"
    "unat off = unat s - data_before (unat (block_size cfg)) (unat j) + ptr_bytes (unat j)" by blast
  moreover have "unat j = i" by (rule data_before_unique [OF j(2,3) assms(3,4)])
  ultimately show ?thesis by (simp add: add.commute)
qed

lemma flush_reads:
  assumes "block_device cfg ok contents ready" and "reads_file cfg mem bl n bytes fl"
  shows "\<exists>fl'. lfs_file_flush cfg traverse fl lfs = Some (0, fl', lfs) \<and> reads_file cfg mem bl n bytes fl' \<and>
    file_pos fl' = file_pos fl \<and> \<not> flag fl' LFS_F_READING"
proof -
  have f: "\<not> flag fl LFS_F_INLINE" "\<not> flag fl LFS_F_WRITING" "coherent cfg mem (file_cache fl)" using assms(2) by (simp_all add: reads_file_but_def)
  have "coherent cfg mem (lfs_cache_drop (file_cache fl))"
    using f(3) block_device.sizes(9) [OF assms(1)] by (intro coherent_drop) (simp_all add: coherent_but_def cache_wf_def)
  then have "reads_file cfg mem bl n bytes (flush_reading fl)" "\<not> flag (flush_reading fl) LFS_F_READING"
      "\<not> flag (flush_reading fl) LFS_F_WRITING" "file_pos (flush_reading fl) = file_pos fl"
    using assms(2) f by (auto simp: flush_reading_def reads_file_but_def flag_clear flag_values) (simp_all add: clear_flag_def)
  then show ?thesis by (simp add: lfs_file_flush_def flush_writing_def)
qed

lemma seek_reads:
  assumes dev: "block_device cfg ok contents ready" and B: "112 \<le> unat (block_size cfg)"
    and fr: "reads_file cfg mem bl n bytes fl" and "flag fl LFS_F_READING \<longrightarrow> file_off fl \<noteq> block_size cfg"
    and "lfs_file_max lfs \<le> LFS_FILE_MAX" and "file_pos fl \<le> lfs_file_max lfs"
    and "seek_target fl off whence = Some npos" and "npos \<le> lfs_file_max lfs"
  shows "\<exists>fl'. lfs_file_rawseek cfg traverse off whence fl lfs = Some (int (unat npos), fl', lfs) \<and>
    reads_file cfg mem bl n bytes fl' \<and> file_pos fl' = npos"
proof -
  have small: "unat npos \<le> 2147483647" "unat (file_pos fl) \<le> 2147483647"
    using assms(5,6,8) by (auto simp: word_le_nat_alt LFS_FILE_MAX_def)
  then have s: "sint npos = int (unat npos)" by (intro sint_small) simp
  have nw: "\<not> flag fl LFS_F_WRITING" "\<not> lfs_file_max lfs < npos" using fr assms(8) by (simp_all add: reads_file_but_def)
  obtain oindex ooff where o: "lfs_ctz_index cfg (file_pos fl) = (oindex, ooff)" by fastforce
  obtain nindex noff where m: "lfs_ctz_index cfg npos = (nindex, noff)" by fastforce
  consider (noop) "file_pos fl = npos" | (near) "file_pos fl \<noteq> npos" "oindex = nindex" "noff \<ge> cache_off (file_cache fl)"
      "noff < cache_off (file_cache fl) + cache_len (file_cache fl)"
    | (far) "file_pos fl \<noteq> npos" "\<not> (oindex = nindex \<and> noff \<ge> cache_off (file_cache fl) \<and>
      noff < cache_off (file_cache fl) + cache_len (file_cache fl))" by blast
  then show ?thesis
  proof cases
    case noop
    with assms(7) nw s fr show ?thesis by (intro exI [of _ fl]) (simp add: lfs_file_rawseek_def)
  next
    case near
    define fl' where "fl' = fl\<lparr>file_pos := npos, file_off := noff\<rparr>"
    have "file_here (unat (block_size cfg)) bl n fl'" if r: "flag fl LFS_F_READING"
    proof -
      from fr r obtain i where i: "i \<le> n" "file_block fl = bl i" "ptr_bytes i \<le> unat (file_off fl)" "unat (file_off fl) \<le> unat (block_size cfg)"
        "unat (file_pos fl) = data_before (unat (block_size cfg)) i + (unat (file_off fl) - ptr_bytes i)"
        by (auto simp: reads_file_but_def file_here_def)
      have "unat (file_off fl) \<noteq> unat (block_size cfg)" using assms(4) r by (simp add: word_unat_eq_iff)
      then have "data_before (unat (block_size cfg)) i \<le> unat (file_pos fl)" "unat (file_pos fl) < data_before (unat (block_size cfg)) (Suc i)"
        using i(3-5) by (simp_all add: data_before_def)
      from ctz_index_inside [OF B small(2) this] o have oi: "unat oindex = i" by simp
      from lfs_ctz_index_data [OF roomy_112 [OF B small(1)]] m near(2) oi have
        nd: "data_before (unat (block_size cfg)) i \<le> unat npos" "unat npos < data_before (unat (block_size cfg)) (Suc i)"
          "unat noff = unat npos - data_before (unat (block_size cfg)) i + ptr_bytes i" by auto
      have "data_before (unat (block_size cfg)) (Suc i) = data_before (unat (block_size cfg)) i + (unat (block_size cfg) - ptr_bytes i)"
        by (simp add: data_before_def)
      with nd i show ?thesis unfolding file_here_def by (intro exI [of _ i]) (auto simp: fl'_def)
    qed
    then have "reads_file cfg mem bl n bytes fl'" using fr by (simp add: reads_file_but_def fl'_def)
    moreover have "lfs_file_rawseek cfg traverse off whence fl lfs = Some (int (unat npos), fl', lfs)"
      using near assms(7) s nw by (simp add: lfs_file_rawseek_def o m fl'_def)
    ultimately show ?thesis by (simp add: fl'_def)
  next
    case far
    from flush_reads [OF dev fr] obtain fl1 where f: "lfs_file_flush cfg traverse fl lfs = Some (0, fl1, lfs)"
      "reads_file cfg mem bl n bytes fl1" "\<not> flag fl1 LFS_F_READING" by blast
    then have "reads_file cfg mem bl n bytes (fl1\<lparr>file_pos := npos\<rparr>)" by (simp add: reads_file_but_def)
    moreover have "lfs_file_rawseek cfg traverse off whence fl lfs = Some (int (unat npos), fl1\<lparr>file_pos := npos\<rparr>, lfs)"
      using far assms(7) s f(1) nw by (auto simp: lfs_file_rawseek_def o m)
    ultimately show ?thesis by auto
  qed
qed


text \<open>
  Property C33: seeking and reading.  A seek to any position that is not negative and not above the
  largest file size, given from the start, from the position or from the end, returns that position,
  and the read after it returns the bytes of the file from there on.  This holds unless the last read
  ended exactly at the end of a block, where the code can go wrong (next property).
\<close>

theorem lfs_file_seek_then_read:
  assumes "block_device cfg ok contents ready" and "112 \<le> unat (block_size cfg)" and "ok (lfs_dev lfs)"
    and "reads_file cfg (contents (lfs_dev lfs)) bl n bytes fl" and "flag fl LFS_F_READING \<longrightarrow> file_off fl \<noteq> block_size cfg"
    and "lfs_file_max lfs \<le> LFS_FILE_MAX" and "file_pos fl \<le> lfs_file_max lfs"
    and "seek_target fl off whence = Some npos" and "npos \<le> lfs_file_max lfs"
  shows "\<exists>fl1 fl2 d2. lfs_file_rawseek cfg traverse off whence fl lfs = Some (int (unat npos), fl1, lfs) \<and>
    lfs_file_flushedread cfg sz fl1 lfs = Some (int (length (take (unat sz) (drop (unat npos) bytes))),
      take (unat sz) (drop (unat npos) bytes), fl2, lfs\<lparr>lfs_dev := d2\<rparr>) \<and>
    contents d2 = contents (lfs_dev lfs) \<and> reads_file cfg (contents d2) bl n bytes fl2"
proof -
  from seek_reads [OF assms(1,2,4-9)] obtain fl1 where
    "lfs_file_rawseek cfg traverse off whence fl lfs = Some (int (unat npos), fl1, lfs)"
    "reads_file cfg (contents (lfs_dev lfs)) bl n bytes fl1" "file_pos fl1 = npos" by blast
  with flushedread_bytes [OF assms(1-3) this(2), of sz] show ?thesis by fastforce
qed

theorem lfs_file_seek_then_read_witness:
  "\<exists>fl1 fl2 d2. lfs_file_rawseek (rambd_config esp_lfs_sizes) (\<lambda>_. file_traverse (rambd_config esp_lfs_sizes) 5 16380) (- 8250) LFS_SEEK_END opened mounted = Some (8130, fl1, mounted) \<and>
     lfs_file_flushedread (rambd_config esp_lfs_sizes) 2 fl1 mounted = Some (2, [7, 255], fl2, mounted\<lparr>lfs_dev := d2\<rparr>)"
proof -
  have "seek_target opened (- 8250) LFS_SEEK_END = Some 8130"
    by (simp add: seek_target_def LFS_SEEK_SET_def LFS_SEEK_CUR_def LFS_SEEK_END_def lfs_file_rawsize_def opened_def flag_def
        LFS_O_RDONLY_def LFS_F_WRITING_def)
  moreover have "reads_file (rambd_config esp_lfs_sizes) (ram_block esp_lfs_sizes (lfs_dev mounted)) two_blocks 1 marked_bytes opened"
    using opened_reads by (simp add: mounted_def)
  moreover have "take 2 (drop 8130 marked_bytes) = [7, 255]" by (rule marked_7)
  moreover have "112 \<le> unat (block_size (rambd_config esp_lfs_sizes))" by (simp add: esp_config)
  moreover have "ram_ok esp_lfs_sizes (lfs_dev mounted)" "lfs_file_max mounted \<le> LFS_FILE_MAX" "file_pos opened \<le> lfs_file_max mounted"
      "8130 \<le> lfs_file_max mounted" "\<not> flag opened LFS_F_READING"
    using marked_ok by (simp_all add: mounted_def opened_def LFS_FILE_MAX_def flag_def LFS_O_RDONLY_def LFS_F_READING_def)
  ultimately show ?thesis
    using lfs_file_seek_then_read [OF ram_device.block_device_axioms, of mounted two_blocks 1 marked_bytes opened "- 8250" LFS_SEEK_END 8130 "(\<lambda>_. file_traverse (rambd_config esp_lfs_sizes) 5 16380)" 2]
    by fastforce
qed

text \<open>
  Property C34: the seek that reads the wrong block.  A read that ends at the end of a block leaves the
  offset there, and the position is the first one of the next block.  A seek from there to a position
  inside the next block stays in the cache of the old block when the cache covers the same offsets:
  it sets the offset but not the block, so the next read returns a byte of the old block.
\<close>

theorem lfs_file_seek_wrong_block:
  assumes "block_device cfg ok contents ready" and "112 \<le> unat (block_size cfg)" and "ok (lfs_dev lfs)"
    and "reads_file cfg (contents (lfs_dev lfs)) bl n bytes fl" and "flag fl LFS_F_READING" and "file_off fl = block_size cfg"
    and "file_block fl = bl i" and "unat (file_pos fl) = data_before (unat (block_size cfg)) (Suc i)" and "i < n"
    and "lfs_file_max lfs \<le> LFS_FILE_MAX" and "npos \<le> lfs_file_max lfs" and "file_pos fl < npos" and "npos < ctz_size fl"
    and "lfs_ctz_index cfg npos = (nindex, noff)" and "unat nindex = Suc i"
    and "cache_off (file_cache fl) \<le> noff" and "noff < cache_off (file_cache fl) + cache_len (file_cache fl)"
  shows "\<exists>fl1 fl2 d2. lfs_file_rawseek cfg traverse npos LFS_SEEK_SET fl lfs = Some (int (unat npos), fl1, lfs) \<and>
    lfs_file_flushedread cfg 1 fl1 lfs = Some (1, [contents (lfs_dev lfs) (unat (bl i)) ! unat noff], fl2, lfs\<lparr>lfs_dev := d2\<rparr>)"
proof -
  let ?B = "unat (block_size cfg)" and ?m = "contents (lfs_dev lfs)"
  define fl1 where "fl1 = fl\<lparr>file_pos := npos, file_off := noff\<rparr>"
  have small: "unat npos \<le> 2147483647" "unat (file_pos fl) \<le> 2147483647" "unat (file_pos fl) < unat npos" "unat npos < unat (ctz_size fl)"
    using assms(10-13) by (auto simp: word_le_nat_alt word_less_nat_alt LFS_FILE_MAX_def)
  from lfs_ctz_index_data [OF roomy_112 [OF assms(2) small(1)]] assms(14,15) have
    nd: "data_before ?B (Suc i) \<le> unat npos" "unat npos < data_before ?B (Suc (Suc i))"
      "unat noff = unat npos - data_before ?B (Suc i) + ptr_bytes (Suc i)" by auto
  have lt: "unat noff < ?B" using nd by (simp add: data_before_def [of _ "Suc (Suc i)"] data_before_def [of _ "Suc i"])
  have "data_before ?B (Suc i) \<le> unat (file_pos fl)" "unat (file_pos fl) < data_before ?B (Suc (Suc i))" using assms(8) nd small(3) by simp_all
  from ctz_index_inside [OF assms(2) small(2) this] obtain oindex ooff where
    o1: "lfs_ctz_index cfg (file_pos fl) = (oindex, ooff)" "unat oindex = Suc i" by blast
  then have o: "lfs_ctz_index cfg (file_pos fl) = (oindex, ooff)" "oindex = nindex" using assms(15) by (simp_all add: word_unat_eq_iff)
  have f: "\<not> flag fl LFS_F_WRITING" "\<not> flag fl LFS_F_INLINE" "coherent cfg ?m (file_cache fl)" "ctz_file cfg (view None ?m) bl n bytes"
    using assms(4) by (simp_all add: reads_file_but_def)
  have "sint npos = int (unat npos)" using small(1) by (intro sint_small) simp
  then have seek: "lfs_file_rawseek cfg traverse npos LFS_SEEK_SET fl lfs = Some (int (unat npos), fl1, lfs)"
    using assms(11,12,14,16,17) o f(1)
    by (auto simp: lfs_file_rawseek_def seek_target_def not_less [symmetric] fl1_def)
  have blk: "bl i < block_count cfg" using f(4) assms(9) by (simp add: ctz_file_def ctz_list_def)
  have "unat noff + unat (1 :: u32) \<le> ?B" "0 < ?B" using lt by simp_all
  from block_device.bd_read_view [OF assms(1) blk wf_None this(2) order_refl assms(3) f(3) this(1) empty_notin] obtain rc d where
    rd: "lfs_bd_read cfg None (file_cache fl) (block_size cfg) (bl i) noff 1 (lfs_dev lfs) = Some (0, [?m (unat (bl i)) ! unat noff], rc, d)"
    by (auto simp: view_def)
  have d1: "lfs_min 1 (block_size cfg - noff) = 1" "lfs_min 1 (ctz_size fl - npos) = 1"
    using lt small(4) by (simp_all add: word_unat_eq_iff unat_sub_le)
  have "noff \<noteq> block_size cfg" using lt by auto
  then have "flushedread_loop cfg 1 [] fl1 lfs = Some (0, [?m (unat (bl i)) ! unat noff],
      fl1\<lparr>file_cache := rc, file_pos := npos + 1, file_off := noff + 1\<rparr>, lfs\<lparr>lfs_dev := d\<rparr>)"
    using assms(5,7) f(2) rd d1(1)
    by (simp add: flushedread_loop.simps [of _ 1] flushedread_loop.simps [of _ 0] file_read_block_def file_read_bytes_def fl1_def)
  then have "lfs_file_flushedread cfg 1 fl1 lfs = Some (1, [?m (unat (bl i)) ! unat noff],
      fl1\<lparr>file_cache := rc, file_pos := npos + 1, file_off := noff + 1\<rparr>, lfs\<lparr>lfs_dev := d\<rparr>)"
    using assms(13) d1(2) by (simp add: lfs_file_flushedread_def fl1_def not_le [symmetric])
  with seek show ?thesis by blast
qed

text \<open>The state after the last byte of block 3 was read; the byte at 16318 of the file is 255, not 7.\<close>

definition at_block_end :: lfs_file where
  "at_block_end = set_flag LFS_F_READING (opened\<lparr>file_pos := 8192, file_block := 3, file_off := 8192,
     file_cache := \<lparr>cache_block = 3, cache_off = 8128, cache_len = 64, cache_buffer = (replicate 64 255)[2 := 7]\<rparr>\<rparr>)"

theorem lfs_file_seek_wrong_block_witness:
  "marked_bytes ! 16318 = 255 \<and>
   (\<exists>fl1 fl2 d2. lfs_file_rawseek (rambd_config esp_lfs_sizes) (\<lambda>_. file_traverse (rambd_config esp_lfs_sizes) 5 16380) 16318 LFS_SEEK_SET at_block_end mounted = Some (16318, fl1, mounted) \<and>
     lfs_file_flushedread (rambd_config esp_lfs_sizes) 1 fl1 mounted = Some (1, [7], fl2, mounted\<lparr>lfs_dev := d2\<rparr>))"
proof -
  let ?c = "rambd_config esp_lfs_sizes"
  have blk: "length (ram_block esp_lfs_sizes marked_ram 3) = 8192"
    using marked_ok by (simp add: ram_ok_def ram_block_def esp_lfs_sizes_def)
  have "take 64 ((replicate 64 255)[2 := 7]) = mem_read (ram_block esp_lfs_sizes marked_ram 3) 8128 64"
    by (rule nth_equalityI) (use blk in \<open>auto simp: nth_mem_read marked_block nth_list_update\<close>)
  then have c: "coherent ?c (ram_block esp_lfs_sizes marked_ram) (file_cache at_block_end)"
    by (simp add: coherent_but_def cache_wf_def at_block_end_def set_flag_def esp_config blk)
  have fields: "file_pos at_block_end = 8192" "file_off at_block_end = 8192" "file_block at_block_end = 3" "ctz_head at_block_end = 5"
      "ctz_size at_block_end = 16380" "cache_off (file_cache at_block_end) = 8128" "cache_len (file_cache at_block_end) = 64"
    by (simp_all add: at_block_end_def set_flag_def opened_def)
  have flags: "flag at_block_end LFS_F_READING" "\<not> flag at_block_end LFS_F_INLINE" "\<not> flag at_block_end LFS_F_WRITING"
    using opened_reads by (simp_all add: at_block_end_def flag_set flag_values reads_file_but_def)
  have "file_here (unat (block_size ?c)) two_blocks 1 at_block_end"
    unfolding file_here_def fields by (intro exI [of _ 0]) (simp add: two_blocks_def ptr_bytes_def esp_config)
  then have reads: "reads_file ?c (ram_block esp_lfs_sizes marked_ram) two_blocks 1 marked_bytes at_block_end"
    using marked_file c flags unfolding reads_file_but_def fields by (simp add: two_blocks_def marked_bytes_def)
  have ix: "lfs_ctz_index ?c 16318 = (1, 8130)"
    by (simp add: lfs_ctz_index_def rambd_config_def esp_lfs_sizes_def) (simp add: lfs_popc_def builtin_popcount_def lsb_bits_def upt_32)
  have db: "unat (file_pos at_block_end) = data_before (unat (block_size ?c)) (Suc 0)"
    unfolding fields by (simp add: data_before_def ptr_bytes_def esp_config)
  have m: "lfs_dev mounted = marked_ram" "lfs_file_max mounted = LFS_FILE_MAX" by (simp_all add: mounted_def)
  have r: "reads_file ?c (ram_block esp_lfs_sizes (lfs_dev mounted)) two_blocks 1 marked_bytes at_block_end" "ram_ok esp_lfs_sizes (lfs_dev mounted)"
    using reads marked_ok by (simp_all add: m)
  have "\<exists>fl1 fl2 d2. lfs_file_rawseek ?c (\<lambda>_. file_traverse (rambd_config esp_lfs_sizes) 5 16380) 16318 LFS_SEEK_SET at_block_end mounted = Some (int (unat (16318 :: u32)), fl1, mounted) \<and>
     lfs_file_flushedread ?c 1 fl1 mounted =
       Some (1, [ram_block esp_lfs_sizes (lfs_dev mounted) (unat (two_blocks 0)) ! unat (8130 :: u32)], fl2, mounted\<lparr>lfs_dev := d2\<rparr>)"
    by (rule lfs_file_seek_wrong_block [OF ram_device.block_device_axioms _ r(2,1) flags(1) _ _ db _ _ _ _ _ ix])
      (simp_all add: fields esp_config two_blocks_def m LFS_FILE_MAX_def)
  moreover have "ram_block esp_lfs_sizes (lfs_dev mounted) (unat (two_blocks 0)) ! unat (8130 :: u32) = 7"
    by (simp add: m two_blocks_def marked_block)
  moreover have "marked_bytes ! 16318 = 255" by (simp add: marked_bytes_def nth_list_update)
  ultimately show ?thesis by simp
qed

end
