(* ===== verification/Lfs_File_Write.thy ===== *)
theory Lfs_File_Write
  imports Lfs_File_Read
begin

text \<open>
  Writing an open file of littlefs that is stored as a CTZ list: a write opens a new last block, copies
  what precedes the position, and appends; a flush appends the rest of the old file and writes out the
  cache.  The blocks in use before are never written.
\<close>

section \<open>Lists\<close>

lemma ctz_file_prefix:
  assumes "ctz_file cfg v bl n bytes" "i \<le> n" "data_before (unat (block_size cfg)) i < p"
    and "p \<le> data_before (unat (block_size cfg)) (Suc i)" "p \<le> length bytes"
  shows "ctz_file cfg v bl i (take p bytes)"
proof -
  have bytes: "v (unat (bl k)) j = take p bytes ! (data_before (unat (block_size cfg)) k + (j - ptr_bytes k))"
    if "k \<le> i" "ptr_bytes k \<le> j \<and> j < unat (block_size cfg) \<and> data_before (unat (block_size cfg)) k + (j - ptr_bytes k) < length (take p bytes)" for k j
  proof -
    define q where "q = data_before (unat (block_size cfg)) k + (j - ptr_bytes k)"
    have "q < p" using that(2) unfolding q_def length_take by linarith
    then have "k \<le> n" "q < p" "q < length bytes" using that(1) assms(2,5) by simp_all
    with ctz_file_byte [OF assms(1), of k j] that show ?thesis unfolding q_def [symmetric] by simp
  qed
  have "ctz_list cfg v bl i" using assms(1,2) by (simp add: ctz_file_def ctz_list_def)
  moreover have l: "length (take p bytes) = p" using assms(5) by simp
  ultimately show ?thesis unfolding ctz_file_def l using assms(3,4) bytes [unfolded l] by blast
qed

lemma ctz_file_cong:
  "ctz_file cfg v bl n bytes \<Longrightarrow> (\<And>i. i \<le> n \<Longrightarrow> v' (unat (bl i)) = v (unat (bl i))) \<Longrightarrow> ctz_file cfg v' bl n bytes"
proof -
  assume f: "ctz_file cfg v bl n bytes" and e: "\<And>i. i \<le> n \<Longrightarrow> v' (unat (bl i)) = v (unat (bl i))"
  have "ctz_list cfg v' bl n" using f e unfolding ctz_file_def ctz_list_def by simp
  moreover have "v' (unat (bl i)) j = v (unat (bl i)) j" if "i \<le> n" for i j using e [OF that] by simp
  ultimately show ?thesis using f unfolding ctz_file_def by metis
qed

lemma open_is_file: "ctz_open cfg v bl n off bytes \<Longrightarrow> data_before (unat (block_size cfg)) n < length bytes \<Longrightarrow> ctz_file cfg v bl n bytes"
  unfolding ctz_file_open ctz_open_def by blast

text \<open>Bytes appended to the last block.\<close>

lemma ctz_open_append:
  assumes o: "ctz_open cfg v bl n off bytes" and fit: "off + length data \<le> unat (block_size cfg)"
    and n: "\<And>i. i < n \<Longrightarrow> v' (unat (bl i)) = v (unat (bl i))"
    and new: "\<And>j. j < off + length data \<Longrightarrow> v' (unat (bl n)) j = (if off \<le> j then data ! (j - off) else v (unat (bl n)) j)"
  shows "ctz_open cfg v' bl n (off + length data) (bytes @ data)"
proof -
  let ?B = "unat (block_size cfg)"
  have f: "ctz_list cfg v bl n" "ctz_bytes cfg v bl n bytes" "data_before ?B n \<le> length bytes" "length bytes \<le> data_before ?B (Suc n)"
    "off = ptr_bytes n + (length bytes - data_before ?B n)" using o by (simp_all add: ctz_open_def)
  have off: "ptr_bytes n \<le> off" "off \<le> ?B" using f(5) fit by simp_all
  have same: "v' (unat (bl n)) j = v (unat (bl n)) j" if "j < off" for j using new [of j] that off by simp
  have "ctz_list cfg v' bl n"
    unfolding ctz_list_def
  proof (intro allI impI conjI)
    fix i k assume i: "i \<le> n" "k \<le> zeros i" "0 < i"
    have "map (v' (unat (bl i))) [4 * k..<4 * k + 4] = map (v (unat (bl i))) [4 * k..<4 * k + 4]"
    proof (cases "i = n")
      case True
      then have "4 * k + 4 \<le> off" using i off by (simp add: ptr_bytes_def)
      with same True show ?thesis by (intro map_cong) auto
    qed (use n i in simp)
    then show "le32_of (map (v' (unat (bl i))) [4 * k..<4 * k + 4]) = bl (i - 2 ^ k)" using ctz_listD [OF f(1) i(1,3,2)] by (simp only:)
  qed (use ctz_list_bound [OF f(1)] in simp)
  moreover have "ctz_bytes cfg v' bl n (bytes @ data)"
    unfolding ctz_bytes_def
  proof (intro allI impI)
    fix i j assume i: "i \<le> n" and j: "ptr_bytes i \<le> j \<and> j < ?B \<and> data_before ?B i + (j - ptr_bytes i) < length (bytes @ data)"
    define q where "q = data_before ?B i + (j - ptr_bytes i)"
    have old: "v (unat (bl i)) j = bytes ! q" if "q < length bytes" using f(2) i j that unfolding ctz_bytes_def q_def by blast
    show "v' (unat (bl i)) j = (bytes @ data) ! (data_before ?B i + (j - ptr_bytes i))"
      unfolding q_def [symmetric]
    proof (cases "i = n")
      case True
      then have "q < length bytes \<longleftrightarrow> j < off" "q - length bytes = j - off" using j f(3,5) unfolding q_def by auto
      moreover from True have "j < off + length data" "j < ?B" using j f(3,5) by auto
      ultimately show "v' (unat (bl i)) j = (bytes @ data) ! q"
        using True new [of j] old by (simp add: nth_append)
    next
      case False
      then have lt: "i < n" using i by simp
      have "data_before ?B (Suc i) = data_before ?B i + (?B - ptr_bytes i)" by (simp add: data_before_def)
      moreover have "data_before ?B (Suc i) \<le> data_before ?B n" using lt by (intro data_before_mono) simp
      ultimately have "q < length bytes" using j f(3) unfolding q_def by linarith
      with old n [OF lt] show "v' (unat (bl i)) j = (bytes @ data) ! q" by (simp add: nth_append)
    qed
  qed
  moreover have "data_before ?B (Suc n) = data_before ?B n + (?B - ptr_bytes n)" by (simp add: data_before_def)
  then have "length (bytes @ data) \<le> data_before ?B (Suc n)" using f(3,5) fit by simp
  ultimately show ?thesis using f(3,5) by (simp add: ctz_open_def)
qed

lemma round_up_least:
  fixes l m p :: nat
  assumes "0 < p" "p dvd m" "l \<le> m"
  shows "(l + p - 1) div p * p \<le> m"
proof -
  obtain k where k: "m = p * k" using assms(2) by auto
  have "(l + p - 1) div p \<le> (p * k + p - 1) div p" using assms(3) k by (intro div_le_mono) simp
  also have "\<dots> * p = p * k" by (rule round_multiple [OF assms(1)])
  then have "(p * k + p - 1) div p * p = m" using k by simp
  ultimately show ?thesis using mult_le_mono1 by (metis (no_types))
qed


section \<open>What the traversal promises\<close>

text \<open>
  \<open>base\<close> are the blocks in use before the writes: they hold \<open>mem0\<close> throughout, and in them the old bytes
  of the file.  As long as the file keeps its committed list, the traversal visits them, and in addition
  the blocks of the list that is being written.
\<close>

definition same_list :: "lfs_file \<Rightarrow> lfs_file \<Rightarrow> bool" where
  "same_list fl0 fl \<longleftrightarrow> ctz_head fl = ctz_head fl0 \<and> ctz_size fl = ctz_size fl0 \<and> flag fl LFS_F_DIRTY = flag fl0 LFS_F_DIRTY \<and>
     file_flags fl AND 0xFFFF = file_flags fl0 AND 0xFFFF"

definition empty_file_cache :: "'d lfs_config \<Rightarrow> lfs_file \<Rightarrow> bool" where
  "empty_file_cache cfg fl \<longleftrightarrow> cache_block (file_cache fl) = LFS_BLOCK_NULL \<and>
     length (cache_buffer (file_cache fl)) = unat (cache_size cfg)"

definition base_kept :: "u32 list \<Rightarrow> (nat \<Rightarrow> u8 list) \<Rightarrow> (nat \<Rightarrow> u8 list) \<Rightarrow> bool" where
  "base_kept base mem0 mem \<longleftrightarrow> (\<forall>b \<in> set base. mem (unat b) = mem0 (unat b))"

definition old_list :: "'d lfs_config \<Rightarrow> u32 list \<Rightarrow> (nat \<Rightarrow> u8 list) \<Rightarrow> u8 list \<Rightarrow> lfs_file \<Rightarrow> bool" where
  "old_list cfg base mem old fl \<longleftrightarrow> unat (ctz_size fl) = length old \<and> length old \<le> 2147483647 \<and>
     (old \<noteq> [] \<longrightarrow> (\<exists>bl n. ctz_file cfg (view None mem) bl n old \<and> ctz_head fl = bl n \<and> bl ` {0..n} \<subseteq> set base))"

locale open_traversal = block_device cfg ok contents ready
  for cfg :: "'d lfs_config" and ok :: "'d \<Rightarrow> bool" and contents :: "'d \<Rightarrow> nat \<Rightarrow> u8 list" and ready :: "'d \<Rightarrow> nat \<Rightarrow> nat \<Rightarrow> bool" +
  fixes traverse :: "'d file_traverse" and base :: "u32 list" and mem0 :: "nat \<Rightarrow> u8 list" and fl0 :: lfs_file and fmax :: u32 and old :: "u8 list"
  assumes base_bound: "\<forall>b \<in> set base. b < block_count cfg" and old_bytes: "old_list cfg base mem0 old fl0"
    and roomy_blocks: "112 \<le> unat (block_size cfg)" "sizes_fit cfg"
    and visits_base: "base_kept base mem0 mem \<Longrightarrow> same_list fl0 fl \<Longrightarrow> empty_file_cache cfg fl \<Longrightarrow> \<not> flag fl LFS_F_WRITING \<Longrightarrow>
      block_traversal (traverse fl) (file_good cfg ok contents mem) (\<lambda>_. base)"
    and visits_open: "base_kept base mem0 mem \<Longrightarrow> same_list fl0 fl \<Longrightarrow> empty_file_cache cfg fl \<Longrightarrow> flag fl LFS_F_WRITING \<Longrightarrow>
      \<not> flag fl LFS_F_INLINE \<Longrightarrow> ctz_file cfg (view None mem) bl n bytes \<Longrightarrow> file_block fl = bl n \<Longrightarrow>
      unat (file_pos fl) = length bytes \<Longrightarrow> length bytes \<le> 2147483647 \<Longrightarrow>
      block_traversal (traverse fl) (file_good cfg ok contents mem) (\<lambda>_. base @ map bl (rev [0..<Suc n]))"

section \<open>Extending\<close>

definition alloc_fits :: "'d lfs_config \<Rightarrow> u32 set \<Rightarrow> lfs_free \<Rightarrow> bool" where
  "alloc_fits cfg used f \<longleftrightarrow> (\<exists>handed. alloc_safe cfg (unat ` used) handed f)"

lemma fits_ack: "alloc_fits cfg used f \<Longrightarrow> alloc_fits cfg used (lfs_alloc_ack cfg f)"
  unfolding alloc_fits_def by (blast intro: safe_ack)

lemma fits_subset: "alloc_fits cfg used f \<Longrightarrow> used' \<subseteq> used \<Longrightarrow> alloc_fits cfg used' f"
  unfolding alloc_fits_def by (blast intro: safe_change)

context block_device
begin

lemma extend_open:
  assumes trav: "block_traversal T (file_good cfg ok contents (contents d)) (\<lambda>_. blocks)" "sizes_fit cfg"
      "\<forall>b \<in> set blocks. b < block_count cfg" "alloc_fits cfg (set blocks) f" "ok d" "coherent cfg (contents d) rc"
    and sz: "112 \<le> bs" "unat sz = length bytes" "unat sz \<le> 2147483647"
    and old: "sz \<noteq> 0 \<Longrightarrow> ctz_file cfg (view None (contents d)) bl n bytes \<and> head = bl n \<and> bl ` {0..n} \<subseteq> set blocks"
    and p: "cache_block p = LFS_BLOCK_NULL" "length (cache_buffer p) = cs"
  shows "\<exists>err r p' rc' f' d'. lfs_ctz_extend cfg T head sz p rc f d = Some (err, r, p', rc', f', d') \<and> ok d' \<and>
    (err = LFS_ERR_NOSPC \<and> contents d' = contents d \<or>
     (\<exists>nb i off. err = 0 \<and> r = Some (nb, off) \<and> nb \<notin> set blocks \<and> (\<forall>c. c \<noteq> unat nb \<longrightarrow> contents d' c = contents d c) \<and>
       ctz_open cfg (view (Some p') (contents d')) (bl(i := nb)) i (unat off) bytes \<and> nb \<notin> bl ` {..<i} \<and> unat off < bs \<and>
       writing_by cs cfg (ready d') p' nb (unat off) \<and> coherent_but {nb} cfg (contents d') rc' \<and>
       alloc_fits cfg (set blocks \<union> (bl(i := nb)) ` {0..i}) f'))"
proof -
  from trav(4) obtain handed where safe: "alloc_safe cfg (unat ` set blocks) handed f" by (auto simp: alloc_fits_def)
  then have inv: "alloc_inv False cfg (unat ` set blocks) handed f" by (simp add: alloc_inv_def)
  have g: "file_good cfg ok contents (contents d) (rc, d)" using trav(5,6) by (simp add: file_good_def)
  have lt: "\<forall>x \<in> set blocks. unat x < unat (block_count cfg)" using trav(3) by (simp add: word_less_nat_alt)
  from block_traversal.alloc_result [OF trav(1,2) lt refl inv g] obtain err b f1 rc1 d1 where
    al: "lfs_alloc cfg T f (rc, d) = Some (err, b, f1, rc1, d1)" "file_good cfg ok contents (contents d) (rc1, d1)"
      "(\<exists>x. err = 0 \<and> b = Some x \<and> unat x < unat (block_count cfg) \<and> unat x \<notin> unat ` set blocks \<union> handed \<and>
         alloc_inv False cfg (unat ` set blocks) (insert (unat x) handed) f1) \<or>
       (err = LFS_ERR_NOSPC \<and> b = None)" by fastforce
  have g: "ok d1" "contents d1 = contents d" "coherent cfg (contents d) rc1" using al(2) by (simp_all add: file_good_def)
  from al(3) show ?thesis
  proof
    assume "err = LFS_ERR_NOSPC \<and> b = None"
    then have "lfs_ctz_extend cfg T head sz p rc f d = Some (LFS_ERR_NOSPC, None, p, rc1, f1, d1)"
      using al(1) by (subst lfs_ctz_extend.simps) (simp add: LFS_ERR_NOSPC_def)
    with g show ?thesis by auto
  next
    assume "\<exists>x. err = 0 \<and> b = Some x \<and> unat x < unat (block_count cfg) \<and> unat x \<notin> unat ` set blocks \<union> handed \<and>
         alloc_inv False cfg (unat ` set blocks) (insert (unat x) handed) f1"
    then obtain nb where x: "err = 0" "b = Some nb" "nb < block_count cfg" "nb \<notin> set blocks"
        and safe1: "alloc_safe cfg (unat ` set blocks) (insert (unat nb) handed) f1"
      by (auto simp: word_less_nat_alt alloc_inv_def)
    have old': "ctz_file cfg (view None (contents d)) bl n bytes \<and> head = bl n \<and> nb \<notin> bl ` {0..n}" if "sz \<noteq> 0"
      using old [OF that] x(4) by blast
    from extend_result [OF sizes(4) dvd_refl al(1) [unfolded x(1,2)] g x(3) sz old' p] obtain i off p' rc' d' where
      e: "lfs_ctz_extend cfg T head sz p rc f d = Some (0, Some (nb, off), p', rc', f1, d')" "ok d'" "coherent_but {nb} cfg (contents d') rc'"
        "writing_by cs cfg (ready d') p' nb (unat off)" "\<forall>c. c \<noteq> unat nb \<longrightarrow> contents d' c = contents d c"
        "lfs_ctz_index cfg sz = (i, off)" "ctz_open cfg (view (Some p') (contents d')) (bl(unat i := nb)) (unat i) (unat off) bytes" by blast
    have io: "data_before bs (unat i) \<le> unat sz" "unat sz < data_before bs (Suc (unat i))"
      "unat off = unat sz - data_before bs (unat i) + ptr_bytes (unat i)"
      using lfs_ctz_index_data [OF roomy_112 [OF sz(1,3)]] e(6) by auto
    have off: "unat off < bs" using io by (simp add: data_before_def)
    have i: "unat i \<le> Suc n" if "sz \<noteq> 0"
    proof (rule ccontr)
      assume "\<not> unat i \<le> Suc n"
      then have le: "data_before bs (Suc (Suc n)) \<le> data_before bs (unat i)" by (intro data_before_mono) simp
      have "ptr_bytes (Suc n) + 12 \<le> bs" using le io(1) data_before_mono [of "Suc n" "Suc (Suc n)" bs]
        by (intro roomy_ptr_bytes_12 [OF roomy_112 [OF sz(1,3)]]) linarith
      then have "data_before bs (Suc n) < data_before bs (Suc (Suc n))" by (simp add: data_before_def)
      moreover have "unat sz \<le> data_before bs (Suc n)" using old [OF that] sz(2) by (simp add: ctz_file_def)
      ultimately show False using le io(1) by linarith
    qed
    have i0: "unat i = 0" if "sz = 0" using e(6) that by (simp add: lfs_ctz_index_def)
    have before: "bl ` {..<unat i} \<subseteq> set blocks"
    proof (cases "sz = 0")
      case True
      then show ?thesis using i0 by simp
    next
      case False
      then have "{..<unat i} \<subseteq> {0..n}" using i by auto
      with old [OF False] show ?thesis by blast
    qed
    then have "nb \<notin> bl ` {..<unat i}" using x(4) by blast
    moreover have "alloc_fits cfg (set blocks \<union> (bl(unat i := nb)) ` {0..unat i}) f1"
    proof -
      have "{0..unat i} = insert (unat i) {..<unat i}" by auto
      then have "(bl(unat i := nb)) ` {0..unat i} \<subseteq> insert nb (set blocks)" using before by auto
      then have "unat ` (set blocks \<union> (bl(unat i := nb)) ` {0..unat i}) \<subseteq> unat ` set blocks \<union> insert (unat nb) handed" by auto
      with safe_change [OF safe1] show ?thesis unfolding alloc_fits_def by blast
    qed
    ultimately show ?thesis using e off x(4) by blast
  qed
qed

end


section \<open>A file that is being written\<close>

text \<open>
  A file at rest (nothing cached), and a file with the flag \<open>LFS_F_WRITING\<close>: \<open>bytes\<close> is what its new list
  holds up to the position, seen through the cache of the file.
\<close>

definition rests_file :: "'d lfs_config \<Rightarrow> ('d \<Rightarrow> nat \<Rightarrow> u8 list) \<Rightarrow> u32 list \<Rightarrow> lfs_file \<Rightarrow> 'd lfs \<Rightarrow> bool" where
  "rests_file cfg contents base fl lfs \<longleftrightarrow>
     \<not> flag fl LFS_F_WRITING \<and> \<not> flag fl LFS_F_INLINE \<and> \<not> flag fl LFS_F_READING \<and> empty_file_cache cfg fl \<and>
     coherent cfg (contents (lfs_dev lfs)) (lfs_rcache lfs) \<and> alloc_fits cfg (set base) (lfs_free lfs)"

definition writes_file ::
  "'d lfs_config \<Rightarrow> ('d \<Rightarrow> nat \<Rightarrow> u8 list) \<Rightarrow> ('d \<Rightarrow> nat \<Rightarrow> nat \<Rightarrow> bool) \<Rightarrow> u32 list \<Rightarrow> (nat \<Rightarrow> u32) \<Rightarrow> nat \<Rightarrow> u8 list \<Rightarrow> lfs_file \<Rightarrow> 'd lfs \<Rightarrow> bool" where
  "writes_file cfg contents ready base bl n bytes fl lfs \<longleftrightarrow>
     flag fl LFS_F_WRITING \<and> \<not> flag fl LFS_F_INLINE \<and> \<not> flag fl LFS_F_READING \<and>
     file_block fl = bl n \<and> bl n \<notin> set base \<and> bl n \<notin> bl ` {..<n} \<and>
     unat (file_pos fl) = length bytes \<and> length bytes \<le> 2147483647 \<and>
     ctz_open cfg (view (Some (file_cache fl)) (contents (lfs_dev lfs))) bl n (unat (file_off fl)) bytes \<and>
     writing_by (unat (cache_size cfg)) cfg (ready (lfs_dev lfs)) (file_cache fl) (bl n) (unat (file_off fl)) \<and>
     coherent_but {bl n} cfg (contents (lfs_dev lfs)) (lfs_rcache lfs) \<and>
     alloc_fits cfg (set base \<union> bl ` {0..n}) (lfs_free lfs)"

text \<open>At least one byte went through the cache since the last block was opened.\<close>

definition settled :: "'d lfs_config \<Rightarrow> ('d \<Rightarrow> nat \<Rightarrow> u8 list) \<Rightarrow> nat \<Rightarrow> u8 list \<Rightarrow> lfs_file \<Rightarrow> 'd lfs \<Rightarrow> bool" where
  "settled cfg contents n bytes fl lfs \<longleftrightarrow> data_before (unat (block_size cfg)) n < length bytes \<and>
     (cache_block (file_cache fl) = LFS_BLOCK_NULL \<longrightarrow> coherent cfg (contents (lfs_dev lfs)) (lfs_rcache lfs))"

text \<open>The next bytes go behind \<open>bytes\<close>.\<close>

definition can_write ::
  "'d lfs_config \<Rightarrow> ('d \<Rightarrow> nat \<Rightarrow> u8 list) \<Rightarrow> ('d \<Rightarrow> nat \<Rightarrow> nat \<Rightarrow> bool) \<Rightarrow> u32 list \<Rightarrow> u8 list \<Rightarrow> u8 list \<Rightarrow> lfs_file \<Rightarrow> 'd lfs \<Rightarrow> bool" where
  "can_write cfg contents ready base old bytes fl lfs \<longleftrightarrow>
     (\<exists>bl n. writes_file cfg contents ready base bl n bytes fl lfs \<and> settled cfg contents n bytes fl lfs) \<or>
     rests_file cfg contents base fl lfs \<and> unat (file_pos fl) \<le> length old \<and> bytes = take (unat (file_pos fl)) old"

text \<open>What holds throughout: the device is in order and the blocks in use before are unchanged.\<close>

definition session ::
  "('d \<Rightarrow> bool) \<Rightarrow> ('d \<Rightarrow> nat \<Rightarrow> u8 list) \<Rightarrow> u32 list \<Rightarrow> (nat \<Rightarrow> u8 list) \<Rightarrow> lfs_file \<Rightarrow> u32 \<Rightarrow> lfs_file \<Rightarrow> 'd lfs \<Rightarrow> bool" where
  "session ok contents base mem0 fl0 fmax fl lfs \<longleftrightarrow>
     ok (lfs_dev lfs) \<and> base_kept base mem0 (contents (lfs_dev lfs)) \<and> same_list fl0 fl \<and> lfs_file_max lfs = fmax"

lemma base_other: "base_kept base mem0 mem \<Longrightarrow> b \<notin> set base \<Longrightarrow> \<forall>c. c \<noteq> unat b \<longrightarrow> mem' c = mem c \<Longrightarrow> base_kept base mem0 mem'"
  unfolding base_kept_def by (metis word_unat_eq_iff)

lemma same_list_update [simp]:
  "same_list fl0 (fl\<lparr>file_cache := c\<rparr>) = same_list fl0 fl" "same_list fl0 (fl\<lparr>file_block := b\<rparr>) = same_list fl0 fl"
  "same_list fl0 (fl\<lparr>file_off := a\<rparr>) = same_list fl0 fl" "same_list fl0 (fl\<lparr>file_pos := a\<rparr>) = same_list fl0 fl"
  by (simp_all add: same_list_def)

lemma flag_fields [simp]:
  "ctz_head (set_flag f fl) = ctz_head fl" "ctz_size (set_flag f fl) = ctz_size fl" "file_pos (set_flag f fl) = file_pos fl"
  "file_block (set_flag f fl) = file_block fl" "file_off (set_flag f fl) = file_off fl" "file_cache (set_flag f fl) = file_cache fl"
  "ctz_head (clear_flag f fl) = ctz_head fl" "ctz_size (clear_flag f fl) = ctz_size fl" "file_pos (clear_flag f fl) = file_pos fl"
  "file_block (clear_flag f fl) = file_block fl" "file_off (clear_flag f fl) = file_off fl" "file_cache (clear_flag f fl) = file_cache fl"
  by (simp_all add: set_flag_def clear_flag_def)

lemma more_flag_values:
  "LFS_F_ERRED \<noteq> 0" "LFS_F_READING AND LFS_F_DIRTY = 0" "LFS_F_WRITING AND LFS_F_DIRTY = 0" "LFS_F_INLINE AND LFS_F_DIRTY = 0"
  "LFS_F_ERRED AND LFS_F_DIRTY = 0" "LFS_F_ERRED AND LFS_F_WRITING = 0" "LFS_F_ERRED AND LFS_F_READING = 0" "LFS_F_ERRED AND LFS_F_INLINE = 0"
  by (simp_all add: LFS_F_READING_def LFS_F_WRITING_def LFS_F_INLINE_def LFS_F_DIRTY_def LFS_F_ERRED_def)

lemma mode_flag:
  "f AND 0xFFFF = 0 \<Longrightarrow> file_flags (set_flag f fl) AND 0xFFFF = file_flags fl AND 0xFFFF"
  "f AND 0xFFFF = 0 \<Longrightarrow> file_flags (clear_flag f fl) AND 0xFFFF = file_flags fl AND 0xFFFF"
proof -
  assume f: "f AND 0xFFFF = 0"
  then have n: "\<not> (bit f n \<and> bit (0xFFFF :: u32) n)" for n by (metis bit_and_iff bit_0_eq bot_apply bot_bool_def)
  have "(file_flags fl OR f) AND 0xFFFF = (file_flags fl AND 0xFFFF) OR (f AND 0xFFFF)" by (rule bit.conj_disj_distrib2)
  with f show "file_flags (set_flag f fl) AND 0xFFFF = file_flags fl AND 0xFFFF" by (simp add: set_flag_def)
  have "(file_flags fl AND NOT f) AND 0xFFFF = file_flags fl AND 0xFFFF"
    by (rule bit_word_eqI) (use n in \<open>auto simp: bit_and_iff bit_not_iff\<close>)
  then show "file_flags (clear_flag f fl) AND 0xFFFF = file_flags fl AND 0xFFFF" by (simp add: clear_flag_def)
qed

lemma high_flags: "LFS_F_ERRED AND 0xFFFF = 0" "LFS_F_WRITING AND 0xFFFF = 0" "LFS_F_READING AND 0xFFFF = 0" "LFS_F_DIRTY AND 0xFFFF = 0"
  by (simp_all add: LFS_F_READING_def LFS_F_WRITING_def LFS_F_DIRTY_def LFS_F_ERRED_def)

lemma mode_same:
  assumes "file_flags fl AND 0xFFFF = file_flags fl' AND 0xFFFF" "g AND 0xFFFF = g"
  shows "file_flags fl AND g = file_flags fl' AND g"
proof -
  have "file_flags x AND g = (file_flags x AND 0xFFFF) AND g" for x
    using assms(2) by (metis and.assoc and.commute)
  with assms(1) show ?thesis by metis
qed

lemma same_list_flag:
  "f AND LFS_F_DIRTY = 0 \<Longrightarrow> f AND 0xFFFF = 0 \<Longrightarrow> same_list fl0 (set_flag f fl) = same_list fl0 fl"
  "f AND LFS_F_DIRTY = 0 \<Longrightarrow> f AND 0xFFFF = 0 \<Longrightarrow> same_list fl0 (clear_flag f fl) = same_list fl0 fl"
  by (simp_all add: same_list_def flag_set flag_clear mode_flag)

lemma view_null:
  assumes "cache_block p = LFS_BLOCK_NULL" "c < block_count cfg" "block_count cfg \<le> LFS_BLOCK_INLINE"
  shows "view (Some p) mem (unat c) = view None mem (unat c)"
proof -
  have "unat c < unat (block_count cfg)" "unat (block_count cfg) \<le> 4294967294"
    using assms(2,3) by (simp_all add: word_less_nat_alt word_le_nat_alt block_markers)
  then have "unat LFS_BLOCK_NULL \<noteq> unat c" by (simp add: block_markers)
  with assms(1) show ?thesis by (simp add: view_def cache_covers_def fun_eq_iff)
qed

section \<open>Steps\<close>

context open_traversal
begin

lemma prog_step:
  assumes w: "writes_file cfg contents ready base bl n bytes fl lfs" and se: "session ok contents base mem0 fl0 fmax fl lfs"
    and fit: "data \<noteq> []" "unat (file_off fl) + length data \<le> bs" "length bytes + length data \<le> 2147483647" "unat diff = length data"
  shows "\<exists>fl' lfs'. file_prog_loop cfg traverse data fl lfs = Some (0, fl', lfs') \<and>
    writes_file cfg contents ready base bl n (bytes @ data) (fl'\<lparr>file_pos := file_pos fl' + diff, file_off := file_off fl' + diff\<rparr>) lfs' \<and>
    session ok contents base mem0 fl0 fmax fl' lfs' \<and>
    settled cfg contents n (bytes @ data) (fl'\<lparr>file_pos := file_pos fl' + diff, file_off := file_off fl' + diff\<rparr>) lfs'"
proof -
  let ?d = "lfs_dev lfs" and ?m = "contents (lfs_dev lfs)"
  have f: "flag fl LFS_F_WRITING" "\<not> flag fl LFS_F_INLINE" "\<not> flag fl LFS_F_READING" "file_block fl = bl n" "bl n \<notin> set base"
      "bl n \<notin> bl ` {..<n}" "unat (file_pos fl) = length bytes"
      "ctz_open cfg (view (Some (file_cache fl)) ?m) bl n (unat (file_off fl)) bytes"
      "writing_by cs cfg (ready ?d) (file_cache fl) (bl n) (unat (file_off fl))"
      "coherent_but {bl n} cfg ?m (lfs_rcache lfs)" "alloc_fits cfg (set base \<union> bl ` {0..n}) (lfs_free lfs)"
    using w by (simp_all add: writes_file_def)
  have s: "ok ?d" "base_kept base mem0 ?m" "same_list fl0 fl" "lfs_file_max lfs = fmax" using se by (simp_all add: session_def)
  have list: "ctz_list cfg (view (Some (file_cache fl)) ?m) bl n" using f(8) by (simp add: ctz_open_def)
  have blk: "bl i < block_count cfg" if "i \<le> n" for i using list that by (rule ctz_list_bound)
  from bd_prog_view [OF sizes(4) dvd_refl blk [OF order_refl] s(1) f(10) _ f(9) fit(2), of True] obtain p' rc' d' where
    pr: "lfs_bd_prog cfg (file_cache fl) (lfs_rcache lfs) True (bl n) (file_off fl) data ?d = Some (0, p', rc', d')" "ok d'"
      "coherent_but {bl n} cfg (contents d') rc'" "cache_block p' = LFS_BLOCK_NULL \<longrightarrow> coherent cfg (contents d') rc'"
      "writing_by cs cfg (ready d') p' (bl n) (unat (file_off fl) + length data)"
      "\<forall>c. c \<noteq> unat (bl n) \<longrightarrow> contents d' c = ?m c"
      "\<forall>i < bs. view (Some p') (contents d') (unat (bl n)) i =
        (if unat (file_off fl) \<le> i \<and> i < unat (file_off fl) + length data then data ! (i - unat (file_off fl))
         else view (Some (file_cache fl)) ?m (unat (bl n)) i)"
    using fit(1) by auto
  have others: "view (Some p') (contents d') (unat (bl i)) = view (Some (file_cache fl)) ?m (unat (bl i))" if "i < n" for i
  proof -
    have ne: "bl i \<noteq> bl n" using f(6) that by (metis imageI lessThan_iff)
    have lt: "bl i < block_count cfg" using that by (intro blk) simp
    have "contents d' (unat (bl i)) = ?m (unat (bl i))" using pr(6) ne by (simp add: word_unat_eq_iff)
    then show ?thesis unfolding view_other [OF pr(5) ne lt] view_other [OF f(9) ne lt] by (rule view_None)
  qed
  have "ctz_open cfg (view (Some p') (contents d')) bl n (unat (file_off fl) + length data) (bytes @ data)"
    using pr(7) fit(2) by (intro ctz_open_append [OF f(8) fit(2) others]) auto
  moreover have "unat (file_off fl + diff) = unat (file_off fl) + length data" "unat (file_pos fl + diff) = length bytes + length data"
    using fit f(7) sizes(8) by (simp_all add: unat_add_u32)
  moreover have "base_kept base mem0 (contents d')"
    using s(2) f(5) pr(6) by (rule base_other)
  moreover have "file_prog_loop cfg traverse data fl lfs =
      Some (0, fl\<lparr>file_cache := p'\<rparr>, lfs\<lparr>lfs_rcache := rc', lfs_dev := d'\<rparr>)"
    using pr(1) f(4) by (subst file_prog_loop.simps) (simp add: Let_def)
  moreover have "data_before bs n < length bytes + length data"
  proof -
    have "data_before bs n \<le> length bytes" using f(8) by (simp add: ctz_open_def)
    moreover have "0 < length data" using fit(1) by simp
    ultimately show ?thesis by linarith
  qed
  ultimately show ?thesis using f pr s fit(3) by (auto simp: writes_file_def session_def settled_def)
qed


lemma open_step:
  assumes b: "base_kept base mem0 (contents (lfs_dev lfs))" "same_list fl0 fl" "ok (lfs_dev lfs)" "coherent cfg (contents (lfs_dev lfs)) (lfs_rcache lfs)"
      "lfs_file_max lfs = fmax"
    and trav: "block_traversal (traverse fl) (file_good cfg ok contents (contents (lfs_dev lfs))) (\<lambda>_. blocks)" "set base \<subseteq> set blocks"
      "\<forall>b \<in> set blocks. b < block_count cfg" "alloc_fits cfg (set blocks) (lfs_free lfs)"
    and fl: "\<not> flag fl LFS_F_INLINE" "\<not> flag fl LFS_F_READING" "empty_file_cache cfg fl"
      "unat (file_pos fl) = length bytes" "length bytes \<le> 2147483647"
    and old: "file_pos fl \<noteq> 0 \<Longrightarrow> ctz_file cfg (view None (contents (lfs_dev lfs))) bl n bytes \<and> file_block fl = bl n \<and> bl ` {0..n} \<subseteq> set blocks"
  shows "\<exists>err r p' rc' f' d' fl' lfs'. lfs_ctz_extend cfg (traverse fl) (file_block fl) (file_pos fl) (file_cache fl) (lfs_rcache lfs)
      (lfs_alloc_ack cfg (lfs_free lfs)) (lfs_dev lfs) = Some (err, r, p', rc', f', d') \<and>
    lfs' = lfs\<lparr>lfs_rcache := rc', lfs_free := f', lfs_dev := d'\<rparr> \<and>
    fl' = (if err \<noteq> 0 then set_flag LFS_F_ERRED (fl\<lparr>file_cache := p'\<rparr>)
           else set_flag LFS_F_WRITING (fl\<lparr>file_cache := p', file_block := fst (the r), file_off := snd (the r)\<rparr>)) \<and>
    session ok contents base mem0 fl0 fmax fl' lfs' \<and>
    (err = LFS_ERR_NOSPC \<or> err = 0 \<and> (\<exists>bl n. writes_file cfg contents ready base bl n bytes fl' lfs' \<and> unat (file_off fl') < bs))"
proof -
  let ?m = "contents (lfs_dev lfs)"
  have p: "cache_block (file_cache fl) = LFS_BLOCK_NULL" "length (cache_buffer (file_cache fl)) = cs"
    using fl(3) by (simp_all add: empty_file_cache_def)
  have "unat (file_pos fl) \<le> 2147483647" using fl(4,5) by simp
  from extend_open [OF trav(1) roomy_blocks(2) trav(3) fits_ack [OF trav(4)] b(3,4) roomy_blocks(1) fl(4) this old p]
  obtain err r p' rc' f' d' where e: "lfs_ctz_extend cfg (traverse fl) (file_block fl) (file_pos fl) (file_cache fl) (lfs_rcache lfs)
      (lfs_alloc_ack cfg (lfs_free lfs)) (lfs_dev lfs) = Some (err, r, p', rc', f', d')" "ok d'"
    and r: "err = LFS_ERR_NOSPC \<and> contents d' = ?m \<or>
     (\<exists>nb i off. err = 0 \<and> r = Some (nb, off) \<and> nb \<notin> set blocks \<and> (\<forall>c. c \<noteq> unat nb \<longrightarrow> contents d' c = ?m c) \<and>
       ctz_open cfg (view (Some p') (contents d')) (bl(i := nb)) i (unat off) bytes \<and> nb \<notin> bl ` {..<i} \<and> unat off < bs \<and>
       writing_by cs cfg (ready d') p' nb (unat off) \<and> coherent_but {nb} cfg (contents d') rc' \<and>
       alloc_fits cfg (set blocks \<union> (bl(i := nb)) ` {0..i}) f')" by blast
  define lfs' where "lfs' = lfs\<lparr>lfs_rcache := rc', lfs_free := f', lfs_dev := d'\<rparr>"
  define fl' where "fl' = (if err \<noteq> 0 then set_flag LFS_F_ERRED (fl\<lparr>file_cache := p'\<rparr>)
      else set_flag LFS_F_WRITING (fl\<lparr>file_cache := p', file_block := fst (the r), file_off := snd (the r)\<rparr>))"
  have same: "same_list fl0 fl'" using b(2) by (simp add: fl'_def same_list_flag more_flag_values high_flags)
  from r have res: "session ok contents base mem0 fl0 fmax fl' lfs' \<and>
    (err = LFS_ERR_NOSPC \<or> err = 0 \<and> (\<exists>bl n. writes_file cfg contents ready base bl n bytes fl' lfs' \<and> unat (file_off fl') < bs))"
  proof
    assume "err = LFS_ERR_NOSPC \<and> contents d' = ?m"
    with b(1,5) same e(2) show ?thesis by (simp add: session_def lfs'_def)
  next
    assume "\<exists>nb i off. err = 0 \<and> r = Some (nb, off) \<and> nb \<notin> set blocks \<and> (\<forall>c. c \<noteq> unat nb \<longrightarrow> contents d' c = ?m c) \<and>
       ctz_open cfg (view (Some p') (contents d')) (bl(i := nb)) i (unat off) bytes \<and> nb \<notin> bl ` {..<i} \<and> unat off < bs \<and>
       writing_by cs cfg (ready d') p' nb (unat off) \<and> coherent_but {nb} cfg (contents d') rc' \<and>
       alloc_fits cfg (set blocks \<union> (bl(i := nb)) ` {0..i}) f'"
    then obtain nb i off where x: "err = 0" "r = Some (nb, off)" "nb \<notin> set blocks" "\<forall>c. c \<noteq> unat nb \<longrightarrow> contents d' c = ?m c"
      "ctz_open cfg (view (Some p') (contents d')) (bl(i := nb)) i (unat off) bytes" "nb \<notin> bl ` {..<i}" "unat off < bs"
      "writing_by cs cfg (ready d') p' nb (unat off)" "coherent_but {nb} cfg (contents d') rc'"
      "alloc_fits cfg (set blocks \<union> (bl(i := nb)) ` {0..i}) f'" by blast
    have nb: "nb \<notin> set base" using x(3) trav(2) by blast
    have kept: "base_kept base mem0 (contents d')" using b(1) nb x(4) by (rule base_other)
    have "(bl(i := nb)) ` {..<i} = bl ` {..<i}" by auto
    moreover have "alloc_fits cfg (set base \<union> (bl(i := nb)) ` {0..i}) f'" using x(10) trav(2) by (elim fits_subset) blast
    moreover have fl': "flag fl' LFS_F_WRITING" "\<not> flag fl' LFS_F_INLINE" "\<not> flag fl' LFS_F_READING" "file_block fl' = nb"
        "file_off fl' = off" "file_pos fl' = file_pos fl" "file_cache fl' = p'"
      using fl(1,2) by (simp_all add: fl'_def x(1,2) flag_set flag_values)
    ultimately have "writes_file cfg contents ready base (bl(i := nb)) i bytes fl' lfs'"
      using x(5,6,8,9) fl(4,5) nb unfolding writes_file_def fl' by (simp add: lfs'_def)
    moreover have "session ok contents base mem0 fl0 fmax fl' lfs'" using kept same e(2) b(5) by (simp add: session_def lfs'_def)
    ultimately have "writes_file cfg contents ready base (bl(i := nb)) i bytes fl' lfs'" "session ok contents base mem0 fl0 fmax fl' lfs'" "unat (file_off fl') < bs"
      using x(7) fl' by simp_all
    with x(1) show ?thesis by blast
  qed
  show ?thesis
    by (rule exI [of _ err], rule exI [of _ r], rule exI [of _ p'], rule exI [of _ rc'], rule exI [of _ f'], rule exI [of _ d'],
      rule exI [of _ fl'], rule exI [of _ lfs'], intro conjI [OF e(1)] conjI [OF lfs'_def] conjI [OF fl'_def] res)
qed


lemma cache_empty_at_end: "writing_by cs cfg rdy p b bs \<Longrightarrow> cache_block p = LFS_BLOCK_NULL \<and> length (cache_buffer p) = cs"
proof -
  assume w: "writing_by cs cfg rdy p b bs"
  show ?thesis
  proof (rule ccontr)
    assume "\<not> (cache_block p = LFS_BLOCK_NULL \<and> length (cache_buffer p) = cs)"
    with w obtain s where s: "cs dvd s" "s < bs" "bs = s + unat (cache_len p)" "unat (cache_len p) < cs"
      by (auto simp: writing_by_def split: if_splits)
    have "cs dvd bs - s" using sizes(5) s(1) by (rule dvd_diff_nat)
    then have "cs \<le> bs - s" using s(2) by (intro dvd_imp_le) simp_all
    with s(3,4) show False by simp
  qed
qed

lemma full_block:
  assumes w: "writes_file cfg contents ready base bl n bytes fl lfs" and se: "session ok contents base mem0 fl0 fmax fl lfs"
    and st: "settled cfg contents n bytes fl lfs" and full: "file_off fl = block_size cfg"
  shows "\<exists>err fl' lfs'. file_write_block cfg traverse fl lfs = Some (err, fl', lfs') \<and> session ok contents base mem0 fl0 fmax fl' lfs' \<and>
    (err = LFS_ERR_NOSPC \<or> err = 0 \<and> (\<exists>bl n. writes_file cfg contents ready base bl n bytes fl' lfs' \<and> unat (file_off fl') < bs))"
proof -
  let ?m = "contents (lfs_dev lfs)"
  have f: "flag fl LFS_F_WRITING" "\<not> flag fl LFS_F_INLINE" "\<not> flag fl LFS_F_READING" "file_block fl = bl n"
      "unat (file_pos fl) = length bytes" "length bytes \<le> 2147483647"
      "ctz_open cfg (view (Some (file_cache fl)) ?m) bl n (unat (file_off fl)) bytes"
      "writing_by cs cfg (ready (lfs_dev lfs)) (file_cache fl) (bl n) (unat (file_off fl))"
      "alloc_fits cfg (set base \<union> bl ` {0..n}) (lfs_free lfs)"
    using w by (simp_all add: writes_file_def)
  have s: "ok (lfs_dev lfs)" "base_kept base mem0 ?m" "same_list fl0 fl" "lfs_file_max lfs = fmax" using se by (simp_all add: session_def)
  have e: "cache_block (file_cache fl) = LFS_BLOCK_NULL" "empty_file_cache cfg fl"
    using cache_empty_at_end f(8) full by (simp_all add: empty_file_cache_def)
  have co: "coherent cfg ?m (lfs_rcache lfs)" using st e(1) by (simp add: settled_def)
  have list: "ctz_list cfg (view (Some (file_cache fl)) ?m) bl n" using f(7) by (simp add: ctz_open_def)
  then have blk: "\<And>i. i \<le> n \<Longrightarrow> bl i < block_count cfg" by (rule ctz_list_bound)
  have nv: "view (Some (file_cache fl)) ?m (unat (bl i)) = view None ?m (unat (bl i))" if "i \<le> n" for i
    using e(1) blk [OF that] sizes(9) by (rule view_null)
  have at: "data_before bs n \<le> length bytes" "length bytes \<le> data_before bs (Suc n)" "bs = ptr_bytes n + (length bytes - data_before bs n)"
    "ctz_bytes cfg (view (Some (file_cache fl)) ?m) bl n bytes"
    using f(7) full by (simp_all add: ctz_open_def)
  have "ptr_bytes n + 12 \<le> bs"
    using at(1) f(6) roomy_blocks(1) by (intro roomy_ptr_bytes_12 [OF roomy_112, of bs "length bytes"]) simp_all
  then have lt: "data_before bs n < length bytes" using at(3) by linarith
  have "ctz_list cfg (view None ?m) bl n" using list nv [symmetric] by (rule ctz_list_cong)
  moreover have "ctz_bytes cfg (view None ?m) bl n bytes" using at(4) nv by (simp add: ctz_bytes_def)
  ultimately have whole: "ctz_file cfg (view None ?m) bl n bytes" using lt at(2) by (simp add: ctz_file_def ctz_bytes_def)
  have set: "set (base @ map bl (rev [0..<Suc n])) = set base \<union> bl ` {0..n}" by (simp only: set_append set_map set_rev set_upt atLeastLessThanSuc_atLeastAtMost)
  have blocks: "set base \<subseteq> set (base @ map bl (rev [0..<Suc n]))" "\<forall>b \<in> set (base @ map bl (rev [0..<Suc n])). b < block_count cfg"
    "alloc_fits cfg (set (base @ map bl (rev [0..<Suc n]))) (lfs_free lfs)"
    unfolding set using base_bound blk f(9) by auto
  have old: "ctz_file cfg (view None ?m) bl n bytes \<and> file_block fl = bl n \<and> bl ` {0..n} \<subseteq> set (base @ map bl (rev [0..<Suc n]))"
    unfolding set using whole f(4) by blast
  from open_step [OF s(2,3,1) co s(4) visits_open [OF s(2,3) e(2) f(1,2) whole f(4-6)] blocks f(2,3) e(2) f(5,6) old]
  obtain err r p' rc' f' d' fl' lfs' where x:
    "lfs_ctz_extend cfg (traverse fl) (file_block fl) (file_pos fl) (file_cache fl) (lfs_rcache lfs)
      (lfs_alloc_ack cfg (lfs_free lfs)) (lfs_dev lfs) = Some (err, r, p', rc', f', d')"
    "lfs' = lfs\<lparr>lfs_rcache := rc', lfs_free := f', lfs_dev := d'\<rparr>"
    "fl' = (if err \<noteq> 0 then set_flag LFS_F_ERRED (fl\<lparr>file_cache := p'\<rparr>)
           else set_flag LFS_F_WRITING (fl\<lparr>file_cache := p', file_block := fst (the r), file_off := snd (the r)\<rparr>))"
    "session ok contents base mem0 fl0 fmax fl' lfs'"
    "err = LFS_ERR_NOSPC \<or> err = 0 \<and> (\<exists>bl n. writes_file cfg contents ready base bl n bytes fl' lfs' \<and> unat (file_off fl') < bs)" by blast
  have "file_write_block cfg traverse fl lfs = Some (err, fl', lfs')"
    using f(1,2) full x(1) by (simp add: file_write_block_def file_last_block_def Let_def x(2,3))
  with x(4,5) show ?thesis by blast
qed

lemma old_now:
  assumes "session ok contents base mem0 fl0 fmax fl lfs"
  shows "unat (ctz_size fl) = length old" "length old \<le> 2147483647"
    and "old \<noteq> [] \<Longrightarrow> \<exists>bl n. ctz_file cfg (view None (contents (lfs_dev lfs))) bl n old \<and> ctz_head fl = bl n \<and> bl ` {0..n} \<subseteq> set base"
proof -
  have s: "same_list fl0 fl" "base_kept base mem0 (contents (lfs_dev lfs))" using assms by (simp_all add: session_def)
  with old_bytes show "unat (ctz_size fl) = length old" "length old \<le> 2147483647" by (simp_all add: old_list_def same_list_def)
  assume "old \<noteq> []"
  with old_bytes obtain bl n where o: "ctz_file cfg (view None mem0) bl n old" "ctz_head fl0 = bl n" "bl ` {0..n} \<subseteq> set base"
    by (auto simp: old_list_def)
  have "view None (contents (lfs_dev lfs)) (unat (bl i)) = view None mem0 (unat (bl i))" if "i \<le> n" for i
  proof (rule view_None)
    have "bl i \<in> set base" using o(3) that by auto
    with s(2) show "contents (lfs_dev lfs) (unat (bl i)) = mem0 (unat (bl i))" by (simp add: base_kept_def)
  qed
  from ctz_file_cong [OF o(1) this] o(2,3) s(1)
  show "\<exists>bl n. ctz_file cfg (view None (contents (lfs_dev lfs))) bl n old \<and> ctz_head fl = bl n \<and> bl ` {0..n} \<subseteq> set base"
    by (auto simp: same_list_def)
qed

lemma first_block:
  assumes r: "rests_file cfg contents base fl lfs" and se: "session ok contents base mem0 fl0 fmax fl lfs"
    and pos: "unat (file_pos fl) \<le> length old"
  shows "\<exists>err fl' lfs'. file_write_block cfg traverse fl lfs = Some (err, fl', lfs') \<and> session ok contents base mem0 fl0 fmax fl' lfs' \<and>
    (err = LFS_ERR_NOSPC \<or> err = 0 \<and> (\<exists>bl n. writes_file cfg contents ready base bl n (take (unat (file_pos fl)) old) fl' lfs' \<and>
       unat (file_off fl') < bs))"
proof -
  let ?m = "contents (lfs_dev lfs)" and ?bytes = "take (unat (file_pos fl)) old"
  have f: "\<not> flag fl LFS_F_WRITING" "\<not> flag fl LFS_F_INLINE" "\<not> flag fl LFS_F_READING" "empty_file_cache cfg fl"
      "coherent cfg ?m (lfs_rcache lfs)" "alloc_fits cfg (set base) (lfs_free lfs)"
    using r by (simp_all add: rests_file_def)
  note o = old_now [OF se]
  have s: "ok (lfs_dev lfs)" "base_kept base mem0 ?m" "same_list fl0 fl" "lfs_file_max lfs = fmax" using se by (simp_all add: session_def)
  have lb: "unat (file_pos fl) = length ?bytes" "length ?bytes \<le> 2147483647" using pos o(2) by simp_all
  have "\<exists>bl i fl1 d1. file_last_block cfg fl lfs = Some (0, fl1, lfs\<lparr>lfs_dev := d1\<rparr>) \<and> ok d1 \<and> contents d1 = ?m \<and>
      file_flags fl1 = file_flags fl \<and> file_pos fl1 = file_pos fl \<and> same_list fl0 fl1 \<and> empty_file_cache cfg fl1 \<and>
      (file_pos fl \<noteq> 0 \<longrightarrow> ctz_file cfg (view None ?m) bl i ?bytes \<and> file_block fl1 = bl i \<and> bl ` {0..i} \<subseteq> set base)"
  proof (cases "file_pos fl = 0")
    case True
    have "lfs\<lparr>lfs_dev := lfs_dev lfs\<rparr> = lfs" by simp
    with True s f(4) show ?thesis by (intro exI [of _ "\<lambda>_. 0"] exI [of _ 0] exI [of _ fl] exI [of _ "lfs_dev lfs"]) (simp add: file_last_block_def)
  next
    case False
    then have p1: "unat (file_pos fl - 1) = unat (file_pos fl) - 1" "0 < unat (file_pos fl)" by (simp_all add: unat_minus_one unat_gt_0)
    then have "old \<noteq> []" using pos by auto
    from o(3) [OF this] obtain bl n where l: "ctz_file cfg (view None ?m) bl n old" "ctz_head fl = bl n" "bl ` {0..n} \<subseteq> set base" by blast
    have c: "coherent cfg ?m (file_cache fl)" using f(4) sizes(9)
      by (auto simp: empty_file_cache_def coherent_but_def cache_wf_def word_le_nat_alt word_less_nat_alt block_markers)
    have "unat (ctz_size fl) \<le> 2147483647" "unat (file_pos fl - 1) < unat (ctz_size fl)" using o(1,2) p1 pos by simp_all
    from find_result [OF block_device_axioms s(1) c wf_None roomy_blocks(1) l(1) o(1) this empty_notin] obtain i off rc d1 where
      fd: "lfs_ctz_find cfg None (file_cache fl) (bl n) (ctz_size fl) (file_pos fl - 1) (lfs_dev lfs) = Some (0, Some (bl i, off), rc, d1)"
        "i \<le> n" "data_before bs i \<le> unat (file_pos fl - 1)" "unat off = ptr_bytes i + (unat (file_pos fl - 1) - data_before bs i)"
        "unat off < bs" "ok d1" "contents d1 = ?m" "coherent cfg (contents d1) rc" by blast
    have "data_before bs (Suc i) = data_before bs i + (bs - ptr_bytes i)" by (simp add: data_before_def)
    then have "data_before bs i < unat (file_pos fl)" "unat (file_pos fl) \<le> data_before bs (Suc i)" using fd(3-5) p1 by linarith+
    from ctz_file_prefix [OF l(1) fd(2) this pos] have pre: "ctz_file cfg (view None ?m) bl i ?bytes" .
    have sub: "bl ` {0..i} \<subseteq> set base" using l(3) fd(2) by auto
    have "length (cache_buffer rc) = cs" using fd(8) by (simp add: coherent_but_def cache_wf_def)
    then have z: "cache_block (lfs_cache_zero cfg rc) = LFS_BLOCK_NULL" "length (cache_buffer (lfs_cache_zero cfg rc)) = cs"
      by (simp_all add: lfs_cache_zero_def)
    have "0 < file_pos fl" using False by (simp add: word_greater_zero_iff)
    with fd(1,6,7) l(2) s(3) pre sub z f(1) show ?thesis
      by (intro exI [of _ bl] exI [of _ i] exI [of _ "fl\<lparr>file_block := bl i, file_off := off, file_cache := lfs_cache_zero cfg rc\<rparr>"] exI [of _ d1])
        (simp add: empty_file_cache_def file_last_block_def Let_def)
  qed
  then obtain bl i fl1 d1 where find: "file_last_block cfg fl lfs = Some (0, fl1, lfs\<lparr>lfs_dev := d1\<rparr>)"
    and g: "ok d1" "contents d1 = ?m" "file_flags fl1 = file_flags fl" "file_pos fl1 = file_pos fl" "same_list fl0 fl1" "empty_file_cache cfg fl1"
      "file_pos fl \<noteq> 0 \<longrightarrow> ctz_file cfg (view None ?m) bl i ?bytes \<and> file_block fl1 = bl i \<and> bl ` {0..i} \<subseteq> set base" by blast
  define l1 where "l1 = lfs\<lparr>lfs_dev := d1\<rparr>"
  have l1: "lfs_dev l1 = d1" "lfs_rcache l1 = lfs_rcache lfs" "lfs_free l1 = lfs_free lfs" "lfs_file_max l1 = lfs_file_max lfs" by (simp_all add: l1_def)
  have flags: "flag fl1 g = flag fl g" for g using g(3) by (simp add: flag_def)
  have old: "file_pos fl1 \<noteq> 0 \<Longrightarrow> ctz_file cfg (view None (contents (lfs_dev l1))) bl i ?bytes \<and> file_block fl1 = bl i \<and> bl ` {0..i} \<subseteq> set base"
    using g(2,4,7) by (simp add: l1)
  have pre: "base_kept base mem0 (contents (lfs_dev l1))" "ok (lfs_dev l1)" "coherent cfg (contents (lfs_dev l1)) (lfs_rcache l1)"
      "alloc_fits cfg (set base) (lfs_free l1)" "\<not> flag fl1 LFS_F_WRITING" "\<not> flag fl1 LFS_F_INLINE" "\<not> flag fl1 LFS_F_READING"
      "unat (file_pos fl1) = length ?bytes" "lfs_file_max l1 = fmax"
    using g(1,2,4) s(2,4) f(1-3,5,6) lb(1) by (simp_all only: l1 flags not_False_eq_True)
  from open_step [OF pre(1) g(5) pre(2,3,9) visits_base [OF pre(1) g(5,6) pre(5)] order_refl base_bound pre(4,6,7) g(6) pre(8) lb(2) old]
  obtain err r p' rc' f' d' fl' lfs' where x:
    "lfs_ctz_extend cfg (traverse fl1) (file_block fl1) (file_pos fl1) (file_cache fl1) (lfs_rcache l1)
      (lfs_alloc_ack cfg (lfs_free l1)) (lfs_dev l1) = Some (err, r, p', rc', f', d')"
    "lfs' = l1\<lparr>lfs_rcache := rc', lfs_free := f', lfs_dev := d'\<rparr>"
    "fl' = (if err \<noteq> 0 then set_flag LFS_F_ERRED (fl1\<lparr>file_cache := p'\<rparr>)
           else set_flag LFS_F_WRITING (fl1\<lparr>file_cache := p', file_block := fst (the r), file_off := snd (the r)\<rparr>))"
    "session ok contents base mem0 fl0 fmax fl' lfs'"
    "err = LFS_ERR_NOSPC \<or> err = 0 \<and> (\<exists>bl n. writes_file cfg contents ready base bl n ?bytes fl' lfs' \<and> unat (file_off fl') < bs)" by blast
  have "file_write_block cfg traverse fl lfs = Some (err, fl', lfs')"
    using f(1,2) find x(1) by (simp add: file_write_block_def Let_def l1_def [symmetric] x(2,3))
  with x(4,5) show ?thesis by blast
qed


lemma next_block:
  assumes "can_write cfg contents ready base old bytes fl lfs" "session ok contents base mem0 fl0 fmax fl lfs"
  shows "\<exists>err fl' lfs'. file_write_block cfg traverse fl lfs = Some (err, fl', lfs') \<and> session ok contents base mem0 fl0 fmax fl' lfs' \<and>
    (err = LFS_ERR_NOSPC \<or> err = 0 \<and> (\<exists>bl n. writes_file cfg contents ready base bl n bytes fl' lfs' \<and> unat (file_off fl') < bs))"
  using assms(1) unfolding can_write_def
proof (elim disjE exE conjE)
  fix bl n
  assume w: "writes_file cfg contents ready base bl n bytes fl lfs" "settled cfg contents n bytes fl lfs"
  show ?thesis
  proof (cases "file_off fl = block_size cfg")
    case True
    with full_block [OF w(1) assms(2) w(2)] show ?thesis by blast
  next
    case False
    have "flag fl LFS_F_WRITING" "unat (file_off fl) \<le> bs" using w(1) by (simp_all add: writes_file_def writing_by_def)
    moreover from this False have "unat (file_off fl) < bs" by (simp add: word_unat_eq_iff)
    moreover have "file_write_block cfg traverse fl lfs = Some (0, fl, lfs)" using False calculation(1) by (simp add: file_write_block_def)
    ultimately show ?thesis using w(1) assms(2) by blast
  qed
next
  assume "rests_file cfg contents base fl lfs" "unat (file_pos fl) \<le> length old" "bytes = take (unat (file_pos fl)) old"
  with first_block [OF _ assms(2)] show ?thesis by blast
qed

lemma session_ack: "session ok contents base mem0 fl0 fmax fl (lfs\<lparr>lfs_free := f\<rparr>) = session ok contents base mem0 fl0 fmax fl lfs"
  "session ok contents base mem0 fl0 fmax (fl\<lparr>file_pos := a, file_off := b\<rparr>) lfs = session ok contents base mem0 fl0 fmax fl lfs"
  by (simp_all add: session_def)

lemma writes_ack: "writes_file cfg contents ready base bl n bytes fl lfs \<Longrightarrow>
    writes_file cfg contents ready base bl n bytes fl (lfs\<lparr>lfs_free := lfs_alloc_ack cfg (lfs_free lfs)\<rparr>)"
  by (simp add: writes_file_def fits_ack)

lemma settled_ack: "settled cfg contents n bytes fl (lfs\<lparr>lfs_free := f\<rparr>) = settled cfg contents n bytes fl lfs"
  by (simp add: settled_def)

lemma write_loop:
  "can_write cfg contents ready base old bytes fl lfs \<Longrightarrow> session ok contents base mem0 fl0 fmax fl lfs \<Longrightarrow> length data = unat nsize \<Longrightarrow>
    length bytes + length data \<le> 2147483647 \<Longrightarrow>
    \<exists>err fl' lfs'. flushedwrite_loop cfg traverse data nsize fl lfs = Some (err, fl', lfs') \<and> session ok contents base mem0 fl0 fmax fl' lfs' \<and>
      (err = LFS_ERR_NOSPC \<or> err = 0 \<and> can_write cfg contents ready base old (bytes @ data) fl' lfs' \<and> (data \<noteq> [] \<longrightarrow> flag fl' LFS_F_WRITING))"
proof (induction "unat nsize" arbitrary: nsize data bytes fl lfs rule: less_induct)
  case less
  show ?case
  proof (cases "nsize = 0")
    case True
    then have "data = []" using less.prems(3) by simp
    with True less.prems show ?thesis by (simp add: flushedwrite_loop.simps [of _ _ _ 0])
  next
    case False
    then have pos: "0 < nsize" "0 < unat nsize" by (simp_all add: word_greater_zero_iff unat_gt_0)
    from next_block [OF less.prems(1,2)] obtain err f1 l1 where b: "file_write_block cfg traverse fl lfs = Some (err, f1, l1)"
      "session ok contents base mem0 fl0 fmax f1 l1"
      "err = LFS_ERR_NOSPC \<or> err = 0 \<and> (\<exists>bl n. writes_file cfg contents ready base bl n bytes f1 l1 \<and> unat (file_off f1) < bs)" by blast
    from b(3) show ?thesis
    proof (elim disjE conjE exE)
      assume "err = LFS_ERR_NOSPC"
      with b pos(1) show ?thesis by (subst flushedwrite_loop.simps) (simp add: LFS_ERR_NOSPC_def)
    next
      fix bl n assume w: "err = 0" "writes_file cfg contents ready base bl n bytes f1 l1" "unat (file_off f1) < bs"
      define diff where "diff = lfs_min nsize (block_size cfg - file_off f1)"
      have ud: "unat diff = min (unat nsize) (bs - unat (file_off f1))" using w(3) by (simp add: diff_def unat_sub_le)
      have l: "length (take (unat diff) data) = unat diff" "0 < unat diff" "unat diff \<le> unat nsize" "unat (file_off f1) + unat diff \<le> bs"
        using ud less.prems(3) pos(2) w(3) by auto
      then have "take (unat diff) data \<noteq> []" "unat (file_off f1) + length (take (unat diff) data) \<le> bs"
        "length bytes + length (take (unat diff) data) \<le> 2147483647" "unat diff = length (take (unat diff) data)"
        using less.prems(3,4) by auto
      from prog_step [OF w(2) b(2) this] obtain f2 l2 where p: "file_prog_loop cfg traverse (take (unat diff) data) f1 l1 = Some (0, f2, l2)"
        "writes_file cfg contents ready base bl n (bytes @ take (unat diff) data) (f2\<lparr>file_pos := file_pos f2 + diff, file_off := file_off f2 + diff\<rparr>) l2"
        "session ok contents base mem0 fl0 fmax f2 l2"
        "settled cfg contents n (bytes @ take (unat diff) data) (f2\<lparr>file_pos := file_pos f2 + diff, file_off := file_off f2 + diff\<rparr>) l2" by blast
      define f3 where "f3 = f2\<lparr>file_pos := file_pos f2 + diff, file_off := file_off f2 + diff\<rparr>"
      define l3 where "l3 = l2\<lparr>lfs_free := lfs_alloc_ack cfg (lfs_free l2)\<rparr>"
      have w3: "writes_file cfg contents ready base bl n (bytes @ take (unat diff) data) f3 l3"
        unfolding f3_def l3_def using p(2) by (rule writes_ack)
      have s3: "settled cfg contents n (bytes @ take (unat diff) data) f3 l3" "session ok contents base mem0 fl0 fmax f3 l3"
        unfolding f3_def l3_def settled_ack session_ack using p(3,4) by simp_all
      have step: "flushedwrite_loop cfg traverse data nsize fl lfs = flushedwrite_loop cfg traverse (drop (unat diff) data) (nsize - diff) f3 l3"
        using pos(1) b(1) w(1) p(1) by (subst flushedwrite_loop.simps) (simp add: diff_def [symmetric] f3_def l3_def Let_def del: unat_lfs_min)
      have un: "unat (nsize - diff) = unat nsize - unat diff" using l(3) by (rule unat_sub_le)
      have m: "unat (nsize - diff) < unat nsize" "length (drop (unat diff) data) = unat (nsize - diff)"
        "length (bytes @ take (unat diff) data) + length (drop (unat diff) data) \<le> 2147483647"
        using un l less.prems(3,4) by simp_all
      have c3: "can_write cfg contents ready base old (bytes @ take (unat diff) data) f3 l3" using w3 s3(1) by (auto simp: can_write_def)
      have join: "(bytes @ take (unat diff) data) @ drop (unat diff) data = bytes @ data" by simp
      from less.hyps [OF m(1) c3 s3(2) m(2,3)] obtain err f4 l4 where r:
        "flushedwrite_loop cfg traverse (drop (unat diff) data) (nsize - diff) f3 l3 = Some (err, f4, l4)" "session ok contents base mem0 fl0 fmax f4 l4"
        "err = LFS_ERR_NOSPC \<or> err = 0 \<and> can_write cfg contents ready base old (bytes @ data) f4 l4 \<and> (drop (unat diff) data \<noteq> [] \<longrightarrow> flag f4 LFS_F_WRITING)"
        unfolding join by blast
      have "flag f4 LFS_F_WRITING" if "err = 0"
      proof (cases "drop (unat diff) data = []")
        case True
        then have "nsize - diff = 0" using m(2) by (simp add: unat_eq_0)
        with r(1) that have "f4 = f3" by (simp add: flushedwrite_loop.simps [of _ _ _ 0])
        with w3 show ?thesis by (simp add: writes_file_def)
      qed (use r(3) that in \<open>auto simp: LFS_ERR_NOSPC_def\<close>)
      with r show ?thesis unfolding step by blast
    qed
  qed
qed

lemma flushedwrite_result:
  assumes "can_write cfg contents ready base old bytes fl lfs" "session ok contents base mem0 fl0 fmax fl lfs"
    and "length bytes + length data \<le> 2147483647"
  shows "\<exists>res fl' lfs'. lfs_file_flushedwrite cfg traverse data fl lfs = Some (res, fl', lfs') \<and> session ok contents base mem0 fl0 fmax fl' lfs' \<and>
      (res = LFS_ERR_NOSPC \<or> res = int (length data) \<and> can_write cfg contents ready base old (bytes @ data) fl' lfs' \<and> (data \<noteq> [] \<longrightarrow> flag fl' LFS_F_WRITING))"
proof -
  have n: "unat (word_of_nat (length data) :: u32) = length data" using assms(3) by (simp add: unat_of_nat)
  then have si: "sint (word_of_nat (length data) :: u32) = int (length data)" using assms(3) by (subst sint_small) simp_all
  have "\<not> flag fl LFS_F_INLINE" using assms(1) by (auto simp: can_write_def writes_file_def rests_file_def)
  moreover from write_loop [OF assms(1,2) n [symmetric] assms(3)] obtain err fl' lfs' where
    "flushedwrite_loop cfg traverse data (word_of_nat (length data)) fl lfs = Some (err, fl', lfs')" "session ok contents base mem0 fl0 fmax fl' lfs'"
    "err = LFS_ERR_NOSPC \<or> err = 0 \<and> can_write cfg contents ready base old (bytes @ data) fl' lfs' \<and> (data \<noteq> [] \<longrightarrow> flag fl' LFS_F_WRITING)" by blast
  ultimately show ?thesis by (auto simp: lfs_file_flushedwrite_def si LFS_ERR_NOSPC_def)
qed


text \<open>Writing out the cache: the device now holds the list.\<close>

lemma flush_out_result:
  assumes w: "writes_file cfg contents ready base bl n bytes fl lfs" and st: "settled cfg contents n bytes fl lfs"
    and se: "session ok contents base mem0 fl0 fmax fl lfs"
  shows "\<exists>fl' lfs'. flush_out_loop cfg traverse fl lfs = Some (0, fl', lfs') \<and> session ok contents base mem0 fl0 fmax fl' lfs' \<and>
    (\<exists>c. fl' = fl\<lparr>file_cache := c\<rparr>) \<and> empty_file_cache cfg fl' \<and> ctz_file cfg (view None (contents (lfs_dev lfs'))) bl n bytes \<and>
    coherent cfg (contents (lfs_dev lfs')) (lfs_rcache lfs') \<and> lfs_free lfs' = lfs_free lfs"
proof -
  let ?d = "lfs_dev lfs" and ?m = "contents (lfs_dev lfs)" and ?p = "file_cache fl" and ?off = "unat (file_off fl)"
  have f: "file_block fl = bl n" "bl n \<notin> set base" "bl n \<notin> bl ` {..<n}" "ctz_open cfg (view (Some ?p) ?m) bl n ?off bytes"
      "writing_by cs cfg (ready ?d) ?p (bl n) ?off" "coherent_but {bl n} cfg ?m (lfs_rcache lfs)"
    using w by (simp_all add: writes_file_def)
  have s: "ok ?d" "base_kept base mem0 ?m" "same_list fl0 fl" "lfs_file_max lfs = fmax" using se by (simp_all add: session_def)
  have list: "ctz_list cfg (view (Some ?p) ?m) bl n" using f(4) by (simp add: ctz_open_def)
  have blk: "bl i < block_count cfg" if "i \<le> n" for i using list that by (rule ctz_list_bound)
  have ne: "bl i \<noteq> bl n" if "i < n" for i using f(3) that by (metis imageI lessThan_iff)
  have lenp: "length (cache_buffer ?p) = cs" using f(5) by (simp add: writing_by_def)
  have goal: ?thesis
    if fl: "lfs_bd_flush cfg ?p (lfs_rcache lfs) True ?d = Some (0, p', rc', d')" "ok d'" "coherent cfg (contents d') rc'"
      and p': "cache_block p' = LFS_BLOCK_NULL" "length (cache_buffer p') = cs"
      and c: "\<forall>c. c \<noteq> unat (bl n) \<longrightarrow> contents d' c = ?m c" "\<And>j. j < ?off \<Longrightarrow> contents d' (unat (bl n)) ! j = view (Some ?p) ?m (unat (bl n)) j"
    for p' rc' d'
  proof -
    have others: "view None (contents d') (unat (bl i)) = view (Some ?p) ?m (unat (bl i))" if "i < n" for i
    proof -
      have lt: "bl i < block_count cfg" using that by (intro blk) simp
      have "contents d' (unat (bl i)) = ?m (unat (bl i))" using c(1) ne [OF that] by (simp add: word_unat_eq_iff)
      then show ?thesis unfolding view_other [OF f(5) ne [OF that] lt] by (rule view_None)
    qed
    have "?off \<le> bs" using f(5) by (simp add: writing_by_def)
    then have "ctz_open cfg (view None (contents d')) bl n (?off + length ([] :: u8 list)) (bytes @ [])"
      using c(2) by (intro ctz_open_append [OF f(4) _ others]) (simp_all add: view_None_nth)
    then have "ctz_file cfg (view None (contents d')) bl n bytes"
      using st unfolding settled_def append_Nil2 by (blast intro: open_is_file)
    moreover have "flush_out_loop cfg traverse fl lfs = Some (0, fl\<lparr>file_cache := p'\<rparr>, lfs\<lparr>lfs_rcache := rc', lfs_dev := d'\<rparr>)"
      using fl(1) by (subst flush_out_loop.simps) (simp add: Let_def)
    ultimately show ?thesis using fl p' s(3,4) base_other [OF s(2) f(2) c(1)] by (auto simp: session_def empty_file_cache_def)
  qed
  show ?thesis
  proof (cases "cache_block ?p = LFS_BLOCK_NULL")
    case True
    have "view (Some ?p) ?m (unat (bl n)) j = ?m (unat (bl n)) ! j" for j
      using view_null [OF True blk [OF order_refl] sizes(9)] by (simp add: view_None_nth)
    moreover have "lfs_bd_flush cfg ?p (lfs_rcache lfs) True ?d = Some (0, ?p, lfs_rcache lfs, ?d)" using True by (simp add: lfs_bd_flush_def)
    moreover have "coherent cfg ?m (lfs_rcache lfs)" using st True by (simp add: settled_def)
    ultimately show ?thesis using True s(1) lenp by (intro goal [of ?p "lfs_rcache lfs" ?d]) simp_all
  next
    case False
    with f(5) obtain s where p: "cs dvd s" "s \<le> ?off" "\<forall>i. s \<le> i \<and> i < bs \<longrightarrow> ready ?d (unat (bl n)) i" "cache_block ?p = bl n"
      "s = unat (cache_off ?p)" "s < bs" "?off = s + unat (cache_len ?p)" "unat (cache_len ?p) < cs" "?off \<le> bs"
      by (auto simp: writing_by_def)
    define L where "L = (unat (cache_len ?p) + ps - 1) div ps * ps"
    have ds: "ps dvd s" using sizes(4) p(1) by (rule dvd_trans)
    have L: "L \<le> cs" "unat (cache_len ?p) \<le> L" "s + L \<le> bs"
    proof -
      show "L \<le> cs" unfolding L_def using sizes(2,4) p(8) by (intro round_up_least) simp_all
      have "unat (cache_len ?p) + ps - 1 < L + ps" unfolding L_def
        using dividend_less_div_times [OF sizes(2), of "unat (cache_len ?p) + ps - 1"] by (simp add: add.commute)
      then show "unat (cache_len ?p) \<le> L" using sizes(2) by linarith
      have "L \<le> bs - s" unfolding L_def using sizes(2) cs_le(5) ds p(7,9) by (intro round_up_least) (auto intro: dvd_diff_nat)
      then show "s + L \<le> bs" using p(6) by linarith
    qed
    have pre: "cache_block ?p < block_count cfg" "ps dvd unat (cache_off ?p)" "unat (cache_len ?p) \<le> cs" "unat (cache_off ?p) + unat (cache_len ?p) \<le> bs"
      "\<And>i. unat (cache_off ?p) \<le> i \<Longrightarrow> i < unat (cache_off ?p) + L \<Longrightarrow> ready ?d (unat (cache_block ?p)) i"
      using p ds blk [OF order_refl] L(3) by auto
    from flush_writes [OF pre(1) lenp pre(2-4) L_def s(1) pre(5) f(6), of True] obtain rc' d' where
      fl: "lfs_bd_flush cfg ?p (lfs_rcache lfs) True ?d = Some (0, lfs_cache_zero cfg ?p, rc', d')" "ok d'" "coherent cfg (contents d') rc'"
        "contents d' = ?m(unat (bl n) := mem_write (?m (unat (bl n))) s (take L (cache_buffer ?p)))"
      unfolding p(4,5) by auto
    have lm: "length (?m (unat (bl n))) = bs" using s(1) blk [OF order_refl] by (simp add: block_length word_less_nat_alt)
    have "contents d' (unat (bl n)) ! j = view (Some ?p) ?m (unat (bl n)) j" if "j < ?off" for j
      using that p L lm lenp by (auto simp: fl(4) nth_mem_write view_update cache_covers_def)
    moreover have "\<forall>c. c \<noteq> unat (bl n) \<longrightarrow> contents d' c = ?m c" by (simp add: fl(4))
    ultimately show ?thesis using fl(1-3) lenp by (intro goal [of "lfs_cache_zero cfg ?p" rc' d']) (simp_all add: lfs_cache_zero_def)
  qed
qed


text \<open>The copy of the file that the old bytes are read through.\<close>

lemma reads_base:
  assumes "reads_file_but (- set base) cfg mem bl n bytes fl" "base_kept base mem0 mem" "base_kept base mem0 mem'"
  shows "reads_file_but (- set base) cfg mem' bl n bytes fl"
proof -
  have m: "mem' (unat b) = mem (unat b)" if "b \<in> set base" for b using assms(2,3) that by (simp add: base_kept_def)
  have r: "\<forall>i \<le> n. bl i \<in> set base" "ctz_file cfg (view None mem) bl n bytes" "coherent_but (- set base) cfg mem (file_cache fl)"
    using assms(1) by (simp_all add: reads_file_but_def)
  have "view None mem' (unat (bl i)) = view None mem (unat (bl i))" if "i \<le> n" for i using r(1) that m by (intro view_None) simp
  from ctz_file_cong [OF r(2) this] have "ctz_file cfg (view None mem') bl n bytes" .
  moreover have "coherent_but (- set base) cfg mem' (file_cache fl)" using r(3) m by (simp add: coherent_but_def)
  ultimately show ?thesis using assms(1) by (simp add: reads_file_but_def)
qed

lemma reads_drop:
  assumes "reads_file_but X cfg mem bl n bytes fl"
  shows "reads_file_but X cfg mem bl n bytes (fl\<lparr>file_cache := lfs_cache_drop (file_cache fl)\<rparr>)"
proof -
  have "coherent_but X cfg mem (lfs_cache_drop (file_cache fl))"
    using assms sizes(9) by (intro coherent_drop) (simp_all add: reads_file_but_def coherent_but_def cache_wf_def)
  with assms show ?thesis by (simp add: reads_file_but_def file_here_def)
qed

lemma writes_drop:
  assumes "writes_file cfg contents ready base bl n bytes fl lfs" "settled cfg contents n bytes fl lfs"
  shows "writes_file cfg contents ready base bl n bytes fl (lfs\<lparr>lfs_rcache := lfs_cache_drop (lfs_rcache lfs)\<rparr>)"
    and "settled cfg contents n bytes fl (lfs\<lparr>lfs_rcache := lfs_cache_drop (lfs_rcache lfs)\<rparr>)"
proof -
  have "length (cache_buffer (lfs_rcache lfs)) = cs" using assms(1) by (simp add: writes_file_def coherent_but_def cache_wf_def)
  then have "coherent_but X cfg (contents (lfs_dev lfs)) (lfs_cache_drop (lfs_rcache lfs))" for X
    using sizes(9) by (intro coherent_drop) simp_all
  with assms show "writes_file cfg contents ready base bl n bytes fl (lfs\<lparr>lfs_rcache := lfs_cache_drop (lfs_rcache lfs)\<rparr>)"
    "settled cfg contents n bytes fl (lfs\<lparr>lfs_rcache := lfs_cache_drop (lfs_rcache lfs)\<rparr>)"
    by (simp_all add: writes_file_def settled_def)
qed

lemma copy_rest:
  "writes_file cfg contents ready base bl n bytes fl lfs \<Longrightarrow> settled cfg contents n bytes fl lfs \<Longrightarrow> session ok contents base mem0 fl0 fmax fl lfs \<Longrightarrow>
    (length bytes < length old \<longrightarrow> reads_file_but (- set base) cfg (contents (lfs_dev lfs)) obl on old orig \<and> unat (file_pos orig) = length bytes) \<Longrightarrow>
    \<exists>err fl' lfs'. flush_copy_loop cfg traverse orig fl lfs = Some (err, fl', lfs') \<and> session ok contents base mem0 fl0 fmax fl' lfs' \<and>
      (err = LFS_ERR_NOSPC \<or> err = 0 \<and> (\<exists>bl n. writes_file cfg contents ready base bl n (bytes @ drop (length bytes) old) fl' lfs' \<and>
         settled cfg contents n (bytes @ drop (length bytes) old) fl' lfs'))"
proof (induction "length old - length bytes" arbitrary: bl n bytes fl lfs orig rule: less_induct)
  case less
  have pos: "unat (file_pos fl) = length bytes" "length bytes \<le> 2147483647" using less.prems(1) by (simp_all add: writes_file_def)
  note o = old_now [OF less.prems(3)]
  show ?case
  proof (cases "length bytes < length old")
    case False
    then have "\<not> file_pos fl < ctz_size fl" using pos o(1) by (simp add: word_less_nat_alt)
    with False less.prems show ?thesis by (subst flush_copy_loop.simps) auto
  next
    case True
    then have lt: "file_pos fl < ctz_size fl" using pos o(1) by (simp add: word_less_nat_alt)
    have s: "ok (lfs_dev lfs)" "base_kept base mem0 (contents (lfs_dev lfs))" using less.prems(3) by (simp_all add: session_def)
    have r: "reads_file_but (- set base) cfg (contents (lfs_dev lfs)) obl on old orig" "unat (file_pos orig) = length bytes"
      using less.prems(4) True by simp_all
    have one: "take (unat (1 :: u32)) (drop (unat (file_pos orig)) old) = [old ! length bytes]"
      using True by (simp add: r(2) take_Suc_conv_app_nth hd_drop_conv_nth take_Suc)
    from flushedread_bytes [OF block_device_axioms roomy_blocks(1) s(1) r(1), of 1] obtain orig1 d1 where
      rd: "lfs_file_flushedread cfg 1 orig lfs = Some (1, [old ! length bytes], orig1, lfs\<lparr>lfs_dev := d1\<rparr>)" "ok d1"
        "contents d1 = contents (lfs_dev lfs)" "ready d1 = ready (lfs_dev lfs)"
        "reads_file_but (- set base) cfg (contents d1) obl on old orig1" "unat (file_pos orig1) = Suc (length bytes)"
      unfolding one using r(2) by auto
    define l1 where "l1 = lfs\<lparr>lfs_dev := d1\<rparr>"
    have w1: "writes_file cfg contents ready base bl n bytes fl l1" "settled cfg contents n bytes fl l1" "session ok contents base mem0 fl0 fmax fl l1"
      using less.prems(1-3) rd(2-4) by (simp_all add: l1_def writes_file_def settled_def session_def)
    then have cw: "can_write cfg contents ready base old bytes fl l1" by (auto simp: can_write_def)
    have "length bytes + length [old ! length bytes] \<le> 2147483647" using True o(2) by simp
    from flushedwrite_result [OF cw w1(3) this] obtain res f2 l2 where
      wr: "lfs_file_flushedwrite cfg traverse [old ! length bytes] fl l1 = Some (res, f2, l2)" "session ok contents base mem0 fl0 fmax f2 l2"
        "res = LFS_ERR_NOSPC \<or> res = 1 \<and> can_write cfg contents ready base old (bytes @ [old ! length bytes]) f2 l2 \<and> flag f2 LFS_F_WRITING" by auto
    from wr(3) show ?thesis
    proof (elim disjE conjE)
      assume "res = LFS_ERR_NOSPC"
      with lt rd(1) wr(1,2) show ?thesis by (subst flush_copy_loop.simps) (simp add: l1_def LFS_ERR_NOSPC_def)
    next
      assume res: "res = 1" and "can_write cfg contents ready base old (bytes @ [old ! length bytes]) f2 l2" "flag f2 LFS_F_WRITING"
      then obtain bl2 n2 where w2: "writes_file cfg contents ready base bl2 n2 (bytes @ [old ! length bytes]) f2 l2"
        "settled cfg contents n2 (bytes @ [old ! length bytes]) f2 l2" by (auto simp: can_write_def rests_file_def)
      have kept: "base_kept base mem0 (contents d1)" "base_kept base mem0 (contents (lfs_dev l2))" using s(2) rd(3) wr(2) by (simp_all add: session_def)
      note r2 = reads_base [OF rd(5) kept]
      have all: "(bytes @ [old ! length bytes]) @ drop (length (bytes @ [old ! length bytes])) old = bytes @ drop (length bytes) old"
        using True by (simp add: Cons_nth_drop_Suc)
      have m: "length old - length (bytes @ [old ! length bytes]) < length old - length bytes" using True by simp
      show ?thesis
      proof (cases "cache_block (lfs_rcache l2) \<noteq> LFS_BLOCK_NULL")
        case True
        define orig3 where "orig3 = orig1\<lparr>file_cache := lfs_cache_drop (file_cache orig1)\<rparr>"
        define l3 where "l3 = l2\<lparr>lfs_rcache := lfs_cache_drop (lfs_rcache l2)\<rparr>"
        have "reads_file_but (- set base) cfg (contents (lfs_dev l3)) obl on old orig3" "unat (file_pos orig3) = length (bytes @ [old ! length bytes])"
          using reads_drop [OF r2] rd(6) by (simp_all add: orig3_def l3_def)
        moreover have "session ok contents base mem0 fl0 fmax f2 l3" using wr(2) by (simp add: session_def l3_def)
        moreover have "flush_copy_loop cfg traverse orig fl lfs = flush_copy_loop cfg traverse orig3 f2 l3"
          using lt rd(1) wr(1) res True by (subst flush_copy_loop.simps) (simp add: l1_def orig3_def l3_def)
        ultimately show ?thesis using less.hyps [OF m writes_drop [OF w2, folded l3_def], of orig3] unfolding all by simp
      next
        case False
        have "unat (file_pos orig1) = length (bytes @ [old ! length bytes])" using rd(6) by simp
        moreover have "flush_copy_loop cfg traverse orig fl lfs = flush_copy_loop cfg traverse orig1 f2 l2"
          using lt rd(1) wr(1) res False by (subst flush_copy_loop.simps) (simp add: l1_def)
        ultimately show ?thesis using less.hyps [OF m w2 wr(2), of orig1] r2 unfolding all by simp
      qed
    qed
  qed
qed


lemma flush_result:
  assumes w: "writes_file cfg contents ready base bl n bytes fl lfs" and st: "settled cfg contents n bytes fl lfs"
    and se: "session ok contents base mem0 fl0 fmax fl lfs"
  shows "\<exists>err fl' lfs'. lfs_file_flush cfg traverse fl lfs = Some (err, fl', lfs') \<and> ok (lfs_dev lfs') \<and>
    base_kept base mem0 (contents (lfs_dev lfs')) \<and> lfs_file_max lfs' = fmax \<and>
    (err = LFS_ERR_NOSPC \<or> err = 0 \<and> file_pos fl' = file_pos fl \<and> file_flags fl' AND 0xFFFF = file_flags fl0 AND 0xFFFF \<and> \<not> flag fl' LFS_F_READING \<and> flag fl' LFS_F_DIRTY \<and>
       (\<exists>bl n. reads_file cfg (contents (lfs_dev lfs')) bl n (bytes @ drop (length bytes) old) fl'))"
proof -
  let ?orig = "flush_orig fl (lfs_rcache lfs)" and ?lfs = "lfs\<lparr>lfs_rcache := lfs_cache_drop (lfs_rcache lfs)\<rparr>"
  let ?bytes = "bytes @ drop (length bytes) old"
  have f: "flag fl LFS_F_WRITING" "\<not> flag fl LFS_F_INLINE" "\<not> flag fl LFS_F_READING" "bl n \<notin> set base" "unat (file_pos fl) = length bytes"
      "length bytes \<le> 2147483647" "coherent_but {bl n} cfg (contents (lfs_dev lfs)) (lfs_rcache lfs)"
    using w by (simp_all add: writes_file_def)
  have reading: "flush_reading fl = fl" using f(3) by (simp add: flush_reading_def)
  note o = old_now [OF se]
  have se1: "session ok contents base mem0 fl0 fmax fl ?lfs" using se by (simp add: session_def)
  have co: "coherent_but (- set base) cfg (contents (lfs_dev lfs)) (lfs_rcache lfs)" using f(4,7) by (auto simp: coherent_but_def)
  have "\<exists>obl on. length bytes < length old \<longrightarrow>
      reads_file_but (- set base) cfg (contents (lfs_dev ?lfs)) obl on old ?orig \<and> unat (file_pos ?orig) = length bytes"
  proof (cases "length bytes < length old")
    case True
    then have "old \<noteq> []" by auto
    from o(3) [OF this] obtain obl on where l: "ctz_file cfg (view None (contents (lfs_dev lfs))) obl on old" "ctz_head fl = obl on"
      "obl ` {0..on} \<subseteq> set base" by blast
    have "obl i \<in> set base" if "i \<le> on" for i using l(3) that by auto
    then have "reads_file_but (- set base) cfg (contents (lfs_dev ?lfs)) obl on old ?orig"
      using l(1,2) co o(1,2) by (simp add: reads_file_but_def flush_orig_def flag_def LFS_O_RDONLY_def LFS_F_INLINE_def LFS_F_WRITING_def LFS_F_READING_def)
    then show ?thesis using f(5) by (intro exI [of _ obl] exI [of _ on]) (simp add: flush_orig_def)
  qed simp
  then obtain obl on where orig: "length bytes < length old \<longrightarrow>
      reads_file_but (- set base) cfg (contents (lfs_dev ?lfs)) obl on old ?orig \<and> unat (file_pos ?orig) = length bytes" by blast
  from copy_rest [OF writes_drop [OF w st] se1 orig] obtain err f1 l1 where
    c: "flush_copy_loop cfg traverse ?orig fl ?lfs = Some (err, f1, l1)" "session ok contents base mem0 fl0 fmax f1 l1"
      "err = LFS_ERR_NOSPC \<or> err = 0 \<and> (\<exists>bl n. writes_file cfg contents ready base bl n ?bytes f1 l1 \<and> settled cfg contents n ?bytes f1 l1)" by blast
  from c(3) show ?thesis
  proof (elim disjE conjE exE)
    assume "err = LFS_ERR_NOSPC"
    with c(1,2) f(1,2) show ?thesis by (simp add: lfs_file_flush_def reading flush_writing_def session_def LFS_ERR_NOSPC_def Let_def)
  next
    fix bl1 n1 assume w1: "err = 0" "writes_file cfg contents ready base bl1 n1 ?bytes f1 l1" "settled cfg contents n1 ?bytes f1 l1"
    have g: "\<not> flag f1 LFS_F_INLINE" "\<not> flag f1 LFS_F_READING" "file_block f1 = bl1 n1" "unat (file_pos f1) = length ?bytes" "length ?bytes \<le> 2147483647"
      using w1(2) unfolding writes_file_def by blast+
    from flush_out_result [OF w1(2,3) c(2)] obtain f2 l2 cache where
      d: "flush_out_loop cfg traverse f1 l1 = Some (0, f2, l2)" "session ok contents base mem0 fl0 fmax f2 l2" "f2 = f1\<lparr>file_cache := cache\<rparr>"
        "empty_file_cache cfg f2" "ctz_file cfg (view None (contents (lfs_dev l2))) bl1 n1 ?bytes" by blast
    define f3 where "f3 = (set_flag LFS_F_DIRTY (clear_flag LFS_F_WRITING (f2\<lparr>ctz_head := file_block f2, ctz_size := file_pos f2\<rparr>)))\<lparr>file_pos := file_pos fl\<rparr>"
    have fields: "ctz_head f3 = bl1 n1" "unat (ctz_size f3) = length ?bytes" "file_cache f3 = cache" "file_pos f3 = file_pos fl"
      using g(3,4) by (simp_all add: f3_def d(3))
    have flags: "\<not> flag f3 LFS_F_INLINE" "\<not> flag f3 LFS_F_READING" "\<not> flag f3 LFS_F_WRITING" "flag f3 LFS_F_DIRTY"
      using g(1,2) by (simp_all add: f3_def d(3) flag_set flag_clear flag_values)
    have "coherent cfg (contents (lfs_dev l2)) cache" using d(3,4) sizes(9)
      by (auto simp: empty_file_cache_def coherent_but_def cache_wf_def word_le_nat_alt word_less_nat_alt block_markers)
    then have "reads_file cfg (contents (lfs_dev l2)) bl1 n1 ?bytes f3"
      using d(5) g(5) unfolding reads_file_but_def fields by (simp add: flags)
    moreover have "lfs_file_flush cfg traverse fl lfs = Some (0, f3, l2)"
      using c(1) w1(1) d(1) f(1,2) by (simp add: lfs_file_flush_def reading flush_writing_def Let_def f3_def)
    moreover have "file_flags f3 AND 0xFFFF = file_flags fl0 AND 0xFFFF"
    proof -
      have "file_flags f1 AND 0xFFFF = file_flags fl0 AND 0xFFFF" using c(2) by (simp add: session_def same_list_def)
      then show ?thesis by (simp add: f3_def d(3) mode_flag high_flags)
    qed
    ultimately show ?thesis using d(2) fields(4) flags unfolding session_def by blast
  qed
qed

end

end
