(* ===== verification/Lfs_File_Session.thy ===== *)
theory Lfs_File_Session
  imports Lfs_File_Write
begin

text \<open>
  The operations on an open file that is stored as a CTZ list, as operations on a byte string and a
  position: writing overwrites, flushing stores the result in new blocks, and what was written is read
  back.
\<close>

section \<open>The bytes of an open file\<close>

text \<open>
  Before the first write the file has its old bytes; then those written so far and behind them the old
  ones.  A file opened for appending has written all of them.
\<close>

definition open_file ::
  "'d lfs_config \<Rightarrow> ('d \<Rightarrow> nat \<Rightarrow> u8 list) \<Rightarrow> ('d \<Rightarrow> nat \<Rightarrow> nat \<Rightarrow> bool) \<Rightarrow> u32 list \<Rightarrow> u8 list \<Rightarrow> u8 list \<Rightarrow> lfs_file \<Rightarrow> 'd lfs \<Rightarrow> bool" where
  "open_file cfg contents ready base old bytes fl lfs \<longleftrightarrow>
     (\<not> flag fl LFS_F_WRITING \<and> \<not> flag fl LFS_F_INLINE \<and> length (cache_buffer (file_cache fl)) = unat (cache_size cfg) \<and>
      (\<not> flag fl LFS_F_READING \<longrightarrow> cache_block (file_cache fl) = LFS_BLOCK_NULL) \<and>
      coherent cfg (contents (lfs_dev lfs)) (lfs_rcache lfs) \<and> alloc_fits cfg (set base) (lfs_free lfs) \<and> bytes = old) \<or>
     (\<exists>bl n new. writes_file cfg contents ready base bl n new fl lfs \<and> settled cfg contents n new fl lfs \<and>
        (flag fl LFS_O_APPEND \<longrightarrow> length old \<le> length new) \<and> bytes = new @ drop (length new) old)"

definition overwrite :: "u8 list \<Rightarrow> nat \<Rightarrow> u8 list \<Rightarrow> u8 list" where
  "overwrite bytes p data = take p (bytes @ replicate (p - length bytes) 0) @ data @ drop (p + length data) bytes"

text \<open>Where a write goes.\<close>

definition write_pos :: "u8 list \<Rightarrow> lfs_file \<Rightarrow> nat" where
  "write_pos bytes fl = (if flag fl LFS_O_APPEND then max (unat (file_pos fl)) (length bytes) else unat (file_pos fl))"

section \<open>Writing\<close>

lemma length_overwrite_take: "length (take p (bytes @ replicate (p - length bytes) 0)) = p"
  by simp

lemma overwrite_read: "take (length data) (drop p (overwrite bytes p data)) = data"
  unfolding overwrite_def by (simp add: drop_append length_overwrite_take)

lemma can_write_pos: "can_write cfg contents ready base old bytes fl lfs \<Longrightarrow> unat (file_pos fl) = length bytes"
  by (auto simp: can_write_def writes_file_def)

context open_traversal
begin

lemma write_zeros_result:
  "can_write cfg contents ready base old bytes fl lfs \<Longrightarrow> session ok contents base mem0 fl0 fmax fl lfs \<Longrightarrow>
    length bytes \<le> unat pos \<Longrightarrow> unat pos \<le> 2147483647 \<Longrightarrow>
    \<exists>res fl' lfs'. write_zeros cfg traverse pos fl lfs = Some (res, fl', lfs') \<and> session ok contents base mem0 fl0 fmax fl' lfs' \<and>
      (res = LFS_ERR_NOSPC \<or> res = 0 \<and> can_write cfg contents ready base old (bytes @ replicate (unat pos - length bytes) 0) fl' lfs')"
proof (induction "unat pos - length bytes" arbitrary: bytes fl lfs rule: less_induct)
  case less
  note p = can_write_pos [OF less.prems(1)]
  show ?case
  proof (cases "file_pos fl < pos")
    case False
    then have "unat pos - length bytes = 0" using p less.prems(3) by (simp add: word_less_nat_alt)
    with False less.prems show ?thesis by (subst write_zeros.simps) simp
  next
    case True
    then have lt: "length bytes < unat pos" using p by (simp add: word_less_nat_alt)
    have "length bytes + length [0 :: u8] \<le> 2147483647" using lt less.prems(4) by simp
    from flushedwrite_result [OF less.prems(1,2) this] obtain res f1 l1 where
      w: "lfs_file_flushedwrite cfg traverse [0] fl lfs = Some (res, f1, l1)" "session ok contents base mem0 fl0 fmax f1 l1"
        "res = LFS_ERR_NOSPC \<or> res = 1 \<and> can_write cfg contents ready base old (bytes @ [0]) f1 l1" by auto
    show ?thesis
    proof (cases "res = LFS_ERR_NOSPC")
      case True
      with \<open>file_pos fl < pos\<close> w show ?thesis by (subst write_zeros.simps) (simp add: LFS_ERR_NOSPC_def)
    next
      case False
      with w(3) have r: "res = 1" "can_write cfg contents ready base old (bytes @ [0]) f1 l1" by simp_all
      have m: "unat pos - length (bytes @ [0]) < unat pos - length bytes" "length (bytes @ [0]) \<le> unat pos" using lt by simp_all
      have "(bytes @ [0]) @ replicate (unat pos - length (bytes @ [0])) 0 = bytes @ replicate (Suc (unat pos - length (bytes @ [0]))) 0"
        by simp
      moreover have "Suc (unat pos - length (bytes @ [0])) = unat pos - length bytes" using lt by simp
      ultimately have all: "(bytes @ [0]) @ replicate (unat pos - length (bytes @ [0])) 0 = bytes @ replicate (unat pos - length bytes) 0" by metis
      have "write_zeros cfg traverse pos fl lfs = write_zeros cfg traverse pos f1 l1"
        using True w(1) r(1) by (subst write_zeros.simps) simp
      with less.hyps [OF m(1) r(2) w(2) m(2) less.prems(4)] show ?thesis unfolding all by simp
    qed
  qed
qed


lemma can_write_open:
  assumes "can_write cfg contents ready base old bytes fl lfs" "flag fl LFS_O_APPEND \<Longrightarrow> length old \<le> length bytes"
  shows "open_file cfg contents ready base old (bytes @ drop (length bytes) old) fl lfs"
  using assms(1) unfolding can_write_def
proof (elim disjE exE conjE)
  fix bl n assume "writes_file cfg contents ready base bl n bytes fl lfs" "settled cfg contents n bytes fl lfs"
  with assms(2) show ?thesis by (auto simp: open_file_def)
next
  assume "rests_file cfg contents base fl lfs" "unat (file_pos fl) \<le> length old" "bytes = take (unat (file_pos fl)) old"
  moreover from this(2,3) have "bytes @ drop (length bytes) old = old" by (simp add: min_absorb2)
  ultimately show ?thesis by (auto simp: open_file_def rests_file_def empty_file_cache_def)
qed

text \<open>The old bytes when the flag \<open>LFS_F_READING\<close> is dropped before the first write.\<close>

lemma rest_before_write:
  assumes o: "open_file cfg contents ready base old bytes fl lfs" "\<not> flag fl LFS_F_WRITING"
    and se: "session ok contents base mem0 fl0 fmax fl lfs"
  shows "\<exists>fl'. (if flag fl LFS_F_READING then lfs_file_flush cfg traverse fl lfs else Some (0, fl, lfs)) = Some (0, fl', lfs) \<and>
    session ok contents base mem0 fl0 fmax fl' lfs \<and> rests_file cfg contents base fl' lfs \<and> file_pos fl' = file_pos fl \<and>
    ctz_size fl' = ctz_size fl \<and> bytes = old"
proof -
  have f: "\<not> flag fl LFS_F_INLINE" "length (cache_buffer (file_cache fl)) = cs" "\<not> flag fl LFS_F_READING \<longrightarrow> cache_block (file_cache fl) = LFS_BLOCK_NULL"
      "coherent cfg (contents (lfs_dev lfs)) (lfs_rcache lfs)" "alloc_fits cfg (set base) (lfs_free lfs)" "bytes = old"
    using o by (auto simp: open_file_def writes_file_def)
  show ?thesis
  proof (cases "flag fl LFS_F_READING")
    case False
    with f o(2) se show ?thesis by (auto simp: rests_file_def empty_file_cache_def)
  next
    case True
    define f1 where "f1 = clear_flag LFS_F_READING (fl\<lparr>file_cache := lfs_cache_drop (file_cache fl)\<rparr>)"
    have "flush_reading fl = f1" using True f(1) by (simp add: flush_reading_def f1_def)
    moreover have n: "\<not> flag f1 LFS_F_WRITING" "\<not> flag f1 LFS_F_INLINE" "\<not> flag f1 LFS_F_READING"
      using o(2) f(1) by (simp_all add: f1_def flag_clear flag_values)
    moreover have "session ok contents base mem0 fl0 fmax f1 lfs"
      using se by (simp add: session_def f1_def same_list_flag more_flag_values high_flags)
    moreover have "empty_file_cache cfg f1" using f(2) by (simp add: empty_file_cache_def f1_def lfs_cache_drop_def)
    moreover have "file_pos f1 = file_pos fl" "ctz_size f1 = ctz_size fl" by (simp_all add: f1_def)
    ultimately show ?thesis using True f(4-6) by (simp add: lfs_file_flush_def flush_writing_def rests_file_def)
  qed
qed

lemma mode_append: "session ok contents base mem0 fl0 fmax fl lfs \<Longrightarrow> flag fl LFS_O_APPEND = flag fl0 LFS_O_APPEND"
proof -
  assume "session ok contents base mem0 fl0 fmax fl lfs"
  then have "file_flags fl AND 0xFFFF = file_flags fl0 AND 0xFFFF" by (simp add: session_def same_list_def)
  from mode_same [OF this, of LFS_O_APPEND] show ?thesis by (simp add: flag_def LFS_O_APPEND_def)
qed

lemma too_big:
  fixes pos m :: u32
  assumes "unat pos \<le> 2147483647" "length data \<le> 2147483647"
  shows "pos + word_of_nat (length data) > m \<longleftrightarrow> unat pos + length data > unat m"
proof -
  have n: "unat (word_of_nat (length data) :: u32) = length data" using assms(2) by (simp add: unat_of_nat)
  then have "unat pos + unat (word_of_nat (length data) :: u32) < 4294967296" using assms by simp
  from unat_add_u32 [OF this] have "unat (pos + word_of_nat (length data)) = unat pos + length data" by (simp only: n)
  then show ?thesis by (simp add: word_less_nat_alt)
qed

text \<open>The write itself, from the position on.\<close>

lemma write_from:
  assumes c: "can_write cfg contents ready base old new fl lfs" and se: "session ok contents base mem0 fl0 fmax fl lfs"
    and big: "length new + length data \<le> 2147483647" and ap: "flag fl LFS_O_APPEND \<Longrightarrow> length old \<le> length new"
  shows "\<exists>res fl' lfs'. (case lfs_file_flushedwrite cfg traverse data fl lfs of
        None \<Rightarrow> None
      | Some (nsize, fl, lfs) \<Rightarrow> if nsize < 0 then Some (nsize, fl, lfs) else Some (nsize, clear_flag LFS_F_ERRED fl, lfs)) = Some (res, fl', lfs') \<and>
    session ok contents base mem0 fl0 fmax fl' lfs' \<and>
    (res = LFS_ERR_NOSPC \<or> res = int (length data) \<and> unat (file_pos fl') = length new + length data \<and>
       (data \<noteq> [] \<longrightarrow> flag fl' LFS_F_WRITING) \<and>
       open_file cfg contents ready base old ((new @ data) @ drop (length (new @ data)) old) fl' lfs')"
proof -
  from flushedwrite_result [OF c se big] obtain res f1 l1 where
    w: "lfs_file_flushedwrite cfg traverse data fl lfs = Some (res, f1, l1)" "session ok contents base mem0 fl0 fmax f1 l1"
      "res = LFS_ERR_NOSPC \<or> res = int (length data) \<and> can_write cfg contents ready base old (new @ data) f1 l1 \<and>
        (data \<noteq> [] \<longrightarrow> flag f1 LFS_F_WRITING)" by blast
  from w(3) show ?thesis
  proof (elim disjE conjE)
    assume "res = LFS_ERR_NOSPC"
    with w(1,2) show ?thesis by (simp add: LFS_ERR_NOSPC_def)
  next
    assume r: "res = int (length data)" "can_write cfg contents ready base old (new @ data) f1 l1" "data \<noteq> [] \<longrightarrow> flag f1 LFS_F_WRITING"
    define f2 where "f2 = clear_flag LFS_F_ERRED f1"
    have se2: "session ok contents base mem0 fl0 fmax f2 l1"
      using w(2) by (simp add: session_def f2_def same_list_flag more_flag_values high_flags)
    have c2: "can_write cfg contents ready base old (new @ data) f2 l1"
      using r(2) by (simp add: can_write_def writes_file_def rests_file_def settled_def empty_file_cache_def f2_def flag_clear more_flag_values)
    have "flag f2 LFS_O_APPEND = flag fl LFS_O_APPEND" using mode_append [OF se2] mode_append [OF se] by simp
    then have "open_file cfg contents ready base old ((new @ data) @ drop (length (new @ data)) old) f2 l1"
      using ap by (intro can_write_open [OF c2]) simp
    moreover have "data \<noteq> [] \<longrightarrow> flag f2 LFS_F_WRITING" using r(3) by (simp add: f2_def flag_clear more_flag_values)
    moreover have "\<not> int (length data) < 0" by simp
    ultimately show ?thesis using w(1) r(1) se2 can_write_pos [OF c2] by (simp add: f2_def [symmetric])
  qed
qed


lemma rawwrite_result:
  assumes o: "open_file cfg contents ready base old bytes fl lfs" and se: "session ok contents base mem0 fl0 fmax fl lfs"
    and mode: "file_flags fl AND LFS_O_WRONLY = LFS_O_WRONLY" and fm: "fmax \<le> LFS_FILE_MAX" "file_pos fl \<le> fmax" "length data \<le> 2147483647"
  defines "p \<equiv> write_pos bytes fl"
  shows "\<exists>res fl' lfs'. lfs_file_rawwrite cfg traverse data fl lfs = Some (res, fl', lfs') \<and>
    session ok contents base mem0 fl0 fmax fl' lfs' \<and>
    (if p + length data > unat fmax then res = LFS_ERR_FBIG \<and> open_file cfg contents ready base old bytes fl' lfs'
     else res = LFS_ERR_NOSPC \<or> res = int (length data) \<and> unat (file_pos fl') = p + length data \<and>
       (data \<noteq> [] \<longrightarrow> flag fl' LFS_F_WRITING) \<and> open_file cfg contents ready base old (overwrite bytes p data) fl' lfs')"
proof -
  have fmn: "unat fmax \<le> 2147483647" using fm(1) by (simp add: LFS_FILE_MAX_def word_le_nat_alt)
  have pn: "unat (file_pos fl) \<le> unat fmax" using fm(2) by (simp add: word_le_nat_alt)
  have lm: "lfs_file_max lfs = fmax" using se by (simp add: session_def)
  note size = old_now(1,2) [OF se]
  show ?thesis
  proof (cases "flag fl LFS_F_WRITING")
    case True
    then obtain bl n new where w: "writes_file cfg contents ready base bl n new fl lfs" "settled cfg contents n new fl lfs"
        "flag fl LFS_O_APPEND \<longrightarrow> length old \<le> length new" "bytes = new @ drop (length new) old"
      using o by (auto simp: open_file_def)
    have f: "\<not> flag fl LFS_F_READING" "unat (file_pos fl) = length new" using w(1) by (simp_all add: writes_file_def)
    have p: "p = length new" using w(3,4) f(2) by (auto simp: p_def write_pos_def)
    have ap: "\<not> (flag fl LFS_O_APPEND \<and> file_pos fl < ctz_size fl)" using w(3) f(2) size(1) by (auto simp: word_less_nat_alt)
    have c: "can_write cfg contents ready base old new fl lfs" using w(1,2) by (auto simp: can_write_def)
    have raw: "lfs_file_rawwrite cfg traverse data fl lfs =
        (if file_pos fl + word_of_nat (length data) > fmax then Some (LFS_ERR_FBIG, fl, lfs)
         else case lfs_file_flushedwrite cfg traverse data fl lfs of
            None \<Rightarrow> None
          | Some (nsize, fl, lfs) \<Rightarrow> if nsize < 0 then Some (nsize, fl, lfs) else Some (nsize, clear_flag LFS_F_ERRED fl, lfs))"
      unfolding lfs_file_rawwrite_def Let_def using mode f(1) True by (simp add: if_not_P [OF ap] lm)
    have big: "file_pos fl + word_of_nat (length data) > fmax \<longleftrightarrow> p + length data > unat fmax"
      using too_big [of "file_pos fl" data fmax] pn fmn fm(3) f(2) p by simp
    show ?thesis
    proof (cases "p + length data > unat fmax")
      case True
      with raw big se o show ?thesis by simp
    next
      case False
      have "length new + length data \<le> 2147483647" using False p fmn by simp
      from write_from [OF c se this] w(3) have
        "\<exists>res fl' lfs'. lfs_file_rawwrite cfg traverse data fl lfs = Some (res, fl', lfs') \<and> session ok contents base mem0 fl0 fmax fl' lfs' \<and>
          (res = LFS_ERR_NOSPC \<or> res = int (length data) \<and> unat (file_pos fl') = length new + length data \<and>
             (data \<noteq> [] \<longrightarrow> flag fl' LFS_F_WRITING) \<and>
             open_file cfg contents ready base old ((new @ data) @ drop (length (new @ data)) old) fl' lfs')"
        unfolding raw big using False by simp
      moreover have "(new @ data) @ drop (length (new @ data)) old = overwrite bytes p data"
        unfolding overwrite_def p w(4) by (simp add: add.commute)
      ultimately show ?thesis using False p by simp
    qed
  next
    case False
    from rest_before_write [OF o False se] obtain f1 where
      r: "(if flag fl LFS_F_READING then lfs_file_flush cfg traverse fl lfs else Some (0, fl, lfs)) = Some (0, f1, lfs)"
        "session ok contents base mem0 fl0 fmax f1 lfs" "rests_file cfg contents base f1 lfs" "file_pos f1 = file_pos fl" "ctz_size f1 = ctz_size fl" "bytes = old" by blast
    define f2 where "f2 = (if flag f1 LFS_O_APPEND \<and> file_pos f1 < ctz_size f1 then f1\<lparr>file_pos := ctz_size f1\<rparr> else f1)"
    have r2: "session ok contents base mem0 fl0 fmax f2 lfs" "rests_file cfg contents base f2 lfs" "ctz_size f2 = ctz_size fl"
      using r(2,3,5) by (simp_all add: f2_def session_def rests_file_def empty_file_cache_def)
    have app: "flag f1 LFS_O_APPEND = flag fl LFS_O_APPEND" "flag f2 LFS_O_APPEND = flag fl LFS_O_APPEND"
      using mode_append [OF r(2)] mode_append [OF r2(1)] mode_append [OF se] by simp_all
    have p: "unat (file_pos f2) = p"
      using app size(1) r(4-6) by (auto simp: f2_def p_def write_pos_def word_less_nat_alt)
    have big: "file_pos f2 + word_of_nat (length data) > fmax \<longleftrightarrow> p + length data > unat fmax"
      using too_big [of "file_pos f2" data fmax] p size(2) pn fmn fm(3) r(6) by (auto simp: p_def write_pos_def)
    define z where "z = (if \<not> flag f2 LFS_F_WRITING \<and> file_pos f2 > ctz_size f2
        then write_zeros cfg traverse (file_pos f2) (f2\<lparr>file_pos := ctz_size f2\<rparr>) lfs else Some (0, f2, lfs))"
    have raw: "lfs_file_rawwrite cfg traverse data fl lfs =
        (if file_pos f2 + word_of_nat (length data) > fmax then Some (LFS_ERR_FBIG, f2, lfs)
         else case z of None \<Rightarrow> None
          | Some (res, fl, lfs) \<Rightarrow> if res < 0 then Some (res, fl, lfs) else
              case lfs_file_flushedwrite cfg traverse data fl lfs of
                None \<Rightarrow> None
              | Some (nsize, fl, lfs) \<Rightarrow> if nsize < 0 then Some (nsize, fl, lfs) else Some (nsize, clear_flag LFS_F_ERRED fl, lfs))"
      unfolding lfs_file_rawwrite_def r(1) using mode by (simp add: f2_def [symmetric] lm z_def)
    show ?thesis
    proof (cases "p + length data > unat fmax")
      case True
      have "open_file cfg contents ready base old bytes f2 lfs" using r2(2) r(6) by (simp add: open_file_def rests_file_def empty_file_cache_def)
      with True raw big r2(1) show ?thesis by simp
    next
      case fits: False
      define new where "new = take p (old @ replicate (p - length old) 0)"
      have ln: "length new = p" by (simp add: new_def)
      have "\<exists>res f3 l3. z = Some (res, f3, l3) \<and> session ok contents base mem0 fl0 fmax f3 l3 \<and>
          (res = LFS_ERR_NOSPC \<or> res = 0 \<and> can_write cfg contents ready base old new f3 l3)"
      proof (cases "file_pos f2 > ctz_size f2")
        case False
        then have le: "p \<le> length old" using p r2(3) size(1) by (simp add: word_less_nat_alt not_less)
        then have "new = take p old" by (simp add: new_def)
        with le False p r2 show ?thesis by (simp add: z_def can_write_def)
      next
        case True
        then have lt: "length old < p" using p r2(3) size(1) by (simp add: word_less_nat_alt)
        define f3 where "f3 = f2\<lparr>file_pos := ctz_size f2\<rparr>"
        have c: "can_write cfg contents ready base old old f3 lfs"
          using r2(2,3) size(1) by (simp add: can_write_def f3_def rests_file_def empty_file_cache_def)
        have s3: "session ok contents base mem0 fl0 fmax f3 lfs" using r2(1) by (simp add: session_def f3_def)
        have "z = write_zeros cfg traverse (file_pos f2) f3 lfs" using True r2(2) by (simp add: z_def f3_def rests_file_def)
        moreover have "old @ replicate (unat (file_pos f2) - length old) 0 = new" using lt p by (simp add: new_def)
        ultimately show ?thesis using write_zeros_result [OF c s3, of "file_pos f2"] lt p fits fmn by auto
      qed
      then obtain res f3 l3 where z: "z = Some (res, f3, l3)" "session ok contents base mem0 fl0 fmax f3 l3"
        "res = LFS_ERR_NOSPC \<or> res = 0 \<and> can_write cfg contents ready base old new f3 l3" by blast
      show ?thesis
      proof (cases "res = LFS_ERR_NOSPC")
        case True
        then have "lfs_file_rawwrite cfg traverse data fl lfs = Some (res, f3, l3)" unfolding raw big z(1) using fits by (simp add: LFS_ERR_NOSPC_def)
        with True z(2) fits show ?thesis by simp
      next
        case False
        with z(3) have c: "res = 0" "can_write cfg contents ready base old new f3 l3" by simp_all
        have "flag f3 LFS_O_APPEND = flag fl LFS_O_APPEND" using mode_append [OF z(2)] mode_append [OF se] by simp
        then have ap: "flag f3 LFS_O_APPEND \<Longrightarrow> length old \<le> length new" using r(6) by (simp add: ln p_def write_pos_def)
        have "length new + length data \<le> 2147483647" using fits ln fmn by simp
        from write_from [OF c(2) z(2) this ap] have
          "\<exists>res fl' lfs'. lfs_file_rawwrite cfg traverse data fl lfs = Some (res, fl', lfs') \<and> session ok contents base mem0 fl0 fmax fl' lfs' \<and>
            (res = LFS_ERR_NOSPC \<or> res = int (length data) \<and> unat (file_pos fl') = length new + length data \<and>
               (data \<noteq> [] \<longrightarrow> flag fl' LFS_F_WRITING) \<and>
               open_file cfg contents ready base old ((new @ data) @ drop (length (new @ data)) old) fl' lfs')"
          unfolding raw big z(1) using fits c(1) by simp
        moreover have "(new @ data) @ drop (length (new @ data)) old = overwrite bytes p data"
          unfolding overwrite_def r(6) length_append ln by (simp add: new_def)
        ultimately show ?thesis using fits ln by simp
      qed
    qed
  qed
qed


lemma flush_stores:
  assumes o: "open_file cfg contents ready base old bytes fl lfs" "flag fl LFS_F_WRITING" and se: "session ok contents base mem0 fl0 fmax fl lfs"
  shows "\<exists>err fl' lfs'. lfs_file_flush cfg traverse fl lfs = Some (err, fl', lfs') \<and> ok (lfs_dev lfs') \<and>
    base_kept base mem0 (contents (lfs_dev lfs')) \<and> lfs_file_max lfs' = fmax \<and>
    (err = LFS_ERR_NOSPC \<or> err = 0 \<and> file_pos fl' = file_pos fl \<and> file_flags fl' AND 0xFFFF = file_flags fl0 AND 0xFFFF \<and>
       \<not> flag fl' LFS_F_READING \<and> flag fl' LFS_F_DIRTY \<and>
       (\<exists>bl n. reads_file cfg (contents (lfs_dev lfs')) bl n bytes fl'))"
proof -
  from o obtain bl n new where w: "writes_file cfg contents ready base bl n new fl lfs" "settled cfg contents n new fl lfs"
      "bytes = new @ drop (length new) old"
    by (auto simp: open_file_def)
  show ?thesis using flush_result [OF w(1,2) se] unfolding w(3) .
qed

lemma seek_written:
  assumes o: "open_file cfg contents ready base old bytes fl lfs" "flag fl LFS_F_WRITING" and se: "session ok contents base mem0 fl0 fmax fl lfs"
    and p: "unat npos \<le> unat fmax" "fmax \<le> LFS_FILE_MAX" "npos \<noteq> file_pos fl"
  shows "\<exists>res fl' lfs'. lfs_file_rawseek cfg traverse npos LFS_SEEK_SET fl lfs = Some (res, fl', lfs') \<and> ok (lfs_dev lfs') \<and>
    base_kept base mem0 (contents (lfs_dev lfs')) \<and>
    (res = LFS_ERR_NOSPC \<or> res = int (unat npos) \<and> file_pos fl' = npos \<and> file_flags fl' AND 0xFFFF = file_flags fl0 AND 0xFFFF \<and>
       (\<exists>bl n. reads_file cfg (contents (lfs_dev lfs')) bl n bytes fl'))"
proof -
  from flush_stores [OF o se] obtain err f1 l1 where f: "lfs_file_flush cfg traverse fl lfs = Some (err, f1, l1)" "ok (lfs_dev l1)"
    "base_kept base mem0 (contents (lfs_dev l1))"
    "err = LFS_ERR_NOSPC \<or> err = 0 \<and> file_flags f1 AND 0xFFFF = file_flags fl0 AND 0xFFFF \<and> \<not> flag f1 LFS_F_READING \<and>
       (\<exists>bl n. reads_file cfg (contents (lfs_dev l1)) bl n bytes f1)" by blast
  have s: "\<not> npos > lfs_file_max lfs" "unat npos < 2147483648"
    using se p(1,2) by (simp_all add: session_def word_less_nat_alt word_le_nat_alt LFS_FILE_MAX_def)
  then have sint: "sint npos = int (unat npos)" by (intro sint_small)
  have seek: "lfs_file_rawseek cfg traverse npos LFS_SEEK_SET fl lfs =
      (if err \<noteq> 0 then Some (err, f1, l1) else Some (sint npos, f1\<lparr>file_pos := npos\<rparr>, l1))"
    using s(1) p(3) o(2) f(1) by (auto simp: lfs_file_rawseek_def seek_target_def split: prod.splits)
  have "reads_file cfg mem bl n bytes f1 \<Longrightarrow> \<not> flag f1 LFS_F_READING \<Longrightarrow> reads_file cfg mem bl n bytes (f1\<lparr>file_pos := npos\<rparr>)" for mem bl n
    by (simp add: reads_file_but_def)
  note pos = this
  from f(4) show ?thesis
  proof (elim disjE conjE exE)
    assume "err = LFS_ERR_NOSPC"
    with f(2,3) seek show ?thesis by (simp add: LFS_ERR_NOSPC_def)
  next
    fix bl n assume r: "err = 0" "file_flags f1 AND 0xFFFF = file_flags fl0 AND 0xFFFF" "\<not> flag f1 LFS_F_READING"
      "reads_file cfg (contents (lfs_dev l1)) bl n bytes f1"
    have "reads_file cfg (contents (lfs_dev l1)) bl n bytes (f1\<lparr>file_pos := npos\<rparr>)" using r(4,3) by (rule pos)
    moreover have "lfs_file_rawseek cfg traverse npos LFS_SEEK_SET fl lfs = Some (int (unat npos), f1\<lparr>file_pos := npos\<rparr>, l1)"
      unfolding seek sint using r(1) by simp
    moreover have "file_pos (f1\<lparr>file_pos := npos\<rparr>) = npos" "file_flags (f1\<lparr>file_pos := npos\<rparr>) = file_flags f1" by simp_all
    ultimately show ?thesis using f(2,3) r(2) by metis
  qed
qed

end

section \<open>A traversal that keeps the promise\<close>

text \<open>
  The part of \<open>lfs_fs_rawtraverse\<close> over the open files, behind any traversal of the blocks that the
  directories refer to.
\<close>

lemma visit_append: "visit cb (xs @ ys) s = (case visit cb xs s of (err, s) \<Rightarrow> if err \<noteq> 0 then (err, s) else visit cb ys s)"
  by (induction xs arbitrary: s) (auto split: prod.splits)

lemma ctz_traversal:
  assumes "block_device cfg ok contents ready" "112 \<le> unat (block_size cfg)" "ctz_file cfg (view None mem) bl n bytes"
    and "unat sz = length bytes" "unat sz \<le> 2147483647" "cache_block c = LFS_BLOCK_NULL" "length (cache_buffer c) = unat (cache_size cfg)"
    and "file_good cfg ok contents mem (rc, d)"
  shows "\<exists>rc' d'. lfs_ctz_traverse cfg (Some c) rc (bl n) sz cb s d =
      Some (fst (visit cb (map bl (rev [0..<Suc n])) s), snd (visit cb (map bl (rev [0..<Suc n])) s), rc', d') \<and>
    file_good cfg ok contents mem (rc', d')"
proof -
  note last = ctz_last_index [OF assms(3,2,4,5)]
  have g: "ok d" "contents d = mem" "coherent cfg mem rc" using assms(8) by (simp_all add: file_good_def)
  have cnt: "block_count cfg \<le> LFS_BLOCK_INLINE" by (rule block_device.sizes(9) [OF assms(1)])
  have list: "ctz_list cfg (view None mem) bl n" using assms(3) by (simp add: ctz_file_def)
  have l: "ctz_list cfg (view (Some c) (contents d)) bl n"
    unfolding g(2) using list
  proof (rule ctz_list_cong)
    fix i assume "i \<le> n"
    with list have "bl i < block_count cfg" by (rule ctz_list_bound)
    with assms(6) show "view (Some c) mem (unat (bl i)) = view None mem (unat (bl i))" using cnt by (rule view_null)
  qed
  have p: "pcache_wf cfg (Some c)"
    using assms(6,7) cnt by (simp add: pcache_wf_def cache_wf_def word_le_nat_alt word_less_nat_alt block_markers)
  have "coherent cfg (contents d) rc" "unat (fst (lfs_ctz_index cfg (sz - 1))) \<le> n" using g last(1) by simp_all
  from block_device.traverse_loop [OF assms(1) p last(3) g(1) this(1) l this(2), of cb s] obtain rc' d' where
    "ctz_traverse_loop cfg (Some c) cb (fst (lfs_ctz_index cfg (sz - 1))) (bl n) s rc d =
      Some (fst (visit cb (map bl (rev [0..<Suc n])) s), snd (visit cb (map bl (rev [0..<Suc n])) s), rc', d')"
    "ok d'" "contents d' = contents d" "coherent cfg (contents d) rc'" unfolding last(1) by blast
  with last(2) g(2) show ?thesis by (intro exI [of _ rc'] exI [of _ d']) (simp add: lfs_ctz_traverse_def file_good_def)
qed

lemma open_files_keep_promise:
  assumes dev: "block_device cfg ok contents ready" and bs: "112 \<le> unat (block_size cfg)" "sizes_fit cfg"
    and meta: "\<And>mem. base_kept base mem0 mem \<Longrightarrow> block_traversal meta (file_good cfg ok contents mem) (\<lambda>_. base)"
    and base: "\<forall>b \<in> set base. b < block_count cfg" "old_list cfg base mem0 old fl0" "\<not> flag fl0 LFS_F_DIRTY"
  shows "open_traversal cfg ok contents ready (\<lambda>fl. fs_traverse cfg meta [fl]) base mem0 fl0 old"
proof (intro open_traversal.intro dev open_traversal_axioms.intro base(1,2) bs)
  fix mem fl
  assume a: "base_kept base mem0 mem" "same_list fl0 fl" "\<not> flag fl LFS_F_WRITING"
  then have "\<not> flag fl LFS_F_DIRTY" using base(3) by (simp add: same_list_def)
  with a(3) have t: "fs_traverse cfg meta [fl] cb s w = meta cb s w" for cb s w
    by (cases w) (auto simp: fs_traverse_def open_file_traverse_def split: option.splits prod.splits)
  show "block_traversal (fs_traverse cfg meta [fl]) (file_good cfg ok contents mem) (\<lambda>_. base)"
    using meta [OF a(1)] by (simp add: block_traversal_def t)
next
  fix mem fl bl n and bytes :: "u8 list"
  assume a: "base_kept base mem0 mem" "same_list fl0 fl" "empty_file_cache cfg fl" "flag fl LFS_F_WRITING" "\<not> flag fl LFS_F_INLINE"
    "ctz_file cfg (view None mem) bl n bytes" "file_block fl = bl n" "unat (file_pos fl) = length bytes" "length bytes \<le> 2147483647"
  then have nd: "\<not> flag fl LFS_F_DIRTY" using base(3) by (simp add: same_list_def)
  have sm: "unat (file_pos fl) \<le> 2147483647" using a(8,9) by simp
  show "block_traversal (fs_traverse cfg meta [fl]) (file_good cfg ok contents mem) (\<lambda>_. base @ map bl (rev [0..<Suc n]))"
  proof
    fix w cb and f :: lfs_free
    assume w: "file_good cfg ok contents mem w"
    from block_traversal.visits [OF meta [OF a(1)] w, of cb f] obtain rc1 d1 where
      m: "meta cb f w = Some (fst (visit cb base f), snd (visit cb base f), rc1, d1)" "file_good cfg ok contents mem (rc1, d1)" by auto
    obtain e1 f1 where v: "visit cb base f = (e1, f1)" by (cases "visit cb base f")
    from ctz_traversal [OF dev bs(1) a(6,8) sm _ _ m(2), of "file_cache fl" cb f1] a(3) obtain rc2 d2 where
      c: "lfs_ctz_traverse cfg (Some (file_cache fl)) rc1 (bl n) (file_pos fl) cb f1 d1 =
        Some (fst (visit cb (map bl (rev [0..<Suc n])) f1), snd (visit cb (map bl (rev [0..<Suc n])) f1), rc2, d2)"
      "file_good cfg ok contents mem (rc2, d2)" by (auto simp: empty_file_cache_def)
    show "\<exists>w'. file_good cfg ok contents mem w' \<and> base @ map bl (rev [0..<Suc n]) = base @ map bl (rev [0..<Suc n]) \<and>
        fs_traverse cfg meta [fl] cb f w =
          Some (fst (visit cb (base @ map bl (rev [0..<Suc n])) f), snd (visit cb (base @ map bl (rev [0..<Suc n])) f), w')"
      using m c v a(4,5,7) nd
      by (cases "e1 = 0") (auto simp: fs_traverse_def open_file_traverse_def visit_append simp del: upt_Suc split: prod.splits)
  qed
qed

text \<open>The file in the blocks 3 and 5 of the device in RAM, opened for reading and writing.\<close>

definition opened_rw :: lfs_file where
  "opened_rw = opened\<lparr>file_flags := 3, file_pos := 8130\<rparr>"

definition mounted_rw :: "lfs_rambd lfs" where
  "mounted_rw = mounted\<lparr>lfs_free := lfs_alloc_drop (rambd_config esp_lfs_sizes) unmounted\<rparr>"

abbreviation ram_traverse :: "lfs_rambd file_traverse" where
  "ram_traverse \<equiv> \<lambda>fl. fs_traverse (rambd_config esp_lfs_sizes) (file_traverse (rambd_config esp_lfs_sizes) 5 16380) [fl]"

lemma marked_traversal:
  assumes "base_kept [5, 3] (ram_block esp_lfs_sizes marked_ram) mem"
  shows "block_traversal (file_traverse (rambd_config esp_lfs_sizes) 5 16380)
    (file_good (rambd_config esp_lfs_sizes) (ram_ok esp_lfs_sizes) (ram_block esp_lfs_sizes) mem) (\<lambda>_. [5, 3])"
proof -
  have e: "two_blocks 1 = 5" "map two_blocks (rev [0..<Suc 1]) = [5, 3]" by (simp_all add: two_blocks_def)
  have "ctz_file (rambd_config esp_lfs_sizes) (view None mem) two_blocks 1 marked_bytes"
  proof (rule ctz_file_cong [OF marked_file])
    fix i :: nat assume "i \<le> 1"
    then have "two_blocks i \<in> set [5, 3]" by (simp add: two_blocks_def)
    with assms show "view None mem (unat (two_blocks i)) = view None (ram_block esp_lfs_sizes marked_ram) (unat (two_blocks i))"
      unfolding base_kept_def by (intro view_None) blast
  qed
  moreover have "112 \<le> unat (block_size (rambd_config esp_lfs_sizes))" by (simp add: esp_config)
  ultimately show ?thesis
    using file_traversal [OF ram_device.block_device_axioms, of mem two_blocks 1 marked_bytes 16380, unfolded e] by (simp add: marked_bytes_def)
qed

interpretation written: open_traversal "rambd_config esp_lfs_sizes" "ram_ok esp_lfs_sizes" "ram_block esp_lfs_sizes" "ram_ready esp_lfs_sizes"
  ram_traverse "[5, 3]" "ram_block esp_lfs_sizes marked_ram" opened_rw LFS_FILE_MAX marked_bytes
proof (rule open_files_keep_promise [OF ram_device.block_device_axioms _ esp_sizes_fit])
  show "112 \<le> unat (block_size (rambd_config esp_lfs_sizes))" by (simp add: esp_config)
  show "old_list (rambd_config esp_lfs_sizes) [5, 3] (ram_block esp_lfs_sizes marked_ram) marked_bytes opened_rw"
    unfolding old_list_def
  proof (intro conjI impI exI)
    show "ctz_file (rambd_config esp_lfs_sizes) (view None (ram_block esp_lfs_sizes marked_ram)) two_blocks 1 marked_bytes" by (rule marked_file)
  qed (auto simp: opened_rw_def opened_def marked_bytes_def two_blocks_def)
qed (simp_all add: marked_traversal esp_config opened_rw_def flag_def LFS_F_DIRTY_def)

lemma opened_rw_open:
  "open_file (rambd_config esp_lfs_sizes) (ram_block esp_lfs_sizes) (ram_ready esp_lfs_sizes) [5, 3] marked_bytes marked_bytes opened_rw mounted_rw"
  "session (ram_ok esp_lfs_sizes) (ram_block esp_lfs_sizes) [5, 3] (ram_block esp_lfs_sizes marked_ram) opened_rw LFS_FILE_MAX opened_rw mounted_rw"
proof -
  have "alloc_fits (rambd_config esp_lfs_sizes) (set [5, 3]) (lfs_free mounted_rw)"
    using drop_exact [of unmounted "rambd_config esp_lfs_sizes" "{}"]
    by (auto simp: alloc_fits_def mounted_rw_def mounted_def alloc_exact_def unmounted_def esp_config)
  moreover have "coherent (rambd_config esp_lfs_sizes) (ram_block esp_lfs_sizes (lfs_dev mounted_rw)) (lfs_rcache mounted_rw)"
    using empty_cache_coherent by (simp add: mounted_rw_def mounted_def)
  ultimately show "open_file (rambd_config esp_lfs_sizes) (ram_block esp_lfs_sizes) (ram_ready esp_lfs_sizes) [5, 3] marked_bytes marked_bytes opened_rw mounted_rw"
    by (simp add: open_file_def opened_rw_def opened_def flag_def LFS_F_WRITING_def LFS_F_INLINE_def LFS_F_READING_def empty_cache_def esp_config)
  show "session (ram_ok esp_lfs_sizes) (ram_block esp_lfs_sizes) [5, 3] (ram_block esp_lfs_sizes marked_ram) opened_rw LFS_FILE_MAX opened_rw mounted_rw"
    using marked_ok by (simp add: session_def mounted_rw_def mounted_def base_kept_def same_list_def)
qed

text \<open>The state after the first byte of the file was overwritten with 1, which waits in the cache for block 7.\<close>

definition started :: lfs_file where
  "started = opened_rw\<lparr>file_flags := 0x20003, file_pos := 1, file_block := 7, file_off := 1,
     file_cache := \<lparr>cache_block = 7, cache_off = 0, cache_len = 1, cache_buffer = 1 # replicate 63 255\<rparr>\<rparr>"

lemma started_open:
  "open_file (rambd_config esp_lfs_sizes) (ram_block esp_lfs_sizes) (ram_ready esp_lfs_sizes) [5, 3] marked_bytes (1 # drop 1 marked_bytes) started mounted_rw"
  "session (ram_ok esp_lfs_sizes) (ram_block esp_lfs_sizes) [5, 3] (ram_block esp_lfs_sizes marked_ram) opened_rw LFS_FILE_MAX started mounted_rw"
  "flag started LFS_F_WRITING"
proof -
  let ?c = "rambd_config esp_lfs_sizes"
  have fields: "file_pos started = 1" "file_block started = 7" "file_off started = 1" "file_flags started = 0x20003"
    "file_cache started = \<lparr>cache_block = 7, cache_off = 0, cache_len = 1, cache_buffer = 1 # replicate 63 255\<rparr>"
    "ctz_head started = 5" "ctz_size started = 16380"
    by (simp_all add: started_def opened_rw_def opened_def)
  have flags: "flag started LFS_F_WRITING" "\<not> flag started LFS_F_INLINE" "\<not> flag started LFS_F_READING" "\<not> flag started LFS_F_DIRTY"
    "\<not> flag started LFS_O_APPEND"
    by (simp_all add: flag_def fields LFS_F_WRITING_def LFS_F_INLINE_def LFS_F_READING_def LFS_F_DIRTY_def LFS_O_APPEND_def)
  show "flag started LFS_F_WRITING" by (rule flags)
  show "session (ram_ok esp_lfs_sizes) (ram_block esp_lfs_sizes) [5, 3] (ram_block esp_lfs_sizes marked_ram) opened_rw LFS_FILE_MAX started mounted_rw"
    using marked_ok flags(4)
    by (simp add: session_def mounted_rw_def mounted_def base_kept_def same_list_def fields opened_rw_def opened_def flag_def LFS_F_DIRTY_def)
  have dev: "lfs_dev mounted_rw = marked_ram" "lfs_rcache mounted_rw = empty_cache" by (simp_all add: mounted_rw_def mounted_def)
  have fits: "alloc_fits ?c (set [5, 3] \<union> (\<lambda>_. 7) ` {0..0 :: nat}) (lfs_free mounted_rw)"
    using drop_exact [of unmounted ?c "{}"]
    by (auto simp: alloc_fits_def mounted_rw_def mounted_def alloc_exact_def unmounted_def esp_config)
  have ready: "ram_ready esp_lfs_sizes marked_ram 7 i" if "i < 8192" for i
    using that by (simp add: ram_ready_def marked_block) (simp add: esp_lfs_sizes_def marked_ram_def filled_ram_def blank_ram_def)
  have "ctz_open ?c (view (Some (file_cache started)) (ram_block esp_lfs_sizes marked_ram)) (\<lambda>_. 7) 0 1 [1]"
    by (auto simp: ctz_open_def ctz_list_def ctz_bytes_def ptr_bytes_def esp_config fields view_def cache_covers_def data_before_def)
  moreover have "writing_by 64 ?c (ram_ready esp_lfs_sizes marked_ram) (file_cache started) 7 1"
    unfolding writing_by_def by (intro conjI exI [of _ 0]) (use ready in \<open>auto simp: fields esp_config LFS_BLOCK_NULL_def\<close>)
  moreover have "coherent_but {7} ?c (ram_block esp_lfs_sizes marked_ram) empty_cache" by (rule coherent_but) (rule empty_cache_coherent)
  ultimately have "writes_file ?c (ram_block esp_lfs_sizes) (ram_ready esp_lfs_sizes) [5, 3] (\<lambda>_. 7) 0 [1] started mounted_rw"
    using fits flags unfolding writes_file_def dev by (simp add: fields esp_config)
  moreover have "settled ?c (ram_block esp_lfs_sizes) 0 [1] started mounted_rw"
    by (simp add: settled_def fields LFS_BLOCK_NULL_def)
  ultimately show "open_file ?c (ram_block esp_lfs_sizes) (ram_ready esp_lfs_sizes) [5, 3] marked_bytes (1 # drop 1 marked_bytes) started mounted_rw"
    unfolding open_file_def using flags(5) by (intro disjI2 exI [of _ "\<lambda>_. 7"] exI [of _ 0] exI [of _ "[1]"]) simp
qed

section \<open>Properties\<close>

text \<open>
  Property C6: writing an open file is overwriting a byte string.  On every device that keeps its
  promises and under every traversal that visits the blocks in use, a write to an open file that is
  stored as a CTZ list, in any state between opening and flushing, returns.  Above the largest file
  size it reports that the file is too big and changes nothing.  Otherwise it either reports that there
  is no space or writes all bytes: the bytes of the file are the old ones overwritten at the position
  (at the end when the file was opened for appending), with zeros in a gap, and the position is behind
  them.  No block that was in use before is written.
\<close>

theorem lfs_file_write_overwrites:
  assumes "open_traversal cfg ok contents ready traverse base mem0 fl0 old"
    and "session ok contents base mem0 fl0 fmax fl lfs" and "open_file cfg contents ready base old bytes fl lfs"
    and "file_flags fl AND LFS_O_WRONLY = LFS_O_WRONLY" and "fmax \<le> LFS_FILE_MAX" and "file_pos fl \<le> fmax" and "length data \<le> 2147483647"
  shows "\<exists>res fl' lfs'. lfs_file_rawwrite cfg traverse data fl lfs = Some (res, fl', lfs') \<and>
    session ok contents base mem0 fl0 fmax fl' lfs' \<and>
    (if write_pos bytes fl + length data > unat fmax then res = LFS_ERR_FBIG \<and> open_file cfg contents ready base old bytes fl' lfs'
     else res = LFS_ERR_NOSPC \<or>
       res = int (length data) \<and> unat (file_pos fl') = write_pos bytes fl + length data \<and>
       open_file cfg contents ready base old (overwrite bytes (write_pos bytes fl) data) fl' lfs')"
proof -
  from open_traversal.rawwrite_result [OF assms(1,3,2,4-7)] obtain res fl' lfs' where
    r: "lfs_file_rawwrite cfg traverse data fl lfs = Some (res, fl', lfs')" "session ok contents base mem0 fl0 fmax fl' lfs'"
    "if write_pos bytes fl + length data > unat fmax then res = LFS_ERR_FBIG \<and> open_file cfg contents ready base old bytes fl' lfs'
     else res = LFS_ERR_NOSPC \<or> res = int (length data) \<and> unat (file_pos fl') = write_pos bytes fl + length data \<and>
       (data \<noteq> [] \<longrightarrow> flag fl' LFS_F_WRITING) \<and> open_file cfg contents ready base old (overwrite bytes (write_pos bytes fl) data) fl' lfs'" by blast
  show ?thesis by (intro exI conjI, rule r(1), rule r(2)) (use r(3) in \<open>auto split: if_splits\<close>)
qed

theorem lfs_file_write_overwrites_witness:
  "\<exists>res fl' lfs'. lfs_file_rawwrite (rambd_config esp_lfs_sizes) ram_traverse [1, 2] opened_rw mounted_rw = Some (res, fl', lfs') \<and>
     (res = LFS_ERR_NOSPC \<or> res = 2 \<and> unat (file_pos fl') = 8132 \<and>
        open_file (rambd_config esp_lfs_sizes) (ram_block esp_lfs_sizes) (ram_ready esp_lfs_sizes) [5, 3] marked_bytes
          (overwrite marked_bytes 8130 [1, 2]) fl' lfs')"
proof -
  have "write_pos marked_bytes opened_rw = 8130" "file_flags opened_rw AND LFS_O_WRONLY = LFS_O_WRONLY" "file_pos opened_rw \<le> LFS_FILE_MAX"
    "unat LFS_FILE_MAX = 2147483647"
    by (simp_all add: write_pos_def opened_rw_def flag_def LFS_O_APPEND_def LFS_O_WRONLY_def LFS_FILE_MAX_def)
  with lfs_file_write_overwrites [OF written.open_traversal_axioms opened_rw_open(2,1), of "[1, 2]"] show ?thesis by simp blast
qed







end
