(* ===== verification/Spec2Isabelle.thy ===== *)
theory Spec2Isabelle
  imports Eboot_Boot Stub_Flasher Lfs_File_Session
begin

text \<open>
  A verification of the C code of the ESP8266 board package (\<open>core/board_manager/esp8266\<close>): the
  \<open>eboot\<close> boot loader with the \<open>uzlib\<close> decompressor it unpacks updates with, the flasher stub through
  which \<open>esptool\<close> writes the flash, and the core of the littlefs file system.

  Parts and theories.  The paths are relative to \<open>src/core/board_manager/esp8266\<close>.

  \<^item> Shared: \<^theory_text>\<open>Firmware_Prelude\<close> (words, bytes, bit lists, byte memories), \<^theory_text>\<open>Checksums\<close>
    (\<open>crc_update\<close> of \<open>eboot_command.c\<close>, \<open>crc32.c\<close> and \<open>adler32.c\<close> of uzlib).

  \<^item> uzlib (\<open>tools/sdk/uzlib\<close>): \<^theory_text>\<open>Uzlib_Inflate\<close> translates \<open>tinflate.c\<close>, \<^theory_text>\<open>Uzlib_Deflate\<close>
    \<open>defl_static.c\<close>, \<^theory_text>\<open>Uzlib_Lz77\<close> \<open>genlz77.c\<close>, \<^theory_text>\<open>Uzlib_Gzip\<close> \<open>tinfgzip.c\<close> and \<open>tinfzlib.c\<close>, and
    \<^theory_text>\<open>Uzlib_Programs\<close> the programs \<open>tgzip.c\<close> and \<open>tgunzip.c\<close>.  \<^theory_text>\<open>Uzlib_Bits\<close>, \<^theory_text>\<open>Uzlib_Codec\<close>
    and \<^theory_text>\<open>Uzlib_Roundtrip\<close> relate writer and reader bit by bit, code word by code word and block by
    block.  The state of the decoder is the record \<open>uzlib_uncomp\<close> with the fields of the C structure;
    its byte source is a callback on a state of its own.

  \<^item> eboot (\<open>bootloaders/eboot\<close>): \<^theory_text>\<open>Eboot_Command\<close> (\<open>eboot_command.c\<close>, RTC memory as a function from
    word index to word), \<^theory_text>\<open>Spi_Flash\<close> (\<open>flash.c\<close>; the ROM functions are a record of functions, the
    locale \<open>nor_flash\<close> states what they promise), \<^theory_text>\<open>Eboot\<close> (\<open>eboot.c\<close>), and the proofs
    \<^theory_text>\<open>Eboot_Update\<close>, \<^theory_text>\<open>Eboot_Gzip\<close>, \<^theory_text>\<open>Eboot_Load\<close> and \<^theory_text>\<open>Eboot_Boot\<close>: copying, unpacking,
    loading, and the whole update.

  \<^item> The flasher stub (\<open>tools/esptool/flasher_stub\<close>): \<^theory_text>\<open>Slip\<close> (\<open>slip.c\<close>), \<^theory_text>\<open>Stub_Spi\<close>,
    \<^theory_text>\<open>Stub_Write_Flash\<close> and \<^theory_text>\<open>Stub_Deflate\<close> (\<open>stub_write_flash.c\<close>), \<^theory_text>\<open>Stub_Commands\<close>
    (\<open>stub_commands.c\<close>), \<^theory_text>\<open>Stub_Receive\<close> and \<^theory_text>\<open>Stub_Flasher\<close> (\<open>stub_flasher.c\<close>: the interrupt side
    and the command loop).  Registers and ROM functions are a record of functions on a device state.

  \<^item> littlefs (\<open>libraries/LittleFS/lib/littlefs\<close>): \<^theory_text>\<open>Lfs_Util\<close> (\<open>lfs_util.h\<close>, \<open>lfs_util.c\<close>),
    \<^theory_text>\<open>Lfs_Bd\<close> (the caching block device layer of \<open>lfs.c\<close>; the locale \<open>block_device\<close> states what
    a device promises), \<^theory_text>\<open>Lfs_Rambd\<close> (\<open>bd/lfs_rambd.c\<close>, shown to keep these promises), \<^theory_text>\<open>Lfs_Ctz\<close>
    (index, search and traversal of CTZ skip lists), \<^theory_text>\<open>Lfs_Alloc\<close> (the block allocator; the locale
    \<open>block_traversal\<close> states what the traversal of the file system promises it), \<^theory_text>\<open>Lfs_Ctz_Extend\<close>
    (extending a list by a block), \<^theory_text>\<open>Lfs_Tag\<close> and \<^theory_text>\<open>Lfs_Dir_Get\<close> (pairs, tags, global state, and looking up an
    entry in the log of a metadata pair), \<^theory_text>\<open>Lfs_File\<close> (open files: reading, writing, flushing, seeking,
    truncating; the records \<open>lfs_file\<close> and \<open>lfs\<close> hold the fields of \<open>lfs_file_t\<close> and \<open>lfs_t\<close> that these use)
    \<^theory_text>\<open>Lfs_File_Read\<close> (what reading and seeking give), \<^theory_text>\<open>Lfs_File_Write\<close> and \<^theory_text>\<open>Lfs_File_Session\<close> (what
    writing and flushing give; the locale \<open>open_traversal\<close> states what the traversal promises while a file is
    being written).

  Conventions.  Machine integers are words of their width; C structures are records, function
  pointers are record fields, and the objects behind pointers are passed and returned explicitly.
  The result type option is used for the code that may not return: None is a loop that makes no
  progress or a failed assertion.  Every claim that code returns states \<open>= Some\<close>.

  What the lemmas show.  Decoder and encoder: every file of the program \<open>tgzip\<close> is unpacked to its
  input by \<open>tgunzip\<close>; the loops of the decoder take fuel, at least the number of bytes
  asked for (4096, one sector, in the boot loader; 1 in \<open>tgunzip\<close>, which asks for a byte at a
  time), and the claims hold for all fuel from there on.  Boot loader: a command is executed at most once, a corrupted
  command block never, an update is copied or unpacked to its place and loaded.  Stub: frames arrive
  complete, every command is answered once, an upload leaves its payload in the flash, plain or
  compressed.  littlefs: the caches are transparent on every device that keeps its promises, the closed form
  for positions in a file is right, seeking and traversing follow the stored pointers to the end,
  the allocator hands out every free block once and never a block in use, extending a file copies
  on write, looking up an entry finds what replaying the log of its pair gives, and an open file is read,
  sought, written and flushed as a byte string with a position, its old blocks kept until the end, but for
  one seek that reads a byte of the wrong block.

  Interfaces are locales; each is interpreted on definitions of the model in the theory of its
  provider.  Where the provider is hardware or code that is not in the repository, an explicit flash
  or device model in the same theory shows that the promises can be kept.

  Not modelled.  The inflator of the stub (\<open>miniz.c\<close>, third-party) is a parameter with its documented
  streaming behaviour; MD5 and the ROM functions are parameters.  Console output, tracing, start-up
  code, interrupt set-up and the ESP32-only code of the stub are left out.  Of littlefs, fetching, committing and compacting metadata pairs, opening,
  syncing and closing files, directories and mounting are not modelled, so the traversal of the whole file
  system is a parameter of the allocator and of the operations that call it.  The C++ core and
  libraries, lwIP and BearSSL (headers and vendored code), the heap allocator, the debugger stub and
  the SPI slave driver are not modelled.
\<close>

end
